(* ===== verification/Go_Prelude.thy ===== *)
theory Go_Prelude
  imports Main "HOL-Library.Char_ord" "HOL-Library.List_Lexorder"
begin

text \<open>
  Shared vocabulary of the development: the error channel of a Go function that returns
  \<open>(T, error)\<close>, the lemma collections the component theories add to, and the facts about
  lists, options and maps that more than one component needs.

  A Go \<open>string\<close> is a sequence of bytes; HOL's \<^typ>\<open>string\<close> is a list of 8-bit characters,
  so a Go string is a \<^typ>\<open>string\<close> and its order (bytewise, as Go's \<open><\<close> and
  \<open>cmp.Compare\<close>) is the lexicographic order of \<^theory_text>\<open>List_Lexorder\<close>.
\<close>

named_theorems go_simps \<open>unfolding rules for the small operations of the Go standard library\<close>
named_theorems outcome_simps \<open>rules for the error channel\<close>

type_synonym gostring = string

subsection \<open>Functions that return a value and an error\<close>

type_synonym ('e, 'a) outcome = "'e + 'a"

fun and_then :: "('e, 'a) outcome \<Rightarrow> ('a \<Rightarrow> ('e, 'b) outcome) \<Rightarrow> ('e, 'b) outcome" where
  "and_then (Inl e) f = Inl e"
| "and_then (Inr x) f = f x"

lemma and_then_Inr [outcome_simps]:
  "and_then r f = Inr y \<longleftrightarrow> (\<exists>x. r = Inr x \<and> f x = Inr y)"
  by (cases r) auto

lemma and_then_Inl [outcome_simps]:
  "and_then r f = Inl e \<longleftrightarrow> r = Inl e \<or> (\<exists>x. r = Inr x \<and> f x = Inl e)"
  by (cases r) auto

lemma and_then_cong [fundef_cong]:
  "r = r' \<Longrightarrow> (\<And>x. r' = Inr x \<Longrightarrow> f x = g x) \<Longrightarrow> and_then r f = and_then r' g"
  by (cases r') auto

text \<open>A call that does not fail with a bad error, and whose value has a property.\<close>

definition yields :: "('e \<Rightarrow> bool) \<Rightarrow> ('a \<Rightarrow> bool) \<Rightarrow> ('e, 'a) outcome \<Rightarrow> bool" where
  "yields bad P r \<longleftrightarrow> (case r of Inl e \<Rightarrow> \<not> bad e | Inr x \<Rightarrow> P x)"

lemma yields_simps [simp]:
  "yields bad P (Inl e) \<longleftrightarrow> \<not> bad e" "yields bad P (Inr x) \<longleftrightarrow> P x"
  by (simp_all add: yields_def)

lemma yields_and_then:
  "yields bad Q r \<Longrightarrow> (\<And>x. Q x \<Longrightarrow> yields bad P (f x)) \<Longrightarrow> yields bad P (and_then r f)"
  by (cases r) auto

lemma yields_mono: "yields bad Q r \<Longrightarrow> (\<And>x. Q x \<Longrightarrow> P x) \<Longrightarrow> yields bad P r"
  by (cases r) auto

lemma yieldsD: "yields bad P (Inr x) \<Longrightarrow> P x"
  by simp

definition ok :: "('e, 'a) outcome \<Rightarrow> bool" where
  "ok r \<longleftrightarrow> (case r of Inl _ \<Rightarrow> False | Inr _ \<Rightarrow> True)"

lemma ok_simps [simp]: "ok (Inr x)" "\<not> ok (Inl e)"
  by (simp_all add: ok_def)

subsection \<open>Lists\<close>

text \<open>First index whose element satisfies a predicate (\<open>slices.IndexFunc\<close>).\<close>

fun index_of :: "('a \<Rightarrow> bool) \<Rightarrow> 'a list \<Rightarrow> nat option" where
  "index_of p [] = None"
| "index_of p (x # xs) = (if p x then Some 0 else map_option Suc (index_of p xs))"

lemma index_of_None: "index_of p xs = None \<longleftrightarrow> (\<forall>x \<in> set xs. \<not> p x)"
  by (induction xs) auto

lemma index_of_SomeD:
  "index_of p xs = Some i \<Longrightarrow> i < length xs \<and> p (xs ! i) \<and> (\<forall>j < i. \<not> p (xs ! j))"
proof (induction xs arbitrary: i)
  case Nil
  then show ?case by simp
next
  case (Cons x xs)
  show ?case
  proof (cases "p x")
    case True
    with Cons.prems show ?thesis by simp
  next
    case False
    with Cons.prems obtain k where k: "index_of p xs = Some k" "i = Suc k" by auto
    from Cons.IH [OF k(1)] False k(2) show ?thesis
      by (auto simp: nth_Cons split: nat.splits)
  qed
qed

text \<open>Delete one position (\<open>slices.Delete(s, i, i+1)\<close>).\<close>

definition delete_at :: "nat \<Rightarrow> 'a list \<Rightarrow> 'a list" where
  "delete_at i xs = take i xs @ drop (Suc i) xs"

lemma length_delete_at [simp]: "i < length xs \<Longrightarrow> length (delete_at i xs) = length xs - 1"
  by (simp add: delete_at_def)

lemma set_delete_at_distinct:
  "distinct xs \<Longrightarrow> i < length xs \<Longrightarrow> set (delete_at i xs) = set xs - {xs ! i}"
proof -
  assume d: "distinct xs" and i: "i < length xs"
  have x: "xs = take i xs @ xs ! i # drop (Suc i) xs" by (rule id_take_nth_drop [OF i])
  then have "set xs = insert (xs ! i) (set (delete_at i xs))"
    by (metis delete_at_def list.set(2) set_append Un_insert_right)
  moreover have "xs ! i \<notin> set (delete_at i xs)"
    using d x by (metis delete_at_def distinct.simps(2) distinct_append Un_iff set_append
        disjoint_insert(2) list.set(2))
  ultimately show ?thesis by auto
qed

lemma distinct_delete_at: "distinct xs \<Longrightarrow> distinct (delete_at i xs)"
  unfolding delete_at_def
  by (metis append_take_drop_id distinct_append distinct_drop set_drop_subset_set_drop Int_mono
      subset_empty order_refl lessI less_imp_le)

lemma map_snoc_upt: "map f [0..<Suc n] = map f [0..<n] @ [f n]"
  by simp

subsection \<open>Maps built from a list\<close>

text \<open>A Go map that only records membership (\<open>map[K]bool\<close>, \<open>map[K]struct{}\<close>) is a set.\<close>

lemma dom_foldl_upd:
  "dom (foldl (\<lambda>m x. m(k x \<mapsto> v x)) m xs) = dom m \<union> k ` set xs"
  by (induction xs arbitrary: m) auto

end
