(* ===== verification/Go_Quote.thy ===== *)
theory Go_Quote
  imports Go_Strings
begin

text \<open>
  \<open>strings.ToLower\<close>, \<open>strconv.Quote\<close> and \<open>strconv.Unquote\<close> over byte strings. The two
  Unicode tables they consult beyond ASCII (\<open>unicode.ToLower\<close> and \<open>strconv.IsPrint\<close>) are the
  fields of a record, so a fact about quoting holds whatever the tables say. The main fact is
  that unquoting what was quoted gives the string back and leaves what follows it, for every
  byte string, valid UTF-8 or not.
\<close>

record unicode_tables =
  lower_table :: "nat \<Rightarrow> nat"
  print_table :: "nat \<Rightarrow> bool"

definition ascii_tables :: unicode_tables where
  "ascii_tables = \<lparr>lower_table = (\<lambda>r. r), print_table = (\<lambda>r. False)\<rparr>"

subsection \<open>The runes of a string\<close>

lemma decode_rune_width:
  "s \<noteq> [] \<Longrightarrow> 0 < snd (decode_rune s) \<and> snd (decode_rune s) \<le> length s"
  by (cases s) (auto simp: Let_def split: list.splits)

function runes :: "gostring \<Rightarrow> (nat \<times> gostring) list" where
  "runes s =
     (if s = [] then []
      else (fst (decode_rune s), take (snd (decode_rune s)) s) # runes (drop (snd (decode_rune s)) s))"
  by pat_completeness auto
termination
  by (relation "measure length") (use decode_rune_width in \<open>auto simp: diff_less\<close>)

declare runes.simps [simp del]

lemma runes_Nil [simp]: "runes [] = []"
  by (simp add: runes.simps)

lemma concat_runes: "concat (map snd (runes s)) = s"
proof (induction s rule: runes.induct)
  case (1 s)
  then show ?case by (subst runes.simps) simp
qed

definition valid_rune :: "nat \<Rightarrow> bool" where
  "valid_rune r \<longleftrightarrow> r < 0x110000 \<and> \<not> (0xD800 \<le> r \<and> r < 0xE000)"

lemma digit_split: "d < m \<Longrightarrow> (q * m + d) div m = q \<and> (q * m + d) mod m = (d::nat)"
  by simp

lemma encode_two:
  assumes "2 \<le> b" "b < 32" "d < (64::nat)"
  shows "encode_rune (b * 64 + d) = [char_of (0xC0 + b), char_of (0x80 + d)] \<and> valid_rune (b * 64 + d)"
  using assms digit_split [of d 64 b] by (simp add: encode_rune_def valid_rune_def)

lemma encode_three:
  assumes "b < 16" "d < 64" "e < (64::nat)" and "b = 0 \<Longrightarrow> 32 \<le> d" and "b = 13 \<Longrightarrow> d < 32"
  shows "encode_rune (b * 4096 + d * 64 + e) =
      [char_of (0xE0 + b), char_of (0x80 + d), char_of (0x80 + e)] \<and> valid_rune (b * 4096 + d * 64 + e)"
proof -
  let ?r = "(b * 64 + d) * 64 + e"
  have r: "b * 4096 + d * 64 + e = ?r" by simp
  have m: "?r mod 64 = e" "?r div 64 = b * 64 + d" using digit_split [of e 64 "b * 64 + d"] assms by auto
  have "?r div 4096 = ?r div 64 div 64" by (simp add: div_mult2_eq [symmetric])
  with m assms digit_split [of d 64 b] have dv: "?r div 4096 = b" "?r div 64 mod 64 = d" by auto
  have big: "0x800 \<le> ?r" using assms(1,4) by (cases "b = 0") auto
  have small: "?r < 0x10000" using assms by auto
  have nosurr: "\<not> (0xD800 \<le> ?r \<and> ?r < 0xE000)"
  proof (cases "b = 13")
    case True
    with assms(5) assms(3) show ?thesis by auto
  next
    case False
    then have "b \<le> 12 \<or> 14 \<le> b" by linarith
    with assms(2,3) show ?thesis by auto
  qed
  have "encode_rune ?r = [char_of (0xE0 + b), char_of (0x80 + d), char_of (0x80 + e)]"
    unfolding encode_rune_def dv m(1) using big small nosurr by (simp only: dv m) simp
  with small nosurr show ?thesis unfolding r valid_rune_def by simp
qed

lemma encode_four:
  assumes "b < 5" "d < 64" "e < 64" "g < (64::nat)" and "b = 0 \<Longrightarrow> 16 \<le> d" and "b = 4 \<Longrightarrow> d < 16"
  shows "encode_rune (b * 262144 + d * 4096 + e * 64 + g) =
      [char_of (0xF0 + b), char_of (0x80 + d), char_of (0x80 + e), char_of (0x80 + g)] \<and>
    valid_rune (b * 262144 + d * 4096 + e * 64 + g)"
proof -
  let ?q = "(b * 64 + d) * 64 + e"
  let ?r = "?q * 64 + g"
  have r: "b * 262144 + d * 4096 + e * 64 + g = ?r" by simp
  have m: "?r mod 64 = g" "?r div 64 = ?q" using digit_split [of g 64 ?q] assms by auto
  have "?r div 4096 = ?r div 64 div 64" "?r div 262144 = ?r div 64 div 64 div 64"
    by (simp_all add: div_mult2_eq [symmetric])
  with m assms digit_split [of e 64 "b * 64 + d"] digit_split [of d 64 b]
  have dv: "?r div 4096 mod 64 = d" "?r div 64 mod 64 = e" "?r div 262144 = b" by auto
  have big: "0x10000 \<le> ?r" using assms(1,5) by (cases "b = 0") auto
  have small: "?r < 0x110000"
  proof (cases "b = 4")
    case True
    with assms(3,4,6) show ?thesis by auto
  next
    case False
    with assms(1) have "b \<le> 3" by linarith
    with assms(2-4) show ?thesis by auto
  qed
  have "encode_rune ?r = [char_of (0xF0 + b), char_of (0x80 + d), char_of (0x80 + e), char_of (0x80 + g)]"
    unfolding encode_rune_def dv m(1) using big small by simp
  with big small show ?thesis unfolding r valid_rune_def by simp
qed

text \<open>A valid encoding decodes to the rune that encodes to it; anything else is one byte of RuneError.\<close>

lemma second_okD:
  "second_ok c d \<Longrightarrow> 0x80 \<le> byte d \<and> byte d \<le> 0xBF \<and> (byte c = 0xE0 \<longrightarrow> 0xA0 \<le> byte d) \<and>
    (byte c = 0xED \<longrightarrow> byte d \<le> 0x9F) \<and> (byte c = 0xF0 \<longrightarrow> 0x90 \<le> byte d) \<and> (byte c = 0xF4 \<longrightarrow> byte d \<le> 0x8F)"
  by (auto simp: second_ok_def second_range_def cont_def split: if_splits)

definition valid_chunk :: "nat \<times> gostring \<Rightarrow> bool" where
  "valid_chunk p \<longleftrightarrow>
     valid_rune (fst p) \<and> snd p = encode_rune (fst p) \<or>
     (\<exists>c. 0x80 \<le> byte c \<and> p = (rune_error, [c]))"

lemma decode_rune_chunk:
  assumes "s \<noteq> []"
  shows "valid_chunk (fst (decode_rune s), take (snd (decode_rune s)) s)"
proof -
  obtain c rest where s: "s = c # rest" using assms by (cases s) auto
  let ?b = "byte c"
  consider (ascii) "?b < 0x80" | (two) "0xC2 \<le> ?b" "?b \<le> 0xDF" | (three) "0xE0 \<le> ?b" "?b \<le> 0xEF"
    | (four) "0xF0 \<le> ?b" "?b \<le> 0xF4"
    | (bad) "0x80 \<le> ?b" "\<not> (0xC2 \<le> ?b \<and> ?b \<le> 0xDF)" "\<not> (0xE0 \<le> ?b \<and> ?b \<le> 0xEF)" "\<not> (0xF0 \<le> ?b \<and> ?b \<le> 0xF4)"
    by linarith
  then show ?thesis
  proof cases
    case ascii
    then show ?thesis by (simp add: s valid_chunk_def valid_rune_def encode_rune_def)
  next
    case bad
    then have "decode_rune s = (rune_error, 1)" by (auto simp: s Let_def)
    with bad show ?thesis by (auto simp: s valid_chunk_def)
  next
    case two
    show ?thesis
    proof (cases "\<exists>d t. rest = d # t \<and> second_ok c d")
      case True
      then obtain d t where d: "rest = d # t" "second_ok c d" by blast
      have "0xC0 \<le> ?b" using two by simp
      then obtain b' where b': "?b = 0xC0 + b'" by (metis le_add_diff_inverse)
      obtain d' where d': "byte d = 0x80 + d'" using second_okD [OF d(2)] by (metis le_add_diff_inverse)
      have "2 \<le> b'" "b' < 32" "d' < 64" using two b' d' second_okD [OF d(2)] by auto
      note enc = encode_two [OF this]
      have "decode_rune s = (b' * 64 + d', 2)" using two d b' d' by (simp add: s)
      moreover have "[c, d] = [char_of (0xC0 + b'), char_of (0x80 + d')]"
        unfolding b' [symmetric] d' [symmetric] by simp
      moreover have "take 2 s = [c, d]" using d by (simp add: s)
      ultimately show ?thesis using enc by (simp add: valid_chunk_def)
    next
      case False
      with two show ?thesis by (auto simp: s valid_chunk_def split: list.splits)
    qed
  next
    case three
    show ?thesis
    proof (cases "\<exists>d e t. rest = d # e # t \<and> second_ok c d \<and> cont 0x80 0xBF e")
      case True
      then obtain d e t where d: "rest = d # e # t" "second_ok c d" "cont 0x80 0xBF e" by blast
      obtain b' where b': "?b = 0xE0 + b'" using three(1) by (metis le_add_diff_inverse)
      obtain d' where d': "byte d = 0x80 + d'" using second_okD [OF d(2)] by (metis le_add_diff_inverse)
      obtain e' where e': "byte e = 0x80 + e'" using d(3) unfolding cont_def by (metis le_add_diff_inverse)
      have "b' < 16" "d' < 64" "e' < 64" "b' = 0 \<Longrightarrow> 32 \<le> d'" "b' = 13 \<Longrightarrow> d' < 32"
        using three b' d' e' second_okD [OF d(2)] d(3) by (auto simp: cont_def)
      note enc = encode_three [OF this]
      have "decode_rune s = (b' * 4096 + d' * 64 + e', 3)" using three d b' d' e' by (simp add: s)
      moreover have "[c, d, e] = [char_of (0xE0 + b'), char_of (0x80 + d'), char_of (0x80 + e')]"
        unfolding b' [symmetric] d' [symmetric] e' [symmetric] by simp
      moreover have "take 3 s = [c, d, e]" using d by (simp add: s)
      ultimately show ?thesis using enc by (simp add: valid_chunk_def)
    next
      case False
      with three show ?thesis by (auto simp: s valid_chunk_def split: list.splits)
    qed
  next
    case four
    show ?thesis
    proof (cases "\<exists>d e g t. rest = d # e # g # t \<and> second_ok c d \<and> cont 0x80 0xBF e \<and> cont 0x80 0xBF g")
      case True
      then obtain d e g t where d: "rest = d # e # g # t" "second_ok c d" "cont 0x80 0xBF e" "cont 0x80 0xBF g" by blast
      obtain b' where b': "?b = 0xF0 + b'" using four(1) by (metis le_add_diff_inverse)
      obtain d' where d': "byte d = 0x80 + d'" using second_okD [OF d(2)] by (metis le_add_diff_inverse)
      obtain e' where e': "byte e = 0x80 + e'" using d(3) unfolding cont_def by (metis le_add_diff_inverse)
      obtain g' where g': "byte g = 0x80 + g'" using d(4) unfolding cont_def by (metis le_add_diff_inverse)
      have "b' < 5" "d' < 64" "e' < 64" "g' < 64" "b' = 0 \<Longrightarrow> 16 \<le> d'" "b' = 4 \<Longrightarrow> d' < 16"
        using four b' d' e' g' second_okD [OF d(2)] d(3,4) by (auto simp: cont_def)
      note enc = encode_four [OF this]
      have "decode_rune s = (b' * 262144 + d' * 4096 + e' * 64 + g', 4)" using four d b' d' e' g' by (simp add: s)
      moreover have "[c, d, e, g] = [char_of (0xF0 + b'), char_of (0x80 + d'), char_of (0x80 + e'), char_of (0x80 + g')]"
        unfolding b' [symmetric] d' [symmetric] e' [symmetric] g' [symmetric] by simp
      moreover have "take 4 s = [c, d, e, g]" using d by (simp add: s)
      ultimately show ?thesis using enc by (simp add: valid_chunk_def)
    next
      case False
      with four show ?thesis by (auto simp: s valid_chunk_def split: list.splits)
    qed
  qed
qed

lemma runes_valid: "\<forall>p \<in> set (runes s). valid_chunk p"
proof (induction s rule: runes.induct)
  case (1 s)
  then show ?case using decode_rune_chunk [of s] by (subst runes.simps) auto
qed

subsection \<open>\<open>strings.ToLower\<close>\<close>

definition lower_rune :: "unicode_tables \<Rightarrow> nat \<Rightarrow> nat" where
  "lower_rune u r =
     (if r < 0x80 then (if 0x41 \<le> r \<and> r \<le> 0x5A then r + 32 else r) else lower_table u r)"

text \<open>An ASCII string is lowered bytewise; any other is mapped rune by rune, which also rewrites an
  invalid byte as the encoding of RuneError.\<close>

definition to_lower :: "unicode_tables \<Rightarrow> gostring \<Rightarrow> gostring" where
  "to_lower u s =
     (if \<forall>c \<in> set s. byte c < 0x80 then map (\<lambda>c. char_of (lower_rune u (byte c))) s
      else concat (map (\<lambda>(r, _). encode_rune (lower_rune u r)) (runes s)))"

subsection \<open>\<open>strings.TrimSpace\<close>\<close>

definition is_space :: "nat \<Rightarrow> bool" where
  "is_space r \<longleftrightarrow>
     r \<in> {0x09, 0x0A, 0x0B, 0x0C, 0x0D, 0x20, 0x85, 0xA0, 0x1680, 0x2028, 0x2029, 0x202F, 0x205F, 0x3000} \<or>
     0x2000 \<le> r \<and> r \<le> 0x200A"

text \<open>A multi-byte space at the end is found by its own bytes, so trimming the runes read from the front
  is trimming from the back.\<close>

definition trim_space :: "gostring \<Rightarrow> gostring" where
  "trim_space s =
     concat (map snd (rev (dropWhile (is_space \<circ> fst) (rev (dropWhile (is_space \<circ> fst) (runes s))))))"

subsection \<open>\<open>strconv.Quote\<close>\<close>

definition lowerhex :: gostring where
  "lowerhex = ''0123456789abcdef''"

definition hex_digit :: "nat \<Rightarrow> char" where
  "hex_digit n = lowerhex ! (n mod 16)"

fun hex_digits :: "nat \<Rightarrow> nat \<Rightarrow> gostring" where
  "hex_digits 0 r = []"
| "hex_digits (Suc n) r = hex_digits n (r div 16) @ [hex_digit r]"

definition is_print :: "unicode_tables \<Rightarrow> nat \<Rightarrow> bool" where
  "is_print u r = (if r < 0x80 then 0x20 \<le> r \<and> r < 0x7F else print_table u r)"

definition escaped_rune :: "unicode_tables \<Rightarrow> nat \<Rightarrow> gostring" where
  "escaped_rune u r =
     (if r = 0x22 \<or> r = 0x5C then [CHR 0x5C, char_of r]
      else if is_print u r then encode_rune r
      else if r = 7 then [CHR 0x5C, CHR ''a'']
      else if r = 8 then [CHR 0x5C, CHR ''b'']
      else if r = 12 then [CHR 0x5C, CHR ''f'']
      else if r = 10 then [CHR 0x5C, CHR ''n'']
      else if r = 13 then [CHR 0x5C, CHR ''r'']
      else if r = 9 then [CHR 0x5C, CHR ''t'']
      else if r = 11 then [CHR 0x5C, CHR ''v'']
      else if r < 0x20 \<or> r = 0x7F then [CHR 0x5C, CHR ''x''] @ hex_digits 2 r
      else if r < 0x10000 then [CHR 0x5C, CHR ''u''] @ hex_digits 4 r
      else [CHR 0x5C, CHR ''U''] @ hex_digits 8 r)"

definition quote_chunk :: "unicode_tables \<Rightarrow> nat \<times> gostring \<Rightarrow> gostring" where
  "quote_chunk u p =
     (if length (snd p) = 1 \<and> fst p = rune_error then [CHR 0x5C, CHR ''x''] @ hex_digits 2 (byte (hd (snd p)))
      else escaped_rune u (fst p))"

definition go_quote :: "unicode_tables \<Rightarrow> gostring \<Rightarrow> gostring" where
  "go_quote u s = [CHR 0x22] @ concat (map (quote_chunk u) (runes s)) @ [CHR 0x22]"

subsection \<open>\<open>strconv.UnquoteChar\<close> and \<open>strconv.Unquote\<close> for a double-quoted string\<close>

definition unhex :: "char \<Rightarrow> nat option" where
  "unhex c =
     (let b = byte c in
      if 0x30 \<le> b \<and> b \<le> 0x39 then Some (b - 0x30)
      else if 0x61 \<le> b \<and> b \<le> 0x66 then Some (b - 0x61 + 10)
      else if 0x41 \<le> b \<and> b \<le> 0x46 then Some (b - 0x41 + 10) else None)"

fun unhex_digits :: "nat \<Rightarrow> nat \<Rightarrow> gostring \<Rightarrow> (nat \<times> gostring) option" where
  "unhex_digits 0 v s = Some (v, s)"
| "unhex_digits (Suc n) v [] = None"
| "unhex_digits (Suc n) v (c # s) =
     (case unhex c of None \<Rightarrow> None | Some x \<Rightarrow> unhex_digits n (v * 16 + x) s)"

fun octal_digits :: "nat \<Rightarrow> nat \<Rightarrow> gostring \<Rightarrow> (nat \<times> gostring) option" where
  "octal_digits 0 v s = Some (v, s)"
| "octal_digits (Suc n) v [] = None"
| "octal_digits (Suc n) v (c # s) =
     (if 0x30 \<le> byte c \<and> byte c \<le> 0x37 then octal_digits n (v * 8 + (byte c - 0x30)) s else None)"

text \<open>The bytes one character stands for and what follows it; \<open>None\<close> is \<open>ErrSyntax\<close>.\<close>

definition unquote_escape :: "char \<Rightarrow> gostring \<Rightarrow> (gostring \<times> gostring) option" where
  "unquote_escape c s =
     (if c = CHR ''a'' then Some ([char_of (7 :: nat)], s)
      else if c = CHR ''b'' then Some ([char_of (8 :: nat)], s)
      else if c = CHR ''f'' then Some ([char_of (12 :: nat)], s)
      else if c = CHR ''n'' then Some ([char_of (10 :: nat)], s)
      else if c = CHR ''r'' then Some ([char_of (13 :: nat)], s)
      else if c = CHR ''t'' then Some ([char_of (9 :: nat)], s)
      else if c = CHR ''v'' then Some ([char_of (11 :: nat)], s)
      else if c = CHR ''x'' then map_option (\<lambda>(v, t). ([char_of v], t)) (unhex_digits 2 0 s)
      else if c = CHR ''u'' \<or> c = CHR ''U'' then
        (case unhex_digits (if c = CHR ''u'' then 4 else 8) 0 s of
           None \<Rightarrow> None
         | Some (v, t) \<Rightarrow> if valid_rune v then Some (encode_rune v, t) else None)
      else if 0x30 \<le> byte c \<and> byte c \<le> 0x37 then
        (case octal_digits 2 (byte c - 0x30) s of
           None \<Rightarrow> None
         | Some (v, t) \<Rightarrow> if v \<le> 255 then Some ([char_of v], t) else None)
      else if c = CHR 0x5C then Some ([CHR 0x5C], s)
      else if c = CHR 0x22 then Some ([CHR 0x22], s)
      else None)"

fun unquote_char :: "gostring \<Rightarrow> (gostring \<times> gostring) option" where
  "unquote_char [] = None"
| "unquote_char (c # s) =
     (if c = CHR 0x22 then None
      else if 0x80 \<le> byte c then
        Some (encode_rune (fst (decode_rune (c # s))), drop (snd (decode_rune (c # s))) (c # s))
      else if c \<noteq> CHR 0x5C then Some ([c], s)
      else case s of [] \<Rightarrow> None | d # t \<Rightarrow> unquote_escape d t)"

lemma unhex_digits_length: "unhex_digits n v s = Some (w, t) \<Longrightarrow> length t \<le> length s"
  by (induction n v s rule: unhex_digits.induct) (auto split: option.splits)

lemma octal_digits_length: "octal_digits n v s = Some (w, t) \<Longrightarrow> length t \<le> length s"
  by (induction n v s rule: octal_digits.induct) (auto split: if_splits)

lemma unquote_escape_length: "unquote_escape c s = Some (bs, t) \<Longrightarrow> length t \<le> length s"
  by (auto simp: unquote_escape_def split: if_splits option.splits
      dest: unhex_digits_length octal_digits_length)

lemma unquote_char_length: "unquote_char s = Some (bs, t) \<Longrightarrow> length t < length s"
proof (cases s)
  case (Cons c r)
  assume u: "unquote_char s = Some (bs, t)"
  show ?thesis
  proof (cases "0x80 \<le> byte c \<and> c \<noteq> CHR 0x22")
    case True
    with u Cons have "t = drop (snd (decode_rune s)) s" by (auto split: if_splits)
    with Cons decode_rune_width [of s] show ?thesis by simp
  next
    case False
    with u Cons show ?thesis
      by (auto split: if_splits list.splits dest: unquote_escape_length)
  qed
qed simp

text \<open>The loop of \<open>strconv.unquote\<close> after the opening quote: the unescaped bytes and the rest after
  the closing quote. Its fast path for strings without escapes returns the same result.\<close>

function unquote_body :: "gostring \<Rightarrow> (gostring \<times> gostring) option" where
  "unquote_body s =
     (if s = [] then None
      else if hd s = CHR 0x22 then Some ([], tl s)
      else case unquote_char s of
        None \<Rightarrow> None
      | Some (bs, rest) \<Rightarrow>
          if hd s = CHR 0x0A then None
          else case unquote_body rest of None \<Rightarrow> None | Some (out, t) \<Rightarrow> Some (bs @ out, t))"
  by pat_completeness auto
termination
  by (relation "measure length") (use unquote_char_length in auto)

declare unquote_body.simps [simp del]

definition unquote_prefix :: "gostring \<Rightarrow> (gostring \<times> gostring) option" where
  "unquote_prefix s =
     (case s of c # t \<Rightarrow> if c = CHR 0x22 then unquote_body t else None | [] \<Rightarrow> None)"

definition go_unquote :: "gostring \<Rightarrow> gostring option" where
  "go_unquote s = (case unquote_prefix s of Some (out, []) \<Rightarrow> Some out | _ \<Rightarrow> None)"

subsection \<open>Unquoting what was quoted\<close>

lemma decode_two:
  "2 \<le> b \<Longrightarrow> b < 32 \<Longrightarrow> d < 64 \<Longrightarrow>
    decode_rune (char_of (0xC0 + b) # char_of (0x80 + d) # x) = (b * 64 + d, 2)"
  by (simp add: byte_char_of second_ok_def second_range_def cont_def)

lemma decode_three:
  "b < 16 \<Longrightarrow> d < 64 \<Longrightarrow> e < 64 \<Longrightarrow> (b = 0 \<Longrightarrow> 32 \<le> d) \<Longrightarrow> (b = 13 \<Longrightarrow> d < 32) \<Longrightarrow>
    decode_rune (char_of (0xE0 + b) # char_of (0x80 + d) # char_of (0x80 + e) # x)
      = (b * 4096 + d * 64 + e, 3)"
  by (auto simp: byte_char_of second_ok_def second_range_def cont_def Let_def)

lemma decode_four:
  "b < 5 \<Longrightarrow> d < 64 \<Longrightarrow> e < 64 \<Longrightarrow> g < 64 \<Longrightarrow> (b = 0 \<Longrightarrow> 16 \<le> d) \<Longrightarrow> (b = 4 \<Longrightarrow> d < 16) \<Longrightarrow>
    decode_rune (char_of (0xF0 + b) # char_of (0x80 + d) # char_of (0x80 + e) # char_of (0x80 + g) # x)
      = (b * 262144 + d * 4096 + e * 64 + g, 4)"
  by (auto simp: byte_char_of second_ok_def second_range_def cont_def Let_def)

lemma decode_encode:
  assumes "valid_rune r" and "0x80 \<le> r"
  shows "decode_rune (encode_rune r @ x) = (r, length (encode_rune r))"
proof -
  let ?e = "r mod 64" and ?q = "r div 64"
  have r: "r = ?q * 64 + ?e" and e: "?e < 64" by auto
  have q: "?q = ?q div 64 * 64 + ?q mod 64" "?q mod 64 < 64" by auto
  have q2: "?q div 64 = ?q div 64 div 64 * 64 + ?q div 64 mod 64" "?q div 64 mod 64 < 64" by auto
  have q4096: "r div 4096 = ?q div 64" and q262144: "r div 262144 = ?q div 64 div 64"
    by (simp_all add: div_mult2_eq [symmetric])
  consider "r < 0x800" | "0x800 \<le> r" "r < 0x10000" | "0x10000 \<le> r" by linarith
  then show ?thesis
  proof cases
    case 1
    have "2 \<le> ?q" "?q < 32" using 1 assms(2) by auto
    from decode_two [OF this e, of x] 1 assms(2) show ?thesis
      by (simp add: encode_rune_def)
  next
    case 2
    let ?b = "?q div 64" and ?d = "?q mod 64"
    have b: "?b < 16" using 2 by (simp add: q4096 [symmetric])
    have c1: "?b = 0 \<Longrightarrow> 32 \<le> ?d" using 2(1) q(1) by linarith
    have c2: "?b = 13 \<Longrightarrow> ?d < 32"
    proof (rule ccontr)
      assume b13: "?b = 13" and "\<not> ?d < 32"
      then have "0xD800 \<le> r" using q(1) r by linarith
      moreover have "r < 0xE000" using b13 q r e by linarith
      ultimately show False using assms(1) by (simp add: valid_rune_def)
    qed
    from decode_three [OF b q(2) e c1 c2, of x]
    have "decode_rune (char_of (0xE0 + ?b) # char_of (0x80 + ?d) # char_of (0x80 + ?e) # x)
      = (?b * 4096 + ?d * 64 + ?e, 3)" by simp
    moreover have "?b * 4096 + ?d * 64 + ?e = r" using q(1) r by linarith
    moreover have "encode_rune r = [char_of (0xE0 + ?b), char_of (0x80 + ?d), char_of (0x80 + ?e)]"
      using 2 assms(1) by (auto simp: encode_rune_def valid_rune_def q4096)
    ultimately show ?thesis by simp
  next
    case 3
    let ?b = "?q div 64 div 64" and ?d = "?q div 64 mod 64" and ?f = "?q mod 64"
    have lim: "r < 0x110000" using assms(1) by (simp add: valid_rune_def)
    have b: "?b < 5" using lim by (simp add: q262144 [symmetric])
    have c1: "?b = 0 \<Longrightarrow> 16 \<le> ?d" using 3 q(1) q2(1) r by linarith
    have c2: "?b = 4 \<Longrightarrow> ?d < 16" using lim q(1) q2(1) r by linarith
    from decode_four [OF b q2(2) q(2) e c1 c2, of x]
    have "decode_rune (char_of (0xF0 + ?b) # char_of (0x80 + ?d) # char_of (0x80 + ?f) # char_of (0x80 + ?e) # x)
      = (?b * 262144 + ?d * 4096 + ?f * 64 + ?e, 4)" by simp
    moreover have "?b * 262144 + ?d * 4096 + ?f * 64 + ?e = r" using q(1) q2(1) r by linarith
    moreover have "encode_rune r = [char_of (0xF0 + ?b), char_of (0x80 + ?d), char_of (0x80 + ?f), char_of (0x80 + ?e)]"
      using 3 lim by (simp add: encode_rune_def q4096 q262144)
    ultimately show ?thesis by simp
  qed
qed

lemma unhex_hex_digit [simp]: "unhex (hex_digit n) = Some (n mod 16)"
proof -
  have "\<forall>m \<in> set [0..<16]. unhex (lowerhex ! m) = Some m" by code_simp
  then show ?thesis by (simp add: hex_digit_def)
qed

lemma length_hex_digits [simp]: "length (hex_digits n r) = n"
  by (induction n arbitrary: r) auto

lemma unhex_digits_snoc:
  "unhex_digits (Suc n) v (ds @ d # s) =
    (case unhex_digits n v ds of Some (w, []) \<Rightarrow> map_option (\<lambda>x. (w * 16 + x, s)) (unhex d) | _ \<Rightarrow> None)"
  if "length ds = n"
  using that
proof (induction n arbitrary: v ds)
  case 0
  then show ?case by (auto split: option.splits)
next
  case (Suc n)
  then obtain e es where ds: "ds = e # es" "length es = n" by (cases ds) auto
  show ?case
  proof (cases "unhex e")
    case None
    then show ?thesis by (simp add: ds)
  next
    case (Some y)
    then show ?thesis using Suc.IH [OF ds(2), of "v * 16 + y"] by (simp add: ds del: unhex_digits.simps(3) add: unhex_digits.simps(3) [of n v e] unhex_digits.simps(3) [of "Suc n" v e])
  qed
qed

lemma unhex_hex_digits_exact: "r < 16 ^ n \<Longrightarrow> unhex_digits n 0 (hex_digits n r) = Some (r, [])"
proof (induction n arbitrary: r)
  case 0
  then show ?case by simp
next
  case (Suc n)
  then have "r div 16 < 16 ^ n" by (simp add: div_less_iff_less_mult mult.commute)
  from Suc.IH [OF this] show ?case
    by (simp add: unhex_digits_snoc del: unhex_digits.simps)
qed

lemma unhex_digits_append:
  "unhex_digits n v s = Some (w, t) \<Longrightarrow> unhex_digits n v (s @ x) = Some (w, t @ x)"
  by (induction n v s rule: unhex_digits.induct) (auto split: option.splits)

lemma unhex_hex_digits: "r < 16 ^ n \<Longrightarrow> unhex_digits n 0 (hex_digits n r @ x) = Some (r, x)"
  using unhex_digits_append [OF unhex_hex_digits_exact] by simp

lemma encode_ascii: "r < 0x80 \<Longrightarrow> encode_rune r = [char_of r]"
  by (simp add: encode_rune_def)

lemma encode_high_hd: "0x80 \<le> r \<Longrightarrow> \<exists>c t. encode_rune r = c # t \<and> 0x80 \<le> byte c"
proof -
  assume r: "0x80 \<le> r"
  have "r < 0x800 \<Longrightarrow> r div 64 < 32" "r < 0x10000 \<Longrightarrow> r div 4096 < 16" "r < 0x110000 \<Longrightarrow> r div 262144 < 5"
    by (simp_all add: div_less_iff_less_mult)
  with r show ?thesis by (auto simp: encode_rune_def byte_char_of)
qed

lemma byte_literals: "byte (CHR 0x22) = 0x22" "byte (CHR 0x5C) = 0x5C" "byte (CHR 0x0A) = 0x0A"
  by (simp_all add: byte_def)

lemma char_literals: "char_of (0x22 :: nat) = CHR 0x22" "char_of (0x5C :: nat) = CHR 0x5C"
  by (metis byte_literals char_of_byte)+

lemma unquote_char_print:
  assumes "valid_rune r" "r \<noteq> 0x22" "r \<noteq> 0x5C"
  shows "unquote_char (encode_rune r @ x) = Some (encode_rune r, x)"
proof (cases "r < 0x80")
  case True
  then have "byte (char_of r) = r" by (simp add: byte_char_of)
  then have "(char_of r :: char) \<noteq> CHR 0x22" "(char_of r :: char) \<noteq> CHR 0x5C"
    using assms byte_literals by metis+
  with True show ?thesis by (simp add: encode_ascii byte_char_of)
next
  case False
  then obtain c t where c: "encode_rune r = c # t" "0x80 \<le> byte c" using encode_high_hd [of r] by auto
  then have "c \<noteq> CHR 0x22" by (auto simp: byte_def)
  with c decode_encode [OF assms(1), of x] False show ?thesis by simp
qed

lemma unquote_escape_hex:
  "b < 256 \<Longrightarrow> unquote_char ([CHR 0x5C, CHR ''x''] @ hex_digits 2 b @ x) = Some ([char_of b], x)"
  using unhex_hex_digits [of b 2 x] by (simp add: unquote_escape_def byte_def)

lemma valid_rune_less: "valid_rune r \<Longrightarrow> r < 16 ^ 8"
  by (simp add: valid_rune_def)

lemma unquote_char_escaped:
  assumes "valid_rune r"
  shows "unquote_char (escaped_rune u r @ x) = Some (encode_rune r, x)"
proof -
  have h: "unhex_digits 8 0 (hex_digits 8 r @ x) = Some (r, x)" using unhex_hex_digits valid_rune_less [OF assms] by blast
  have h4: "r < 0x10000 \<Longrightarrow> unhex_digits 4 0 (hex_digits 4 r @ x) = Some (r, x)" using unhex_hex_digits [of r 4] by simp
  consider (q) "r = 0x22 \<or> r = 0x5C" | (p) "r \<noteq> 0x22" "r \<noteq> 0x5C" "is_print u r"
    | (c) "\<not> is_print u r" "r \<noteq> 0x22" "r \<noteq> 0x5C" "r \<in> {7,8,12,10,13,9,11}"
    | (x) "\<not> is_print u r" "r \<noteq> 0x22" "r \<noteq> 0x5C" "r \<notin> {7,8,12,10,13,9,11}" "r < 0x20 \<or> r = 0x7F"
    | (u) "\<not> is_print u r" "r \<noteq> 0x22" "r \<noteq> 0x5C" "r \<notin> {7,8,12,10,13,9,11}" "\<not> (r < 0x20 \<or> r = 0x7F)"
    by blast
  then show ?thesis
  proof cases
    case q
    then show ?thesis
      by (auto simp: escaped_rune_def unquote_escape_def encode_ascii char_literals byte_def)
  next
    case p
    then show ?thesis using unquote_char_print [OF assms] by (simp add: escaped_rune_def)
  next
    case c
    then show ?thesis by (auto simp: escaped_rune_def unquote_escape_def encode_ascii byte_def)
  next
    case x
    then have "escaped_rune u r = [CHR 0x5C, CHR ''x''] @ hex_digits 2 r" by (simp add: escaped_rune_def)
    with x unquote_escape_hex [of r] show ?thesis by (auto simp: encode_ascii)
  next
    case u
    then have hi: "0x80 \<le> r" by (simp add: is_print_def split: if_splits)
    from u have e: "escaped_rune u r = (if r < 0x10000 then [CHR 0x5C, CHR ''u''] @ hex_digits 4 r else [CHR 0x5C, CHR ''U''] @ hex_digits 8 r)"
      by (simp add: escaped_rune_def)
    show ?thesis
      using h h4 assms by (simp add: e unquote_escape_def byte_def del: hex_digits.simps)
  qed
qed

lemma unquote_char_quote_chunk:
  assumes "valid_chunk p"
  shows "unquote_char (quote_chunk u p @ x) = Some (snd p, x)"
proof (cases "length (snd p) = 1 \<and> fst p = rune_error")
  case True
  then obtain c where p: "p = (rune_error, [c])" by (cases p) (auto simp: length_Suc_conv)
  then show ?thesis using unquote_escape_hex [of "byte c" x] by (simp add: quote_chunk_def)
next
  case False
  with assms have v: "valid_rune (fst p)" "snd p = encode_rune (fst p)"
    by (auto simp: valid_chunk_def)
  from False have "quote_chunk u p = escaped_rune u (fst p)" by (auto simp: quote_chunk_def)
  then show ?thesis using unquote_char_escaped [OF v(1)] v(2) by (simp only:)
qed

lemma quote_chunk_hd:
  assumes "valid_chunk p"
  shows "\<exists>c t. quote_chunk u p = c # t \<and> c \<noteq> CHR 0x22 \<and> c \<noteq> CHR 0x0A"
proof (cases "length (snd p) = 1 \<and> fst p = rune_error \<or> \<not> (fst p \<noteq> 0x22 \<and> fst p \<noteq> 0x5C \<and> is_print u (fst p))")
  case True
  then show ?thesis by (auto simp: quote_chunk_def escaped_rune_def)
next
  case False
  then have e: "quote_chunk u p = encode_rune (fst p)" and n: "fst p \<noteq> 0x22" "is_print u (fst p)"
    by (auto simp: quote_chunk_def escaped_rune_def)
  show ?thesis
  proof (cases "fst p < 0x80")
    case True
    then have "byte (char_of (fst p)) = fst p" by (simp add: byte_char_of)
    moreover have "fst p \<noteq> 0x0A" using n True by (auto simp: is_print_def)
    ultimately have "(char_of (fst p) :: char) \<noteq> CHR 0x22 \<and> (char_of (fst p) :: char) \<noteq> CHR 0x0A"
      using n(1) byte_literals by metis
    with True show ?thesis by (simp add: e encode_ascii)
  next
    case False
    then show ?thesis using encode_high_hd [of "fst p"] by (auto simp: e byte_def)
  qed
qed

lemma unquote_body_chunks:
  "\<forall>p \<in> set ps. valid_chunk p \<Longrightarrow>
    unquote_body (concat (map (quote_chunk u) ps) @ CHR 0x22 # x) = Some (concat (map snd ps), x)"
proof (induction ps)
  case Nil
  then show ?case by (simp add: unquote_body.simps)
next
  case (Cons p ps)
  let ?rest = "concat (map (quote_chunk u) ps) @ CHR 0x22 # x"
  obtain c t where c: "quote_chunk u p = c # t" "c \<noteq> CHR 0x22" "c \<noteq> CHR 0x0A"
    using quote_chunk_hd [of p u] Cons.prems by auto
  have "unquote_char (c # t @ ?rest) = Some (snd p, ?rest)"
    using unquote_char_quote_chunk [of p u ?rest] Cons.prems c by simp
  with c Cons show ?case by (simp add: unquote_body.simps [of "c # t @ ?rest"] del: unquote_char.simps)
qed

lemma unquote_prefix_quote: "unquote_prefix (go_quote u s @ x) = Some (s, x)"
  using unquote_body_chunks [OF runes_valid, of u s x]
  by (simp add: unquote_prefix_def go_quote_def concat_runes)

lemma go_unquote_quote [simp]: "go_unquote (go_quote u s) = Some s"
  using unquote_prefix_quote [of u s "[]"] by (simp add: go_unquote_def)

lemma go_quote_inj_append: "go_quote u s @ x = go_quote u t @ y \<Longrightarrow> s = t \<and> x = y"
  by (metis unquote_prefix_quote option.inject prod.inject)

lemma go_quote_eq_iff [simp]: "go_quote u s = go_quote u t \<longleftrightarrow> s = t"
  using go_quote_inj_append [of u s "[]" t "[]"] by auto

end
