(* ===== verification/Identifier.thy ===== *)
theory Identifier
  imports Go_Quote
begin

text \<open>
  Node identifiers (\<open>identifier.go\<close>, and the node-type constants of \<open>enums.go\<close>): the record,
  its string forms, the parent relation, and the parser of the dotted form. \<open>uuid.NewSHA1\<close> and
  \<open>UUID.String\<close> of \<open>google/uuid\<close> are arguments of the two operations that call them. The
  lemmas show that \<open>IdentityKey\<close> loses nothing, that \<open>SymbolKey\<close> does, that the parent
  relation is inclusion of the set components, and when \<open>ParseIdentifier\<close> inverts \<open>String\<close>.
\<close>

subsection \<open>Node types\<close>

type_synonym node_type = gostring

definition NodeTypePackage :: node_type where "NodeTypePackage = ''package''"
definition NodeTypeType :: node_type where "NodeTypeType = ''class''"
definition NodeTypeMethod :: node_type where "NodeTypeMethod = ''method''"
definition NodeTypeModule :: node_type where "NodeTypeModule = ''module''"
definition NodeTypeEndpoint :: node_type where "NodeTypeEndpoint = ''endpoint''"
definition NodeTypeField :: node_type where "NodeTypeField = ''record_field''"
definition NodeTypeUnknown :: node_type where "NodeTypeUnknown = ''''"

lemmas node_type_defs = NodeTypePackage_def NodeTypeType_def NodeTypeMethod_def NodeTypeModule_def
  NodeTypeEndpoint_def NodeTypeField_def NodeTypeUnknown_def

subsection \<open>The record and its accessors\<close>

text \<open>A \<open>uuid.UUID\<close> is a 16-byte array; the pointer field \<open>Id\<close> is nil or points to one.\<close>

type_synonym uuid = gostring

definition uuid_Nil :: uuid where
  "uuid_Nil = replicate 16 (char_of (0 :: nat))"

record ident =
  IdPtr :: "uuid option"
  Module :: gostring
  Package :: gostring
  Type :: gostring
  Method :: gostring
  Field :: gostring
  Signature :: gostring
  NodeType :: node_type

definition NilIdentifier :: ident where
  "NilIdentifier =
     \<lparr> IdPtr = None, Module = [], Package = [], Type = [], Method = [], Field = [], Signature = [],
       NodeType = NodeTypeUnknown \<rparr>"

definition GetNodeType :: "ident \<Rightarrow> node_type" where
  "GetNodeType i =
     (if NodeType i \<noteq> NodeTypeUnknown then NodeType i
      else if Field i \<noteq> [] then NodeTypeField
      else if Method i \<noteq> [] then NodeTypeMethod
      else if Type i \<noteq> [] then NodeTypeType
      else if Package i \<noteq> [] then NodeTypePackage
      else if Module i \<noteq> [] then NodeTypeModule
      else NodeTypeUnknown)"

definition GetName :: "ident \<Rightarrow> gostring" where
  "GetName i =
     (if Field i \<noteq> [] then Field i
      else if Method i \<noteq> [] then Method i
      else if Type i \<noteq> [] then Type i
      else if Package i \<noteq> [] then Package i
      else if Module i \<noteq> [] then Module i
      else [])"

definition put_set :: "gostring \<Rightarrow> gostring \<Rightarrow> (gostring \<rightharpoonup> gostring) \<Rightarrow> (gostring \<rightharpoonup> gostring)" where
  "put_set k v m = (if v \<noteq> [] then m(k \<mapsto> v) else m)"

definition AsMap :: "unicode_tables \<Rightarrow> ident \<Rightarrow> (gostring \<rightharpoonup> gostring)" where
  "AsMap u i =
     (let m = put_set ''module'' (Module i) Map.empty;
          m = put_set ''package'' (Package i) m;
          m = put_set ''type'' (Type i) m;
          m = put_set ''method'' (Method i) m;
          m = put_set ''field'' (Field i) m;
          m = put_set ''signature'' (Signature i) m
      in if NodeType i \<noteq> NodeTypeUnknown then m(''node_type'' \<mapsto> to_lower u (NodeType i)) else m)"

subsection \<open>The string forms\<close>

definition nonempty_parts :: "ident \<Rightarrow> gostring list" where
  "nonempty_parts i = filter (\<lambda>p. p \<noteq> []) [Module i, Package i, Type i]"

definition String :: "ident \<Rightarrow> gostring" where
  "String i =
     (let sep = (if NodeType i = NodeTypeEndpoint then ''/'' else ''.'');
          path = join_with sep (nonempty_parts i);
          sep = (if NodeType i = NodeTypeEndpoint then ''/''
                 else if NodeType i = NodeTypeField then ''.'' else '':'');
          path = (if Method i \<noteq> [] then path @ sep @ Method i else path);
          path = (if Field i \<noteq> []
                  then (if Method i = [] then path @ sep else path) @ sep @ Field i else path)
      in if Signature i \<noteq> [] then path @ ''#'' @ Signature i else path)"

definition SymbolKey :: "unicode_tables \<Rightarrow> ident \<Rightarrow> gostring" where
  "SymbolKey u i = join_with '':'' [to_lower u (GetNodeType i), String i]"

definition key_components :: "unicode_tables \<Rightarrow> ident \<Rightarrow> gostring list" where
  "key_components u i =
     [to_lower u (GetNodeType i), Module i, Package i, Type i, Method i, Field i, Signature i]"

definition IdentityKey :: "unicode_tables \<Rightarrow> ident \<Rightarrow> gostring" where
  "IdentityKey u i = ''v1:['' @ join_with '','' (map (go_quote u) (key_components u i)) @ '']''"

definition GetUUID :: "(gostring \<Rightarrow> uuid) \<Rightarrow> unicode_tables \<Rightarrow> ident \<Rightarrow> uuid" where
  "GetUUID new_sha1 u i = (case IdPtr i of Some x \<Rightarrow> x | None \<Rightarrow> new_sha1 (SymbolKey u i))"

definition GetID :: "(gostring \<Rightarrow> uuid) \<Rightarrow> (uuid \<Rightarrow> gostring) \<Rightarrow> unicode_tables \<Rightarrow> ident \<Rightarrow> gostring" where
  "GetID new_sha1 uuid_string u i =
     (let x = GetUUID new_sha1 u i in if x = uuid_Nil then [] else uuid_string x)"

definition Equals :: "ident \<Rightarrow> ident \<Rightarrow> bool" where
  "Equals i j \<longleftrightarrow> String i = String j"

subsection \<open>The parent relation and the enclosing identifiers\<close>

definition IsParentOf :: "ident \<Rightarrow> ident \<Rightarrow> bool" where
  "IsParentOf i j =
     (if Module i \<noteq> [] \<and> Module i \<noteq> Module j then False
      else if Package i \<noteq> [] \<and> Package i \<noteq> Package j then False
      else if Type i \<noteq> [] \<and> Type i \<noteq> Type j then False
      else if Method i \<noteq> [] \<and> Method i \<noteq> Method j then False
      else if Field i \<noteq> [] \<and> Field i \<noteq> Field j then False
      else True)"

definition IsChildOf :: "ident \<Rightarrow> ident \<Rightarrow> bool" where
  "IsChildOf i j = IsParentOf j i"

definition GetPackage :: "ident \<Rightarrow> ident" where
  "GetPackage i =
     NilIdentifier\<lparr> Module := Module i, Package := Package i, NodeType := NodeTypePackage \<rparr>"

definition GetModule :: "ident \<Rightarrow> ident" where
  "GetModule i = NilIdentifier\<lparr> Module := Module i, NodeType := NodeTypeModule \<rparr>"

definition GetTypeIdentifier :: "ident \<Rightarrow> ident" where
  "GetTypeIdentifier i =
     NilIdentifier\<lparr> Module := Module i, Package := Package i, Type := Type i, NodeType := NodeTypeType \<rparr>"

subsection \<open>The parser\<close>

definition ParseIdentifier :: "gostring \<Rightarrow> ident" where
  "ParseIdentifier s =
     (let parts = split_n (CHR '':'') 3 s;
          main = split_n (CHR ''.'') 3 (parts ! 0);
          i = NilIdentifier;
          i = (if 0 < length main then i\<lparr> Type := main ! (length main - 1) \<rparr> else i);
          i = (if 1 < length main then i\<lparr> Package := main ! (length main - 2) \<rparr> else i);
          i = (if 2 < length main then i\<lparr> Module := main ! (length main - 3) \<rparr> else i);
          i = (if 1 < length parts then i\<lparr> Method := parts ! 1 \<rparr> else i)
      in if 2 < length parts then i\<lparr> Field := parts ! 2 \<rparr> else i)"


subsection \<open>\<open>IdentityKey\<close> keeps every component\<close>

lemma quoted_list_inj:
  assumes "length xs = length ys"
    and "join_with '','' (map (go_quote u) xs) @ x = join_with '','' (map (go_quote u) ys) @ y"
  shows "xs = ys \<and> x = y"
  using assms
proof (induction xs ys rule: list_induct2)
  case Nil
  then show ?case by simp
next
  case (Cons a xs b ys)
  show ?case
  proof (cases xs)
    case Nil
    with Cons.hyps have "ys = []" by simp
    with Nil Cons.prems have "go_quote u a @ x = go_quote u b @ y" by simp
    from go_quote_inj_append [OF this] Nil \<open>ys = []\<close> show ?thesis by simp
  next
    case (Cons a' xs')
    with Cons.hyps obtain b' ys' where ys: "ys = b' # ys'" by (cases ys) auto
    from Cons.prems have
      "go_quote u a @ '','' @ join_with '','' (map (go_quote u) xs) @ x =
       go_quote u b @ '','' @ join_with '','' (map (go_quote u) ys) @ y"
      by (simp add: Cons ys)
    from go_quote_inj_append [OF this] Cons.IH show ?thesis by simp
  qed
qed

lemma IdentityKey_components:
  "IdentityKey u i = IdentityKey u j \<longleftrightarrow> key_components u i = key_components u j"
proof
  assume "IdentityKey u i = IdentityKey u j"
  then have "join_with '','' (map (go_quote u) (key_components u i)) @ '']'' =
    join_with '','' (map (go_quote u) (key_components u j)) @ '']''"
    by (simp add: IdentityKey_def)
  moreover have "length (key_components u i) = length (key_components u j)"
    by (simp add: key_components_def)
  ultimately show "key_components u i = key_components u j" using quoted_list_inj by blast
qed (simp add: IdentityKey_def)

text \<open>C6: the persistence key of an identifier is canonical and lossless, whatever bytes its components
  hold: two identifiers have the same \<open>IdentityKey\<close> exactly when they agree on every component and on
  the lower-cased effective node type.\<close>

theorem IdentityKey_lossless:
  "IdentityKey u i = IdentityKey u j \<longleftrightarrow>
     to_lower u (GetNodeType i) = to_lower u (GetNodeType j) \<and> Module i = Module j \<and>
     Package i = Package j \<and> Type i = Type j \<and> Method i = Method j \<and> Field i = Field j \<and>
     Signature i = Signature j"
  by (auto simp: IdentityKey_components key_components_def)

subsection \<open>The parent relation\<close>

lemma put_set_apply: "put_set k v m x = (if x = k \<and> v \<noteq> [] then Some v else m x)"
  by (simp add: put_set_def)

text \<open>The set components of an identifier as a partial map: what \<open>AsMap\<close> holds besides the
  signature and the node type.\<close>

definition set_components :: "ident \<Rightarrow> (gostring \<rightharpoonup> gostring)" where
  "set_components i = AsMap ascii_tables (i\<lparr>Signature := [], NodeType := NodeTypeUnknown\<rparr>)"
definition component :: "gostring \<Rightarrow> ident \<Rightarrow> gostring" where
  "component k i =
     (if k = ''module'' then Module i else if k = ''package'' then Package i
      else if k = ''type'' then Type i else if k = ''method'' then Method i
      else if k = ''field'' then Field i else [])"

lemma component_simps [simp]:
  "component ''module'' i = Module i" "component ''package'' i = Package i"
  "component ''type'' i = Type i" "component ''method'' i = Method i"
  "component ''field'' i = Field i"
  by (simp_all add: component_def)

lemma component_cases:
  "component k i = [] \<or> k = ''module'' \<or> k = ''package'' \<or> k = ''type'' \<or> k = ''method'' \<or> k = ''field''"
  by (simp add: component_def)

lemma set_components_apply:
  "set_components i k = (if component k i = [] then None else Some (component k i))"
  by (simp add: set_components_def AsMap_def Let_def put_set_apply component_def)

lemma IsParentOf_iff:
  "IsParentOf i j \<longleftrightarrow>
     (Module i = [] \<or> Module i = Module j) \<and> (Package i = [] \<or> Package i = Package j) \<and>
     (Type i = [] \<or> Type i = Type j) \<and> (Method i = [] \<or> Method i = Method j) \<and>
     (Field i = [] \<or> Field i = Field j)"
  by (auto simp: IsParentOf_def)

lemma IsParentOf_component:
  "IsParentOf i j \<longleftrightarrow> (\<forall>k. component k i = [] \<or> component k i = component k j)"
proof
  assume "IsParentOf i j"
  then have p: "Module i = [] \<or> Module i = Module j" "Package i = [] \<or> Package i = Package j"
    "Type i = [] \<or> Type i = Type j" "Method i = [] \<or> Method i = Method j"
    "Field i = [] \<or> Field i = Field j"
    unfolding IsParentOf_iff by blast+
  show "\<forall>k. component k i = [] \<or> component k i = component k j"
  proof
    fix k
    consider "component k i = []" | "k = ''module''" | "k = ''package''" | "k = ''type''"
      | "k = ''method''" | "k = ''field''"
      using component_cases [of k i] by (elim disjE)
    then show "component k i = [] \<or> component k i = component k j"
      by cases (simp_all only: component_simps p simp_thms)
  qed
next
  assume a: "\<forall>k. component k i = [] \<or> component k i = component k j"
  show "IsParentOf i j"
    unfolding IsParentOf_iff
    using a [rule_format, of "''module''"] a [rule_format, of "''package''"]
      a [rule_format, of "''type''"] a [rule_format, of "''method''"] a [rule_format, of "''field''"]
    by (simp only: component_simps)
qed

text \<open>\<open>IsParentOf\<close> is inclusion of partial maps: one identifier is a parent of another exactly
  when every component it sets is set to the same value in the other.\<close>

theorem IsParentOf_submap: "IsParentOf i j \<longleftrightarrow> set_components i \<subseteq>\<^sub>m set_components j"
proof -
  have "set_components i \<subseteq>\<^sub>m set_components j \<longleftrightarrow>
    (\<forall>k. component k i = [] \<or> component k i = component k j)"
    unfolding map_le_def dom_def set_components_apply by (auto split: if_splits)
  then show ?thesis by (simp only: IsParentOf_component)
qed

lemma IsParentOf_refl [simp]: "IsParentOf i i" by (simp add: IsParentOf_iff)
lemma IsParentOf_trans: "IsParentOf i j \<Longrightarrow> IsParentOf j k \<Longrightarrow> IsParentOf i k"
  unfolding IsParentOf_component by metis

lemma enclosing_parents:
  "IsParentOf (GetModule i) (GetPackage i)" "IsParentOf (GetPackage i) (GetTypeIdentifier i)"
  "IsParentOf (GetTypeIdentifier i) i"
  by (simp_all add: IsParentOf_iff GetModule_def GetPackage_def GetTypeIdentifier_def NilIdentifier_def)

subsection \<open>\<open>ParseIdentifier\<close> and \<open>String\<close>\<close>

text \<open>What \<open>String\<close> writes for a node that is neither an endpoint nor a field.\<close>

definition plain :: "ident \<Rightarrow> bool" where
  "plain i \<longleftrightarrow> NodeType i \<noteq> NodeTypeEndpoint \<and> NodeType i \<noteq> NodeTypeField"

definition contiguous :: "ident \<Rightarrow> bool" where
  "contiguous i \<longleftrightarrow> (Module i \<noteq> [] \<longrightarrow> Package i \<noteq> []) \<and> (Package i \<noteq> [] \<longrightarrow> Type i \<noteq> [])"

definition separator_free :: "ident \<Rightarrow> bool" where
  "separator_free i \<longleftrightarrow>
     (\<forall>c \<in> set (Module i) \<union> set (Package i) \<union> set (Type i). c \<noteq> CHR ''.'' \<and> c \<noteq> CHR '':'') \<and>
     CHR '':'' \<notin> set (Method i)"

lemma contiguous_parts:
  assumes "contiguous i"
  obtains "Module i = []" "Package i = []" "Type i = []" "nonempty_parts i = []"
  | "Module i = []" "Package i = []" "Type i \<noteq> []" "nonempty_parts i = [Type i]"
  | "Module i = []" "Package i \<noteq> []" "Type i \<noteq> []" "nonempty_parts i = [Package i, Type i]"
  | "Module i \<noteq> []" "Package i \<noteq> []" "Type i \<noteq> []" "nonempty_parts i = [Module i, Package i, Type i]"
  using assms by (cases "Module i = []"; cases "Package i = []"; cases "Type i = []")
    (simp_all add: contiguous_def nonempty_parts_def)

lemma split_main:
  assumes "contiguous i" "separator_free i"
  shows "split_n (CHR ''.'') 3 (join_with ''.'' (nonempty_parts i)) =
    (if nonempty_parts i = [] then [[]] else nonempty_parts i)"
proof -
  have "CHR ''.'' \<notin> set (Module i)" "CHR ''.'' \<notin> set (Package i)" "CHR ''.'' \<notin> set (Type i)"
    using assms(2) by (auto simp: separator_free_def)
  with assms(1) show ?thesis
    by (cases rule: contiguous_parts) (simp_all add: numeral_3_eq_3 cut_at_found cut_at_absent)
qed

lemma main_no_colon:
  assumes "contiguous i" "separator_free i"
  shows "CHR '':'' \<notin> set (join_with ''.'' (nonempty_parts i))"
proof -
  have "CHR '':'' \<notin> set (Module i)" "CHR '':'' \<notin> set (Package i)" "CHR '':'' \<notin> set (Type i)"
    using assms(2) by (auto simp: separator_free_def)
  with assms(1) show ?thesis by (cases rule: contiguous_parts) simp_all
qed

lemma plain_String:
  assumes "plain i" "Signature i = []"
  shows "String i = join_with ''.'' (nonempty_parts i) @
     (if Field i \<noteq> [] then '':'' @ Method i @ '':'' @ Field i
      else if Method i \<noteq> [] then '':'' @ Method i else [])"
  using assms by (simp add: String_def plain_def Let_def)

lemma split_colons:
  assumes "CHR '':'' \<notin> set a" "CHR '':'' \<notin> set b"
  shows "split_n (CHR '':'') 3 a = [a]" "split_n (CHR '':'') 3 (a @ '':'' @ b) = [a, b]"
    "split_n (CHR '':'') 3 (a @ '':'' @ b @ '':'' @ c) = [a, b, c]"
  using assms by (simp_all add: numeral_3_eq_3 cut_at_found cut_at_absent)

text \<open>C9: \<open>ParseIdentifier\<close> recovers every component of an identifier from its \<open>String\<close> form when the
  node is neither an endpoint nor a field, no outer component is missing before an inner one, the
  components hold no separator and there is no signature; only the node type and the id are lost.\<close>

theorem parse_String:
  assumes "plain i" "contiguous i" "separator_free i" "Signature i = []"
  shows "ParseIdentifier (String i) = i\<lparr>IdPtr := None, NodeType := NodeTypeUnknown\<rparr>"
proof -
  let ?main = "join_with ''.'' (nonempty_parts i)"
  have m: "CHR '':'' \<notin> set ?main" "CHR '':'' \<notin> set (Method i)"
    using main_no_colon assms(2,3) by (auto simp: separator_free_def)
  have "split_n (CHR '':'') 3 (String i) =
    (if Field i \<noteq> [] then [?main, Method i, Field i] else if Method i \<noteq> [] then [?main, Method i] else [?main])"
    using split_colons [OF m] by (simp add: plain_String [OF assms(1,4)])
  with assms(2) show ?thesis
    using split_main [OF assms(2,3)] assms(4)
    by (cases rule: contiguous_parts) (simp_all add: ParseIdentifier_def NilIdentifier_def)
qed

definition ident_of :: "gostring \<Rightarrow> gostring \<Rightarrow> gostring \<Rightarrow> ident" where
  "ident_of m p t = NilIdentifier\<lparr> Module := m, Package := p, Type := t \<rparr>"

theorem parse_String_witness:
  "ParseIdentifier (String (ident_of ''a'' ''b'' ''c'')) = ident_of ''a'' ''b'' ''c''"
  using parse_String [of "ident_of ''a'' ''b'' ''c''"]
  by (simp add: ident_of_def plain_def contiguous_def separator_free_def NilIdentifier_def node_type_defs)

text \<open>The dotted form is not parsed back for a field node, where \<open>String\<close> writes two dots, nor for a
  signature, which \<open>ParseIdentifier\<close> leaves on the last component.\<close>

lemma String_record_field:
  "f \<noteq> [] \<Longrightarrow> t \<noteq> [] \<Longrightarrow>
   String (NilIdentifier\<lparr> Type := t, Field := f, NodeType := NodeTypeField \<rparr>) = t @ ''..'' @ f"
  by (simp add: String_def nonempty_parts_def NilIdentifier_def node_type_defs)

lemma parse_signature:
  "ParseIdentifier (String (NilIdentifier\<lparr> Type := ''T'', Method := ''m'', Signature := ''int'' \<rparr>)) =
   NilIdentifier\<lparr> Type := ''T'', Method := ''m#int'' \<rparr>"
  by (simp add: String_def nonempty_parts_def NilIdentifier_def node_type_defs ParseIdentifier_def
      numeral_3_eq_3)

text \<open>\<open>SymbolKey\<close>, the text the deterministic id is hashed from, is not lossless: two identifiers that
  \<open>IdentityKey\<close> tells apart share it, and with it the id \<open>GetUUID\<close> computes for them, whatever the
  hash is.\<close>

theorem SymbolKey_lossy:
  "SymbolKey u (ident_of ''a.b'' ''c'' ''d'') = SymbolKey u (ident_of ''a'' ''b.c'' ''d'') \<and>
   GetUUID sha1 u (ident_of ''a.b'' ''c'' ''d'') = GetUUID sha1 u (ident_of ''a'' ''b.c'' ''d'') \<and>
   IdentityKey u (ident_of ''a.b'' ''c'' ''d'') \<noteq> IdentityKey u (ident_of ''a'' ''b.c'' ''d'')"
proof -
  have "SymbolKey u (ident_of ''a.b'' ''c'' ''d'') = SymbolKey u (ident_of ''a'' ''b.c'' ''d'')"
    by (simp add: SymbolKey_def String_def ident_of_def nonempty_parts_def NilIdentifier_def
        node_type_defs GetNodeType_def)
  moreover have "key_components u (ident_of ''a.b'' ''c'' ''d'') \<noteq> key_components u (ident_of ''a'' ''b.c'' ''d'')"
    by (simp add: key_components_def ident_of_def)
  ultimately show ?thesis
    by (simp add: IdentityKey_components GetUUID_def ident_of_def NilIdentifier_def)
qed

subsection \<open>The builder\<close>

record identifier_builder =
  builder_id :: ident

definition NewID :: identifier_builder where
  "NewID = \<lparr> builder_id = NilIdentifier \<rparr>"

definition builder_Module :: "identifier_builder \<Rightarrow> gostring \<Rightarrow> identifier_builder" where
  "builder_Module b v = b\<lparr> builder_id := (builder_id b)\<lparr> Module := v \<rparr> \<rparr>"

definition builder_Package :: "identifier_builder \<Rightarrow> gostring \<Rightarrow> identifier_builder" where
  "builder_Package b v = b\<lparr> builder_id := (builder_id b)\<lparr> Package := v \<rparr> \<rparr>"

definition builder_Type :: "identifier_builder \<Rightarrow> gostring \<Rightarrow> identifier_builder" where
  "builder_Type b v = b\<lparr> builder_id := (builder_id b)\<lparr> Type := v \<rparr> \<rparr>"

definition builder_Method :: "identifier_builder \<Rightarrow> gostring \<Rightarrow> identifier_builder" where
  "builder_Method b v = b\<lparr> builder_id := (builder_id b)\<lparr> Method := v \<rparr> \<rparr>"

definition builder_Field :: "identifier_builder \<Rightarrow> gostring \<Rightarrow> identifier_builder" where
  "builder_Field b v = b\<lparr> builder_id := (builder_id b)\<lparr> Field := v \<rparr> \<rparr>"

definition builder_NodeType :: "identifier_builder \<Rightarrow> node_type \<Rightarrow> identifier_builder" where
  "builder_NodeType b v = b\<lparr> builder_id := (builder_id b)\<lparr> NodeType := v \<rparr> \<rparr>"

definition builder_Build :: "identifier_builder \<Rightarrow> ident" where
  "builder_Build b = builder_id b"

lemma ident_of_built:
  "ident_of m p t = builder_Build (builder_Type (builder_Package (builder_Module NewID m) p) t)"
  by (simp add: ident_of_def builder_Build_def NewID_def builder_Module_def builder_Package_def builder_Type_def)

end
