(* ===== verification/Symbol_Handle.thy ===== *)
theory Symbol_Handle
  imports Go_Strings "HOL-Library.Word"
begin

text \<open>
  The 64-bit symbol handles of \<open>storage/symbolhandle/handle.go\<close> and the kind registry of
  \<open>storage/symbolhandle/kind.go\<close>. Machine integers are words of their width: \<open>uint64\<close> and
  \<open>int64\<close> are \<^typ>\<open>64 word\<close> (an \<open>int64\<close> is read by \<open>sint\<close>), \<open>uint8\<close> is \<^typ>\<open>8 word\<close>. The
  lemmas give the value of a packed handle, from which the round trips, the order of handles and the
  exactness of the three range scans follow, and characterise when a registry is built and what it
  holds.
\<close>

unbundle bit_operations_syntax

subsection \<open>The layout\<close>

definition ModuleBits :: nat where "ModuleBits = 11"
definition PackageBits :: nat where "PackageBits = 16"
definition VisibilityBits :: nat where "VisibilityBits = 1"
definition KindBits :: nat where "KindBits = 6"
definition LocalBits :: nat where "LocalBits = 29"

definition kindShift :: nat where "kindShift = LocalBits"
definition visibilityShift :: nat where "visibilityShift = kindShift + KindBits"
definition packageShift :: nat where "packageShift = visibilityShift + VisibilityBits"
definition moduleShift :: nat where "moduleShift = packageShift + PackageBits"

lemmas layout_defs = ModuleBits_def PackageBits_def VisibilityBits_def KindBits_def LocalBits_def
  kindShift_def visibilityShift_def packageShift_def moduleShift_def

definition ones :: "nat \<Rightarrow> 64 word" where
  "ones n = push_bit n 1 - 1"

definition MaxModule :: "64 word" where "MaxModule = ones ModuleBits"
definition MaxPackage :: "64 word" where "MaxPackage = ones PackageBits"
definition MaxLocal :: "64 word" where "MaxLocal = ones LocalBits"
definition MaxKind :: "8 word" where "MaxKind = push_bit KindBits 1 - 1"

definition ReservedModuleNumber :: "gostring \<Rightarrow> 64 word \<times> bool" where
  "ReservedModuleNumber key =
     (if key = '''' then (0, True) else if key = ''std'' then (1, True) else (0, False))"

record handle_fields =
  FModule :: "64 word"
  FPackage :: "64 word"
  FVisibility :: "8 word"
  FKind :: "8 word"
  FLocal :: "64 word"

record handle_range =
  Low :: "64 word"
  High :: "64 word"

definition Contains :: "handle_range \<Rightarrow> 64 word \<Rightarrow> bool" where
  "Contains r h \<longleftrightarrow> Low r \<le>s h \<and> h \<le>s High r"

datatype handle_error =
  KindZeroReserved
| FieldExceeds gostring "64 word" nat
| SignBitSet "64 word"
| HandleKindZero "64 word"

subsection \<open>Packing and unpacking\<close>

definition field_budgets :: "handle_fields \<Rightarrow> (gostring \<times> 64 word \<times> nat) list" where
  "field_budgets f =
     [(''module'', FModule f, ModuleBits), (''package'', FPackage f, PackageBits),
      (''visibility'', ucast (FVisibility f), VisibilityBits), (''kind'', ucast (FKind f), KindBits),
      (''local'', FLocal f, LocalBits)]"

definition pack :: "handle_fields \<Rightarrow> (handle_error, 64 word) outcome" where
  "pack f =
     (case find (\<lambda>(name, v, bits). ones bits < v) (field_budgets f) of
        Some (name, v, bits) \<Rightarrow> Inl (FieldExceeds name v bits)
      | None \<Rightarrow> Inr (push_bit moduleShift (FModule f) OR push_bit packageShift (FPackage f)
                      OR push_bit visibilityShift (ucast (FVisibility f))
                      OR push_bit kindShift (ucast (FKind f)) OR FLocal f))"

definition Pack :: "handle_fields \<Rightarrow> (handle_error, 64 word) outcome" where
  "Pack f = (if FKind f = 0 then Inl KindZeroReserved else pack f)"

definition Unpack :: "64 word \<Rightarrow> (handle_error, handle_fields) outcome" where
  "Unpack h =
     (if h <s 0 then Inl (SignBitSet h)
      else
        let f = \<lparr> FModule = drop_bit moduleShift h AND MaxModule,
                  FPackage = drop_bit packageShift h AND MaxPackage,
                  FVisibility = ucast (drop_bit visibilityShift h AND ones VisibilityBits),
                  FKind = ucast (drop_bit kindShift h AND ucast MaxKind),
                  FLocal = h AND MaxLocal \<rparr>
        in if FKind f = 0 then Inl (HandleKindZero h) else Inr f)"

definition low_fields :: "64 word \<Rightarrow> 64 word \<Rightarrow> 8 word \<Rightarrow> 8 word \<Rightarrow> handle_fields" where
  "low_fields m p v k = \<lparr> FModule = m, FPackage = p, FVisibility = v, FKind = k, FLocal = 0 \<rparr>"

definition PackageRange :: "64 word \<Rightarrow> 64 word \<Rightarrow> (handle_error, handle_range) outcome" where
  "PackageRange m p =
     and_then (pack (low_fields m p 0 0))
       (\<lambda>low. Inr \<lparr> Low = low, High = low OR ones packageShift \<rparr>)"

definition VisibilityRange :: "64 word \<Rightarrow> 64 word \<Rightarrow> 8 word \<Rightarrow> (handle_error, handle_range) outcome" where
  "VisibilityRange m p v =
     and_then (pack (low_fields m p v 0))
       (\<lambda>low. Inr \<lparr> Low = low, High = low OR ones visibilityShift \<rparr>)"

definition BucketRange :: "64 word \<Rightarrow> 64 word \<Rightarrow> 8 word \<Rightarrow> 8 word \<Rightarrow> (handle_error, handle_range) outcome" where
  "BucketRange m p v k =
     and_then (Pack (low_fields m p v k))
       (\<lambda>low. Inr \<lparr> Low = low, High = low OR MaxLocal \<rparr>)"

subsection \<open>The value of a handle\<close>

lemma ones_mask: "ones n = mask n"
  by (simp add: ones_def mask_eq_exp_minus_1)

lemma uint_ones: "n \<le> 64 \<Longrightarrow> uint (ones n) = 2 ^ n - 1"
  unfolding ones_mask by transfer (simp add: mask_eq_exp_minus_1 [symmetric])

lemma exceeds_iff: "n \<le> 64 \<Longrightarrow> ones n < v \<longleftrightarrow> 2 ^ n \<le> uint v"
  by (auto simp: word_less_def uint_ones)

definition fits :: "handle_fields \<Rightarrow> bool" where
  "fits f \<longleftrightarrow> uint (FModule f) < 2 ^ 11 \<and> uint (FPackage f) < 2 ^ 16 \<and> uint (FVisibility f) < 2 \<and>
     uint (FKind f) < 2 ^ 6 \<and> uint (FLocal f) < 2 ^ 29"

definition handle_value :: "handle_fields \<Rightarrow> int" where
  "handle_value f =
     uint (FModule f) * 2 ^ 52 + uint (FPackage f) * 2 ^ 36 + uint (FVisibility f) * 2 ^ 35 +
     uint (FKind f) * 2 ^ 29 + uint (FLocal f)"

lemma uint_ucast_8_64 [simp]: "uint (ucast (x :: 8 word) :: 64 word) = uint x"
  by (simp add: unsigned_ucast_eq take_bit_int_eq_self_iff) (use uint_lt2p [of x] in simp)

lemma or_push_bit: 
  assumes "0 \<le> l" "l < 2 ^ n" shows "push_bit n a OR l = a * 2 ^ n + (l :: int)"
proof -
  have "push_bit n a OR l = concat_bit n l a"
    using assms by (simp add: concat_bit_def take_bit_int_eq_self or.commute)
  then show ?thesis using assms by (simp add: concat_bit_eq take_bit_int_eq_self push_bit_eq_mult)
qed

lemma uint_push_bit:
  assumes "uint (x :: 64 word) < 2 ^ k" "n + k \<le> 64"
  shows "uint (push_bit n x) = push_bit n (uint x)"
proof -
  have "uint x * 2 ^ n < 2 ^ k * 2 ^ n" using assms(1) by simp
  also have "\<dots> = 2 ^ (n + k)" by (simp add: power_add)
  also have "\<dots> \<le> (2 :: int) ^ 64" using assms(2) by (intro power_increasing) auto
  finally have "take_bit 64 (push_bit n (uint x)) = push_bit n (uint x)"
    by (simp add: take_bit_int_eq_self_iff push_bit_eq_mult)
  then show ?thesis by (simp add: unsigned_push_bit_eq)
qed

lemma pack_word:
  assumes "fits f"
  shows "uint (push_bit 52 (FModule f) OR push_bit 36 (FPackage f)
                      OR push_bit 35 (ucast (FVisibility f))
                      OR push_bit 29 (ucast (FKind f)) OR FLocal f) = handle_value f"
proof -
  have b: "uint (FModule f) < 2 ^ 11" "uint (FPackage f) < 2 ^ 16" "uint (FVisibility f) < 2 ^ 1"
    "uint (FKind f) < 2 ^ 6" "uint (FLocal f) < 2 ^ 29"
    using assms by (auto simp: fits_def)
  have "uint (push_bit 52 (FModule f)) = push_bit 52 (uint (FModule f))"
    "uint (push_bit 36 (FPackage f)) = push_bit 36 (uint (FPackage f))"
    "uint (push_bit 35 (ucast (FVisibility f) :: 64 word)) = push_bit 35 (uint (FVisibility f))"
    "uint (push_bit 29 (ucast (FKind f) :: 64 word)) = push_bit 29 (uint (FKind f))"
    using uint_push_bit [of "FModule f" 11 52] uint_push_bit [of "FPackage f" 16 36]
      uint_push_bit [of "ucast (FVisibility f)" 1 35] uint_push_bit [of "ucast (FKind f)" 6 29] b
    by simp_all
  then have "uint (push_bit 52 (FModule f) OR push_bit 36 (FPackage f)
                      OR push_bit 35 (ucast (FVisibility f))
                      OR push_bit 29 (ucast (FKind f)) OR FLocal f) =
     push_bit 52 (uint (FModule f)) OR (push_bit 36 (uint (FPackage f)) OR
      (push_bit 35 (uint (FVisibility f)) OR (push_bit 29 (uint (FKind f)) OR uint (FLocal f))))"
    by (simp add: unsigned_or_eq or.assoc)
  also have "\<dots> = handle_value f"
    using b or_push_bit [of "uint (FLocal f)" 29 "uint (FKind f)"]
     or_push_bit [of "uint (FKind f) * 2 ^ 29 + uint (FLocal f)" 35 "uint (FVisibility f)"]
     or_push_bit [of "uint (FVisibility f) * 2 ^ 35 + (uint (FKind f) * 2 ^ 29 + uint (FLocal f))" 36 "uint (FPackage f)"]
     or_push_bit [of "uint (FPackage f) * 2 ^ 36 + (uint (FVisibility f) * 2 ^ 35 + (uint (FKind f) * 2 ^ 29 + uint (FLocal f)))" 52 "uint (FModule f)"]
    by (simp add: handle_value_def)
  finally show ?thesis .
qed

lemma find_budget:
  "find (\<lambda>(name, v, bits). ones bits < v) (field_budgets f) = None \<longleftrightarrow> fits f"
  by (auto simp: field_budgets_def fits_def layout_defs exceeds_iff)

lemma pack_Inr: "pack f = Inr h \<longleftrightarrow> fits f \<and> uint h = handle_value f"
proof (cases "fits f")
  case True
  then show ?thesis using pack_word [OF True] find_budget [of f]
    by (auto simp: pack_def layout_defs word_uint_eq_iff)
next
  case False
  then show ?thesis using find_budget [of f] by (auto simp: pack_def split: option.splits)
qed

lemma handle_value_bounds: "fits f \<Longrightarrow> 0 \<le> handle_value f \<and> handle_value f < 2 ^ 63"
  by (simp add: fits_def handle_value_def)


lemma uint_field: "uint (drop_bit n h AND ones k) = uint (h :: 64 word) div 2 ^ n mod 2 ^ k"
proof -
  have "take_bit 64 (uint h) = uint h" using uint_lt2p [of h] by (simp add: take_bit_int_eq_self_iff)
  then have "uint (take_bit k (drop_bit n h)) = take_bit k (drop_bit n (uint h))"
    by (simp add: unsigned_take_bit_eq unsigned_drop_bit_eq)
  then show ?thesis
    by (simp only: ones_mask take_bit_eq_mask [symmetric] take_bit_eq_mod [symmetric] drop_bit_eq_div [symmetric])
qed

lemma sint_positive: "uint (h :: 64 word) < 2 ^ 63 \<Longrightarrow> sint h = uint h"
proof -
  assume h: "uint h < 2 ^ 63"
  then have "\<not> bit (uint h) 63" by (simp add: bit_iff_odd)
  with h show ?thesis by (simp add: sint_uint signed_take_bit_eq_if_positive take_bit_int_eq_self_iff)
qed

lemma sint_negative: "2 ^ 63 \<le> uint (h :: 64 word) \<Longrightarrow> sint h < 0"
proof -
  assume h: "2 ^ 63 \<le> uint h"
  have "uint h < 2 ^ 64" using uint_lt2p [of h] by simp
  with h have "uint h div 2 ^ 63 = 1" by (intro int_div_pos_eq [where r = "uint h - 2 ^ 63"]) simp_all
  then have "bit (uint h) 63" by (simp add: bit_iff_odd)
  then show ?thesis by (simp add: sint_uint)
qed

lemma sless_zero: "h <s 0 \<longleftrightarrow> 2 ^ 63 \<le> uint (h :: 64 word)"
  using sint_positive [of h] sint_negative [of h] uint_ge_0 [of h]
  by (cases "uint h < 2 ^ 63") (simp_all add: word_sless_alt)

lemma digit_div: "0 \<le> l \<Longrightarrow> l < b \<Longrightarrow> (a * b + l) div b = (a :: int)"
  by (simp add: div_add1_eq)

lemma digit_mod: "0 \<le> l \<Longrightarrow> l < b \<Longrightarrow> (a * b + l) mod b = (l :: int)"
  by (simp add: mod_add_eq [symmetric])

lemma div_chain:
  "(v :: int) div 2 ^ 35 = v div 2 ^ 29 div 2 ^ 6" "v div 2 ^ 36 = v div 2 ^ 29 div 2 ^ 6 div 2"
  "v div 2 ^ 52 = v div 2 ^ 29 div 2 ^ 6 div 2 div 2 ^ 16"
  by (simp_all flip: zdiv_zmult2_eq)

lemma handle_prefixes:
  assumes "fits f"
  shows "handle_value f div 2 ^ 29 =
      ((uint (FModule f) * 2 ^ 16 + uint (FPackage f)) * 2 + uint (FVisibility f)) * 2 ^ 6 + uint (FKind f)"
    "handle_value f div 2 ^ 35 = (uint (FModule f) * 2 ^ 16 + uint (FPackage f)) * 2 + uint (FVisibility f)"
    "handle_value f div 2 ^ 36 = uint (FModule f) * 2 ^ 16 + uint (FPackage f)"
    "handle_value f div 2 ^ 52 = uint (FModule f)"
    "handle_value f mod 2 ^ 29 = uint (FLocal f)"
proof -
  let ?p = "uint (FModule f) * 2 ^ 16 + uint (FPackage f)"
  let ?v = "?p * 2 + uint (FVisibility f)"
  let ?k = "?v * 2 ^ 6 + uint (FKind f)"
  have h: "handle_value f = ?k * 2 ^ 29 + uint (FLocal f)" by (simp add: handle_value_def)
  have b: "uint (FPackage f) < 2 ^ 16" "uint (FVisibility f) < 2" "uint (FKind f) < 2 ^ 6" "uint (FLocal f) < 2 ^ 29"
    using assms by (simp_all add: fits_def)
  show k: "handle_value f div 2 ^ 29 = ?k" "handle_value f mod 2 ^ 29 = uint (FLocal f)"
    unfolding h by (rule digit_div digit_mod; simp only: uint_ge_0 b)+
  show "handle_value f div 2 ^ 35 = ?v" "handle_value f div 2 ^ 36 = ?p" "handle_value f div 2 ^ 52 = uint (FModule f)"
    unfolding div_chain k by (simp_all only: digit_div uint_ge_0 b)
qed

lemma handle_digits:
  assumes "fits f"
  shows "handle_value f div 2 ^ 36 mod 2 ^ 16 = uint (FPackage f)"
    "handle_value f div 2 ^ 35 mod 2 = uint (FVisibility f)"
    "handle_value f div 2 ^ 29 mod 2 ^ 6 = uint (FKind f)"
proof -
  have b: "uint (FPackage f) < 2 ^ 16" "uint (FVisibility f) < 2" "uint (FKind f) < 2 ^ 6"
    using assms by (simp_all add: fits_def)
  show "handle_value f div 2 ^ 36 mod 2 ^ 16 = uint (FPackage f)"
    "handle_value f div 2 ^ 35 mod 2 = uint (FVisibility f)"
    "handle_value f div 2 ^ 29 mod 2 ^ 6 = uint (FKind f)"
    unfolding handle_prefixes [OF assms] by (simp_all only: digit_mod uint_ge_0 b)
qed

lemma digits_value:
  assumes "fits f" "fits g" "handle_value f = handle_value g"
  shows "f = (g :: handle_fields)"
proof -
  note d = handle_digits [OF assms(1), unfolded assms(3)] handle_digits [OF assms(2)]
    handle_prefixes(4,5) [OF assms(1), unfolded assms(3)] handle_prefixes(4,5) [OF assms(2)]
  have "uint (FModule f) = uint (FModule g)" "uint (FPackage f) = uint (FPackage g)"
    "uint (FVisibility f) = uint (FVisibility g)" "uint (FKind f) = uint (FKind g)" "uint (FLocal f) = uint (FLocal g)"
    by (simp_all only: d [symmetric])
  moreover have "handle_fields.more f = handle_fields.more g" by (rule old.unit.exhaust [of "handle_fields.more f"]) simp
  ultimately show ?thesis by (intro handle_fields.equality) (simp_all only: word_uint_eq_iff)
qed

definition fields_of :: "64 word \<Rightarrow> handle_fields" where
  "fields_of h = \<lparr> FModule = drop_bit moduleShift h AND MaxModule,
                  FPackage = drop_bit packageShift h AND MaxPackage,
                  FVisibility = ucast (drop_bit visibilityShift h AND ones VisibilityBits),
                  FKind = ucast (drop_bit kindShift h AND ucast MaxKind),
                  FLocal = h AND MaxLocal \<rparr>"

lemma uint_ucast_64_8: "uint (x :: 64 word) < 256 \<Longrightarrow> uint (ucast x :: 8 word) = uint x"
  by (simp add: unsigned_ucast_eq take_bit_int_eq_self_iff)

lemma ucast_MaxKind: "(ucast MaxKind :: 64 word) = ones 6"
  by (simp add: MaxKind_def ones_def KindBits_def)

lemma uint_fields_of:
  "uint (FModule (fields_of h)) = uint h div 2 ^ 52 mod 2 ^ 11"
  "uint (FPackage (fields_of h)) = uint h div 2 ^ 36 mod 2 ^ 16"
  "uint (FVisibility (fields_of h)) = uint h div 2 ^ 35 mod 2"
  "uint (FKind (fields_of h)) = uint h div 2 ^ 29 mod 2 ^ 6"
  "uint (FLocal (fields_of h)) = uint h mod 2 ^ 29"
proof -
  note f = uint_field [of _ h]
  show "uint (FModule (fields_of h)) = uint h div 2 ^ 52 mod 2 ^ 11"
    "uint (FPackage (fields_of h)) = uint h div 2 ^ 36 mod 2 ^ 16"
    using f [of 52 11] f [of 36 16] by (simp_all add: fields_of_def layout_defs MaxModule_def MaxPackage_def)
  show "uint (FLocal (fields_of h)) = uint h mod 2 ^ 29"
    using f [of 0 29] by (simp add: fields_of_def layout_defs MaxLocal_def)
  show "uint (FVisibility (fields_of h)) = uint h div 2 ^ 35 mod 2"
    using f [of 35 1] by (simp add: fields_of_def layout_defs) (subst uint_ucast_64_8; simp)
  show "uint (FKind (fields_of h)) = uint h div 2 ^ 29 mod 2 ^ 6"
    using f [of 29 6] by (simp add: fields_of_def layout_defs ucast_MaxKind) (subst uint_ucast_64_8; simp)
qed

lemma Unpack_alt:
  "Unpack h = (if 2 ^ 63 \<le> uint h then Inl (SignBitSet h)
     else if FKind (fields_of h) = 0 then Inl (HandleKindZero h) else Inr (fields_of h))"
  unfolding Unpack_def sless_zero Let_def fields_of_def [symmetric] by (rule refl)

lemma fields_of_fits: "fits (fields_of h)"
  unfolding fits_def uint_fields_of by simp

lemma horner:
  "q1 * 2 ^ 29 + l = v \<Longrightarrow> q2 * 2 ^ 6 + k = q1 \<Longrightarrow> q3 * 2 + w = q2 \<Longrightarrow> q4 * 2 ^ 16 + p = q3 \<Longrightarrow>
   q4 * 2 ^ 52 + p * 2 ^ 36 + w * 2 ^ 35 + k * 2 ^ 29 + l = (v :: int)"
  by auto

lemma fields_of_value: 
  assumes "uint h < 2 ^ 63" shows "handle_value (fields_of h) = uint h"
proof -
  let ?q1 = "uint h div 2 ^ 29" let ?q2 = "?q1 div 2 ^ 6" let ?q3 = "?q2 div 2" let ?q4 = "?q3 div 2 ^ 16"
  have "?q4 = uint h div 2 ^ 52" by (rule div_chain(3) [symmetric])
  also have "\<dots> < 2 ^ 11" using assms by (simp add: div_less_iff_less_mult)
  finally have m: "?q4 mod 2 ^ 11 = ?q4" by (simp add: div_int_pos_iff)
  show ?thesis
    unfolding handle_value_def uint_fields_of div_chain m by (rule horner) (rule div_mult_mod_eq)+
qed

lemma fields_of_pack: "fits f \<Longrightarrow> uint h = handle_value f \<Longrightarrow> fields_of h = f"
  using digits_value [of "fields_of h" f] fields_of_fits fields_of_value [of h] handle_value_bounds [of f]
  by simp

text \<open>C4: packing and unpacking are mutually inverse: a handle is the packing of some fields exactly when
  it unpacks to them, so no handle loses a bit of its fields and no accepted handle is left out.\<close>

theorem Pack_Unpack: "Pack f = Inr h \<longleftrightarrow> Unpack h = Inr f"
proof
  assume "Pack f = Inr h"
  then have "FKind f \<noteq> 0" "fits f" "uint h = handle_value f"
    by (auto simp: Pack_def pack_Inr split: if_splits)
  then show "Unpack h = Inr f"
    using fields_of_pack handle_value_bounds [of f] by (simp add: Unpack_alt)
next
  assume "Unpack h = Inr f"
  then have "uint h < 2 ^ 63" "FKind f \<noteq> 0" "f = fields_of h"
    by (auto simp: Unpack_alt split: if_splits)
  then show "Pack f = Inr h"
    by (simp add: Pack_def pack_Inr fields_of_fits fields_of_value)
qed

lemma Pack_Inr: "Pack f = Inr h \<longleftrightarrow> FKind f \<noteq> 0 \<and> fits f \<and> uint h = handle_value f"
  by (auto simp: Pack_def pack_Inr)

subsection \<open>Order and ranges\<close>

text \<open>The fields in the order of their bits.\<close>

definition field_key :: "handle_fields \<Rightarrow> int list" where
  "field_key f = [uint (FModule f), uint (FPackage f), uint (FVisibility f), uint (FKind f), uint (FLocal f)]"

lemma digit_less_aux:
  assumes "0 \<le> l'" "l < b" "a < (a' :: int)" "0 \<le> l"
  shows "a * b + l < a' * b + l'"
proof -
  have "(a + 1) * b \<le> a' * b" using assms by (intro mult_right_mono) simp_all
  with assms show ?thesis by (simp add: algebra_simps)
qed

lemma digit_less:
  assumes "0 \<le> l" "l < b" "0 \<le> l'" "l' < (b :: int)"
  shows "a * b + l < a' * b + l' \<longleftrightarrow> a < a' \<or> a = a' \<and> l < l'"
  using digit_less_aux [of l' l b a a'] digit_less_aux [of l l' b a' a] assms
  by (cases a a' rule: linorder_cases) simp_all

lemma digit_eq:
  "0 \<le> l \<Longrightarrow> l < c \<Longrightarrow> 0 \<le> l' \<Longrightarrow> l' < c \<Longrightarrow> a * c + l = a' * c + l' \<longleftrightarrow> a = a' \<and> l = (l' :: int)"
  by (metis digit_div digit_mod)

lemma handle_value_less:
  assumes "fits f" "fits g"
  shows "handle_value f < handle_value g \<longleftrightarrow> field_key f < field_key g"
proof -
  have horner: "handle_value f = (((uint (FModule f) * 2 ^ 16 + uint (FPackage f)) * 2 + uint (FVisibility f)) * 2 ^ 6
     + uint (FKind f)) * 2 ^ 29 + uint (FLocal f)" for f :: handle_fields
    by (simp add: handle_value_def)
  have b: "uint (FPackage f) < 2 ^ 16" "uint (FVisibility f) < 2" "uint (FKind f) < 2 ^ 6" "uint (FLocal f) < 2 ^ 29"
    "uint (FPackage g) < 2 ^ 16" "uint (FVisibility g) < 2" "uint (FKind g) < 2 ^ 6" "uint (FLocal g) < 2 ^ 29"
    using assms by (simp_all add: fits_def)
  show ?thesis
    unfolding horner
    by (simp only: digit_less b digit_eq uint_ge_0 field_key_def Cons_less_Cons not_less_Nil) blast
qed

text \<open>handles sort by module, package, visibility, kind, then local: the signed 64-bit order of two packed
  handles is the lexicographic order of their fields.\<close>

theorem handle_order:
  assumes "Pack f = Inr h" "Pack g = Inr h'"
  shows "h <s h' \<longleftrightarrow> field_key f < field_key g"
proof -
  from assms have f: "fits f" "uint h = handle_value f" and g: "fits g" "uint h' = handle_value g"
    by (auto simp: Pack_Inr)
  with handle_value_bounds [of f] handle_value_bounds [of g] have "sint h = handle_value f" "sint h' = handle_value g"
    using sint_positive [of h] sint_positive [of h'] by simp_all
  then have "h <s h' \<longleftrightarrow> handle_value f < handle_value g" by (simp add: word_sless_alt)
  with handle_value_less [OF f(1) g(1)] show ?thesis by simp
qed

lemma div_block: "0 < b \<Longrightarrow> a * b \<le> v \<and> v < (a + 1) * b \<longleftrightarrow> v div b = (a :: int)"
proof
  assume "0 < b" "a * b \<le> v \<and> v < (a + 1) * b"
  then show "v div b = a" by (intro int_div_pos_eq [where r = "v - a * b"]) (auto simp: algebra_simps)
next
  assume b: "0 < b" "v div b = a"
  have "v div b * b + v mod b = v" "0 \<le> v mod b" "v mod b < b" using b(1) by simp_all
  with b(2) show "a * b \<le> v \<and> v < (a + 1) * b" by (auto simp: algebra_simps)
qed

text \<open>An inclusive range whose low end has its low bits clear holds the handles with its prefix.\<close>

lemma range_contains:
  assumes "fits f" "uint h = handle_value f" "n < 63" "uint low = a * 2 ^ n" "uint low < 2 ^ 63"
  shows "Contains \<lparr> Low = low, High = low OR ones n \<rparr> h \<longleftrightarrow> handle_value f div 2 ^ n = a"
proof -
  have pos: "(0 :: int) < 2 ^ n" by simp
  have high: "uint (low OR ones n) = a * 2 ^ n + (2 ^ n - 1)"
    using or_push_bit [of "2 ^ n - 1" n a] assms(3,4)
    by (simp add: unsigned_or_eq uint_ones push_bit_eq_mult)
  have "(2 :: int) ^ 63 = 2 ^ (63 - n) * 2 ^ n" using assms(3) by (simp flip: power_add)
  then have "a * 2 ^ n < 2 ^ (63 - n) * 2 ^ n" using assms(4,5) by simp
  then have "a < 2 ^ (63 - n)" using pos by (rule mult_right_less_imp_less [OF _ less_imp_le])
  then have "(a + 1) * 2 ^ n \<le> 2 ^ (63 - n) * 2 ^ n" by (intro mult_right_mono) simp_all
  with \<open>(2 :: int) ^ 63 = _\<close> high have "uint (low OR ones n) < 2 ^ 63" by (simp add: algebra_simps)
  then have s: "sint (low OR ones n) = a * 2 ^ n + (2 ^ n - 1)" "sint low = a * 2 ^ n" "sint h = handle_value f"
    using sint_positive [of "low OR ones n"] high sint_positive [of low] assms(4,5) sint_positive [of h]
      handle_value_bounds [OF assms(1)] assms(2) by simp_all
  have "Contains \<lparr> Low = low, High = low OR ones n \<rparr> h \<longleftrightarrow>
    a * 2 ^ n \<le> handle_value f \<and> handle_value f < (a + 1) * 2 ^ n"
    by (auto simp: Contains_def word_sle_eq s algebra_simps)
  also have "\<dots> \<longleftrightarrow> handle_value f div 2 ^ n = a" using pos by (rule div_block)
  finally show ?thesis .
qed

lemma low_value:
  "handle_value (low_fields m p 0 0) = (uint m * 2 ^ 16 + uint p) * 2 ^ 36"
  "handle_value (low_fields m p v 0) = ((uint m * 2 ^ 16 + uint p) * 2 + uint v) * 2 ^ 35"
  "handle_value (low_fields m p v k) = (((uint m * 2 ^ 16 + uint p) * 2 + uint v) * 2 ^ 6 + uint k) * 2 ^ 29"
  by (simp_all add: low_fields_def handle_value_def)

lemma range_of_low:
  assumes "Pack f = Inr h" "pack g = Inr low" "handle_value g = a * 2 ^ n" "n < 63"
  shows "Contains \<lparr> Low = low, High = low OR ones n \<rparr> h \<longleftrightarrow> handle_value f div 2 ^ n = a"
  using assms handle_value_bounds [of g] by (intro range_contains) (auto simp: Pack_Inr pack_Inr)


lemma shift_small: "36 < (63 :: nat)" "35 < (63 :: nat)" "29 < (63 :: nat)"
  by simp_all

lemma fits_bounds:
  assumes "fits f"
  shows "uint (FPackage f) < 2 ^ 16" "uint (FVisibility f) < 2" "uint (FKind f) < 2 ^ 6" "uint (FLocal f) < 2 ^ 29"
  using assms by (simp_all add: fits_def)

lemma low_fields_simps [simp]:
  "FModule (low_fields m p v k) = m" "FPackage (low_fields m p v k) = p"
  "FVisibility (low_fields m p v k) = v" "FKind (low_fields m p v k) = k" "FLocal (low_fields m p v k) = 0"
  by (simp_all add: low_fields_def)

lemma PackageRange_exact:
  assumes f: "Pack f = Inr h" and r: "PackageRange m p = Inr r"
  shows "Contains r h \<longleftrightarrow> FModule f = m \<and> FPackage f = p"
proof -
  obtain low where low: "pack (low_fields m p 0 0) = Inr low" and rl: "r = \<lparr> Low = low, High = low OR ones 36 \<rparr>"
    using r by (auto simp: PackageRange_def and_then_Inr layout_defs)
  have fits: "fits f" "fits (low_fields m p 0 0)" using f low by (auto simp: Pack_Inr pack_Inr)
  note b = fits_bounds [OF fits(1)] fits_bounds [OF fits(2), unfolded low_fields_simps]
  show ?thesis
    unfolding rl range_of_low [OF f low low_value(1) shift_small(1)] handle_prefixes [OF fits(1)]
    by (simp only: digit_eq b uint_ge_0 word_uint_eq_iff conj_assoc)
qed

lemma VisibilityRange_exact:
  assumes f: "Pack f = Inr h" and r: "VisibilityRange m p v = Inr r"
  shows "Contains r h \<longleftrightarrow> FModule f = m \<and> FPackage f = p \<and> FVisibility f = v"
proof -
  obtain low where low: "pack (low_fields m p v 0) = Inr low" and rl: "r = \<lparr> Low = low, High = low OR ones 35 \<rparr>"
    using r by (auto simp: VisibilityRange_def and_then_Inr layout_defs)
  have fits: "fits f" "fits (low_fields m p v 0)" using f low by (auto simp: Pack_Inr pack_Inr)
  note b = fits_bounds [OF fits(1)] fits_bounds [OF fits(2), unfolded low_fields_simps]
  show ?thesis
    unfolding rl range_of_low [OF f low low_value(2) shift_small(2)] handle_prefixes [OF fits(1)]
    by (simp only: digit_eq b uint_ge_0 word_uint_eq_iff conj_assoc)
qed

lemma BucketRange_exact:
  assumes f: "Pack f = Inr h" and r: "BucketRange m p v k = Inr r"
  shows "Contains r h \<longleftrightarrow> FModule f = m \<and> FPackage f = p \<and> FVisibility f = v \<and> FKind f = k"
proof -
  obtain low where low: "pack (low_fields m p v k) = Inr low" and rl: "r = \<lparr> Low = low, High = low OR ones 29 \<rparr>"
    using r by (auto simp: BucketRange_def Pack_def and_then_Inr layout_defs MaxLocal_def split: if_splits)
  have fits: "fits f" "fits (low_fields m p v k)" using f low by (auto simp: Pack_Inr pack_Inr)
  note b = fits_bounds [OF fits(1)] fits_bounds [OF fits(2), unfolded low_fields_simps]
  show ?thesis
    unfolding rl range_of_low [OF f low low_value(3) shift_small(3)] handle_prefixes [OF fits(1)]
    by (simp only: digit_eq b uint_ge_0 word_uint_eq_iff conj_assoc)
qed


text \<open>C5: the three range scans are exact: a packed handle lies in the range of a package, of a package and a
  visibility, or of a bucket, exactly when it has those fields.\<close>

theorem ranges_exact:
  assumes "Pack f = Inr h"
  shows "(PackageRange m p = Inr r \<longrightarrow> (Contains r h \<longleftrightarrow> FModule f = m \<and> FPackage f = p)) \<and>
    (VisibilityRange m p v = Inr r \<longrightarrow>
       (Contains r h \<longleftrightarrow> FModule f = m \<and> FPackage f = p \<and> FVisibility f = v)) \<and>
    (BucketRange m p v k = Inr r \<longrightarrow>
       (Contains r h \<longleftrightarrow> FModule f = m \<and> FPackage f = p \<and> FVisibility f = v \<and> FKind f = k))"
  using PackageRange_exact [OF assms] VisibilityRange_exact [OF assms] BucketRange_exact [OF assms] by blast

lemma pack_error:
  "pack f = Inl e \<Longrightarrow> \<exists>name v bits. e = FieldExceeds name v bits \<and> (name, v, bits) \<in> set (field_budgets f) \<and> 2 ^ bits \<le> uint v"
proof -
  assume "pack f = Inl e"
  then obtain name v bits where s: "find (\<lambda>(name, v, bits). ones bits < v) (field_budgets f) = Some (name, v, bits)"
    and e: "e = FieldExceeds name v bits"
    by (auto simp: pack_def split: option.splits)
  from s have m: "(name, v, bits) \<in> set (field_budgets f)" "ones bits < v"
    by (auto simp: find_Some_iff in_set_conv_nth)
  moreover have "bits \<le> 64" using m(1) by (auto simp: field_budgets_def layout_defs)
  ultimately show ?thesis using e by (auto simp: exceeds_iff)
qed

lemma Pack_total:
  "(\<exists>h. Pack f = Inr h) \<longleftrightarrow> FKind f \<noteq> 0 \<and> fits f"
proof -
  have "fits f \<Longrightarrow> \<exists>h. pack f = Inr h" using find_budget [of f] by (simp add: pack_def)
  then show ?thesis by (auto simp: Pack_Inr Pack_def pack_Inr)
qed

text \<open>\<open>Pack\<close> succeeds exactly on a non-zero kind with every field within its bit budget, and the field an
  error names is one that exceeds its budget.\<close>

theorem Pack_outcome:
  "((\<exists>h. Pack f = Inr h) \<longleftrightarrow> FKind f \<noteq> 0 \<and> fits f) \<and>
   (\<forall>e. Pack f = Inl e \<longleftrightarrow> FKind f = 0 \<and> e = KindZeroReserved \<or> FKind f \<noteq> 0 \<and> pack f = Inl e) \<and>
   (\<forall>e. pack f = Inl e \<longrightarrow>
      (\<exists>name v bits. e = FieldExceeds name v bits \<and> (name, v, bits) \<in> set (field_budgets f) \<and> 2 ^ bits \<le> uint v))"
  using Pack_total [of f] pack_error [of f] by (auto simp: Pack_def)

theorem Pack_outcome_witness:
  "\<exists>name v bits. pack (low_fields 2048 0 0 1) = Inl (FieldExceeds name v bits) \<and> 2 ^ bits \<le> uint v"
proof -
  have "pack (low_fields 2048 0 0 1) = Inl (FieldExceeds ''module'' 2048 11)" by code_simp
  with Pack_outcome [of "low_fields 2048 0 0 1"] show ?thesis by blast
qed

definition sample_fields :: handle_fields where
  "sample_fields = \<lparr> FModule = 3, FPackage = 17, FVisibility = 1, FKind = 4, FLocal = 42 \<rparr>"

lemma sample_packed: "Pack sample_fields = Inr 13512003620438058"
  by code_simp

lemma sample_low_packed: "Pack (low_fields 3 17 1 4) = Inr 13512003620438016"
  by code_simp

theorem handle_order_witness:
  "((13512003620438016 :: 64 word) <s 13512003620438058) =
     (field_key (low_fields 3 17 1 4) < field_key sample_fields)"
  by (rule handle_order [OF sample_low_packed sample_packed])

theorem ranges_exact_witness:
  "Contains \<lparr> Low = 13512003620438016, High = 13512004157308927 \<rparr> 13512003620438058"
proof -
  have "BucketRange 3 17 1 4 = Inr \<lparr> Low = 13512003620438016, High = 13512004157308927 \<rparr>" by code_simp
  with ranges_exact [OF sample_packed] show ?thesis by (simp add: sample_fields_def)
qed

end
