(* ===== verification/Kind_Registry.thy ===== *)
theory Kind_Registry
  imports Symbol_Handle
begin

text \<open>
  The kind registry of \<open>storage/symbolhandle/kind.go\<close>: builtin and custom symbol kinds by name and by
  code. A Go map is a partial function; \<open>All\<close> ranges over one, which is the list of its values at
  the 256 codes, before it sorts them. \<open>Category\<close> and the error texts are strings and constructors
  of the source. The lemmas say exactly which custom kinds a registry accepts and what it then holds.
\<close>

type_synonym kind = "8 word"
type_synonym category = gostring

definition MaxBuiltinKind :: kind where "MaxBuiltinKind = 18"

definition categories :: "category list" where
  "categories = [''container'', ''type'', ''callable'', ''member'']"

record kind_spec =
  Code :: kind
  KName :: gostring
  KCategory :: category

definition spec :: "nat \<Rightarrow> gostring \<Rightarrow> category \<Rightarrow> kind_spec" where
  "spec code name category = \<lparr> Code = of_nat code, KName = name, KCategory = category \<rparr>"

definition builtinKinds :: "kind_spec list" where
  "builtinKinds =
     [spec 1 ''package'' ''container'', spec 2 ''type'' ''type'',
      spec 3 ''func'' ''callable'', spec 4 ''method'' ''callable'',
      spec 5 ''field'' ''member'', spec 6 ''var'' ''member'',
      spec 7 ''const'' ''member'', spec 8 ''builtin'' ''member'',
      spec 9 ''module'' ''container'', spec 10 ''interface'' ''type'',
      spec 11 ''constructor'' ''callable'', spec 12 ''record'' ''type'',
      spec 13 ''endpoint'' ''callable'', spec 14 ''table'' ''type'',
      spec 15 ''column'' ''member'', spec 16 ''index'' ''member'',
      spec 17 ''foreign_key'' ''member'', spec 18 ''annotation'' ''member'']"

datatype kind_error =
  UnknownCategory gostring
| NotNamespaced gostring
| NotCustomCode gostring kind
| SharedCode gostring gostring kind
| TwoCodes gostring kind kind
| NameNotRegistered gostring
| CodeNotRegistered kind

definition ParseCategory :: "gostring \<Rightarrow> (kind_error, category) outcome" where
  "ParseCategory name = (if name \<notin> set categories then Inl (UnknownCategory name) else Inr name)"

text \<open>The pattern \<open>^[a-z][a-z0-9_-]*(\.[a-z][a-z0-9_-]*)+$\<close>: at least two segments between dots.\<close>

definition segment :: "gostring \<Rightarrow> bool" where
  "segment s =
     (case s of [] \<Rightarrow> False
      | c # cs \<Rightarrow> CHR ''a'' \<le> c \<and> c \<le> CHR ''z'' \<and>
         (\<forall>d \<in> set cs. CHR ''a'' \<le> d \<and> d \<le> CHR ''z'' \<or> CHR ''0'' \<le> d \<and> d \<le> CHR ''9''
            \<or> d = CHR ''_'' \<or> d = CHR ''-''))"

definition customKindName :: "gostring \<Rightarrow> bool" where
  "customKindName s = (let ps = split_on (CHR ''.'') s in 2 \<le> length ps \<and> list_all segment ps)"

definition ValidateCustomKind :: "gostring \<Rightarrow> category \<Rightarrow> (kind_error, unit) outcome" where
  "ValidateCustomKind name category =
     (if \<not> customKindName name then Inl (NotNamespaced name)
      else and_then (ParseCategory category) (\<lambda>_. Inr ()))"

definition KindNamespace :: "gostring \<Rightarrow> gostring" where
  "KindNamespace name =
     (case cut_at (CHR ''.'') name of (namespace, _, found) \<Rightarrow> if \<not> found then [] else namespace)"

subsection \<open>The registry\<close>

record kinds =
  byName :: "gostring \<rightharpoonup> kind_spec"
  byCode :: "kind \<rightharpoonup> kind_spec"

definition register :: "kinds \<Rightarrow> kind_spec \<Rightarrow> kinds" where
  "register k s = \<lparr> byName = (byName k)(KName s \<mapsto> s), byCode = (byCode k)(Code s \<mapsto> s) \<rparr>"

definition empty_kinds :: kinds where
  "empty_kinds = \<lparr> byName = Map.empty, byCode = Map.empty \<rparr>"

fun add_custom :: "kinds \<Rightarrow> kind_spec list \<Rightarrow> (kind_error, kinds) outcome" where
  "add_custom k [] = Inr k"
| "add_custom k (s # ss) =
     (if Code s \<le> MaxBuiltinKind \<or> MaxKind < Code s then Inl (NotCustomCode (KName s) (Code s))
      else and_then (ValidateCustomKind (KName s) (KCategory s)) (\<lambda>_.
        case byCode k (Code s) of
          Some existing \<Rightarrow> Inl (SharedCode (KName existing) (KName s) (Code s))
        | None \<Rightarrow>
          (case byName k (KName s) of
             Some existing \<Rightarrow> Inl (TwoCodes (KName s) (Code existing) (Code s))
           | None \<Rightarrow> add_custom (register k s) ss)))"

definition NewKinds :: "kind_spec list \<Rightarrow> (kind_error, kinds) outcome" where
  "NewKinds custom = add_custom (foldl register empty_kinds builtinKinds) custom"

definition Builtins :: "kinds option" where
  "Builtins = (case NewKinds [] of Inl _ \<Rightarrow> None | Inr k \<Rightarrow> Some k)"

definition Lookup :: "kinds \<Rightarrow> gostring \<Rightarrow> (kind_error, kind_spec) outcome" where
  "Lookup k name = (case byName k name of None \<Rightarrow> Inl (NameNotRegistered name) | Some s \<Rightarrow> Inr s)"

definition Spec :: "kinds \<Rightarrow> kind \<Rightarrow> (kind_error, kind_spec) outcome" where
  "Spec k code = (case byCode k code of None \<Rightarrow> Inl (CodeNotRegistered code) | Some s \<Rightarrow> Inr s)"

definition All :: "kinds \<Rightarrow> kind_spec list" where
  "All k = sort_key (\<lambda>s. unat (Code s)) (List.map_filter (byCode k) (map of_nat [0..<256]))"

definition InCategory :: "kinds \<Rightarrow> category \<Rightarrow> gostring list" where
  "InCategory k category = map KName (filter (\<lambda>s. KCategory s = category) (All k))"

subsection \<open>Visibility\<close>

definition ParseVisibility :: "gostring \<Rightarrow> 8 word option" where
  "ParseVisibility name =
     (if name = ''internal'' then Some 0 else if name = ''exported'' then Some 1 else None)"

subsection \<open>What a registry holds\<close>

text \<open>A registry represents a list of kinds with distinct codes and distinct names.\<close>

definition represents :: "kinds \<Rightarrow> kind_spec list \<Rightarrow> bool" where
  "represents k ss \<longleftrightarrow>
     distinct (map Code ss) \<and> distinct (map KName ss) \<and>
     (\<forall>n s. byName k n = Some s \<longleftrightarrow> s \<in> set ss \<and> KName s = n) \<and>
     (\<forall>c s. byCode k c = Some s \<longleftrightarrow> s \<in> set ss \<and> Code s = c)"

lemma represents_empty: "represents empty_kinds []"
  by (simp add: represents_def empty_kinds_def)

lemma represents_free:
  assumes "represents k ss"
  shows "byCode k c = None \<longleftrightarrow> c \<notin> Code ` set ss" "byName k n = None \<longleftrightarrow> n \<notin> KName ` set ss"
  using assms unfolding represents_def by (metis image_iff not_None_eq)+

lemma represents_register:
  assumes "represents k ss" "byCode k (Code s) = None" "byName k (KName s) = None"
  shows "represents (register k s) (ss @ [s])"
proof -
  have new: "Code s \<notin> Code ` set ss" "KName s \<notin> KName ` set ss"
    using assms represents_free [OF assms(1)] by auto
  then have "sa \<in> set ss \<Longrightarrow> Code sa \<noteq> Code s" "sa \<in> set ss \<Longrightarrow> KName sa \<noteq> KName s" for sa
    by (metis image_eqI)+
  with new assms(1) show ?thesis unfolding represents_def by (auto simp: register_def)
qed

lemma represents_builtin_fold:
  "represents k ss \<Longrightarrow> distinct (map Code (ss @ ts)) \<Longrightarrow> distinct (map KName (ss @ ts)) \<Longrightarrow>
   represents (foldl register k ts) (ss @ ts)"
proof (induction ts arbitrary: k ss)
  case Nil
  then show ?case by simp
next
  case (Cons t ts)
  have "represents (register k t) (ss @ [t])"
    using Cons.prems by (intro represents_register) (auto simp: represents_free)
  from Cons.IH [OF this] Cons.prems(2,3) show ?case by simp
qed

lemma builtin_distinct: "distinct (map Code builtinKinds)" "distinct (map KName builtinKinds)"
  by code_simp+

lemma represents_builtins: "represents (foldl register empty_kinds builtinKinds) builtinKinds"
  using represents_builtin_fold [OF represents_empty, of builtinKinds] builtin_distinct by simp

definition custom_ok :: "kind_spec \<Rightarrow> bool" where
  "custom_ok s \<longleftrightarrow> MaxBuiltinKind < Code s \<and> Code s \<le> MaxKind \<and> customKindName (KName s) \<and>
     KCategory s \<in> set categories"

lemma validate_ok: "ValidateCustomKind n c = Inr () \<longleftrightarrow> customKindName n \<and> c \<in> set categories"
  by (simp add: ValidateCustomKind_def ParseCategory_def)

lemma add_custom_Inr:
  "represents k ss \<Longrightarrow> add_custom k cs = Inr k' \<Longrightarrow>
     represents k' (ss @ cs) \<and> list_all custom_ok cs"
proof (induction k cs arbitrary: ss rule: add_custom.induct)
  case (1 k)
  then show ?case by simp
next
  case (2 k s cs)
  from "2.prems"(2) have s: "MaxBuiltinKind < Code s" "Code s \<le> MaxKind" "ValidateCustomKind (KName s) (KCategory s) = Inr ()"
    "byCode k (Code s) = None" "byName k (KName s) = None" "add_custom (register k s) cs = Inr k'"
    by (auto split: if_splits option.splits simp: and_then_Inr not_le not_less)
  have r: "represents (register k s) (ss @ [s])" using "2.prems"(1) s(4,5) by (rule represents_register)
  moreover have "\<not> (Code s \<le> MaxBuiltinKind \<or> MaxKind < Code s)" using s(1,2) by (auto simp: not_le not_less)
  ultimately show ?case using "2.IH" [OF _ s(3) s(4,5) r s(6)] s(1-3)
    by (simp add: custom_ok_def validate_ok)
qed

lemma add_custom_complete:
  "represents k ss \<Longrightarrow> list_all custom_ok cs \<Longrightarrow> distinct (map Code (ss @ cs)) \<Longrightarrow>
   distinct (map KName (ss @ cs)) \<Longrightarrow> \<exists>k'. add_custom k cs = Inr k'"
proof (induction cs arbitrary: k ss)
  case Nil
  then show ?case by simp
next
  case (Cons s cs)
  have free: "byCode k (Code s) = None" "byName k (KName s) = None"
    using Cons.prems by (auto simp: represents_free)
  have "represents (register k s) (ss @ [s])" using Cons.prems(1) free by (rule represents_register)
  from Cons.IH [OF this] Cons.prems obtain k' where "add_custom (register k s) cs = Inr k'" by auto
  moreover have "ValidateCustomKind (KName s) (KCategory s) = Inr ()" "MaxBuiltinKind < Code s" "Code s \<le> MaxKind"
    using Cons.prems(2) by (simp_all add: custom_ok_def validate_ok)
  ultimately show ?case using free by (simp add: not_le [symmetric])
qed

lemma custom_not_builtin:
  assumes "custom_ok c" "b \<in> set builtinKinds" shows "Code c \<noteq> Code b \<and> KName c \<noteq> KName b"
proof -
  have b: "list_all (\<lambda>b. Code b \<le> MaxBuiltinKind \<and> \<not> customKindName (KName b)) builtinKinds"
    by code_simp
  with assms show ?thesis by (auto simp: list_all_iff custom_ok_def)
qed

text \<open>\<open>NewKinds\<close> builds a registry exactly from custom kinds that lie in the custom code range, have a
  namespaced name and a known category, and share neither a code nor a name; whether one meets a builtin
  need not be asked.\<close>

theorem NewKinds_accepts:
  "(\<exists>k. NewKinds custom = Inr k) \<longleftrightarrow>
     list_all custom_ok custom \<and> distinct (map Code custom) \<and> distinct (map KName custom)"
proof
  assume "\<exists>k. NewKinds custom = Inr k"
  then obtain k where "NewKinds custom = Inr k" ..
  then have "represents k (builtinKinds @ custom) \<and> list_all custom_ok custom"
    unfolding NewKinds_def by (rule add_custom_Inr [OF represents_builtins])
  then show "list_all custom_ok custom \<and> distinct (map Code custom) \<and> distinct (map KName custom)"
    by (auto simp: represents_def)
next
  assume c: "list_all custom_ok custom \<and> distinct (map Code custom) \<and> distinct (map KName custom)"
  then have "distinct (map Code (builtinKinds @ custom))" "distinct (map KName (builtinKinds @ custom))"
    using builtin_distinct custom_not_builtin by (fastforce simp: list_all_iff)+
  then show "\<exists>k. NewKinds custom = Inr k"
    unfolding NewKinds_def using c by (intro add_custom_complete [OF represents_builtins]) auto
qed

lemma kind_enum: "(c :: kind) \<in> of_nat ` {0..<256}" "inj_on (of_nat :: nat \<Rightarrow> kind) {0..<256}"
proof -
  have "unat c < 256" using unsigned_less [of c] by simp
  then show "c \<in> of_nat ` {0..<256}" by (intro image_eqI [of _ _ "unat c"]) simp_all
  show "inj_on (of_nat :: nat \<Rightarrow> kind) {0..<256}"
    by (rule inj_onI) (simp add: word_of_nat_eq_iff take_bit_nat_eq_self)
qed

lemma set_All: "represents k ss \<Longrightarrow> set (All k) = set ss"
proof -
  assume r: "represents k ss"
  have "s \<in> set (List.map_filter (byCode k) (map of_nat [0..<256])) \<longleftrightarrow> (\<exists>c. byCode k c = Some s)" for s
    using kind_enum(1) by (force simp: List.map_filter_def image_iff)
  with r show ?thesis by (auto simp: All_def represents_def)
qed

lemma map_filter_distinct:
  "distinct cs \<Longrightarrow> (\<And>c s. f c = Some s \<Longrightarrow> g s = c) \<Longrightarrow> distinct (map g (List.map_filter f cs))"
proof (induction cs)
  case Nil
  then show ?case by (simp add: List.map_filter_def)
next
  case (Cons c cs)
  have "g ` set (List.map_filter f cs) \<subseteq> set cs"
    using Cons.prems(2) by (auto simp: List.map_filter_def)
  with Cons show ?case by (cases "f c") (auto simp: List.map_filter_simps dest: Cons.prems(2))
qed

lemma sorted_All: "represents k ss \<Longrightarrow> sorted_wrt (\<lambda>a b. Code a < Code b) (All k)"
proof -
  assume r: "represents k ss"
  let ?l = "List.map_filter (byCode k) (map of_nat [0..<256])"
  have "distinct (map Code ?l)"
    using r kind_enum(2) by (intro map_filter_distinct) (auto simp: represents_def distinct_map)
  then have "distinct ?l" "inj_on Code (set ?l)" by (auto simp: distinct_map)
  then have "distinct (map (\<lambda>s. unat (Code s)) (All k))"
    by (auto simp: All_def distinct_map inj_on_def word_unat_eq_iff)
  then have "sorted_wrt (<) (map (\<lambda>s. unat (Code s)) (All k))"
    by (simp add: All_def strict_sorted_iff)
  then show ?thesis by (simp add: sorted_wrt_map word_less_nat_alt)
qed

lemma Lookup_Inr: "Lookup k n = Inr s \<longleftrightarrow> byName k n = Some s"
  by (simp add: Lookup_def split: option.splits)

lemma Spec_Inr: "Spec k c = Inr s \<longleftrightarrow> byCode k c = Some s"
  by (simp add: Spec_def split: option.splits)

text \<open>a built registry holds the builtin kinds and the custom ones and nothing else, under their own name
  and their own code, and \<open>All\<close> lists them in strictly increasing code order.\<close>

theorem NewKinds_contents:
  assumes "NewKinds custom = Inr k"
  shows "(\<forall>n s. Lookup k n = Inr s \<longleftrightarrow> s \<in> set (builtinKinds @ custom) \<and> KName s = n) \<and>
    (\<forall>c s. Spec k c = Inr s \<longleftrightarrow> s \<in> set (builtinKinds @ custom) \<and> Code s = c) \<and>
    set (All k) = set (builtinKinds @ custom) \<and> sorted_wrt (\<lambda>a b. Code a < Code b) (All k)"
proof -
  have r: "represents k (builtinKinds @ custom)"
    using add_custom_Inr [OF represents_builtins] assms by (auto simp: NewKinds_def)
  then have "byName k n = Some s \<longleftrightarrow> s \<in> set (builtinKinds @ custom) \<and> KName s = n"
    "byCode k c = Some s \<longleftrightarrow> s \<in> set (builtinKinds @ custom) \<and> Code s = c" for n c s
    unfolding represents_def by blast+
  with set_All [OF r] sorted_All [OF r] show ?thesis by (simp only: Lookup_Inr Spec_Inr simp_thms)
qed

lemma sample_registry: "\<exists>k. NewKinds [spec 63 ''oipa.rule'' ''callable''] = Inr k"
  unfolding NewKinds_def
  by (rule add_custom_complete [OF represents_builtins]) code_simp+

theorem NewKinds_contents_witness:
  "\<exists>k. NewKinds [spec 63 ''oipa.rule'' ''callable''] = Inr k \<and>
     Lookup k ''oipa.rule'' = Inr (spec 63 ''oipa.rule'' ''callable'')"
proof -
  obtain k where k: "NewKinds [spec 63 ''oipa.rule'' ''callable''] = Inr k"
    using sample_registry ..
  from NewKinds_contents [OF k] show ?thesis using k by (auto simp: spec_def)
qed

text \<open>The namespace of a valid custom name is its first segment.\<close>

lemma KindNamespace_custom:
  "customKindName n \<Longrightarrow> KindNamespace n = hd (split_on (CHR ''.'') n) \<and> KindNamespace n \<noteq> []"
proof -
  assume c: "customKindName n"
  obtain p ps where ps: "split_on (CHR ''.'') n = p # ps" by (meson neq_Nil_conv split_on_nonempty)
  with c have "ps \<noteq> []" "segment p" by (auto simp: customKindName_def Let_def)
  moreover have "n = join_with ''.'' (p # ps)" using join_split [of "CHR ''.''" n] ps by simp
  moreover have "CHR ''.'' \<notin> set p" using split_on_pieces [of "CHR ''.''" n] ps by simp
  ultimately show ?thesis
    using ps by (cases ps) (auto simp: KindNamespace_def cut_at_found segment_def)
qed

end
