(* ===== verification/Build_Constraint.thy ===== *)
theory Build_Constraint
  imports Go_Quote
begin

text \<open>
  The build-constraint analysis of \<open>internal/buildconstraint\<close>: a reduced ordered decision diagram
  with memo tables (\<open>diagram.go\<close>) and \<open>Header.Requires\<close> (\<open>header.go\<close>). The node table, the memo
  tables and the count of context polls are the state every operation returns; the context is a
  function telling which poll finds it cancelled. The recursive operations take fuel, and running
  out of it is an error of its own that is proved never to happen. Parsing a source header is not
  modelled.
\<close>

subsection \<open>Expressions (\<open>go/build/constraint\<close>)\<close>

datatype expr = TagExpr gostring | NotExpr expr | AndExpr expr expr | OrExpr expr expr

subsection \<open>The diagram and its operations\<close>

definition maximumNodes :: nat where "maximumNodes = 65536"

record decision =
  tag :: gostring
  low :: nat
  high :: nat

type_synonym operation = "bool \<times> nat \<times> nat"

record diagram =
  polls :: nat
  nodes :: "decision list"
  unique :: "(decision \<times> nat) list"
  applied :: "operation \<rightharpoonup> nat"
  negated :: "nat \<rightharpoonup> nat"

datatype bdd_error = Cancelled | TooManyNodes | OutOfFuel | InvalidTag gostring

definition newDiagram :: diagram where
  "newDiagram =
     \<lparr> polls = 0, nodes = replicate 2 \<lparr> tag = [], low = 0, high = 0 \<rparr>, unique = [],
       applied = Map.empty, negated = Map.empty \<rparr>"

type_synonym 'a bdd_result = "(bdd_error, 'a \<times> diagram) outcome"

definition check_ctx :: "(nat \<Rightarrow> bool) \<Rightarrow> diagram \<Rightarrow> (bdd_error, diagram) outcome" where
  "check_ctx ctx d = (if ctx (polls d) then Inl Cancelled else Inr (d\<lparr> polls := Suc (polls d) \<rparr>))"

definition node :: "(nat \<Rightarrow> bool) \<Rightarrow> decision \<Rightarrow> diagram \<Rightarrow> nat bdd_result" where
  "node ctx n d =
     and_then (check_ctx ctx d) (\<lambda>d.
       if low n = high n then Inr (low n, d)
       else case map_of (unique d) n of
         Some i \<Rightarrow> Inr (i, d)
       | None \<Rightarrow>
           if maximumNodes \<le> length (unique d) then Inl TooManyNodes
           else Inr (length (nodes d),
                  d\<lparr> nodes := nodes d @ [n], unique := (n, length (nodes d)) # unique d \<rparr>))"

fun negate :: "(nat \<Rightarrow> bool) \<Rightarrow> nat \<Rightarrow> nat \<Rightarrow> diagram \<Rightarrow> nat bdd_result" where
  "negate ctx 0 i d = Inl OutOfFuel"
| "negate ctx (Suc k) i d =
     (if i < 2 then Inr (1 - i, d)
      else case negated d i of
        Some opposite \<Rightarrow> Inr (opposite, d)
      | None \<Rightarrow>
          let n = nodes d ! i in
          and_then (negate ctx k (low n) d) (\<lambda>(l, d).
          and_then (negate ctx k (high n) d) (\<lambda>(h, d).
          and_then (node ctx \<lparr> tag = tag n, low = l, high = h \<rparr> d) (\<lambda>(opposite, d).
            Inr (opposite, d\<lparr> negated := (negated d)(i \<mapsto> opposite) \<rparr>)))))"

definition branches :: "diagram \<Rightarrow> nat \<Rightarrow> gostring \<Rightarrow> nat \<times> nat" where
  "branches d i t = (let n = nodes d ! i in if tag n = t then (low n, high n) else (i, i))"

fun apply_op :: "(nat \<Rightarrow> bool) \<Rightarrow> nat \<Rightarrow> bool \<Rightarrow> nat \<Rightarrow> nat \<Rightarrow> diagram \<Rightarrow> nat bdd_result" where
  "apply_op ctx 0 is_or left0 right0 d = Inl OutOfFuel"
| "apply_op ctx (Suc k) is_or left0 right0 d =
     and_then (check_ctx ctx d) (\<lambda>d.
       let (left, right) = (if right0 < left0 then (right0, left0) else (left0, right0)) in
       if left = right then Inr (left, d)
       else if is_or \<and> left = 0 \<or> \<not> is_or \<and> left = 1 then Inr (right, d)
       else if is_or \<and> (left = 1 \<or> right = 1) then Inr (1, d)
       else if \<not> is_or \<and> left = 0 then Inr (0, d)
       else case applied d (is_or, left, right) of
         Some i \<Rightarrow> Inr (i, d)
       | None \<Rightarrow>
           let t = min (tag (nodes d ! left)) (tag (nodes d ! right));
               (ll, lh) = branches d left t;
               (rl, rh) = branches d right t in
           and_then (apply_op ctx k is_or ll rl d) (\<lambda>(l, d).
           and_then (apply_op ctx k is_or lh rh d) (\<lambda>(h, d).
           and_then (node ctx \<lparr> tag = t, low = l, high = h \<rparr> d) (\<lambda>(i, d).
             Inr (i, d\<lparr> applied := (applied d)((is_or, left, right) \<mapsto> i) \<rparr>)))))"

text \<open>A child always has a smaller number than its node, so the number of the node bounds the
  recursion.\<close>

fun compile_expr :: "(nat \<Rightarrow> bool) \<Rightarrow> expr \<Rightarrow> diagram \<Rightarrow> nat bdd_result" where
  "compile_expr ctx (TagExpr t) d =
     and_then (check_ctx ctx d) (\<lambda>d. node ctx \<lparr> tag = t, low = 0, high = 1 \<rparr> d)"
| "compile_expr ctx (NotExpr x) d =
     and_then (check_ctx ctx d) (\<lambda>d.
     and_then (compile_expr ctx x d) (\<lambda>(child, d). negate ctx (Suc child) child d))"
| "compile_expr ctx (AndExpr x y) d =
     and_then (check_ctx ctx d) (\<lambda>d.
     and_then (compile_expr ctx x d) (\<lambda>(lhs, d).
     and_then (compile_expr ctx y d) (\<lambda>(rhs, d). apply_op ctx (Suc (lhs + rhs)) False lhs rhs d)))"
| "compile_expr ctx (OrExpr x y) d =
     and_then (check_ctx ctx d) (\<lambda>d.
     and_then (compile_expr ctx x d) (\<lambda>(lhs, d).
     and_then (compile_expr ctx y d) (\<lambda>(rhs, d). apply_op ctx (Suc (lhs + rhs)) True lhs rhs d)))"

definition compile :: "(nat \<Rightarrow> bool) \<Rightarrow> expr option \<Rightarrow> diagram \<Rightarrow> nat bdd_result" where
  "compile ctx e d =
     (case e of None \<Rightarrow> and_then (check_ctx ctx d) (\<lambda>d. Inr (1, d))
      | Some e \<Rightarrow> compile_expr ctx e d)"

text \<open>Whether the function of a node can hold with the tag false; \<open>seen\<close> is the memo table.\<close>

fun without :: "decision list \<Rightarrow> nat \<Rightarrow> nat \<Rightarrow> gostring \<Rightarrow> (nat \<rightharpoonup> bool) \<Rightarrow> (bool \<times> (nat \<rightharpoonup> bool)) option" where
  "without ns 0 i t seen = None"
| "without ns (Suc k) i t seen =
     (if i < 2 then Some (i = 1, seen)
      else case seen i of
        Some result \<Rightarrow> Some (result, seen)
      | None \<Rightarrow>
          let n = ns ! i in
          if tag n = t then Some (low n \<noteq> 0, seen)
          else if t < tag n then Some (True, seen)
          else
            case without ns k (low n) t seen of
              None \<Rightarrow> None
            | Some (True, seen) \<Rightarrow> Some (True, seen(i \<mapsto> True))
            | Some (False, seen) \<Rightarrow>
                (case without ns k (high n) t seen of
                   None \<Rightarrow> None
                 | Some (result, seen) \<Rightarrow> Some (result, seen(i \<mapsto> result))))"

subsection \<open>\<open>Header.Requires\<close>\<close>

text \<open>\<open>ValidateTag\<close> accepts what \<open>constraint.Parse\<close> reads back as the same single tag: a non-empty run
  of letters, digits, underscores and dots. Which runes beyond ASCII are letters or digits is a
  table of the \<open>unicode\<close> package.\<close>

definition tag_rune :: "(nat \<Rightarrow> bool) \<Rightarrow> nat \<Rightarrow> bool" where
  "tag_rune letters r =
     (if r < 0x80
      then 0x30 \<le> r \<and> r \<le> 0x39 \<or> 0x41 \<le> r \<and> r \<le> 0x5A \<or> 0x61 \<le> r \<and> r \<le> 0x7A \<or> r = 0x5F \<or> r = 0x2E
      else letters r)"

definition ValidateTag :: "(nat \<Rightarrow> bool) \<Rightarrow> gostring \<Rightarrow> bool" where
  "ValidateTag letters t \<longleftrightarrow> t \<noteq> [] \<and> list_all (\<lambda>(r, _). tag_rune letters r) (runes t)"

fun require_tags :: "(nat \<Rightarrow> bool) \<Rightarrow> nat \<Rightarrow> gostring list \<Rightarrow> diagram \<Rightarrow> (gostring \<rightharpoonup> bool)
    \<Rightarrow> (bdd_error, (gostring \<rightharpoonup> bool) \<times> diagram) outcome" where
  "require_tags ctx root [] d result = Inr (result, d)"
| "require_tags ctx root (t # ts) d result =
     and_then (check_ctx ctx d) (\<lambda>d.
       if root = 0 then require_tags ctx root ts d (result(t \<mapsto> False))
       else case without (nodes d) (Suc root) root t Map.empty of
         None \<Rightarrow> Inl OutOfFuel
       | Some (w, _) \<Rightarrow> require_tags ctx root ts d (result(t \<mapsto> \<not> w)))"

definition Requires :: "(nat \<Rightarrow> bool) \<Rightarrow> (nat \<Rightarrow> bool) \<Rightarrow> expr option \<Rightarrow> gostring list
    \<Rightarrow> (bdd_error, gostring \<rightharpoonup> bool) outcome" where
  "Requires ctx letters header tags =
     (case find (\<lambda>t. \<not> ValidateTag letters t) tags of
        Some t \<Rightarrow> Inl (InvalidTag t)
      | None \<Rightarrow>
          and_then (compile ctx header newDiagram) (\<lambda>(root, d).
          and_then (require_tags ctx root tags d Map.empty) (\<lambda>(result, d).
          and_then (check_ctx ctx d) (\<lambda>_. Inr result))))"

subsection \<open>Growing stores\<close>

text \<open>
  An interface for hash-consing: a store only grows, an identifier keeps its meaning as the store
  grows, and an operation that returns an identifier or an error is judged by the meaning of what
  it returns. \<open>bad\<close> tells the errors that must not happen.
\<close>

locale growing_store =
  fixes inv :: "'s \<Rightarrow> bool" and ext :: "'s \<Rightarrow> 's \<Rightarrow> bool" and good :: "'s \<Rightarrow> 'i \<Rightarrow> bool"
    and den :: "'s \<Rightarrow> 'i \<Rightarrow> 'v" and bad :: "'e \<Rightarrow> bool"
  assumes ext_refl: "ext s s"
    and ext_trans: "ext r s \<Longrightarrow> ext s t \<Longrightarrow> ext r t"
    and good_stable: "ext s t \<Longrightarrow> good s i \<Longrightarrow> good t i"
    and den_stable: "ext s t \<Longrightarrow> good s i \<Longrightarrow> den t i = den s i"
begin

definition returns :: "'s \<Rightarrow> ('e, 'i \<times> 's) outcome \<Rightarrow> 'v \<Rightarrow> bool" where
  "returns s r v \<longleftrightarrow>
     (case r of Inl e \<Rightarrow> \<not> bad e | Inr (i, t) \<Rightarrow> inv t \<and> ext s t \<and> good t i \<and> den t i = v)"

lemma returns_error [intro]: "\<not> bad e \<Longrightarrow> returns s (Inl e) v"
  by (simp add: returns_def)

lemma returns_value [intro]: "inv t \<Longrightarrow> ext s t \<Longrightarrow> good t i \<Longrightarrow> den t i = v \<Longrightarrow> returns s (Inr (i, t)) v"
  by (simp add: returns_def)

lemma returnsD: "returns s (Inr (i, t)) v \<Longrightarrow> inv t \<and> ext s t \<and> good t i \<and> den t i = v"
  by (simp add: returns_def)

lemma returns_weaken: "ext s t \<Longrightarrow> returns t r v \<Longrightarrow> returns s r v"
  by (auto simp: returns_def split: sum.splits intro: ext_trans)

lemma returns_and_then:
  assumes "returns s r v"
    and "\<And>i t. inv t \<Longrightarrow> ext s t \<Longrightarrow> good t i \<Longrightarrow> den t i = v \<Longrightarrow> returns t (f i t) w"
  shows "returns s (and_then r (\<lambda>(i, t). f i t)) w"
proof (cases r)
  case (Inl e)
  with assms(1) show ?thesis by (simp add: returns_def)
next
  case (Inr p)
  obtain i t where p: "p = (i, t)" by (cases p)
  from returnsD [of s i t v] assms(1) Inr p have "inv t" "ext s t" "good t i" "den t i = v" by auto
  with assms(2) have "returns t (f i t) w" by blast
  with \<open>ext s t\<close> show ?thesis by (simp add: Inr p returns_weaken)
qed

end

subsection \<open>The function of a node\<close>

type_synonym valuation = "gostring \<Rightarrow> bool"

function eval :: "decision list \<Rightarrow> valuation \<Rightarrow> nat \<Rightarrow> bool" where
  "eval ns \<rho> i =
     (if 2 \<le> i \<and> i < length ns \<and> low (ns ! i) < i \<and> high (ns ! i) < i
      then eval ns \<rho> (if \<rho> (tag (ns ! i)) then high (ns ! i) else low (ns ! i))
      else i = 1)"
  by pat_completeness auto
termination by (relation "measure (\<lambda>(ns, \<rho>, i). i)") auto

declare eval.simps [simp del]

lemma eval_terminal [simp]: "eval ns \<rho> 0 = False" "eval ns \<rho> 1 = True" "eval ns \<rho> (Suc 0) = True"
  by (simp_all add: eval.simps)

lemma eval_append: "i < length ns \<Longrightarrow> eval (ns @ xs) \<rho> i = eval ns \<rho> i"
proof (induction ns \<rho> i rule: eval.induct)
  case (1 ns \<rho> i)
  have n: "(ns @ xs) ! i = ns ! i" using "1.prems" by (simp add: nth_append)
  show ?case
  proof (cases "2 \<le> i \<and> low (ns ! i) < i \<and> high (ns ! i) < i")
    case True
    let ?c = "if \<rho> (tag (ns ! i)) then high (ns ! i) else low (ns ! i)"
    have "eval (ns @ xs) \<rho> i = eval (ns @ xs) \<rho> ?c"
      using True "1.prems" by (subst eval.simps) (simp add: n)
    also have "\<dots> = eval ns \<rho> ?c" using "1.IH" True "1.prems" by auto
    also have "\<dots> = eval ns \<rho> i" using True "1.prems" by (subst (2) eval.simps) simp
    finally show ?thesis .
  next
    case False
    then have "eval (ns @ xs) \<rho> i = (i = 1)" by (subst eval.simps) (auto simp: n)
    moreover have "eval ns \<rho> i = (i = 1)" using False by (subst eval.simps) auto
    ultimately show ?thesis by simp
  qed
qed

text \<open>Reduced and ordered: children come before their node, differ, and decide later tags; no node is
  stored twice.\<close>

definition ordered_child :: "decision list \<Rightarrow> gostring \<Rightarrow> nat \<Rightarrow> bool" where
  "ordered_child ns t c \<longleftrightarrow> c < 2 \<or> t < tag (ns ! c)"

definition reduced :: "decision list \<Rightarrow> bool" where
  "reduced ns \<longleftrightarrow>
     2 \<le> length ns \<and>
     (\<forall>i. 2 \<le> i \<and> i < length ns \<longrightarrow>
        low (ns ! i) < i \<and> high (ns ! i) < i \<and> low (ns ! i) \<noteq> high (ns ! i) \<and>
        ordered_child ns (tag (ns ! i)) (low (ns ! i)) \<and> ordered_child ns (tag (ns ! i)) (high (ns ! i)) \<and>
        (\<forall>j. 2 \<le> j \<and> j < length ns \<and> ns ! j = ns ! i \<longrightarrow> j = i))"

lemma reducedD:
  assumes "reduced ns" "2 \<le> i" "i < length ns"
  shows "low (ns ! i) < i" "high (ns ! i) < i" "low (ns ! i) \<noteq> high (ns ! i)"
    "ordered_child ns (tag (ns ! i)) (low (ns ! i))" "ordered_child ns (tag (ns ! i)) (high (ns ! i))"
    "2 \<le> j \<Longrightarrow> j < length ns \<Longrightarrow> ns ! j = ns ! i \<Longrightarrow> j = i"
  using assms unfolding reduced_def by blast+

lemma eval_node:
  "reduced ns \<Longrightarrow> 2 \<le> i \<Longrightarrow> i < length ns \<Longrightarrow>
   eval ns \<rho> i = (if \<rho> (tag (ns ! i)) then eval ns \<rho> (high (ns ! i)) else eval ns \<rho> (low (ns ! i)))"
  by (subst eval.simps) (simp add: reducedD)

definition independent :: "(valuation \<Rightarrow> bool) \<Rightarrow> gostring \<Rightarrow> bool" where
  "independent f t \<longleftrightarrow> (\<forall>\<rho> b. f (\<rho>(t := b)) = f \<rho>)"

lemma independent_eval:
  "reduced ns \<Longrightarrow> i < length ns \<Longrightarrow> ordered_child ns t i \<Longrightarrow> s \<le> t \<Longrightarrow> independent (\<lambda>\<rho>. eval ns \<rho> i) s"
proof (induction i arbitrary: t rule: less_induct)
  case (less i)
  show ?case
  proof (cases "i < 2")
    case True
    then show ?thesis by (auto simp: independent_def less_2_cases_iff)
  next
    case False
    then have i: "2 \<le> i" "t < tag (ns ! i)" using less.prems(3) by (auto simp: ordered_child_def)
    note r = reducedD [OF less.prems(1) i(1) less.prems(2)]
    have le: "s \<le> tag (ns ! i)" "s \<noteq> tag (ns ! i)" using i(2) less.prems(4) by auto
    have "independent (\<lambda>\<rho>. eval ns \<rho> (low (ns ! i))) s" "independent (\<lambda>\<rho>. eval ns \<rho> (high (ns ! i))) s"
      using less.IH [OF r(1) less.prems(1) _ r(4) le(1)] less.IH [OF r(2) less.prems(1) _ r(5) le(1)]
        r(1,2) less.prems(2) by auto
    with le(2) show ?thesis
      by (auto simp: independent_def eval_node [OF less.prems(1) i(1) less.prems(2)])
  qed
qed

lemma branch_of_node:
  assumes "reduced ns" "2 \<le> i" "i < length ns"
  shows "eval ns (\<rho>(tag (ns ! i) := False)) i = eval ns \<rho> (low (ns ! i))"
    "eval ns (\<rho>(tag (ns ! i) := True)) i = eval ns \<rho> (high (ns ! i))"
proof -
  note r = reducedD [OF assms]
  have "low (ns ! i) < length ns" "high (ns ! i) < length ns" using r(1,2) assms(3) by auto
  with independent_eval [OF assms(1) _ r(4) order_refl] independent_eval [OF assms(1) _ r(5) order_refl]
  show "eval ns (\<rho>(tag (ns ! i) := False)) i = eval ns \<rho> (low (ns ! i))"
    "eval ns (\<rho>(tag (ns ! i) := True)) i = eval ns \<rho> (high (ns ! i))"
    by (simp_all add: eval_node [OF assms] independent_def)
qed

lemma independent_branches_equal:
  assumes "reduced ns" "2 \<le> i" "i < length ns" "independent (\<lambda>\<rho>. eval ns \<rho> i) (tag (ns ! i))"
  shows "eval ns \<rho> (low (ns ! i)) = eval ns \<rho> (high (ns ! i))"
  using branch_of_node [OF assms(1-3), of \<rho>] assms(4) by (metis independent_def)

text \<open>Equal functions have equal numbers.\<close>

lemma canonical:
  assumes "reduced ns"
  shows "i < length ns \<Longrightarrow> j < length ns \<Longrightarrow> (\<And>\<rho>. eval ns \<rho> i = eval ns \<rho> j) \<Longrightarrow> i = j"
proof (induction "max i j" arbitrary: i j rule: less_induct)
  case less
  have impossible: False
    if "2 \<le> a" "a < length ns" "a \<le> max i j" "independent (\<lambda>\<rho>. eval ns \<rho> b) (tag (ns ! a))"
      "\<And>\<rho>. eval ns \<rho> a = eval ns \<rho> b" for a b
  proof -
    note r = reducedD [OF assms that(1,2)]
    have "independent (\<lambda>\<rho>. eval ns \<rho> a) (tag (ns ! a))" using that(4,5) by simp
    note e = independent_branches_equal [OF assms that(1,2) this]
    have "max (low (ns ! a)) (high (ns ! a)) < max i j" "low (ns ! a) < length ns" "high (ns ! a) < length ns"
      using r(1,2) that(2,3) by auto
    from less.hyps [OF this e] r(3) show False by simp
  qed
  have const: "independent (\<lambda>\<rho>. eval ns \<rho> c) s" if "c < 2" for c s
    using that by (auto simp: independent_def less_2_cases_iff)
  have later: "independent (\<lambda>\<rho>. eval ns \<rho> c) s" if "2 \<le> c" "c < length ns" "s < tag (ns ! c)" for c s
    using independent_eval [OF assms that(2) _ order_refl] that by (simp add: ordered_child_def)
  show ?case
  proof (cases "i < 2 \<or> j < 2")
    case True
    then have "i < 2 \<and> j < 2"
      using impossible [of j i] impossible [of i j] const less.prems by (metis max.cobounded1 max.cobounded2 not_le)
    with less.prems(3) show ?thesis by (auto simp: less_2_cases_iff)
  next
    case False
    then have ij: "2 \<le> i" "2 \<le> j" by auto
    have "\<not> tag (ns ! i) < tag (ns ! j)"
      using impossible [OF ij(1) less.prems(1) max.cobounded1 later [OF ij(2) less.prems(2)] less.prems(3)] by blast
    moreover have "\<not> tag (ns ! j) < tag (ns ! i)"
      using impossible [OF ij(2) less.prems(2) max.cobounded2 later [OF ij(1) less.prems(1)]] less.prems(3) by blast
    ultimately have tags: "tag (ns ! i) = tag (ns ! j)" by (metis linorder_less_linear)
    note ri = reducedD [OF assms ij(1) less.prems(1)] and rj = reducedD [OF assms ij(2) less.prems(2)]
    note bi = branch_of_node [OF assms ij(1) less.prems(1), unfolded tags]
    note bj = branch_of_node [OF assms ij(2) less.prems(2)]
    have l: "eval ns \<rho> (low (ns ! i)) = eval ns \<rho> (low (ns ! j))"
      and h: "eval ns \<rho> (high (ns ! i)) = eval ns \<rho> (high (ns ! j))" for \<rho>
      unfolding bi [symmetric] bj [symmetric] by (rule less.prems(3))+
    have "low (ns ! i) = low (ns ! j)"
      using ri(1) rj(1) less.prems(1,2) by (intro less.hyps l) auto
    moreover have "high (ns ! i) = high (ns ! j)"
      using ri(2) rj(2) less.prems(1,2) by (intro less.hyps h) auto
    ultimately have "ns ! i = ns ! j" using tags by (intro decision.equality) simp_all
    with rj(6) ij(1) less.prems(1) show ?thesis by blast
  qed
qed

text \<open>So a function that does not look at any tag up to \<open>t\<close> has a later tag at its root.\<close>

lemma ordered_from_independent:
  assumes "reduced ns" "c < length ns" "\<And>s. s \<le> t \<Longrightarrow> independent (\<lambda>\<rho>. eval ns \<rho> c) s"
  shows "ordered_child ns t c"
proof (rule ccontr)
  assume "\<not> ordered_child ns t c"
  then have c: "2 \<le> c" "tag (ns ! c) \<le> t" by (auto simp: ordered_child_def not_less)
  note r = reducedD [OF assms(1) c(1) assms(2)]
  have "low (ns ! c) = high (ns ! c)"
    using independent_branches_equal [OF assms(1) c(1) assms(2) assms(3) [OF c(2)]] r(1,2) assms(2)
    by (intro canonical [OF assms(1)]) auto
  with r(3) show False by simp
qed

subsection \<open>The invariant of a diagram\<close>

definition meaning :: "diagram \<Rightarrow> nat \<Rightarrow> valuation \<Rightarrow> bool" where
  "meaning d i \<rho> = eval (nodes d) \<rho> i"

definition stored :: "diagram \<Rightarrow> nat \<Rightarrow> bool" where
  "stored d i \<longleftrightarrow> i < length (nodes d)"

definition extends :: "diagram \<Rightarrow> diagram \<Rightarrow> bool" where
  "extends d d' \<longleftrightarrow> (\<exists>ns. nodes d' = nodes d @ ns)"

definition connective :: "bool \<Rightarrow> bool \<Rightarrow> bool \<Rightarrow> bool" where
  "connective is_or a b = (if is_or then a \<or> b else a \<and> b)"

definition unique_inv :: "diagram \<Rightarrow> bool" where
  "unique_inv d \<longleftrightarrow> (\<forall>n i. map_of (unique d) n = Some i \<longleftrightarrow> 2 \<le> i \<and> stored d i \<and> nodes d ! i = n)"

definition memo_inv :: "diagram \<Rightarrow> bool" where
  "memo_inv d \<longleftrightarrow>
     (\<forall>i j. negated d i = Some j \<longrightarrow>
        stored d i \<and> stored d j \<and> meaning d j = (\<lambda>\<rho>. \<not> meaning d i \<rho>)) \<and>
     (\<forall>is_or l r i. applied d (is_or, l, r) = Some i \<longrightarrow>
        stored d l \<and> stored d r \<and> stored d i \<and>
        meaning d i = (\<lambda>\<rho>. connective is_or (meaning d l \<rho>) (meaning d r \<rho>)))"

definition diagram_inv :: "diagram \<Rightarrow> bool" where
  "diagram_inv d \<longleftrightarrow> reduced (nodes d) \<and> unique_inv d \<and> memo_inv d"

text \<open>The operations do not run out of fuel, report a cancellation only of a context that was cancelled,
  and do not look at the requested tags.\<close>

definition impossible_error :: "(nat \<Rightarrow> bool) \<Rightarrow> bdd_error \<Rightarrow> bool" where
  "impossible_error ctx e \<longleftrightarrow>
     (case e of OutOfFuel \<Rightarrow> True | Cancelled \<Rightarrow> \<forall>n. \<not> ctx n | InvalidTag t \<Rightarrow> True | TooManyNodes \<Rightarrow> False)"

lemma impossible_error_simps [simp]:
  "impossible_error ctx OutOfFuel" "impossible_error ctx (InvalidTag t)" "\<not> impossible_error ctx TooManyNodes"
  "impossible_error ctx Cancelled \<longleftrightarrow> (\<forall>n. \<not> ctx n)"
  by (simp_all add: impossible_error_def)

interpretation bdd: growing_store diagram_inv extends stored meaning "impossible_error ctx" for ctx
proof
  show "extends s s" for s by (simp add: extends_def)
  show "extends r s \<Longrightarrow> extends s t \<Longrightarrow> extends r t" for r s t by (auto simp: extends_def)
  show "extends s t \<Longrightarrow> stored s i \<Longrightarrow> stored t i" for s t i by (auto simp: extends_def stored_def)
  show "extends s t \<Longrightarrow> stored s i \<Longrightarrow> meaning t i = meaning s i" for s t i
    by (auto simp: extends_def stored_def meaning_def eval_append)
qed

lemma diagram_inv_reduced: "diagram_inv d \<Longrightarrow> reduced (nodes d)"
  by (simp add: diagram_inv_def)

lemma inv_terminals: "diagram_inv d \<Longrightarrow> stored d 0 \<and> stored d 1 \<and> stored d (Suc 0)"
  by (auto simp: diagram_inv_def reduced_def stored_def)

lemma newDiagram_inv: "diagram_inv newDiagram"
  by (auto simp: diagram_inv_def unique_inv_def memo_inv_def newDiagram_def reduced_def stored_def)

lemma inv_polls [simp]:
  "diagram_inv (d\<lparr>polls := p\<rparr>) = diagram_inv d" "extends c (d\<lparr>polls := p\<rparr>) = extends c d"
  "extends (d\<lparr>polls := p\<rparr>) c = extends d c"
  "stored (d\<lparr>polls := p\<rparr>) = stored d" "meaning (d\<lparr>polls := p\<rparr>) = meaning d"
  by (auto simp: diagram_inv_def unique_inv_def memo_inv_def extends_def stored_def meaning_def fun_eq_iff)

lemma check_returns:
  assumes "\<And>d'. d' = d\<lparr>polls := Suc (polls d)\<rparr> \<Longrightarrow> bdd.returns ctx d (f d') v"
  shows "bdd.returns ctx d (and_then (check_ctx ctx d) f) v"
  using assms by (auto simp: check_ctx_def)

lemma returns_polls [simp]: "bdd.returns ctx (d\<lparr>polls := p\<rparr>) r v = bdd.returns ctx d r v"
  by (simp add: bdd.returns_def split: sum.splits)

lemma append_reduced:
  assumes "reduced ns" "low n < length ns" "high n < length ns" "low n \<noteq> high n"
    "ordered_child ns (tag n) (low n)" "ordered_child ns (tag n) (high n)"
    "\<And>i. 2 \<le> i \<Longrightarrow> i < length ns \<Longrightarrow> ns ! i \<noteq> n"
  shows "reduced (ns @ [n])"
proof -
  have oc: "ordered_child (ns @ [n]) t c" if "c < length ns" "ordered_child ns t c" for t c
    using that by (simp add: ordered_child_def nth_append)
  have old: "(ns @ [n]) ! k = ns ! k" if "k < length ns" for k using that by (simp add: nth_append)
  have unique: "j = i"
    if "2 \<le> i" "i < Suc (length ns)" "2 \<le> j" "j < Suc (length ns)" "(ns @ [n]) ! j = (ns @ [n]) ! i" for i j
  proof (cases "i < length ns"; cases "j < length ns")
    assume "i < length ns" "j < length ns"
    with that reducedD(6) [OF assms(1) that(1)] old show "j = i" by metis
  next
    assume "i < length ns" "\<not> j < length ns"
    with that assms(7) [of i] old [of i] show "j = i" by (simp add: less_Suc_eq)
  next
    assume "\<not> i < length ns" "j < length ns"
    with that assms(7) [of j] old [of j] show "j = i" by (simp add: less_Suc_eq)
  next
    assume "\<not> i < length ns" "\<not> j < length ns"
    with that show "j = i" by simp
  qed
  have each: "low ((ns @ [n]) ! i) < i \<and> high ((ns @ [n]) ! i) < i \<and> low ((ns @ [n]) ! i) \<noteq> high ((ns @ [n]) ! i) \<and>
      ordered_child (ns @ [n]) (tag ((ns @ [n]) ! i)) (low ((ns @ [n]) ! i)) \<and>
      ordered_child (ns @ [n]) (tag ((ns @ [n]) ! i)) (high ((ns @ [n]) ! i))"
    if "2 \<le> i" "i < Suc (length ns)" for i
  proof (cases "i < length ns")
    case True
    note r = reducedD [OF assms(1) that(1) True]
    have "low (ns ! i) < length ns" "high (ns ! i) < length ns" using r(1,2) True by auto
    then show ?thesis using r(1-3) oc [OF _ r(4)] oc [OF _ r(5)] by (simp add: old [OF True])
  next
    case False
    with that(2) have "i = length ns" by simp
    then show ?thesis using assms(2-4) oc [OF assms(2,5)] oc [OF assms(3,6)] by simp
  qed
  have "2 \<le> length (ns @ [n])" using assms(1) by (simp add: reduced_def)
  then show ?thesis unfolding reduced_def length_append_singleton using each unique by blast
qed

lemma memo_extends:
  assumes "memo_inv d" "extends d e" "negated e = negated d" "applied e = applied d"
  shows "memo_inv e"
  unfolding memo_inv_def assms(3,4)
proof (intro conjI allI impI)
  fix i j assume "negated d i = Some j"
  with assms(1) have o: "stored d i" "stored d j" "meaning d j = (\<lambda>\<rho>. \<not> meaning d i \<rho>)"
    by (auto simp: memo_inv_def)
  show "stored e i" "stored e j" "meaning e j = (\<lambda>\<rho>. \<not> meaning e i \<rho>)"
    using bdd.good_stable [OF assms(2)] bdd.den_stable [OF assms(2)] o by simp_all
next
  fix is_or l r i assume "applied d (is_or, l, r) = Some i"
  with assms(1) have o: "stored d l" "stored d r" "stored d i"
    "meaning d i = (\<lambda>\<rho>. connective is_or (meaning d l \<rho>) (meaning d r \<rho>))"
    by (auto simp: memo_inv_def)
  show "stored e l" "stored e r" "stored e i"
    "meaning e i = (\<lambda>\<rho>. connective is_or (meaning e l \<rho>) (meaning e r \<rho>))"
    using bdd.good_stable [OF assms(2)] bdd.den_stable [OF assms(2)] o by simp_all
qed

lemma insert_node_inv:
  assumes "diagram_inv d" "reduced (nodes d @ [n])" "\<And>i. 2 \<le> i \<Longrightarrow> stored d i \<Longrightarrow> nodes d ! i \<noteq> n"
  shows "diagram_inv (d\<lparr> nodes := nodes d @ [n], unique := (n, length (nodes d)) # unique d \<rparr>)"
proof -
  let ?e = "d\<lparr> nodes := nodes d @ [n], unique := (n, length (nodes d)) # unique d \<rparr>"
  have len: "2 \<le> length (nodes d)" using assms(1) by (simp add: diagram_inv_def reduced_def)
  have u: "map_of (unique d) m = Some i \<longleftrightarrow> 2 \<le> i \<and> i < length (nodes d) \<and> nodes d ! i = m" for m i
    using assms(1) by (simp add: diagram_inv_def unique_inv_def stored_def)
  have "map_of (unique ?e) m = Some i \<longleftrightarrow> 2 \<le> i \<and> stored ?e i \<and> nodes ?e ! i = m" for m i
  proof (cases "i < length (nodes d)")
    case True
    then have "\<not> (m = n \<and> 2 \<le> i \<and> nodes d ! i = m)" using assms(3) [of i] by (auto simp: stored_def)
    with True show ?thesis using u [of m i] by (cases "m = n") (auto simp: stored_def nth_append)
  next
    case False
    show ?thesis
    proof (cases "i = length (nodes d)")
      case True
      with len u [of m i] show ?thesis by (cases "m = n") (auto simp: stored_def)
    next
      case neq: False
      with False u [of m i] show ?thesis by (cases "m = n") (auto simp: stored_def)
    qed
  qed
  then have "unique_inv ?e" by (simp add: unique_inv_def)
  moreover have "memo_inv ?e"
  proof (rule memo_extends)
    show "memo_inv d" using assms(1) by (simp add: diagram_inv_def)
    show "extends d ?e" by (simp add: extends_def)
  qed simp_all
  ultimately show ?thesis using assms(2) by (simp add: diagram_inv_def)
qed

lemma node_returns:
  assumes "diagram_inv d" "stored d (low n)" "stored d (high n)"
    "ordered_child (nodes d) (tag n) (low n)" "ordered_child (nodes d) (tag n) (high n)"
  shows "bdd.returns ctx d (node ctx n d) (\<lambda>\<rho>. if \<rho> (tag n) then meaning d (high n) \<rho> else meaning d (low n) \<rho>)"
  unfolding node_def
proof (rule check_returns)
  fix d' assume d': "d' = d\<lparr>polls := Suc (polls d)\<rparr>"
  let ?v = "\<lambda>\<rho>. if \<rho> (tag n) then meaning d (high n) \<rho> else meaning d (low n) \<rho>"
  have m: "meaning d' = meaning d" "stored d' = stored d" "nodes d' = nodes d" "unique d' = unique d"
    and inv: "diagram_inv d'" and ext: "extends d d'"
    using assms(1) by (simp_all add: d' bdd.ext_refl)
  show "bdd.returns ctx d (if low n = high n then Inr (low n, d')
     else case map_of (unique d') n of Some i \<Rightarrow> Inr (i, d')
       | None \<Rightarrow> if maximumNodes \<le> length (unique d') then Inl TooManyNodes
           else Inr (length (nodes d'), d'\<lparr> nodes := nodes d' @ [n], unique := (n, length (nodes d')) # unique d' \<rparr>)) ?v"
  proof (cases "low n = high n")
    case True
    with assms(2) inv ext m show ?thesis by (auto intro!: bdd.returns_value)
  next
    case False
    show ?thesis
    proof (cases "map_of (unique d) n")
      case (Some i)
      then have i: "2 \<le> i" "stored d i" "nodes d ! i = n" using assms(1) by (auto simp: diagram_inv_def unique_inv_def)
      then have "meaning d i = ?v"
        using diagram_inv_reduced [OF assms(1)] by (auto simp: meaning_def eval_node stored_def)
      with False Some i inv ext m show ?thesis by (auto intro!: bdd.returns_value)
    next
      case None
      let ?d = "d'\<lparr> nodes := nodes d' @ [n], unique := (n, length (nodes d')) # unique d' \<rparr>"
      have new: "2 \<le> i \<Longrightarrow> stored d i \<Longrightarrow> nodes d ! i \<noteq> n" for i
        using None assms(1) unfolding diagram_inv_def unique_inv_def by (metis option.distinct(1))
      have red: "reduced (nodes d @ [n])"
        using assms False new by (intro append_reduced) (auto simp: stored_def diagram_inv_def)
      have ext': "extends d ?d" "extends d' ?d" by (auto simp: extends_def m)
      have st: "stored ?d i \<longleftrightarrow> stored d i \<or> i = length (nodes d)" for i by (auto simp: stored_def m)
      have me: "meaning ?d i = meaning d i" if "stored d i" for i
        using bdd.den_stable [OF ext'(1) that] .
      have "diagram_inv ?d"
        using insert_node_inv [OF inv] red new m by simp
      moreover have "meaning ?d (length (nodes d)) = ?v"
        using eval_node [OF red, of "length (nodes d)"] me [OF assms(2)] me [OF assms(3)] diagram_inv_reduced [OF assms(1)]
        by (auto simp: meaning_def reduced_def m fun_eq_iff)
      ultimately show ?thesis using False None m ext' st by (auto intro!: bdd.returns_value bdd.returns_error)
    qed
  qed
qed

text \<open>The node built from two branches that do not look at any tag up to its own.\<close>

lemma node_of_branches:
  assumes "diagram_inv d" "stored d l" "stored d h"
    and "\<And>s. s \<le> t \<Longrightarrow> independent (meaning d l) s" "\<And>s. s \<le> t \<Longrightarrow> independent (meaning d h) s"
  shows "bdd.returns ctx d (node ctx \<lparr> tag = t, low = l, high = h \<rparr> d)
     (\<lambda>\<rho>. if \<rho> t then meaning d h \<rho> else meaning d l \<rho>)"
proof -
  have m: "meaning d i = (\<lambda>\<rho>. eval (nodes d) \<rho> i)" for i by (simp add: meaning_def fun_eq_iff)
  have "ordered_child (nodes d) t l" "ordered_child (nodes d) t h"
    using assms(2-5) unfolding m stored_def
    by (auto intro!: ordered_from_independent [OF diagram_inv_reduced [OF assms(1)]])
  then show ?thesis
    using node_returns [of d "\<lparr> tag = t, low = l, high = h \<rparr>" ctx] assms(1-3)
    by (simp only: decision.select_convs)
qed

text \<open>A stored node in terms of its branches.\<close>

lemma stored_node:
  assumes "diagram_inv d" "stored d i" "2 \<le> i"
  shows "stored d (low (nodes d ! i))" "stored d (high (nodes d ! i))"
    "low (nodes d ! i) < i" "high (nodes d ! i) < i"
    "meaning d i = (\<lambda>\<rho>. if \<rho> (tag (nodes d ! i)) then meaning d (high (nodes d ! i)) \<rho>
       else meaning d (low (nodes d ! i)) \<rho>)"
    "s \<le> tag (nodes d ! i) \<Longrightarrow> independent (meaning d (low (nodes d ! i))) s"
    "s \<le> tag (nodes d ! i) \<Longrightarrow> independent (meaning d (high (nodes d ! i))) s"
proof -
  have red: "reduced (nodes d)" and len: "i < length (nodes d)"
    using assms by (simp_all add: diagram_inv_def stored_def)
  note r = reducedD [OF red assms(3) len]
  show "low (nodes d ! i) < i" "high (nodes d ! i) < i" by (rule r)+
  show st: "stored d (low (nodes d ! i))" "stored d (high (nodes d ! i))"
    using r(1,2) len by (simp_all add: stored_def)
  show "meaning d i = (\<lambda>\<rho>. if \<rho> (tag (nodes d ! i)) then meaning d (high (nodes d ! i)) \<rho>
       else meaning d (low (nodes d ! i)) \<rho>)"
    using eval_node [OF red assms(3) len] by (simp add: meaning_def fun_eq_iff)
  have m: "meaning d i = (\<lambda>\<rho>. eval (nodes d) \<rho> i)" for i by (simp add: meaning_def fun_eq_iff)
  show "s \<le> tag (nodes d ! i) \<Longrightarrow> independent (meaning d (low (nodes d ! i))) s"
    "s \<le> tag (nodes d ! i) \<Longrightarrow> independent (meaning d (high (nodes d ! i))) s"
    using independent_eval [OF red _ r(4)] independent_eval [OF red _ r(5)] st unfolding m stored_def by blast+
qed

lemma independent_not: "independent f s \<Longrightarrow> independent (\<lambda>\<rho>. \<not> f \<rho>) s"
  by (simp add: independent_def)

lemma independent_connective:
  "independent f s \<Longrightarrow> independent g s \<Longrightarrow> independent (\<lambda>\<rho>. connective is_or (f \<rho>) (g \<rho>)) s"
  by (simp add: independent_def)

lemma memo_negated_inv:
  assumes "diagram_inv d" "stored d i" "stored d j" "meaning d j = (\<lambda>\<rho>. \<not> meaning d i \<rho>)"
  shows "diagram_inv (d\<lparr> negated := (negated d)(i \<mapsto> j) \<rparr>)"
  using assms by (auto simp: diagram_inv_def unique_inv_def memo_inv_def stored_def meaning_def fun_eq_iff)

lemma inv_negated [simp]:
  "extends c (d\<lparr>negated := p\<rparr>) = extends c d" "stored (d\<lparr>negated := p\<rparr>) = stored d"
  "meaning (d\<lparr>negated := p\<rparr>) = meaning d"
  by (auto simp: extends_def stored_def meaning_def fun_eq_iff)

text \<open>The shape of both recursive operations: two branches in turn, the node over them, a memo entry.\<close>

lemma branches_return:
  assumes low: "bdd.returns ctx d (f d) F"
    and high: "\<And>e. diagram_inv e \<Longrightarrow> extends d e \<Longrightarrow> bdd.returns ctx e (g e) G"
    and indep: "\<And>s. s \<le> t \<Longrightarrow> independent F s" "\<And>s. s \<le> t \<Longrightarrow> independent G s"
    and memo: "\<And>e i. diagram_inv e \<Longrightarrow> extends d e \<Longrightarrow> stored e i \<Longrightarrow>
      meaning e i = (\<lambda>\<rho>. if \<rho> t then G \<rho> else F \<rho>) \<Longrightarrow>
      diagram_inv (upd e i) \<and> extends e (upd e i) \<and> stored (upd e i) = stored e \<and> meaning (upd e i) = meaning e"
  shows "bdd.returns ctx d
     (and_then (f d) (\<lambda>(l, d). and_then (g d) (\<lambda>(h, d).
        and_then (node ctx \<lparr> tag = t, low = l, high = h \<rparr> d) (\<lambda>(i, d). Inr (i, upd d i)))))
     (\<lambda>\<rho>. if \<rho> t then G \<rho> else F \<rho>)"
proof (rule bdd.returns_and_then [OF low])
  fix l d1 assume 1: "diagram_inv d1" "extends d d1" "stored d1 l" "meaning d1 l = F"
  show "bdd.returns ctx d1 (and_then (g d1) (\<lambda>(h, d).
        and_then (node ctx \<lparr> tag = t, low = l, high = h \<rparr> d) (\<lambda>(i, d). Inr (i, upd d i))))
     (\<lambda>\<rho>. if \<rho> t then G \<rho> else F \<rho>)"
  proof (rule bdd.returns_and_then [OF high [OF 1(1,2)]])
    fix h d2 assume 2: "diagram_inv d2" "extends d1 d2" "stored d2 h" "meaning d2 h = G"
    have l: "stored d2 l" "meaning d2 l = F"
      using bdd.good_stable [OF 2(2) 1(3)] bdd.den_stable [OF 2(2) 1(3)] 1(4) by simp_all
    have "bdd.returns ctx d2 (node ctx \<lparr> tag = t, low = l, high = h \<rparr> d2) (\<lambda>\<rho>. if \<rho> t then G \<rho> else F \<rho>)"
      by (rule node_of_branches [OF 2(1) l(1) 2(3), unfolded l(2) 2(4)]) (erule indep)+
    then show "bdd.returns ctx d2 (and_then (node ctx \<lparr> tag = t, low = l, high = h \<rparr> d2) (\<lambda>(i, d). Inr (i, upd d i)))
      (\<lambda>\<rho>. if \<rho> t then G \<rho> else F \<rho>)"
    proof (rule bdd.returns_and_then)
      fix i d3 assume 3: "diagram_inv d3" "extends d2 d3" "stored d3 i" "meaning d3 i = (\<lambda>\<rho>. if \<rho> t then G \<rho> else F \<rho>)"
      have "extends d d3" by (rule bdd.ext_trans [OF bdd.ext_trans [OF 1(2) 2(2)] 3(2)])
      from memo [OF 3(1) this 3(3,4)] 3
      show "bdd.returns ctx d3 (Inr (i, upd d3 i)) (\<lambda>\<rho>. if \<rho> t then G \<rho> else F \<rho>)"
        by (intro bdd.returns_value) auto
    qed
  qed
qed

lemma negate_returns:
  "diagram_inv d \<Longrightarrow> stored d i \<Longrightarrow> i < k \<Longrightarrow>
   bdd.returns ctx d (negate ctx k i d) (\<lambda>\<rho>. \<not> meaning d i \<rho>)"
proof (induction k arbitrary: i d)
  case 0
  then show ?case by simp
next
  case (Suc k)
  note inv = Suc.prems(1) and st = Suc.prems(2)
  consider "i < 2" | j where "2 \<le> i" "negated d i = Some j" | "2 \<le> i" "negated d i = None"
    by (meson not_None_eq not_le)
  then show ?case
  proof cases
    case 1
    then have "meaning d (1 - i) = (\<lambda>\<rho>. \<not> meaning d i \<rho>)" "stored d (1 - i)"
      using inv_terminals [OF inv] by (auto simp: less_2_cases_iff meaning_def)
    with 1 inv show ?thesis by (auto intro!: bdd.returns_value bdd.ext_refl)
  next
    case 2
    then have "stored d j" "meaning d j = (\<lambda>\<rho>. \<not> meaning d i \<rho>)"
      using inv by (auto simp: diagram_inv_def memo_inv_def)
    with 2 inv show ?thesis by (auto intro!: bdd.returns_value bdd.ext_refl)
  next
    case 3
    note n = stored_node [OF inv st 3(1)]
    let ?n = "nodes d ! i"
    have v: "(\<lambda>\<rho>. if \<rho> (tag ?n) then \<not> meaning d (high ?n) \<rho> else \<not> meaning d (low ?n) \<rho>) =
        (\<lambda>\<rho>. \<not> meaning d i \<rho>)"
      by (simp add: n(5) fun_eq_iff)
    have "bdd.returns ctx d
      (and_then (negate ctx k (low ?n) d) (\<lambda>(l, d). and_then (negate ctx k (high ?n) d) (\<lambda>(h, d).
         and_then (node ctx \<lparr> tag = tag ?n, low = l, high = h \<rparr> d) (\<lambda>(opposite, d).
            Inr (opposite, d\<lparr> negated := (negated d)(i \<mapsto> opposite) \<rparr>)))))
      (\<lambda>\<rho>. if \<rho> (tag ?n) then \<not> meaning d (high ?n) \<rho> else \<not> meaning d (low ?n) \<rho>)"
    proof (rule branches_return)
      show "bdd.returns ctx d (negate ctx k (low ?n) d) (\<lambda>\<rho>. \<not> meaning d (low ?n) \<rho>)"
        using Suc.prems(3) n(3) by (intro Suc.IH inv n(1)) simp
      show "bdd.returns ctx e (negate ctx k (high ?n) e) (\<lambda>\<rho>. \<not> meaning d (high ?n) \<rho>)"
        if "diagram_inv e" "extends d e" for e
        using Suc.IH [OF that(1) bdd.good_stable [OF that(2) n(2)]] Suc.prems(3) n(4)
          bdd.den_stable [OF that(2) n(2)] by simp
      show "independent (\<lambda>\<rho>. \<not> meaning d (low ?n) \<rho>) s" "independent (\<lambda>\<rho>. \<not> meaning d (high ?n) \<rho>) s"
        if "s \<le> tag ?n" for s
        using n(6,7) [OF that] by (auto intro: independent_not)
      show "diagram_inv (e\<lparr> negated := (negated e)(i \<mapsto> j) \<rparr>) \<and> extends e (e\<lparr> negated := (negated e)(i \<mapsto> j) \<rparr>) \<and>
          stored (e\<lparr> negated := (negated e)(i \<mapsto> j) \<rparr>) = stored e \<and>
          meaning (e\<lparr> negated := (negated e)(i \<mapsto> j) \<rparr>) = meaning e"
        if e: "diagram_inv e" "extends d e" "stored e j"
          "meaning e j = (\<lambda>\<rho>. if \<rho> (tag ?n) then \<not> meaning d (high ?n) \<rho> else \<not> meaning d (low ?n) \<rho>)" for e j
        using memo_negated_inv [OF e(1) bdd.good_stable [OF e(2) st] e(3)] e(4) v bdd.den_stable [OF e(2) st]
        by (simp add: bdd.ext_refl)
    qed
    with 3 show ?thesis unfolding v by (simp add: Let_def)
  qed
qed

lemma memo_applied_inv:
  assumes "diagram_inv d" "stored d l" "stored d r" "stored d i"
    "meaning d i = (\<lambda>\<rho>. connective is_or (meaning d l \<rho>) (meaning d r \<rho>))"
  shows "diagram_inv (d\<lparr> applied := (applied d)((is_or, l, r) \<mapsto> i) \<rparr>)"
proof -
  have "memo_inv (d\<lparr> applied := (applied d)((is_or, l, r) \<mapsto> i) \<rparr>)"
    using assms by (simp add: memo_inv_def diagram_inv_def stored_def meaning_def fun_eq_iff)
  with assms(1) show ?thesis by (simp add: diagram_inv_def unique_inv_def stored_def)
qed

lemma inv_applied [simp]:
  "extends c (d\<lparr>applied := p\<rparr>) = extends c d" "stored (d\<lparr>applied := p\<rparr>) = stored d"
  "meaning (d\<lparr>applied := p\<rparr>) = meaning d"
  by (auto simp: extends_def stored_def meaning_def fun_eq_iff)

text \<open>The branches of a node at a tag that is not after its own.\<close>

lemma branches_meaning:
  assumes "diagram_inv d" "stored d i" "2 \<le> i" "t \<le> tag (nodes d ! i)" "branches d i t = (l, h)"
  shows "stored d l" "stored d h" "l \<le> i" "h \<le> i" "tag (nodes d ! i) = t \<Longrightarrow> l < i \<and> h < i"
    "meaning d i = (\<lambda>\<rho>. if \<rho> t then meaning d h \<rho> else meaning d l \<rho>)"
    "s \<le> t \<Longrightarrow> independent (meaning d l) s" "s \<le> t \<Longrightarrow> independent (meaning d h) s"
proof -
  note n = stored_node [OF assms(1-3)]
  have red: "reduced (nodes d)" using assms(1) by (rule diagram_inv_reduced)
  show "stored d l" "stored d h" "l \<le> i" "h \<le> i" "tag (nodes d ! i) = t \<Longrightarrow> l < i \<and> h < i"
    using assms(2,5) n(1-4) by (auto simp: branches_def Let_def split: if_splits)
  show "meaning d i = (\<lambda>\<rho>. if \<rho> t then meaning d h \<rho> else meaning d l \<rho>)"
    using assms(5) n(5) by (auto simp: branches_def Let_def split: if_splits)
  have "independent (meaning d i) s" if "s \<le> t" "tag (nodes d ! i) \<noteq> t"
  proof -
    have "t < tag (nodes d ! i)" using assms(4) that(2) by (simp add: order.order_iff_strict)
    with independent_eval [OF red _ _ that(1), of i] assms(2) show ?thesis
      by (simp add: stored_def ordered_child_def independent_def meaning_def)
  qed
  then show "s \<le> t \<Longrightarrow> independent (meaning d l) s" "s \<le> t \<Longrightarrow> independent (meaning d h) s"
    using assms(5) n(6,7) by (auto simp: branches_def Let_def split: if_splits)
qed

lemma connective_commute: "connective is_or a b = connective is_or b a"
  by (auto simp: connective_def)

lemma meaning_terminal [simp]: "meaning d 0 = (\<lambda>\<rho>. False)" "meaning d 1 = (\<lambda>\<rho>. True)"
   "meaning d (Suc 0) = (\<lambda>\<rho>. True)"
  by (simp_all add: meaning_def fun_eq_iff)

text \<open>The recursive case: both operands are decision nodes.\<close>

lemma apply_branches_return:
  assumes IH: "\<And>l r e. diagram_inv e \<Longrightarrow> stored e l \<Longrightarrow> stored e r \<Longrightarrow> l + r < k \<Longrightarrow>
      bdd.returns ctx e (apply_op ctx k is_or l r e) (\<lambda>\<rho>. connective is_or (meaning e l \<rho>) (meaning e r \<rho>))"
    and inv: "diagram_inv d" and st: "stored d l" "stored d r" and big: "2 \<le> l" "2 \<le> r" and k: "l + r \<le> k"
    and t: "t = min (tag (nodes d ! l)) (tag (nodes d ! r))"
    and b: "branches d l t = (ll, lh)" "branches d r t = (rl, rh)"
  shows "bdd.returns ctx d
      (and_then (apply_op ctx k is_or ll rl d) (\<lambda>(a, d). and_then (apply_op ctx k is_or lh rh d) (\<lambda>(h, d).
         and_then (node ctx \<lparr> tag = t, low = a, high = h \<rparr> d) (\<lambda>(i, d).
            Inr (i, d\<lparr> applied := (applied d)((is_or, l, r) \<mapsto> i) \<rparr>)))))
      (\<lambda>\<rho>. connective is_or (meaning d l \<rho>) (meaning d r \<rho>))"
proof -
  have le: "t \<le> tag (nodes d ! l)" "t \<le> tag (nodes d ! r)" using t by simp_all
  have some: "tag (nodes d ! l) = t \<or> tag (nodes d ! r) = t" using t by (auto simp: min_def)
  note L = branches_meaning [OF inv st(1) big(1) le(1) b(1)] and R = branches_meaning [OF inv st(2) big(2) le(2) b(2)]
  have size: "ll + rl < k" "lh + rh < k" using some L(3-5) R(3-5) k by linarith+
  let ?F = "\<lambda>\<rho>. connective is_or (meaning d ll \<rho>) (meaning d rl \<rho>)"
  let ?G = "\<lambda>\<rho>. connective is_or (meaning d lh \<rho>) (meaning d rh \<rho>)"
  have v: "(\<lambda>\<rho>. if \<rho> t then ?G \<rho> else ?F \<rho>) = (\<lambda>\<rho>. connective is_or (meaning d l \<rho>) (meaning d r \<rho>))"
    unfolding L(6) R(6) by (simp add: fun_eq_iff)
  show ?thesis
    unfolding v [symmetric]
  proof (rule branches_return)
    show "bdd.returns ctx d (apply_op ctx k is_or ll rl d) ?F" by (rule IH [OF inv L(1) R(1) size(1)])
    show "bdd.returns ctx e (apply_op ctx k is_or lh rh e) ?G" if e: "diagram_inv e" "extends d e" for e
      using IH [OF e(1) bdd.good_stable [OF e(2) L(2)] bdd.good_stable [OF e(2) R(2)] size(2)]
      by (simp only: bdd.den_stable [OF e(2) L(2)] bdd.den_stable [OF e(2) R(2)])
    show "independent ?F s" "independent ?G s" if "s \<le> t" for s
      using L(7,8) R(7,8) that by (auto intro: independent_connective)
    show "diagram_inv (e\<lparr> applied := (applied e)((is_or, l, r) \<mapsto> i) \<rparr>) \<and>
        extends e (e\<lparr> applied := (applied e)((is_or, l, r) \<mapsto> i) \<rparr>) \<and>
        stored (e\<lparr> applied := (applied e)((is_or, l, r) \<mapsto> i) \<rparr>) = stored e \<and>
        meaning (e\<lparr> applied := (applied e)((is_or, l, r) \<mapsto> i) \<rparr>) = meaning e"
      if e: "diagram_inv e" "extends d e" "stored e i" "meaning e i = (\<lambda>\<rho>. if \<rho> t then ?G \<rho> else ?F \<rho>)" for e i
      using memo_applied_inv [OF e(1) bdd.good_stable [OF e(2) st(1)] bdd.good_stable [OF e(2) st(2)] e(3)]
        e(4) v bdd.den_stable [OF e(2) st(1)] bdd.den_stable [OF e(2) st(2)]
      by (simp add: bdd.ext_refl)
  qed
qed

lemma apply_op_body:
  assumes IH: "\<And>l r e. diagram_inv e \<Longrightarrow> stored e l \<Longrightarrow> stored e r \<Longrightarrow> l + r < k \<Longrightarrow>
      bdd.returns ctx e (apply_op ctx k is_or l r e) (\<lambda>\<rho>. connective is_or (meaning e l \<rho>) (meaning e r \<rho>))"
    and inv: "diagram_inv d" and st: "stored d l" "stored d r" and k: "l + r \<le> k" and le: "l \<le> r"
  shows "bdd.returns ctx d
      (if l = r then Inr (l, d)
       else if is_or \<and> l = 0 \<or> \<not> is_or \<and> l = 1 then Inr (r, d)
       else if is_or \<and> (l = 1 \<or> r = 1) then Inr (1, d)
       else if \<not> is_or \<and> l = 0 then Inr (0, d)
       else case applied d (is_or, l, r) of
         Some i \<Rightarrow> Inr (i, d)
       | None \<Rightarrow>
           let t = min (tag (nodes d ! l)) (tag (nodes d ! r));
               (ll, lh) = branches d l t;
               (rl, rh) = branches d r t in
           and_then (apply_op ctx k is_or ll rl d) (\<lambda>(a, d).
           and_then (apply_op ctx k is_or lh rh d) (\<lambda>(h, d).
           and_then (node ctx \<lparr> tag = t, low = a, high = h \<rparr> d) (\<lambda>(i, d).
             Inr (i, d\<lparr> applied := (applied d)((is_or, l, r) \<mapsto> i) \<rparr>)))))
      (\<lambda>\<rho>. connective is_or (meaning d l \<rho>) (meaning d r \<rho>))"
proof -
  have val: "bdd.returns ctx d (Inr (i, d)) v" if "stored d i" "meaning d i = v" for i v
    using that inv by (auto intro!: bdd.returns_value bdd.ext_refl)
  note terms = inv_terminals [OF inv]
  consider "l = r" | "l \<noteq> r" "is_or \<and> l = 0 \<or> \<not> is_or \<and> l = 1"
    | "l \<noteq> r" "is_or" "l = 1 \<or> r = 1" "l \<noteq> 0" | "l \<noteq> r" "\<not> is_or" "l = 0"
    | "l \<noteq> r" "2 \<le> l" "2 \<le> r" by (cases is_or) (use le in linarith)+
  then show ?thesis
  proof cases
    case 1
    then show ?thesis using val [OF st(1)] by (simp add: connective_def)
  next
    case 2
    then show ?thesis using val [OF st(2)] by (auto simp: connective_def)
  next
    case 3
    then show ?thesis using val [of 1] terms le by (auto simp: connective_def)
  next
    case 4
    then show ?thesis using val [of 0] terms by (simp add: connective_def)
  next
    case 5
    show ?thesis
    proof (cases "applied d (is_or, l, r)")
      case (Some i)
      with inv have "stored d i" "meaning d i = (\<lambda>\<rho>. connective is_or (meaning d l \<rho>) (meaning d r \<rho>))"
        by (auto simp: diagram_inv_def memo_inv_def)
      with val [of i] Some 5 show ?thesis by simp
    next
      case None
      obtain ll lh where bl: "branches d l (min (tag (nodes d ! l)) (tag (nodes d ! r))) = (ll, lh)" by fastforce
      obtain rl rh where br: "branches d r (min (tag (nodes d ! l)) (tag (nodes d ! r))) = (rl, rh)" by fastforce
      from apply_branches_return [OF IH inv st 5(2,3) k refl bl br] None 5 show ?thesis
        by (simp add: Let_def bl br)
    qed
  qed
qed

lemma apply_op_returns:
  "diagram_inv d \<Longrightarrow> stored d l \<Longrightarrow> stored d r \<Longrightarrow> l + r < k \<Longrightarrow>
   bdd.returns ctx d (apply_op ctx k is_or l r d) (\<lambda>\<rho>. connective is_or (meaning d l \<rho>) (meaning d r \<rho>))"
proof (induction k arbitrary: l r d)
  case 0
  then show ?case by simp
next
  case (Suc k)
  show ?case
    unfolding apply_op.simps
  proof (rule check_returns)
    fix d' assume d': "d' = d\<lparr>polls := Suc (polls d)\<rparr>"
    have inv: "diagram_inv d'" and st: "stored d' l" "stored d' r" and m: "meaning d' = meaning d"
      using Suc.prems by (simp_all add: d')
    have *: "bdd.returns ctx d' X v \<Longrightarrow> bdd.returns ctx d X v" for X v by (simp add: d')
    show "bdd.returns ctx d
       (let (left, right) = if r < l then (r, l) else (l, r)
        in if left = right then Inr (left, d')
       else if is_or \<and> left = 0 \<or> \<not> is_or \<and> left = 1 then Inr (right, d')
       else if is_or \<and> (left = 1 \<or> right = 1) then Inr (1, d')
       else if \<not> is_or \<and> left = 0 then Inr (0, d')
       else case applied d' (is_or, left, right) of
         Some i \<Rightarrow> Inr (i, d')
       | None \<Rightarrow>
           let t = min (tag (nodes d' ! left)) (tag (nodes d' ! right));
               (ll, lh) = branches d' left t;
               (rl, rh) = branches d' right t in
           and_then (apply_op ctx k is_or ll rl d') (\<lambda>(a, d).
           and_then (apply_op ctx k is_or lh rh d) (\<lambda>(h, d).
           and_then (node ctx \<lparr> tag = t, low = a, high = h \<rparr> d) (\<lambda>(i, d).
             Inr (i, d\<lparr> applied := (applied d)((is_or, left, right) \<mapsto> i) \<rparr>)))))
       (\<lambda>\<rho>. connective is_or (meaning d l \<rho>) (meaning d r \<rho>))"
    proof (cases "r < l")
      case True
      with apply_op_body [OF Suc.IH inv st(2,1)] Suc.prems(4) show ?thesis
        by (intro *) (simp add: m connective_commute [of is_or "meaning d l _"])
    next
      case False
      with apply_op_body [OF Suc.IH inv st(1,2)] Suc.prems(4) show ?thesis
        by (intro *) (simp add: m)
    qed
  qed
qed

subsection \<open>\<open>compile\<close>\<close>

fun holds :: "expr \<Rightarrow> valuation \<Rightarrow> bool" where
  "holds (TagExpr t) \<rho> = \<rho> t"
| "holds (NotExpr x) \<rho> = (\<not> holds x \<rho>)"
| "holds (AndExpr x y) \<rho> = (holds x \<rho> \<and> holds y \<rho>)"
| "holds (OrExpr x y) \<rho> = (holds x \<rho> \<or> holds y \<rho>)"

definition header_holds :: "expr option \<Rightarrow> valuation \<Rightarrow> bool" where
  "header_holds e \<rho> = (case e of None \<Rightarrow> True | Some e \<Rightarrow> holds e \<rho>)"

lemma polled_returns:
  assumes "diagram_inv d" "\<And>e. diagram_inv e \<Longrightarrow> nodes e = nodes d \<Longrightarrow> bdd.returns ctx e (f e) v"
  shows "bdd.returns ctx d (and_then (check_ctx ctx d) f) v"
proof (rule check_returns)
  fix e assume e: "e = d\<lparr>polls := Suc (polls d)\<rparr>"
  have "bdd.returns ctx e (f e) v" by (rule assms(2)) (simp_all add: e assms(1))
  then show "bdd.returns ctx d (f e) v" unfolding e by simp
qed

lemma binary_returns:
  assumes x: "\<And>d. diagram_inv d \<Longrightarrow> bdd.returns ctx d (compile_expr ctx x d) (holds x)"
    and y: "\<And>d. diagram_inv d \<Longrightarrow> bdd.returns ctx d (compile_expr ctx y d) (holds y)"
    and d: "diagram_inv d"
  shows "bdd.returns ctx d
     (and_then (compile_expr ctx x d) (\<lambda>(lhs, d).
      and_then (compile_expr ctx y d) (\<lambda>(rhs, d). apply_op ctx (Suc (lhs + rhs)) is_or lhs rhs d)))
     (\<lambda>\<rho>. connective is_or (holds x \<rho>) (holds y \<rho>))"
proof (rule bdd.returns_and_then [OF x [OF d]])
  fix l e assume 1: "diagram_inv e" "extends d e" "stored e l" "meaning e l = holds x"
  show "bdd.returns ctx e (and_then (compile_expr ctx y e) (\<lambda>(rhs, d). apply_op ctx (Suc (l + rhs)) is_or l rhs d))
     (\<lambda>\<rho>. connective is_or (holds x \<rho>) (holds y \<rho>))"
  proof (rule bdd.returns_and_then [OF y [OF 1(1)]])
    fix r f assume 2: "diagram_inv f" "extends e f" "stored f r" "meaning f r = holds y"
    have "stored f l" "meaning f l = holds x"
      using bdd.good_stable [OF 2(2) 1(3)] bdd.den_stable [OF 2(2) 1(3)] 1(4) by simp_all
    with apply_op_returns [OF 2(1) _ 2(3), of l "Suc (l + r)" ctx is_or] 2(4)
    show "bdd.returns ctx f (apply_op ctx (Suc (l + r)) is_or l r f) (\<lambda>\<rho>. connective is_or (holds x \<rho>) (holds y \<rho>))"
      by simp
  qed
qed

lemma compile_expr_returns:
  "diagram_inv d \<Longrightarrow> bdd.returns ctx d (compile_expr ctx e d) (holds e)"
proof (induction e arbitrary: d)
  case (TagExpr t)
  show ?case
    unfolding compile_expr.simps
  proof (rule polled_returns [OF TagExpr])
    fix e assume e: "diagram_inv e"
    have "ordered_child (nodes e) t 0" "ordered_child (nodes e) t 1" by (simp_all add: ordered_child_def)
    then have "bdd.returns ctx e (node ctx \<lparr>tag = t, low = 0, high = 1\<rparr> e)
        (\<lambda>\<rho>. if \<rho> t then meaning e 1 \<rho> else meaning e 0 \<rho>)"
      using node_returns [of e "\<lparr>tag = t, low = 0, high = 1\<rparr>" ctx] e inv_terminals [OF e]
      by (simp only: decision.select_convs)
    moreover have "(\<lambda>\<rho>. if \<rho> t then meaning e 1 \<rho> else meaning e 0 \<rho>) = holds (TagExpr t)"
      by (simp add: fun_eq_iff)
    ultimately show "bdd.returns ctx e (node ctx \<lparr>tag = t, low = 0, high = 1\<rparr> e) (holds (TagExpr t))"
      by (simp only:)
  qed
next
  case (NotExpr x)
  show ?case
    unfolding compile_expr.simps
  proof (rule polled_returns [OF NotExpr.prems])
    fix d assume d: "diagram_inv d"
    show "bdd.returns ctx d (and_then (compile_expr ctx x d) (\<lambda>(child, d). negate ctx (Suc child) child d))
       (holds (NotExpr x))"
    proof (rule bdd.returns_and_then [OF NotExpr.IH [OF d]])
      fix c e assume "diagram_inv e" "extends d e" "stored e c" "meaning e c = holds x"
      with negate_returns [of e c "Suc c" ctx] show "bdd.returns ctx e (negate ctx (Suc c) c e) (holds (NotExpr x))"
        by (simp add: holds.simps(2) [abs_def])
    qed
  qed
next
  case (AndExpr x y)
  have v: "holds (AndExpr x y) = (\<lambda>\<rho>. connective False (holds x \<rho>) (holds y \<rho>))"
    by (simp add: fun_eq_iff connective_def)
  show ?case unfolding compile_expr.simps v
    by (rule polled_returns [OF AndExpr.prems], rule binary_returns [OF AndExpr.IH])
next
  case (OrExpr x y)
  have v: "holds (OrExpr x y) = (\<lambda>\<rho>. connective True (holds x \<rho>) (holds y \<rho>))"
    by (simp add: fun_eq_iff connective_def)
  show ?case unfolding compile_expr.simps v
    by (rule polled_returns [OF OrExpr.prems], rule binary_returns [OF OrExpr.IH])
qed

lemma compile_returns:
  assumes "diagram_inv d"
  shows "bdd.returns ctx d (compile ctx e d) (header_holds e)"
proof (cases e)
  case None
  have "bdd.returns ctx d (and_then (check_ctx ctx d) (\<lambda>d. Inr (1, d))) (\<lambda>\<rho>. True)"
    using inv_terminals by (auto intro!: polled_returns assms bdd.returns_value bdd.ext_refl)
  with None show ?thesis by (simp add: compile_def header_holds_def [abs_def])
next
  case (Some x)
  with compile_expr_returns [OF assms] show ?thesis by (simp add: compile_def header_holds_def [abs_def])
qed

subsection \<open>\<open>without\<close>\<close>

definition avoids :: "decision list \<Rightarrow> gostring \<Rightarrow> nat \<Rightarrow> bool" where
  "avoids ns t i \<longleftrightarrow> (\<exists>\<rho>. \<not> \<rho> t \<and> eval ns \<rho> i)"

lemma satisfiable: "reduced ns \<Longrightarrow> i < length ns \<Longrightarrow> i \<noteq> 0 \<longleftrightarrow> (\<exists>\<rho>. eval ns \<rho> i)"
proof
  assume r: "reduced ns" and i: "i < length ns" "i \<noteq> 0"
  have "0 < length ns" using r by (auto simp: reduced_def)
  with canonical [OF r i(1), of 0] i(2) show "\<exists>\<rho>. eval ns \<rho> i" by auto
next
  assume "\<exists>\<rho>. eval ns \<rho> i"
  then show "i \<noteq> 0" by (cases i) auto
qed

lemma avoids_independent:
  assumes "independent (\<lambda>\<rho>. eval ns \<rho> i) t" shows "avoids ns t i \<longleftrightarrow> (\<exists>\<rho>. eval ns \<rho> i)"
proof
  assume "\<exists>\<rho>. eval ns \<rho> i"
  then obtain \<rho> where "eval ns \<rho> i" ..
  with assms have "eval ns (\<rho>(t := False)) i" by (simp add: independent_def)
  then show "avoids ns t i" unfolding avoids_def by (intro exI [of _ "\<rho>(t := False)"]) simp
qed (auto simp: avoids_def)

lemma avoids_node:
  assumes "reduced ns" "2 \<le> i" "i < length ns"
  shows "tag (ns ! i) = t \<Longrightarrow> avoids ns t i \<longleftrightarrow> low (ns ! i) \<noteq> 0"
    "t < tag (ns ! i) \<Longrightarrow> avoids ns t i"
    "tag (ns ! i) < t \<Longrightarrow> avoids ns t i \<longleftrightarrow> avoids ns t (low (ns ! i)) \<or> avoids ns t (high (ns ! i))"
proof -
  note r = reducedD [OF assms] and b = branch_of_node [OF assms]
  have lt: "low (ns ! i) < length ns" "high (ns ! i) < length ns" using r(1,2) assms(3) by auto
  {
    assume t: "tag (ns ! i) = t"
    have "avoids ns t i \<longleftrightarrow> avoids ns t (low (ns ! i))"
      using eval_node [OF assms] by (auto simp: avoids_def t)
    also have "\<dots> \<longleftrightarrow> (\<exists>\<rho>. eval ns \<rho> (low (ns ! i)))"
      using independent_eval [OF assms(1) lt(1) r(4), of t] t by (intro avoids_independent) simp
    finally show "avoids ns t i \<longleftrightarrow> low (ns ! i) \<noteq> 0" using satisfiable [OF assms(1) lt(1)] by simp
  next
    assume t: "t < tag (ns ! i)"
    have "independent (\<lambda>\<rho>. eval ns \<rho> i) t"
      using independent_eval [OF assms(1,3) _ order_refl, of t] t by (simp add: ordered_child_def)
    with satisfiable [OF assms(1,3)] assms(2) show "avoids ns t i" by (simp add: avoids_independent)
  next
    assume t: "tag (ns ! i) < t"
    let ?s = "tag (ns ! i)"
    have "avoids ns t i" if "\<not> \<rho> t" "eval ns \<rho> (low (ns ! i)) \<or> eval ns \<rho> (high (ns ! i))" for \<rho>
    proof -
      from that(2) b [of \<rho>] obtain x where "eval ns (\<rho>(?s := x)) i" by auto
      moreover have "\<not> (\<rho>(?s := x)) t" using that(1) t by auto
      ultimately show ?thesis unfolding avoids_def by blast
    qed
    moreover have "avoids ns t (low (ns ! i)) \<or> avoids ns t (high (ns ! i))" if "avoids ns t i"
      using that eval_node [OF assms] by (auto simp: avoids_def split: if_splits)
    ultimately show "avoids ns t i \<longleftrightarrow> avoids ns t (low (ns ! i)) \<or> avoids ns t (high (ns ! i))"
      unfolding avoids_def by blast
  }
qed

definition seen_ok :: "decision list \<Rightarrow> gostring \<Rightarrow> (nat \<rightharpoonup> bool) \<Rightarrow> bool" where
  "seen_ok ns t seen \<longleftrightarrow> (\<forall>i b. seen i = Some b \<longrightarrow> b = avoids ns t i)"

lemma without_correct:
  "reduced ns \<Longrightarrow> i < length ns \<Longrightarrow> i < k \<Longrightarrow> seen_ok ns t seen \<Longrightarrow>
   \<exists>seen'. without ns k i t seen = Some (avoids ns t i, seen') \<and> seen_ok ns t seen'"
proof (induction k arbitrary: i seen)
  case 0
  then show ?case by simp
next
  case (Suc k)
  note red = Suc.prems(1) and len = Suc.prems(2) and ok = Suc.prems(4)
  consider "i < 2" | b where "2 \<le> i" "seen i = Some b" | "2 \<le> i" "seen i = None" "tag (ns ! i) = t"
    | "2 \<le> i" "seen i = None" "t < tag (ns ! i)" | "2 \<le> i" "seen i = None" "tag (ns ! i) < t"
    by (metis linorder_less_linear not_le option.exhaust)
  then show ?case
  proof cases
    case 1
    have "avoids ns t i \<longleftrightarrow> i = 1"
      using 1 by (auto simp: avoids_def less_2_cases_iff intro: exI [of _ "\<lambda>_. False"])
    with 1 ok show ?thesis by simp
  next
    case 2
    with ok show ?thesis by (auto simp: seen_ok_def)
  next
    case 3
    with avoids_node(1) [OF red 3(1) len 3(3)] ok show ?thesis by (simp add: Let_def)
  next
    case 4
    with avoids_node(2) [OF red 4(1) len 4(3)] ok show ?thesis by (auto simp: Let_def)
  next
    case 5
    note a = avoids_node(3) [OF red 5(1) len 5(3)] and r = reducedD [OF red 5(1) len]
    have neq: "tag (ns ! i) \<noteq> t" "\<not> t < tag (ns ! i)" using 5(3) by auto
    obtain s1 where s1: "without ns k (low (ns ! i)) t seen = Some (avoids ns t (low (ns ! i)), s1)" "seen_ok ns t s1"
      using Suc.IH [OF red _ _ ok, of "low (ns ! i)"] r(1) len Suc.prems(3) by auto
    obtain s2 where s2: "without ns k (high (ns ! i)) t s1 = Some (avoids ns t (high (ns ! i)), s2)" "seen_ok ns t s2"
      using Suc.IH [OF red _ _ s1(2), of "high (ns ! i)"] r(2) len Suc.prems(3) by auto
    show ?thesis
      using 5(1,2) neq a s1 s2 by (cases "avoids ns t (low (ns ! i))") (auto simp: Let_def seen_ok_def)
  qed
qed

subsection \<open>\<open>Requires\<close>\<close>

text \<open>A header requires a tag when it can hold, and holds only with the tag set.\<close>

definition requires_tag :: "expr option \<Rightarrow> gostring \<Rightarrow> bool" where
  "requires_tag e t \<longleftrightarrow> (\<exists>\<rho>. header_holds e \<rho>) \<and> (\<forall>\<rho>. header_holds e \<rho> \<longrightarrow> \<rho> t)"

lemma require_tags_correct:
  assumes root: "stored d root" "meaning d root = header_holds e" and inv: "diagram_inv d"
  shows "case require_tags ctx root ts d m of
      Inl err \<Rightarrow> \<not> impossible_error ctx err
    | Inr (r, d') \<Rightarrow> r = (\<lambda>t. if t \<in> set ts then Some (requires_tag e t) else m t)"
  using assms
proof (induction ts arbitrary: d m)
  case Nil
  then show ?case by simp
next
  case (Cons t ts)
  have red: "reduced (nodes d)" and len: "root < length (nodes d)"
    using Cons.prems by (simp_all add: diagram_inv_def stored_def)
  obtain seen where w: "without (nodes d) (Suc root) root t Map.empty = Some (avoids (nodes d) t root, seen)"
    using without_correct [OF red len, of "Suc root" t Map.empty] by (auto simp: seen_ok_def)
  have sat: "root \<noteq> 0 \<longleftrightarrow> (\<exists>\<rho>. header_holds e \<rho>)"
    using satisfiable [OF red len] Cons.prems(2) by (metis meaning_def)
  have av: "avoids (nodes d) t root \<longleftrightarrow> (\<exists>\<rho>. \<not> \<rho> t \<and> header_holds e \<rho>)"
    using Cons.prems(2) by (simp add: avoids_def meaning_def [abs_def] fun_eq_iff)
  show ?case
  proof (cases "ctx (polls d)")
    case True
    then show ?thesis by (auto simp: check_ctx_def)
  next
    case False
    let ?d = "d\<lparr>polls := Suc (polls d)\<rparr>" and ?m = "m(t \<mapsto> requires_tag e t)"
    have step: "require_tags ctx root (t # ts) d m = require_tags ctx root ts ?d ?m"
    proof (cases "root = 0")
      case True
      with sat have "requires_tag e t = False" by (simp add: requires_tag_def)
      with True False show ?thesis by (simp add: check_ctx_def)
    next
      case nz: False
      with sat av have "requires_tag e t = (\<not> avoids (nodes d) t root)" by (auto simp: requires_tag_def)
      with nz False w show ?thesis by (simp add: check_ctx_def del: without.simps)
    qed
    have upd: "(\<lambda>x. if x \<in> set ts then Some (requires_tag e x) else ?m x) =
        (\<lambda>x. if x \<in> set (t # ts) then Some (requires_tag e x) else m x)" by (simp add: fun_eq_iff)
    show ?thesis unfolding step upd [symmetric] by (rule Cons.IH) (use Cons.prems in simp_all)
  qed
qed

lemma Requires_result:
  "case Requires ctx letters header tags of
      Inl err \<Rightarrow> (\<exists>t \<in> set tags. \<not> ValidateTag letters t \<and> err = InvalidTag t) \<or> \<not> impossible_error ctx err
    | Inr result \<Rightarrow> (\<forall>t \<in> set tags. ValidateTag letters t) \<and>
        result = (\<lambda>t. if t \<in> set tags then Some (requires_tag header t) else None)"
proof (cases "find (\<lambda>t. \<not> ValidateTag letters t) tags")
  case (Some t)
  then have "Requires ctx letters header tags = Inl (InvalidTag t)" by (simp add: Requires_def)
  moreover have "t \<in> set tags \<and> \<not> ValidateTag letters t" using Some by (auto simp: find_Some_iff)
  ultimately show ?thesis by auto
next
  case None
  then have valid: "\<forall>t \<in> set tags. ValidateTag letters t" by (simp add: find_None_iff)
  have c: "bdd.returns ctx newDiagram (compile ctx header newDiagram) (header_holds header)"
    by (rule compile_returns [OF newDiagram_inv])
  show ?thesis
  proof (cases "compile ctx header newDiagram")
    case (Inl err)
    with c None show ?thesis by (simp add: Requires_def bdd.returns_def)
  next
    case (Inr p)
    obtain root d where p: "p = (root, d)" by (cases p)
    from bdd.returnsD [of ctx newDiagram root d] c Inr p
    have d: "stored d root" "meaning d root = header_holds header" "diagram_inv d" by auto
    show ?thesis
      using require_tags_correct [OF d, of ctx tags Map.empty] None Inr valid
      by (auto simp: Requires_def p check_ctx_def split: sum.splits if_splits)
  qed
qed

text \<open>C1: what \<open>Requires\<close> answers is the logical notion: whenever it returns a result, every requested tag is
  valid, and the answer for it is whether the header is satisfiable and holds only under assignments that
  set the tag; the decision diagram, its memo tables and the context leave no trace in it.\<close>

theorem Requires_correct:
  assumes "Requires ctx letters header tags = Inr result" "t \<in> set tags"
  shows "ValidateTag letters t \<and>
    (result t = Some True \<longleftrightarrow> (\<exists>\<rho>. header_holds header \<rho>) \<and> (\<forall>\<rho>. header_holds header \<rho> \<longrightarrow> \<rho> t)) \<and>
    (result t = Some False \<longleftrightarrow> \<not> ((\<exists>\<rho>. header_holds header \<rho>) \<and> (\<forall>\<rho>. header_holds header \<rho> \<longrightarrow> \<rho> t)))"
  using Requires_result [where ctx = ctx and letters = letters and header = header and tags = tags] assms by (auto simp: requires_tag_def)

text \<open>C8: \<open>Requires\<close> always returns, and it fails only for an invalid tag, a context that was cancelled, or the
  limit on decision nodes: the recursions on the diagram end within the number of the node they start at.\<close>

theorem Requires_errors:
  assumes "Requires ctx letters header tags = Inl e"
  shows "(\<exists>t \<in> set tags. \<not> ValidateTag letters t \<and> e = InvalidTag t) \<or>
    (e = Cancelled \<and> (\<exists>n. ctx n)) \<or> e = TooManyNodes"
  using Requires_result [where ctx = ctx and letters = letters and header = header and tags = tags] assms
  by (cases e) auto

definition sample_header :: expr where
  "sample_header = AndExpr (TagExpr ''a'') (TagExpr ''b'')"

lemma below_limit: "0 < maximumNodes" "n < 65536 \<Longrightarrow> (maximumNodes \<le> n) = False"
  by (simp_all add: maximumNodes_def)

lemma numeral_fuel:
  "apply_op ctx (numeral k) = apply_op ctx (Suc (pred_numeral k))"
  "negate ctx (numeral k) = negate ctx (Suc (pred_numeral k))"
  "without ns (numeral k) = without ns (Suc (pred_numeral k))"
  by (simp_all add: numeral_eq_Suc)

lemmas run_simps = compile_def newDiagram_def check_ctx_def node_def Let_def branches_def
  min_def numeral_2_eq_2 below_limit numeral_fuel

lemma sample_tag: "ValidateTag (\<lambda>_. False) ''b''"
  by (simp add: ValidateTag_def tag_rune_def runes.simps byte_def)

lemma sample_requires:
  "\<exists>r. Requires (\<lambda>_. False) (\<lambda>_. False) (Some sample_header) [''b''] = Inr r \<and> r ''b'' = Some True"
  using sample_tag by (simp add: Requires_def sample_header_def run_simps)

theorem Requires_correct_witness:
  "requires_tag (Some sample_header) ''b''"
proof -
  obtain r where "Requires (\<lambda>_. False) (\<lambda>_. False) (Some sample_header) [''b''] = Inr r" "r ''b'' = Some True"
    using sample_requires by blast
  with Requires_correct [of "\<lambda>_. False" "\<lambda>_. False" "Some sample_header" "[''b'']" r "''b''"]
  show ?thesis by (auto simp: requires_tag_def)
qed

lemma sample_bad_tag: "\<not> ValidateTag (\<lambda>_. False) ''a b''"
  by (simp add: ValidateTag_def tag_rune_def runes.simps byte_def)

theorem Requires_errors_witness:
  "\<not> ValidateTag (\<lambda>_. False) ''a b''"
proof -
  have "Requires (\<lambda>_. False) (\<lambda>_. False) None [''a b''] = Inl (InvalidTag ''a b'')"
    by (simp add: Requires_def sample_bad_tag)
  from Requires_errors [OF this] show ?thesis by (simp only: bex_simps set_simps bdd_error.simps simp_thms ball_simps)
qed

text \<open>C7: the compiled diagram is canonical: in a diagram built by the operations, two nodes that stand for the
  same boolean function are the same node.\<close>

theorem compile_canonical:
  assumes "compile ctx e d = Inr (i, d')" "diagram_inv d" "j < length (nodes d')"
    "\<And>\<rho>. eval (nodes d') \<rho> j = header_holds e \<rho>"
  shows "j = i"
proof -
  have d: "diagram_inv d'" "stored d' i" "meaning d' i = header_holds e"
    using compile_returns [OF assms(2), of ctx e] assms(1) by (auto simp: bdd.returns_def)
  have "eval (nodes d') \<rho> i = header_holds e \<rho>" for \<rho>
    using d(3) by (metis meaning_def)
  with d(2) assms(3,4) show ?thesis
    by (intro canonical [OF diagram_inv_reduced [OF d(1)]]) (simp_all add: stored_def)
qed

lemma sample_compiled:
  "case compile (\<lambda>_. False) (Some (NotExpr (NotExpr (TagExpr ''a'')))) newDiagram of
     Inl _ \<Rightarrow> False | Inr (_, d) \<Rightarrow> nodes d =
       [\<lparr> tag = [], low = 0, high = 0 \<rparr>, \<lparr> tag = [], low = 0, high = 0 \<rparr>,
        \<lparr> tag = ''a'', low = 0, high = 1 \<rparr>, \<lparr> tag = ''a'', low = 1, high = 0 \<rparr>]"
  by (simp add: run_simps)

theorem compile_canonical_witness:
  "\<exists>d. compile (\<lambda>_. False) (Some (NotExpr (NotExpr (TagExpr ''a'')))) newDiagram = Inr (2, d)"
proof -
  obtain i d where c: "compile (\<lambda>_. False) (Some (NotExpr (NotExpr (TagExpr ''a'')))) newDiagram = Inr (i, d)"
    and n: "nodes d = [\<lparr> tag = [], low = 0, high = 0 \<rparr>, \<lparr> tag = [], low = 0, high = 0 \<rparr>,
        \<lparr> tag = ''a'', low = 0, high = 1 \<rparr>, \<lparr> tag = ''a'', low = 1, high = 0 \<rparr>]"
    using sample_compiled by (auto split: sum.splits)
  have "eval (nodes d) \<rho> 2 = header_holds (Some (NotExpr (NotExpr (TagExpr ''a'')))) \<rho>" for \<rho>
    by (subst eval.simps) (simp add: n header_holds_def)
  from compile_canonical [OF c newDiagram_inv _ this] c n show ?thesis by auto
qed

end
