(* ===== verification/Graph_Model.thy ===== *)
theory Graph_Model
  imports Identifier "HOL-Library.AList" "HOL-Library.Product_Lexorder"
begin

text \<open>
  The data of a call graph (\<open>graph/model.go\<close>), the edge types a request follows
  (\<open>graph/access.go\<close>, \<open>graph/filter.go\<close>) and the ids of data nodes (\<open>graph/data.go\<close>). A Go
  \<open>int\<close> is an \<^typ>\<open>int\<close>: the counts and depths here stay far below its bounds. A small Go map that
  is measured or ranged over is an association list with distinct keys; a \<open>map[string]any\<close> holds
  the JSON text of its values.
\<close>

type_synonym properties = "(gostring \<times> gostring) list"
type_synonym relationship_type = gostring

definition RelationshipTypeImport :: relationship_type where "RelationshipTypeImport = ''import''"
definition RelationshipTypeCall :: relationship_type where "RelationshipTypeCall = ''call''"
definition RelationshipTypeReference :: relationship_type where "RelationshipTypeReference = ''reference''"
definition RelationshipTypeInheritance :: relationship_type where "RelationshipTypeInheritance = ''inheritance''"
definition RelationshipTypeImplements :: relationship_type where "RelationshipTypeImplements = ''implements''"
definition RelationshipTypeIncludes :: relationship_type where "RelationshipTypeIncludes = ''includes''"
definition RelationshipTypeForeignKey :: relationship_type where "RelationshipTypeForeignKey = ''foreign_key''"
definition RelationshipTypeRead :: relationship_type where "RelationshipTypeRead = ''read''"
definition RelationshipTypeWrite :: relationship_type where "RelationshipTypeWrite = ''write''"
definition RelationshipTypeDispatch :: relationship_type where "RelationshipTypeDispatch = ''dispatch''"
definition RelationshipTypeNA :: relationship_type where "RelationshipTypeNA = ''''"

lemmas relationship_type_defs = RelationshipTypeImport_def RelationshipTypeCall_def
  RelationshipTypeReference_def RelationshipTypeInheritance_def RelationshipTypeImplements_def
  RelationshipTypeIncludes_def RelationshipTypeForeignKey_def RelationshipTypeRead_def
  RelationshipTypeWrite_def RelationshipTypeDispatch_def RelationshipTypeNA_def

subsection \<open>Nodes, sites, edges\<close>

record location =
  LRootKey :: gostring
  LCheckoutPath :: gostring
  LSnapshotID :: gostring
  LSourceID :: gostring
  LPath :: gostring
  LIdentityKey :: gostring
  LLine :: int
  LColumn :: int

record node =
  NProps :: properties
  ID :: gostring
  NIdentifier :: ident
  NKind :: gostring
  Label :: gostring
  Group :: gostring
  Depth :: int
  In :: int
  Out :: int
  Unresolved :: bool
  NLocation :: "location option"
  Tone :: gostring
  Icon :: gostring
  NProperties :: properties

record site =
  SLocation :: "location option"
  Resolution :: gostring
  SReference :: gostring
  STargets :: "gostring list"
  SProps :: properties
  SPath :: gostring
  SLine :: int
  SColumn :: int
  SText :: gostring
  Guards :: "gostring list"

record edge =
  EProps :: properties
  EID :: gostring
  From :: gostring
  To :: gostring
  EType :: relationship_type
  EKind :: gostring
  Sites :: "site list"
  EProperties :: properties

record step =
  SNode :: node
  SEdge :: edge

record omitted =
  NodeLimit :: bool
  BeyondDepth :: int
  OUnresolved :: int
  UnreadableSource :: "gostring list"
  Excluded :: "(gostring \<times> int) list"

record graph =
  Roots :: "gostring list"
  Nodes :: "node list"
  Edges :: "edge list"
  Groups :: "gostring list"
  Omitted :: omitted

definition no_node :: node where
  "no_node =
     \<lparr> NProps = [], ID = [], NIdentifier = NilIdentifier, NKind = [], Label = [], Group = [], Depth = 0, In = 0,
       Out = 0, Unresolved = False, NLocation = None, Tone = [], Icon = [], NProperties = [] \<rparr>"

definition no_edge :: edge where
  "no_edge =
     \<lparr> EProps = [], EID = [], From = [], To = [], EType = RelationshipTypeNA, EKind = [], Sites = [],
       EProperties = [] \<rparr>"

definition no_site :: site where
  "no_site =
     \<lparr> SLocation = None, Resolution = [], SReference = [], STargets = [], SProps = [], SPath = [], SLine = 0,
       SColumn = 0, SText = [], Guards = [] \<rparr>"

definition no_omitted :: omitted where
  "no_omitted =
     \<lparr> NodeLimit = False, BeyondDepth = 0, OUnresolved = 0, UnreadableSource = [], Excluded = [] \<rparr>"

text \<open>\<open>compareSites\<close> orders by path, line and column; a stable sort by it is a sort by this key.\<close>

definition site_key :: "site \<Rightarrow> gostring \<times> int \<times> int" where
  "site_key s = (SPath s, SLine s, SColumn s)"

definition sort_sites :: "site list \<Rightarrow> site list" where
  "sort_sites = sort_key site_key"

subsection \<open>The edge types a request follows\<close>

definition accessTypes :: "relationship_type list" where
  "accessTypes = [RelationshipTypeCall, RelationshipTypeRead, RelationshipTypeWrite]"

definition relationshipTypes :: "relationship_type list" where
  "relationshipTypes =
     [RelationshipTypeImport, RelationshipTypeCall, RelationshipTypeReference, RelationshipTypeInheritance,
      RelationshipTypeImplements, RelationshipTypeIncludes, RelationshipTypeForeignKey, RelationshipTypeRead,
      RelationshipTypeWrite, RelationshipTypeDispatch]"

definition Follows :: "relationship_type list \<Rightarrow> relationship_type \<Rightarrow> bool" where
  "Follows access t =
     (if access = [] then True
      else t \<in> set access \<or> t = RelationshipTypeDispatch \<and> RelationshipTypeCall \<in> set access)"

definition validateAccess :: "relationship_type list \<Rightarrow> (gostring, unit) outcome" where
  "validateAccess access =
     (case find (\<lambda>t. t \<notin> set relationshipTypes) access of Some t \<Rightarrow> Inl t | None \<Rightarrow> Inr ())"

fun parse_parts :: "unicode_tables \<Rightarrow> gostring list \<Rightarrow> relationship_type set \<Rightarrow> (gostring, relationship_type set) outcome" where
  "parse_parts u [] held = Inr held"
| "parse_parts u (p # ps) held =
     (let part = to_lower u (trim_space p) in
      if part = [] then parse_parts u ps held
      else if part \<notin> set accessTypes then Inl part
      else parse_parts u ps (insert part held))"

definition ParseAccess :: "unicode_tables \<Rightarrow> gostring list \<Rightarrow> (gostring, relationship_type list) outcome" where
  "ParseAccess u values =
     and_then (parse_parts u (concat (map (split_on (CHR '','')) values)) {})
       (\<lambda>held. Inr (filter (\<lambda>t. t \<in> held) accessTypes))"

subsection \<open>Data node ids\<close>

definition data_kinds :: "gostring list" where
  "data_kinds = [''table'', ''column'', ''procedure'', ''sqlfunction'', ''entity'', ''field'']"

definition IsDataKind :: "gostring \<Rightarrow> bool" where
  "IsDataKind kind \<longleftrightarrow> kind \<in> set data_kinds"

definition DataID :: "gostring \<Rightarrow> gostring \<Rightarrow> gostring" where
  "DataID kind name = kind @ '':'' @ name"

definition SplitDataID :: "gostring \<Rightarrow> gostring \<times> gostring \<times> bool" where
  "SplitDataID s = (case cut_at (CHR '':'') s of (kind, name, found) \<Rightarrow> (kind, name, found \<and> IsDataKind kind))"

text \<open>A column splits at its last dot, any other member at its first.\<close>

definition SplitMember :: "gostring \<Rightarrow> gostring \<Rightarrow> gostring \<times> gostring" where
  "SplitMember kind name =
     (if CHR ''.'' \<notin> set name then (name, [])
      else if kind = ''column''
      then (let member = after_last (CHR ''.'') name in (take (length name - Suc (length member)) name, member))
      else (case cut_at (CHR ''.'') name of (owner, member, _) \<Rightarrow> (owner, member)))"

definition UnresolvedID :: "gostring \<Rightarrow> gostring \<Rightarrow> gostring" where
  "UnresolvedID kind name = ''unresolved:'' @ kind @ '':'' @ name"

subsection \<open>Facts\<close>

lemma data_kind_no_colon: "IsDataKind kind \<Longrightarrow> CHR '':'' \<notin> set kind"
  by (auto simp: IsDataKind_def data_kinds_def)

lemma SplitDataID_DataID: "IsDataKind kind \<Longrightarrow> SplitDataID (DataID kind name) = (kind, name, True)"
  using data_kind_no_colon [of kind] by (simp add: SplitDataID_def DataID_def cut_at_found)

lemma cut_at_append: "cut_at c s = (a, b, True) \<Longrightarrow> s = a @ c # b"
  by (induction s arbitrary: a) (auto split: if_splits prod.splits)

lemma DataID_SplitDataID: "SplitDataID s = (kind, name, True) \<Longrightarrow> DataID kind name = s \<and> IsDataKind kind"
  by (auto simp: SplitDataID_def DataID_def split: prod.splits dest: cut_at_append)

lemma after_last_split:
  "c \<in> set s \<Longrightarrow> \<exists>a. s = a @ c # after_last c s \<and> c \<notin> set (after_last c s)"
proof -
  assume "c \<in> set s"
  then have "dropWhile (\<lambda>x. x \<noteq> c) (rev s) \<noteq> []" by (auto simp: dropWhile_eq_Nil_conv)
  then obtain ys where ys: "dropWhile (\<lambda>x. x \<noteq> c) (rev s) = c # ys"
    by (metis (mono_tags, lifting) hd_dropWhile list.collapse)
  have "rev s = takeWhile (\<lambda>x. x \<noteq> c) (rev s) @ c # ys" using ys by (metis takeWhile_dropWhile_id)
  then have "s = rev ys @ c # rev (takeWhile (\<lambda>x. x \<noteq> c) (rev s))"
    by (metis append_Cons append_Nil append_assoc rev.simps(2) rev_append rev_rev_ident)
  moreover have "c \<notin> set (after_last c s)" by (auto simp: after_last_def dest: set_takeWhileD)
  ultimately show ?thesis unfolding after_last_def by auto
qed

lemma SplitMember_join:
  assumes "CHR ''.'' \<in> set name" "SplitMember kind name = (owner, member)"
  shows "name = owner @ ''.'' @ member \<and>
   (if kind = ''column'' then CHR ''.'' \<notin> set member else CHR ''.'' \<notin> set owner)"
proof (cases "kind = ''column''")
  case True
  obtain a where a: "name = a @ CHR ''.'' # after_last (CHR ''.'') name" "CHR ''.'' \<notin> set (after_last (CHR ''.'') name)"
    using after_last_split [OF assms(1)] by blast
  have m: "member = after_last (CHR ''.'') name"
    and o: "owner = take (length name - Suc (length (after_last (CHR ''.'') name))) name"
    using assms True by (auto simp: SplitMember_def Let_def)
  have "length name = length a + Suc (length (after_last (CHR ''.'') name))"
    by (subst a(1)) simp
  then have "owner = take (length a) name" using o by simp
  also have "\<dots> = a" by (subst a(1)) simp
  finally show ?thesis using a m True by simp
next
  case False
  obtain a b found where c: "cut_at (CHR ''.'') name = (a, b, found)" by (metis prod_cases3)
  have "found \<and> CHR ''.'' \<notin> set a" using assms(1) c
    by (induction name arbitrary: a) (auto split: if_splits prod.splits)
  with c cut_at_append [of "CHR ''.''" name a b] assms False show ?thesis
    by (auto simp: SplitMember_def)
qed

lemma parse_parts_Inr:
  "parse_parts u ps held = Inr r \<longleftrightarrow>
    (\<forall>p \<in> set ps. to_lower u (trim_space p) \<in> insert [] (set accessTypes)) \<and>
    r = held \<union> ((\<lambda>p. to_lower u (trim_space p)) ` set ps \<inter> set accessTypes)"
proof -
  have "[] \<notin> set accessTypes" by (simp add: accessTypes_def relationship_type_defs)
  then show ?thesis
    by (induction ps arbitrary: held) (auto simp: Let_def)
qed

definition named_parts :: "unicode_tables \<Rightarrow> gostring list \<Rightarrow> gostring set" where
  "named_parts u values = (\<lambda>p. to_lower u (trim_space p)) ` set (concat (map (split_on (CHR '','')) values)) - {[]}"

lemma ParseAccess_Inr:
  "ParseAccess u values = Inr access \<longleftrightarrow>
     named_parts u values \<subseteq> set accessTypes \<and> access = filter (\<lambda>t. t \<in> named_parts u values) accessTypes"
proof -
  have "[] \<notin> set accessTypes" by (simp add: accessTypes_def relationship_type_defs)
  then have "(\<forall>p \<in> set ps. f p \<in> insert [] (set accessTypes)) \<longleftrightarrow> f ` set ps - {[]} \<subseteq> set accessTypes"
    "filter (\<lambda>t. t \<in> f ` set ps \<inter> set accessTypes) accessTypes = filter (\<lambda>t. t \<in> f ` set ps - {[]}) accessTypes"
    for f :: "gostring \<Rightarrow> gostring" and ps by (auto intro: filter_cong)
  then show ?thesis
    unfolding ParseAccess_def and_then_Inr parse_parts_Inr named_parts_def by (auto simp del: set_concat set_map)
qed

text \<open>\<open>ParseAccess\<close> accepts exactly the values whose parts, trimmed and in any case, are empty or name call,
  read or write; it then returns the named types once each, in that fixed order, and what it returns passes
  the validation \<open>Build\<close> makes and follows exactly the named types, dispatches counting as calls.\<close>

theorem ParseAccess_follows:
  "(\<exists>access. ParseAccess u values = Inr access) = (named_parts u values \<subseteq> set accessTypes) \<and>
   (\<forall>access t. ParseAccess u values = Inr access \<longrightarrow>
      access = filter (\<lambda>t. t \<in> named_parts u values) accessTypes \<and>
      validateAccess access = Inr () \<and>
      (Follows access t \<longleftrightarrow> named_parts u values = {} \<or> t \<in> named_parts u values \<or>
         t = RelationshipTypeDispatch \<and> RelationshipTypeCall \<in> named_parts u values))"
proof -
  have "validateAccess (filter P accessTypes) = Inr ()" for P
    by (auto simp: validateAccess_def accessTypes_def relationshipTypes_def)
  moreover have "Follows (filter (\<lambda>t. t \<in> N) accessTypes) t \<longleftrightarrow>
      N = {} \<or> t \<in> N \<or> t = RelationshipTypeDispatch \<and> RelationshipTypeCall \<in> N"
    if "N \<subseteq> set accessTypes" for N t
  proof -
    have "filter (\<lambda>t. t \<in> N) accessTypes = [] \<longleftrightarrow> N = {}" using that by (auto simp: filter_empty_conv)
    moreover have "RelationshipTypeCall \<in> set accessTypes" by (simp add: accessTypes_def)
    ultimately show ?thesis using that by (auto simp: Follows_def)
  qed
  ultimately show ?thesis by (auto simp: ParseAccess_Inr)
qed

lemma sample_access: "ParseAccess u ['' Read,''] = Inr [RelationshipTypeRead]"
  by (simp add: ParseAccess_def trim_space_def runes.simps to_lower_def lower_rune_def is_space_def byte_def
      accessTypes_def relationship_type_defs Let_def char_of_def bit_Suc_0_iff)

theorem ParseAccess_follows_witness:
  "Follows [RelationshipTypeRead] RelationshipTypeWrite =
     (named_parts ascii_tables ['' Read,''] = {} \<or> RelationshipTypeWrite \<in> named_parts ascii_tables ['' Read,''] \<or>
      RelationshipTypeWrite = RelationshipTypeDispatch \<and> RelationshipTypeCall \<in> named_parts ascii_tables ['' Read,''])"
  using ParseAccess_follows [of ascii_tables "['' Read,'']"] sample_access [of ascii_tables] by blast

end
