(* ===== verification/Graph_Build.thy ===== *)
theory Graph_Build
  imports Graph_Model
begin

text \<open>
  The bounded breadth-first walk of \<open>graph/build.go\<close>: \<open>Build\<close> and the builder it keeps. The
  \<open>Source\<close>, the \<open>Theme\<close> and the exclusion are arguments, and the context is a function telling
  which poll finds it done. The walk queue is emptied within a number of steps that the node limit
  bounds; running out of that fuel is an error of its own, proved never to happen. An access to a
  node that is not in the graph, which would be a nil dereference, is an error as well.
\<close>

subsection \<open>Interfaces and options\<close>

record graph_source =
  describe :: "gostring \<Rightarrow> (gostring, node) outcome"
  src_out :: "gostring \<Rightarrow> (gostring, step list) outcome"
  src_in :: "gostring \<Rightarrow> (gostring, step list) outcome"

record theme =
  theme_node :: "node \<Rightarrow> node"
  theme_edge :: "edge \<Rightarrow> edge \<times> bool"

definition DirectionCallees :: gostring where "DirectionCallees = ''callees''"
definition DirectionCallers :: gostring where "DirectionCallers = ''callers''"
definition DirectionBoth :: gostring where "DirectionBoth = ''both''"

lemmas direction_defs = DirectionCallees_def DirectionCallers_def DirectionBoth_def

definition MaxDepth :: int where "MaxDepth = 8"
definition MaxLimit :: int where "MaxLimit = 1000"

record options =
  Direction :: gostring
  ODepth :: int
  Limit :: int
  Theme :: "theme option"
  Exclude :: "(node \<Rightarrow> bool) option"
  Access :: "relationship_type list"

datatype build_error =
  BadDirection gostring
| BadDepth int
| BadLimit int
| BadAccess relationship_type
| NoRoots
| DescribeFailed gostring gostring
| DescribedAs gostring gostring
| ContextDone
| CalleesFailed gostring gostring
| CallersFailed gostring gostring
| StepWithoutID gostring
| StepWithoutType gostring gostring
| ThemeChangedID gostring gostring
| NilNode gostring
| OutOfWalks

definition validate :: "options \<Rightarrow> (build_error, unit) outcome" where
  "validate o' =
     (if Direction o' \<notin> set [DirectionCallees, DirectionCallers, DirectionBoth] then Inl (BadDirection (Direction o'))
      else if ODepth o' < 1 \<or> ODepth o' > MaxDepth then Inl (BadDepth (ODepth o'))
      else if Limit o' < 1 \<or> Limit o' > MaxLimit then Inl (BadLimit (Limit o'))
      else case validateAccess (Access o') of Inl t \<Rightarrow> Inl (BadAccess t) | Inr _ \<Rightarrow> Inr ())"

subsection \<open>The builder\<close>

text \<open>\<open>excluded\<close>, a map from groups to sets of ids, is the list of its (group, id) pairs.\<close>

type_synonym graph_walk = "gostring \<times> int \<times> int"

record builder =
  bnodes :: "(gostring \<times> node) list"
  bedges :: "(gostring \<times> edge) list"
  broots :: "gostring list"
  queue :: "graph_walk list"
  walked :: "(gostring \<times> int) list"
  bomitted :: omitted
  excluded :: "(gostring \<times> gostring) list"
  bpolls :: nat

definition new_builder :: builder where
  "new_builder =
     \<lparr> bnodes = [], bedges = [], broots = [], queue = [], walked = [], bomitted = no_omitted, excluded = [],
       bpolls = 0 \<rparr>"

definition present :: "builder \<Rightarrow> gostring \<Rightarrow> bool" where
  "present b i \<longleftrightarrow> map_of (bnodes b) i \<noteq> None"

definition enqueue :: "gostring \<Rightarrow> int \<Rightarrow> int \<Rightarrow> builder \<Rightarrow> (build_error, builder) outcome" where
  "enqueue i depth dir b =
     (if (i, dir) \<in> set (walked b) then Inr b
      else case map_of (bnodes b) i of
        None \<Rightarrow> Inl (NilNode i)
      | Some n \<Rightarrow>
          if Unresolved n then Inr b
          else Inr (b\<lparr> walked := (i, dir) # walked b, queue := queue b @ [(i, depth, dir)] \<rparr>))"

definition add :: "options \<Rightarrow> node \<Rightarrow> int \<Rightarrow> builder \<Rightarrow> (build_error, builder) outcome" where
  "add opts n depth b =
     (let n = n\<lparr> Depth := depth, In := 0, Out := 0 \<rparr>;
          b = b\<lparr> bnodes := AList.update (ID n) n (bnodes b) \<rparr> in
      if Unresolved n then Inr b
      else
        and_then (if 0 \<le> depth \<and> Direction opts \<noteq> DirectionCallers then enqueue (ID n) depth 1 b else Inr b) (\<lambda>b.
        if depth \<le> 0 \<and> Direction opts \<noteq> DirectionCallees then enqueue (ID n) depth (-1) b else Inr b))"

definition set_node_limit :: "builder \<Rightarrow> builder" where
  "set_node_limit b = b\<lparr> bomitted := (bomitted b)\<lparr> NodeLimit := True \<rparr> \<rparr>"

definition addRoot :: "graph_source \<Rightarrow> options \<Rightarrow> gostring \<Rightarrow> builder \<Rightarrow> (build_error, builder) outcome" where
  "addRoot src opts i b =
     (if present b i then Inr b
      else if int (length (bnodes b)) \<ge> Limit opts then Inr (set_node_limit b)
      else case describe src i of
        Inl e \<Rightarrow> Inl (DescribeFailed i e)
      | Inr n \<Rightarrow>
          if ID n \<noteq> i then Inl (DescribedAs i (ID n))
          else and_then (add opts n 0 b) (\<lambda>b. Inr (b\<lparr> broots := broots b @ [i] \<rparr>)))"

fun addRoots :: "graph_source \<Rightarrow> options \<Rightarrow> gostring list \<Rightarrow> builder \<Rightarrow> (build_error, builder) outcome" where
  "addRoots src opts [] b = Inr b"
| "addRoots src opts (i # is) b = and_then (addRoot src opts i b) (\<lambda>b. addRoots src opts is b)"

subsection \<open>Merging the steps from one node\<close>

definition edge_id :: "edge \<Rightarrow> gostring" where
  "edge_id e =
     From e @ ''|'' @ To e @ ''|'' @ EType e @ (if EKind e \<noteq> [] then ''|'' @ EKind e else [])"

definition directed :: "gostring \<Rightarrow> int \<Rightarrow> step \<Rightarrow> edge" where
  "directed i dir s =
     (let e = (SEdge s)\<lparr> From := i, To := ID (SNode s) \<rparr>;
          e = (if dir < 0 then e\<lparr> From := To e, To := From e \<rparr> else e)
      in e\<lparr> EID := edge_id e \<rparr>)"

definition merge_step :: "gostring \<Rightarrow> int \<Rightarrow> step \<Rightarrow> (gostring \<times> step) list \<Rightarrow> (gostring \<times> step) list" where
  "merge_step i dir s byEdge =
     (let e = directed i dir s in
      case map_of byEdge (EID e) of
        Some old \<Rightarrow>
          AList.update (EID e)
            (old\<lparr> SEdge := (SEdge old)\<lparr>
               Sites := Sites (SEdge old) @ Sites e,
               EProperties := (if EProperties (SEdge old) = [] then EProperties e else EProperties (SEdge old)) \<rparr> \<rparr>)
            byEdge
      | None \<Rightarrow> AList.update (EID e) \<lparr> SNode = SNode s, SEdge = e \<rparr> byEdge)"

fun merge_all :: "options \<Rightarrow> gostring \<Rightarrow> int \<Rightarrow> step list \<Rightarrow> (gostring \<times> step) list
    \<Rightarrow> (build_error, (gostring \<times> step) list) outcome" where
  "merge_all opts i dir [] byEdge = Inr byEdge"
| "merge_all opts i dir (s # ss) byEdge =
     (if ID (SNode s) = [] then Inl (StepWithoutID i)
      else if EType (SEdge s) = RelationshipTypeNA then Inl (StepWithoutType i (ID (SNode s)))
      else if \<not> Follows (Access opts) (EType (SEdge s)) then merge_all opts i dir ss byEdge
      else merge_all opts i dir ss (merge_step i dir s byEdge))"

text \<open>Sites are sorted before the theme sees the edge; an edge the theme drops is left out.\<close>

definition themed :: "options \<Rightarrow> step \<Rightarrow> step option" where
  "themed opts s =
     (let s = s\<lparr> SEdge := (SEdge s)\<lparr> Sites := sort_sites (Sites (SEdge s)) \<rparr> \<rparr> in
      case Theme opts of
        None \<Rightarrow> Some s
      | Some th \<Rightarrow>
          (case theme_edge th (SEdge s) of (e, keep) \<Rightarrow> if keep then Some (s\<lparr> SEdge := e \<rparr>) else None))"

definition merge_steps :: "options \<Rightarrow> gostring \<Rightarrow> int \<Rightarrow> step list \<Rightarrow> (build_error, step list) outcome" where
  "merge_steps opts i dir steps =
     and_then (merge_all opts i dir steps []) (\<lambda>byEdge.
       Inr (List.map_filter (\<lambda>(_, s). themed opts s) (sort_key fst byEdge)))"

subsection \<open>Following the steps\<close>

definition record_edge :: "edge \<Rightarrow> builder \<Rightarrow> (build_error, builder) outcome" where
  "record_edge e b =
     (if map_of (bedges b) (EID e) \<noteq> None then Inr b
      else
        let b = b\<lparr> bedges := AList.update (EID e) e (bedges b) \<rparr> in
        case map_of (bnodes b) (To e) of
          None \<Rightarrow> Inl (NilNode (To e))
        | Some n \<Rightarrow>
            if Unresolved n
            then Inr (b\<lparr> bomitted := (bomitted b)\<lparr>
                   OUnresolved := OUnresolved (bomitted b) + max 1 (int (length (Sites e))) \<rparr> \<rparr>)
            else Inr b)"

fun withoutExcluded :: "options \<Rightarrow> bool \<Rightarrow> step list \<Rightarrow> builder \<Rightarrow> step list \<times> builder" where
  "withoutExcluded opts atDepth [] b = ([], b)"
| "withoutExcluded opts atDepth (s # ss) b =
     (case Exclude opts of
        None \<Rightarrow> (s # ss, b)
      | Some ex \<Rightarrow>
          if present b (ID (SNode s)) \<or> \<not> ex (SNode s)
          then (case withoutExcluded opts atDepth ss b of (kept, b) \<Rightarrow> (s # kept, b))
          else if atDepth then withoutExcluded opts atDepth ss b
          else withoutExcluded opts atDepth ss
                 (b\<lparr> excluded := List.insert (Group (SNode s), ID (SNode s)) (excluded b) \<rparr>))"

text \<open>One neighbour; the flag tells whether some neighbour lies beyond the depth bound.\<close>

definition follow_step :: "options \<Rightarrow> int \<Rightarrow> int \<Rightarrow> bool \<Rightarrow> step \<Rightarrow> builder \<times> bool
    \<Rightarrow> (build_error, builder \<times> bool) outcome" where
  "follow_step opts depth dir atDepth s p =
     (case p of (b, beyond) \<Rightarrow>
        let i = ID (SNode s) in
        if \<not> present b i \<and> atDepth then Inr (b, True)
        else if \<not> present b i \<and> int (length (bnodes b)) \<ge> Limit opts then Inr (set_node_limit b, beyond)
        else
          and_then (if \<not> present b i then add opts (SNode s) (depth + dir) b else Inr b) (\<lambda>b.
          and_then (if \<not> atDepth then enqueue i (depth + dir) dir b else Inr b) (\<lambda>b.
          and_then (record_edge (SEdge s) b) (\<lambda>b. Inr (b, beyond)))))"

fun follow_all :: "options \<Rightarrow> int \<Rightarrow> int \<Rightarrow> bool \<Rightarrow> step list \<Rightarrow> builder \<times> bool
    \<Rightarrow> (build_error, builder \<times> bool) outcome" where
  "follow_all opts depth dir atDepth [] p = Inr p"
| "follow_all opts depth dir atDepth (s # ss) p =
     and_then (follow_step opts depth dir atDepth s p) (\<lambda>p. follow_all opts depth dir atDepth ss p)"

definition follow :: "options \<Rightarrow> node \<Rightarrow> step list \<Rightarrow> int \<Rightarrow> builder \<Rightarrow> (build_error, int \<times> builder) outcome" where
  "follow opts n steps dir b =
     and_then (merge_steps opts (ID n) dir steps) (\<lambda>merged.
       let atDepth = (Depth n = dir * ODepth opts);
           (merged, b) = withoutExcluded opts atDepth merged b in
       and_then (follow_all opts (Depth n) dir atDepth merged (b, False)) (\<lambda>(b, beyond).
         Inr (int (length merged),
              if beyond then b\<lparr> bomitted := (bomitted b)\<lparr> BeyondDepth := BeyondDepth (bomitted b) + 1 \<rparr> \<rparr> else b)))"

subsection \<open>The walk\<close>

definition expandWalk :: "(nat \<Rightarrow> bool) \<Rightarrow> graph_source \<Rightarrow> options \<Rightarrow> node \<Rightarrow> int \<Rightarrow> builder
    \<Rightarrow> (build_error, node \<times> builder) outcome" where
  "expandWalk ctx src opts n dir b =
     (if ctx (bpolls b) then Inl ContextDone
      else
        let b = b\<lparr> bpolls := Suc (bpolls b) \<rparr> in
        and_then
          (if 0 < dir then
             (case src_out src (ID n) of
                Inl e \<Rightarrow> Inl (CalleesFailed (ID n) e)
              | Inr steps \<Rightarrow> and_then (follow opts n steps 1 b) (\<lambda>(k, b). Inr (n\<lparr> Out := k \<rparr>, b)))
           else Inr (n, b)) (\<lambda>(n, b).
        if dir < 0 then
          (case src_in src (ID n) of
             Inl e \<Rightarrow> Inl (CallersFailed (ID n) e)
           | Inr steps \<Rightarrow> and_then (follow opts n steps (-1) b) (\<lambda>(k, b). Inr (n\<lparr> In := k \<rparr>, b)))
        else Inr (n, b)))"

definition walk_step :: "(nat \<Rightarrow> bool) \<Rightarrow> graph_source \<Rightarrow> options \<Rightarrow> graph_walk \<Rightarrow> builder
    \<Rightarrow> (build_error, builder) outcome" where
  "walk_step ctx src opts w b =
     (case w of (i, depth, dir) \<Rightarrow>
        case map_of (bnodes b) i of
          None \<Rightarrow> Inl (NilNode i)
        | Some n \<Rightarrow>
            and_then (expandWalk ctx src opts (n\<lparr> Depth := depth \<rparr>) dir b) (\<lambda>(n, b).
              case map_of (bnodes b) i of
                None \<Rightarrow> Inl (NilNode i)
              | Some old \<Rightarrow>
                  Inr (b\<lparr> bnodes := AList.update i
                         (old\<lparr> In := max (In old) (In n), Out := max (Out old) (Out n) \<rparr>) (bnodes b) \<rparr>)))"

fun walk_all :: "(nat \<Rightarrow> bool) \<Rightarrow> graph_source \<Rightarrow> options \<Rightarrow> nat \<Rightarrow> builder \<Rightarrow> (build_error, builder) outcome" where
  "walk_all ctx src opts fuel b =
     (case queue b of
        [] \<Rightarrow> Inr b
      | w # ws \<Rightarrow>
          (case fuel of
             0 \<Rightarrow> Inl OutOfWalks
           | Suc k \<Rightarrow> and_then (walk_step ctx src opts w (b\<lparr> queue := ws \<rparr>)) (\<lambda>b. walk_all ctx src opts k b)))"

declare walk_all.simps [simp del]

subsection \<open>The finished graph\<close>

definition drawn_in :: "(gostring \<times> edge) list \<Rightarrow> gostring \<Rightarrow> int" where
  "drawn_in es i = int (length (filter (\<lambda>(_, e). To e = i) es))"

definition drawn_out :: "(gostring \<times> edge) list \<Rightarrow> gostring \<Rightarrow> int" where
  "drawn_out es i = int (length (filter (\<lambda>(_, e). From e = i) es))"

definition finish_node :: "options \<Rightarrow> builder \<Rightarrow> gostring \<times> node \<Rightarrow> (build_error, node) outcome" where
  "finish_node opts b p =
     (case p of (i, n) \<Rightarrow>
        let n = n\<lparr> In := max (In n) (drawn_in (bedges b) i), Out := max (Out n) (drawn_out (bedges b) i) \<rparr>;
            n = (case Theme opts of None \<Rightarrow> n | Some th \<Rightarrow> theme_node th n)
        in if ID n \<noteq> i then Inl (ThemeChangedID i (ID n)) else Inr n)"

fun finish_nodes :: "options \<Rightarrow> builder \<Rightarrow> (gostring \<times> node) list \<Rightarrow> (build_error, node list) outcome" where
  "finish_nodes opts b [] = Inr []"
| "finish_nodes opts b (p # ps) =
     and_then (finish_node opts b p) (\<lambda>n. and_then (finish_nodes opts b ps) (\<lambda>ns. Inr (n # ns)))"

definition edge_order :: "edge \<Rightarrow> gostring \<times> gostring \<times> relationship_type \<times> gostring" where
  "edge_order e = (From e, To e, EType e, EKind e)"

definition excluded_counts :: "(gostring \<times> gostring) list \<Rightarrow> (gostring \<times> int) list" where
  "excluded_counts ex =
     map (\<lambda>g. (g, int (length (filter (\<lambda>(g', _). g' = g) ex)))) (remdups (map fst ex))"

definition finish :: "options \<Rightarrow> builder \<Rightarrow> (build_error, graph) outcome" where
  "finish opts b =
     and_then (finish_nodes opts b (sort_key fst (bnodes b))) (\<lambda>ns.
       Inr \<lparr> Roots = broots b, Nodes = sort_key Depth ns, Edges = sort_key edge_order (map snd (bedges b)),
             Groups = sort (remdups (filter (\<lambda>g. g \<noteq> []) (map Group ns))),
             Omitted = (bomitted b)\<lparr> Excluded := excluded_counts (excluded b) \<rparr> \<rparr>)"

text \<open>Each node is walked at most once in each direction and there are at most \<open>Limit\<close> nodes.\<close>

definition walk_fuel :: "options \<Rightarrow> nat" where
  "walk_fuel opts = 2 * nat (Limit opts)"

definition Build :: "(nat \<Rightarrow> bool) \<Rightarrow> graph_source \<Rightarrow> gostring list \<Rightarrow> options \<Rightarrow> (build_error, graph) outcome" where
  "Build ctx src roots opts =
     and_then (validate opts) (\<lambda>_.
       if roots = [] then Inl NoRoots
       else
         and_then (addRoots src opts roots new_builder) (\<lambda>b.
         and_then (walk_all ctx src opts (walk_fuel opts) b) (\<lambda>b. finish opts b)))"

subsection \<open>The invariant of the builder\<close>

definition keys :: "builder \<Rightarrow> gostring set" where
  "keys b = fst ` set (bnodes b)"

definition walk_ok :: "options \<Rightarrow> int \<Rightarrow> int \<Rightarrow> bool" where
  "walk_ok opts depth dir \<longleftrightarrow>
     dir = 1 \<and> 0 \<le> depth \<and> depth \<le> ODepth opts \<or> dir = -1 \<and> - ODepth opts \<le> depth \<and> depth \<le> 0"

text \<open>An edge some step the source reported accounts for.\<close>

definition reported :: "graph_source \<Rightarrow> options \<Rightarrow> gostring \<Rightarrow> gostring \<Rightarrow> bool" where
  "reported src opts f t \<longleftrightarrow>
     (\<exists>steps s. src_out src f = Inr steps \<and> s \<in> set steps \<and> ID (SNode s) = t \<and> Follows (Access opts) (EType (SEdge s))) \<or>
     (\<exists>steps s. src_in src t = Inr steps \<and> s \<in> set steps \<and> ID (SNode s) = f \<and> Follows (Access opts) (EType (SEdge s)))"

definition edge_ok :: "graph_source \<Rightarrow> options \<Rightarrow> edge \<Rightarrow> bool" where
  "edge_ok src opts e \<longleftrightarrow> reported src opts (From e) (To e)"

definition builder_inv :: "graph_source \<Rightarrow> options \<Rightarrow> builder \<Rightarrow> bool" where
  "builder_inv src opts b \<longleftrightarrow>
     distinct (map fst (bnodes b)) \<and>
     (\<forall>(k, n) \<in> set (bnodes b). ID n = k \<and> \<bar>Depth n\<bar> \<le> ODepth opts) \<and>
     int (length (bnodes b)) \<le> Limit opts \<and>
     distinct (walked b) \<and> set (walked b) \<subseteq> keys b \<times> {1, -1} \<and>
     (\<forall>(i, depth, dir) \<in> set (queue b). i \<in> keys b \<and> walk_ok opts depth dir) \<and>
     set (broots b) \<subseteq> keys b \<and>
     (\<forall>e \<in> snd ` set (bedges b). edge_ok src opts e \<and> From e \<in> keys b \<and> To e \<in> keys b)"

definition balance :: "builder \<Rightarrow> int" where
  "balance b = int (length (walked b)) - int (length (queue b))"

definition grown :: "graph_source \<Rightarrow> options \<Rightarrow> builder \<Rightarrow> builder \<Rightarrow> bool" where
  "grown src opts b b' \<longleftrightarrow> builder_inv src opts b' \<and> keys b \<subseteq> keys b' \<and> balance b' = balance b"

text \<open>Errors that would be a nil dereference or an endless walk.\<close>

definition broken :: "build_error \<Rightarrow> bool" where
  "broken e \<longleftrightarrow> (case e of NilNode _ \<Rightarrow> True | OutOfWalks \<Rightarrow> True | _ \<Rightarrow> False)"

lemma broken_simps [simp]:
  "broken (NilNode i)" "broken OutOfWalks" "\<not> broken (DescribeFailed i s)" "\<not> broken (DescribedAs i j)"
  "\<not> broken ContextDone" "\<not> broken (CalleesFailed i s)" "\<not> broken (CallersFailed i s)"
  "\<not> broken (StepWithoutID i)" "\<not> broken (StepWithoutType i j)" "\<not> broken (ThemeChangedID i j)"
  "\<not> broken (BadDirection s)" "\<not> broken (BadDepth d)" "\<not> broken (BadLimit d)" "\<not> broken (BadAccess t)"
  "\<not> broken NoRoots"
  by (simp_all add: broken_def)

lemma grown_refl: "builder_inv src opts b \<Longrightarrow> grown src opts b b"
  by (simp add: grown_def)

lemma grown_trans: "grown src opts a b \<Longrightarrow> grown src opts b c \<Longrightarrow> grown src opts a c"
  by (auto simp: grown_def)

lemma grown_inv: "grown src opts a b \<Longrightarrow> builder_inv src opts b"
  by (simp add: grown_def)

lemma grown_keys: "grown src opts a b \<Longrightarrow> i \<in> keys a \<Longrightarrow> i \<in> keys b"
  by (auto simp: grown_def)

lemma grown_step:
  "grown src opts a b \<Longrightarrow> yields broken (grown src opts b) r \<Longrightarrow> yields broken (grown src opts a) r"
  by (erule yields_mono) (rule grown_trans)

lemma present_iff: "present b i \<longleftrightarrow> i \<in> keys b"
  by (simp add: present_def keys_def dom_map_of_conv_image_fst [symmetric] domIff)

lemma node_of_key:
  "builder_inv src opts b \<Longrightarrow> i \<in> keys b \<Longrightarrow> \<exists>n. map_of (bnodes b) i = Some n \<and> ID n = i \<and> \<bar>Depth n\<bar> \<le> ODepth opts"
  unfolding builder_inv_def keys_def by (fastforce dest: map_of_SomeD simp: dom_map_of_conv_image_fst [symmetric])

lemma new_builder_inv: "0 \<le> Limit opts \<Longrightarrow> builder_inv src opts new_builder"
  by (simp add: builder_inv_def new_builder_def keys_def)

lemma enqueue_grown:
  assumes "builder_inv src opts b" "i \<in> keys b" "walk_ok opts depth dir"
  shows "yields broken (grown src opts b) (enqueue i depth dir b)"
proof -
  obtain n where n: "map_of (bnodes b) i = Some n" using node_of_key [OF assms(1,2)] by blast
  have "dir \<in> {1, -1}" using assms(3) by (auto simp: walk_ok_def)
  then show ?thesis
    using assms n by (auto simp: enqueue_def grown_def builder_inv_def keys_def balance_def)
qed

lemma update_fresh: "k \<notin> fst ` set xs \<Longrightarrow> AList.update k v xs = xs @ [(k, v)]"
  by (induction xs) auto

lemma insert_builder_node:
  assumes "builder_inv src opts b" "ID n \<notin> keys b" "int (length (bnodes b)) < Limit opts" "\<bar>Depth n\<bar> \<le> ODepth opts"
  shows "grown src opts b (b\<lparr> bnodes := AList.update (ID n) n (bnodes b) \<rparr>)"
  using assms unfolding keys_def
  by (auto simp: update_fresh grown_def builder_inv_def balance_def keys_def)

lemma add_grown:
  assumes "builder_inv src opts b" "ID n \<notin> keys b" "int (length (bnodes b)) < Limit opts" "\<bar>depth\<bar> \<le> ODepth opts"
  shows "yields broken (\<lambda>b'. grown src opts b b' \<and> ID n \<in> keys b') (add opts n depth b)"
proof -
  let ?n = "n\<lparr> Depth := depth, In := 0, Out := 0 \<rparr>"
  let ?b = "b\<lparr> bnodes := AList.update (ID n) ?n (bnodes b) \<rparr>"
  have b: "grown src opts b ?b" using insert_builder_node [OF assms(1), of ?n] assms(2-4) by simp
  have key: "ID n \<in> keys ?b" using assms(2) by (simp add: keys_def update_fresh)
  have enq: "yields broken (\<lambda>b'. grown src opts b b' \<and> ID n \<in> keys b') (enqueue (ID n) depth dir c)"
    if "grown src opts b c" "ID n \<in> keys c" "walk_ok opts depth dir" for c dir
    using enqueue_grown [OF grown_inv [OF that(1)] that(2,3)] that(1,2)
    by (auto elim!: yields_mono intro: grown_trans grown_keys)
  show ?thesis
  proof (cases "Unresolved n")
    case True
    with b key show ?thesis by (simp add: add_def)
  next
    case False
    have "walk_ok opts depth 1" if "0 \<le> depth" using that assms(4) by (simp add: walk_ok_def)
    moreover have "walk_ok opts depth (-1)" if "depth \<le> 0" using that assms(4) by (simp add: walk_ok_def)
    ultimately show ?thesis
      using False b key
      by (auto simp: add_def Let_def intro!: yields_and_then [where Q = "\<lambda>b'. grown src opts b b' \<and> ID n \<in> keys b'"] enq)
  qed
qed

lemma present_unchanged: "length (bnodes (set_node_limit b)) = length (bnodes b)"
  by (simp add: set_node_limit_def)

lemma set_node_limit_grown: "builder_inv src opts b \<Longrightarrow> grown src opts b (set_node_limit b)"
  by (simp add: grown_def builder_inv_def set_node_limit_def keys_def balance_def)

lemma addRoot_grown:
  assumes "builder_inv src opts b" "0 \<le> ODepth opts"
  shows "yields broken (grown src opts b) (addRoot src opts i b)"
proof -
  have root: "yields broken (grown src opts b) (and_then (add opts n 0 b) (\<lambda>b. Inr (b\<lparr> broots := broots b @ [i] \<rparr>)))"
    if "ID n = i" "i \<notin> keys b" "int (length (bnodes b)) < Limit opts" for n
  proof (rule yields_and_then [OF add_grown [OF assms(1)]])
    show "ID n \<notin> keys b" "int (length (bnodes b)) < Limit opts" "\<bar>0\<bar> \<le> ODepth opts"
      using that assms(2) by simp_all
    fix c assume "grown src opts b c \<and> ID n \<in> keys c"
    then show "yields broken (grown src opts b) (Inr (c\<lparr> broots := broots c @ [i] \<rparr>))"
      using that(1) by (simp add: grown_def builder_inv_def keys_def balance_def)
  qed
  show ?thesis
    using assms(1) root
    by (auto simp: addRoot_def present_iff grown_refl set_node_limit_grown not_le split: sum.splits)
qed

lemma addRoots_grown:
  "builder_inv src opts b \<Longrightarrow> 0 \<le> ODepth opts \<Longrightarrow> yields broken (grown src opts b) (addRoots src opts is b)"
proof (induction "is" arbitrary: b)
  case Nil
  then show ?case by (simp add: grown_refl)
next
  case (Cons i "is")
  show ?case
    unfolding addRoots.simps
  proof (rule yields_and_then [OF addRoot_grown [OF Cons.prems]])
    fix c assume c: "grown src opts b c"
    then show "yields broken (grown src opts b) (addRoots src opts is c)"
      using Cons.IH [OF grown_inv [OF c] Cons.prems(2)] by (rule grown_step)
  qed
qed

subsection \<open>Merged steps\<close>

text \<open>A theme that restyles edges and nodes without moving them.\<close>

definition theme_keeps :: "options \<Rightarrow> bool" where
  "theme_keeps opts \<longleftrightarrow>
     (\<forall>th. Theme opts = Some th \<longrightarrow>
        (\<forall>e. From (fst (theme_edge th e)) = From e \<and> To (fst (theme_edge th e)) = To e) \<and>
        (\<forall>n. Depth (theme_node th n) = Depth n))"

definition merged_ok :: "options \<Rightarrow> gostring \<Rightarrow> int \<Rightarrow> step list \<Rightarrow> step \<Rightarrow> bool" where
  "merged_ok opts i dir steps s \<longleftrightarrow>
     (if dir < 0 then From (SEdge s) = ID (SNode s) \<and> To (SEdge s) = i
      else From (SEdge s) = i \<and> To (SEdge s) = ID (SNode s)) \<and>
     (\<exists>s' \<in> set steps. ID (SNode s') = ID (SNode s) \<and> Follows (Access opts) (EType (SEdge s')))"

lemma directed_ends:
  "From (directed i dir s) = (if dir < 0 then ID (SNode s) else i)"
  "To (directed i dir s) = (if dir < 0 then i else ID (SNode s))"
  by (simp_all add: directed_def Let_def)

lemma update_set: "x \<in> set (AList.update k v xs) \<Longrightarrow> x = (k, v) \<or> x \<in> set xs"
  by (induction xs) (auto split: if_splits)

lemma merged_ok_update [simp]:
  "merged_ok opts i dir steps (s\<lparr> SEdge := (SEdge s)\<lparr> Sites := x, EProperties := y \<rparr> \<rparr>) = merged_ok opts i dir steps s"
  "merged_ok opts i dir steps (s\<lparr> SEdge := (SEdge s)\<lparr> Sites := x \<rparr> \<rparr>) = merged_ok opts i dir steps s"
  by (simp_all add: merged_ok_def)

lemma merge_step_ok:
  assumes "\<forall>s \<in> snd ` set byEdge. merged_ok opts i dir steps s" "s \<in> set steps" "Follows (Access opts) (EType (SEdge s))"
  shows "\<forall>s \<in> snd ` set (merge_step i dir s byEdge). merged_ok opts i dir steps s"
proof -
  let ?e = "directed i dir s"
  have new: "merged_ok opts i dir steps \<lparr> SNode = SNode s, SEdge = ?e \<rparr>"
    using assms(2,3) by (auto simp: merged_ok_def directed_ends)
  have old: "merged_ok opts i dir steps o'" if "map_of byEdge (EID ?e) = Some o'" for o'
    using assms(1) map_of_SomeD [OF that] by force
  show ?thesis
    using assms(1) new old by (auto simp: merge_step_def Let_def split: option.splits dest!: update_set)
qed

lemma merge_all_ok:
  "\<forall>s \<in> snd ` set byEdge. merged_ok opts i dir steps s \<Longrightarrow> set ss \<subseteq> set steps \<Longrightarrow>
   yields broken (\<lambda>r. \<forall>s \<in> snd ` set r. merged_ok opts i dir steps s) (merge_all opts i dir ss byEdge)"
proof (induction ss arbitrary: byEdge)
  case Nil
  then show ?case by simp
next
  case (Cons s ss)
  then show ?case using merge_step_ok [OF Cons.prems(1), of s] by auto
qed

lemma merge_steps_ok:
  assumes "theme_keeps opts"
  shows "yields broken (\<lambda>r. \<forall>s \<in> set r. merged_ok opts i dir steps s) (merge_steps opts i dir steps)"
  unfolding merge_steps_def
proof (rule yields_and_then [OF merge_all_ok])
  have keep: "merged_ok opts i dir steps s'" if s: "merged_ok opts i dir steps s" "themed opts s = Some s'" for s s'
  proof -
    have same: "SNode s' = SNode s" "From (SEdge s') = From (SEdge s)" "To (SEdge s') = To (SEdge s)"
    proof -
      let ?e = "(SEdge s)\<lparr> Sites := sort_sites (Sites (SEdge s)) \<rparr>"
      have "SNode s' = SNode s \<and> From (SEdge s') = From ?e \<and> To (SEdge s') = To ?e"
      proof (cases "Theme opts")
        case None
        with s(2) show ?thesis by (auto simp: themed_def Let_def)
      next
        case (Some th)
        obtain e k where e: "theme_edge th ?e = (e, k)" by fastforce
        have "From e = From ?e \<and> To e = To ?e"
          using assms Some e unfolding theme_keeps_def by (metis fst_conv)
        with s(2) Some e show ?thesis by (auto simp: themed_def Let_def split: if_splits)
      qed
      then show "SNode s' = SNode s" "From (SEdge s') = From (SEdge s)" "To (SEdge s') = To (SEdge s)" by simp_all
    qed
    from s(1) show ?thesis unfolding merged_ok_def same .
  qed
  fix byEdge :: "(gostring \<times> step) list"
  assume "\<forall>s \<in> snd ` set byEdge. merged_ok opts i dir steps s"
  with keep show "yields broken (\<lambda>r. \<forall>s \<in> set r. merged_ok opts i dir steps s)
     (Inr (List.map_filter (\<lambda>(_, s). themed opts s) (sort_key fst byEdge)))"
    by (fastforce simp: List.map_filter_def)
qed simp_all

lemma withoutExcluded_grown:
  "builder_inv src opts b \<Longrightarrow> withoutExcluded opts atDepth ss b = (kept, b') \<Longrightarrow>
   grown src opts b b' \<and> set kept \<subseteq> set ss"
proof (induction opts atDepth ss b arbitrary: kept b' rule: withoutExcluded.induct)
  case (1 opts atDepth b)
  then show ?case by (simp add: grown_refl)
next
  case (2 opts atDepth s ss b)
  have g: "grown src opts b (b\<lparr> excluded := x \<rparr>)" for x
    using "2.prems"(1) by (simp add: grown_def builder_inv_def keys_def balance_def)
  show ?case
    using "2.prems" "2.IH" g grown_inv [OF g] grown_trans [OF g]
    by (fastforce simp: grown_refl split: option.splits if_splits prod.splits)
qed

text \<open>One neighbour of a node the walk is at.\<close>

lemma follow_step_grown:
  assumes inv: "builder_inv src opts b" and i: "i \<in> keys b" and w: "walk_ok opts depth dir"
    and at: "atDepth \<longleftrightarrow> depth = dir * ODepth opts"
    and s: "merged_ok opts i dir steps s" and src: "if dir < 0 then src_in src i = Inr steps else src_out src i = Inr steps"
  shows "yields broken (\<lambda>(b', _). grown src opts b b') (follow_step opts depth dir atDepth s (b, beyond))"
proof -
  let ?j = "ID (SNode s)"
  have next': "walk_ok opts (depth + dir) dir" if "\<not> atDepth" using w at that by (auto simp: walk_ok_def)
  have edge: "edge_ok src opts (SEdge s)" "{From (SEdge s), To (SEdge s)} = {i, ?j}"
    using s src by (auto simp: merged_ok_def edge_ok_def reported_def split: if_splits)
  have rec: "yields broken (grown src opts b) (record_edge (SEdge s) c)" if c: "grown src opts b c" "?j \<in> keys c" for c
  proof -
    have ends: "From (SEdge s) \<in> keys c" "To (SEdge s) \<in> keys c"
      using edge(2) c(2) grown_keys [OF c(1) i] by auto
    obtain n where n: "map_of (bnodes c) (To (SEdge s)) = Some n"
      using node_of_key [OF grown_inv [OF c(1)] ends(2)] by blast
    show ?thesis
      using c(1) edge(1) ends n
      by (auto simp: record_edge_def Let_def update_fresh map_of_eq_None_iff grown_def builder_inv_def keys_def balance_def)
  qed
  have tail: "yields broken (\<lambda>(b', _). grown src opts b b')
      (and_then (if \<not> atDepth then enqueue ?j (depth + dir) dir c else Inr c) (\<lambda>b.
         and_then (record_edge (SEdge s) b) (\<lambda>b. Inr (b, beyond))))"
    if c: "grown src opts b c" "?j \<in> keys c" for c
  proof (rule yields_and_then)
    show "yields broken (\<lambda>d. grown src opts b d \<and> ?j \<in> keys d) (if \<not> atDepth then enqueue ?j (depth + dir) dir c else Inr c)"
      using enqueue_grown [OF grown_inv [OF c(1)] c(2) next'] c
      by (auto elim!: yields_mono intro: grown_trans grown_keys)
    fix d assume "grown src opts b d \<and> ?j \<in> keys d"
    with rec show "yields broken (\<lambda>(b', _). grown src opts b b') (and_then (record_edge (SEdge s) d) (\<lambda>b. Inr (b, beyond)))"
      by (auto intro!: yields_and_then)
  qed
  show ?thesis
  proof (cases "present b ?j")
    case True
    with tail [of b] inv show ?thesis by (simp add: follow_step_def Let_def present_iff grown_refl)
  next
    case False
    then have new: "?j \<notin> keys b" by (simp add: present_iff)
    have depth: "\<bar>depth + dir\<bar> \<le> ODepth opts" if "\<not> atDepth" using next' [OF that] by (auto simp: walk_ok_def)
    consider "atDepth" | "\<not> atDepth" "Limit opts \<le> int (length (bnodes b))"
      | "\<not> atDepth" "int (length (bnodes b)) < Limit opts" by linarith
    then show ?thesis
    proof cases
      case 1
      with False inv show ?thesis by (simp add: follow_step_def grown_refl)
    next
      case 2
      with False set_node_limit_grown [OF inv] show ?thesis by (simp add: follow_step_def)
    next
      case 3
      have "yields broken (\<lambda>(b', _). grown src opts b b')
        (and_then (add opts (SNode s) (depth + dir) b) (\<lambda>c.
           and_then (if \<not> atDepth then enqueue ?j (depth + dir) dir c else Inr c) (\<lambda>b.
           and_then (record_edge (SEdge s) b) (\<lambda>b. Inr (b, beyond)))))"
        by (rule yields_and_then [OF add_grown [OF inv new 3(2) depth [OF 3(1)]]], rule tail) simp_all
      with 3 False show ?thesis by (simp add: follow_step_def Let_def)
    qed
  qed
qed

lemma follow_all_grown:
  assumes "i \<in> keys b" "walk_ok opts depth dir" "atDepth \<longleftrightarrow> depth = dir * ODepth opts"
    "if dir < 0 then src_in src i = Inr steps else src_out src i = Inr steps"
  shows "builder_inv src opts b \<Longrightarrow> \<forall>s \<in> set ss. merged_ok opts i dir steps s \<Longrightarrow>
     yields broken (\<lambda>(b', _). grown src opts b b') (follow_all opts depth dir atDepth ss (b, beyond))"
  using assms(1)
proof (induction ss arbitrary: b beyond)
  case Nil
  then show ?case by (simp add: grown_refl)
next
  case (Cons s ss)
  show ?case
    unfolding follow_all.simps
  proof (rule yields_and_then [OF follow_step_grown])
    show "builder_inv src opts b" "i \<in> keys b" "merged_ok opts i dir steps s" using Cons.prems by simp_all
    fix p :: "builder \<times> bool"
    assume "case p of (b', _) \<Rightarrow> grown src opts b b'"
    then obtain c y where p: "p = (c, y)" and c: "grown src opts b c" by (cases p) auto
    have "yields broken (\<lambda>(b', _). grown src opts c b') (follow_all opts depth dir atDepth ss (c, y))"
      using Cons.prems c by (intro Cons.IH) (auto intro: grown_inv grown_keys)
    then show "yields broken (\<lambda>(b', _). grown src opts b b') (follow_all opts depth dir atDepth ss p)"
      unfolding p by (rule yields_mono) (auto intro: grown_trans [OF c])
  qed (fact assms)+
qed

lemma follow_grown:
  assumes "theme_keeps opts" "builder_inv src opts b" "ID n \<in> keys b" "walk_ok opts (Depth n) dir"
    "if dir < 0 then src_in src (ID n) = Inr steps else src_out src (ID n) = Inr steps"
  shows "yields broken (\<lambda>(_, b'). grown src opts b b') (follow opts n steps dir b)"
  unfolding follow_def
proof (rule yields_and_then [OF merge_steps_ok [OF assms(1), of "ID n" dir steps]])
  fix merged assume m: "\<forall>s \<in> set merged. merged_ok opts (ID n) dir steps s"
  let ?at = "Depth n = dir * ODepth opts"
  obtain kept c where k: "withoutExcluded opts ?at merged b = (kept, c)" by fastforce
  have c: "grown src opts b c" and sub: "set kept \<subseteq> set merged"
    using withoutExcluded_grown [OF assms(2) k] by simp_all
  have om: "grown src opts b d \<Longrightarrow> grown src opts b (d\<lparr> bomitted := x \<rparr>)" for d x
    by (simp add: grown_def builder_inv_def keys_def balance_def)
  have "yields broken (\<lambda>(b', _). grown src opts c b') (follow_all opts (Depth n) dir ?at kept (c, False))"
    using m sub grown_inv [OF c] grown_keys [OF c assms(3)] assms(4,5)
    by (intro follow_all_grown [where i = "ID n" and steps = steps]) auto
  then have f: "yields broken (\<lambda>(b', _). grown src opts b b') (follow_all opts (Depth n) dir ?at kept (c, False))"
    by (rule yields_mono) (auto intro: grown_trans [OF c])
  have "yields broken (\<lambda>(_, b'). grown src opts b b')
      (and_then (follow_all opts (Depth n) dir ?at kept (c, False)) (\<lambda>(b, beyond).
         Inr (int (length kept),
              if beyond then b\<lparr> bomitted := (bomitted b)\<lparr> BeyondDepth := BeyondDepth (bomitted b) + 1 \<rparr> \<rparr> else b)))"
    by (rule yields_and_then [OF f]) (auto intro: om)
  then show "yields broken (\<lambda>(_, b'). grown src opts b b')
     (let atDepth = ?at; (merged, b) = withoutExcluded opts atDepth merged b in
       and_then (follow_all opts (Depth n) dir atDepth merged (b, False)) (\<lambda>(b, beyond).
         Inr (int (length merged),
              if beyond then b\<lparr> bomitted := (bomitted b)\<lparr> BeyondDepth := BeyondDepth (bomitted b) + 1 \<rparr> \<rparr> else b)))"
    by (simp add: k)
qed


subsection \<open>The walk ends and keeps the invariant\<close>

lemma expandWalk_grown:
  assumes "theme_keeps opts" "builder_inv src opts b" "ID n \<in> keys b" "walk_ok opts (Depth n) dir"
  shows "yields broken (\<lambda>(_, b'). grown src opts b b') (expandWalk ctx src opts n dir b)"
proof (cases "ctx (bpolls b)")
  case True
  then show ?thesis by (simp add: expandWalk_def)
next
  case False
  let ?b = "b\<lparr> bpolls := Suc (bpolls b) \<rparr>"
  have b: "grown src opts b ?b" using assms(2) by (simp add: grown_def builder_inv_def keys_def balance_def)
  have f: "yields broken (\<lambda>(_, b'). grown src opts b b') (follow opts n steps dir ?b)"
    if "if dir < 0 then src_in src (ID n) = Inr steps else src_out src (ID n) = Inr steps" for steps
    using follow_grown [OF assms(1) grown_inv [OF b] grown_keys [OF b assms(3)] assms(4) that]
    by (rule yields_mono) (auto intro: grown_trans [OF b])
  consider "dir = 1" | "dir = -1" using assms(4) by (auto simp: walk_ok_def)
  then show ?thesis
  proof cases
    case 1
    show ?thesis
    proof (cases "src_out src (ID n)")
      case (Inl e)
      with False 1 show ?thesis by (simp add: expandWalk_def Let_def)
    next
      case (Inr steps)
      have "yields broken (\<lambda>(_, b'). grown src opts b b')
         (and_then (follow opts n steps 1 ?b) (\<lambda>(k, b). Inr (n\<lparr> Out := k \<rparr>, b)))"
        by (rule yields_and_then [OF f [of steps, unfolded 1]]) (use Inr in auto)
      then have "yields broken (\<lambda>(_, b'). grown src opts b b')
         (and_then (and_then (follow opts n steps 1 ?b) (\<lambda>(k, b). Inr (n\<lparr> Out := k \<rparr>, b))) (\<lambda>(n, b). Inr (n, b)))"
        by (rule yields_and_then) auto
      with False 1 Inr show ?thesis by (simp add: expandWalk_def Let_def)
    qed
  next
    case 2
    show ?thesis
    proof (cases "src_in src (ID n)")
      case (Inl e)
      with False 2 show ?thesis by (simp add: expandWalk_def Let_def)
    next
      case (Inr steps)
      have "yields broken (\<lambda>(_, b'). grown src opts b b')
         (and_then (follow opts n steps (-1) ?b) (\<lambda>(k, b). Inr (n\<lparr> In := k \<rparr>, b)))"
        by (rule yields_and_then [OF f [of steps, unfolded 2]]) (use Inr in auto)
      with False 2 Inr show ?thesis by (simp add: expandWalk_def Let_def)
    qed
  qed
qed

lemma update_keys: "fst ` set (AList.update k v xs) = insert k (fst ` set xs)"
  by (induction xs) auto

lemma update_same_length: "k \<in> fst ` set xs \<Longrightarrow> length (AList.update k v xs) = length xs"
  by (induction xs) auto

lemma set_counts_grown:
  assumes "builder_inv src opts b" "map_of (bnodes b) i = Some n"
  shows "grown src opts b (b\<lparr> bnodes := AList.update i (n\<lparr> In := x, Out := y \<rparr>) (bnodes b) \<rparr>)"
proof -
  have m: "(i, n) \<in> set (bnodes b)" "i \<in> fst ` set (bnodes b)" using map_of_SomeD [OF assms(2)] by force+
  have k: "keys (b\<lparr> bnodes := AList.update i (n\<lparr> In := x, Out := y \<rparr>) (bnodes b) \<rparr>) = keys b"
    using m(2) by (auto simp: keys_def update_keys)
  have n: "ID n = i" "\<bar>Depth n\<bar> \<le> ODepth opts" using assms(1) m(1) by (auto simp: builder_inv_def)
  have "\<forall>(k, m) \<in> set (AList.update i (n\<lparr> In := x, Out := y \<rparr>) (bnodes b)). ID m = k \<and> \<bar>Depth m\<bar> \<le> ODepth opts"
    using assms(1) n by (auto simp: builder_inv_def dest!: update_set)
  moreover have "distinct (map fst (AList.update i (n\<lparr> In := x, Out := y \<rparr>) (bnodes b)))"
    using assms(1) by (intro distinct_update) (simp add: builder_inv_def)
  ultimately show ?thesis
    using assms(1) k unfolding grown_def builder_inv_def by (simp add: update_same_length [OF m(2)] balance_def)
qed

lemma walk_step_grown:
  assumes "theme_keeps opts" "builder_inv src opts b" "i \<in> keys b" "walk_ok opts depth dir"
  shows "yields broken (grown src opts b) (walk_step ctx src opts (i, depth, dir) b)"
proof -
  obtain n where n: "map_of (bnodes b) i = Some n" "ID n = i" using node_of_key [OF assms(2,3)] by blast
  have e: "yields broken (\<lambda>(_, b'). grown src opts b b') (expandWalk ctx src opts (n\<lparr> Depth := depth \<rparr>) dir b)"
    using assms n(2) by (intro expandWalk_grown) simp_all
  have "yields broken (grown src opts b)
     (and_then (expandWalk ctx src opts (n\<lparr> Depth := depth \<rparr>) dir b) (\<lambda>(n, b).
              case map_of (bnodes b) i of
                None \<Rightarrow> Inl (NilNode i)
              | Some old \<Rightarrow>
                  Inr (b\<lparr> bnodes := AList.update i
                         (old\<lparr> In := max (In old) (In n), Out := max (Out old) (Out n) \<rparr>) (bnodes b) \<rparr>)))"
  proof (rule yields_and_then [OF e])
    fix p :: "node \<times> builder"
    assume "case p of (_, b') \<Rightarrow> grown src opts b b'"
    then obtain m c where p: "p = (m, c)" and c: "grown src opts b c" by (cases p) auto
    obtain old where old: "map_of (bnodes c) i = Some old"
      using node_of_key [OF grown_inv [OF c] grown_keys [OF c assms(3)]] by blast
    show "yields broken (grown src opts b)
      (case p of (n, b) \<Rightarrow>
              case map_of (bnodes b) i of
                None \<Rightarrow> Inl (NilNode i)
              | Some old \<Rightarrow>
                  Inr (b\<lparr> bnodes := AList.update i
                         (old\<lparr> In := max (In old) (In n), Out := max (Out old) (Out n) \<rparr>) (bnodes b) \<rparr>))"
      by (simp add: p old grown_trans [OF c set_counts_grown [OF grown_inv [OF c] old]])
  qed
  with n(1) show ?thesis by (simp add: walk_step_def)
qed

lemma walked_bound:
  assumes "builder_inv src opts b" shows "int (length (walked b)) \<le> 2 * Limit opts"
proof -
  have "length (walked b) = card (set (walked b))" using assms by (simp add: builder_inv_def distinct_card)
  also have "\<dots> \<le> card (keys b \<times> {1, -1 :: int})"
    using assms by (intro card_mono) (auto simp: builder_inv_def keys_def)
  also have "\<dots> = 2 * card (keys b)" by (simp add: card_cartesian_product)
  also have "card (keys b) = length (bnodes b)"
    using assms unfolding keys_def builder_inv_def by (metis distinct_card length_map set_map)
  finally show ?thesis using assms by (simp add: builder_inv_def)
qed

lemma walk_all_inv:
  assumes "theme_keeps opts"
  shows "builder_inv src opts b \<Longrightarrow> 2 * Limit opts \<le> int fuel + balance b \<Longrightarrow>
    yields broken (\<lambda>b'. builder_inv src opts b' \<and> keys b \<subseteq> keys b') (walk_all ctx src opts fuel b)"
proof (induction fuel arbitrary: b)
  case 0
  then have "int (length (queue b)) \<le> 0" using walked_bound [OF 0(1)] unfolding balance_def by linarith
  then have "queue b = []" by simp
  with 0 show ?case by (simp add: walk_all.simps)
next
  case (Suc k)
  show ?case
  proof (cases "queue b")
    case Nil
    with Suc.prems show ?thesis by (simp add: walk_all.simps)
  next
    case (Cons w ws)
    obtain i depth dir where w: "w = (i, depth, dir)" by (cases w)
    let ?b = "b\<lparr> queue := ws \<rparr>"
    have inv: "builder_inv src opts ?b" and key: "i \<in> keys ?b" "keys ?b = keys b" and ok: "walk_ok opts depth dir"
      using Suc.prems(1) Cons w by (auto simp: builder_inv_def keys_def)
    have bal: "balance ?b = balance b + 1" by (simp add: balance_def Cons)
    have "yields broken (\<lambda>b'. builder_inv src opts b' \<and> keys b \<subseteq> keys b')
        (and_then (walk_step ctx src opts w ?b) (\<lambda>b. walk_all ctx src opts k b))"
      unfolding w
    proof (rule yields_and_then [OF walk_step_grown [OF assms inv key(1) ok]])
      fix c assume c: "grown src opts ?b c"
      then have "yields broken (\<lambda>b'. builder_inv src opts b' \<and> keys c \<subseteq> keys b') (walk_all ctx src opts k c)"
        using Suc.prems(2) bal by (intro Suc.IH) (auto simp: grown_def)
      then show "yields broken (\<lambda>b'. builder_inv src opts b' \<and> keys b \<subseteq> keys b') (walk_all ctx src opts k c)"
        by (rule yields_mono) (use c key(2) in \<open>auto simp: grown_def\<close>)
    qed
    with Cons show ?thesis by (simp add: walk_all.simps [of ctx src opts "Suc k" b])
  qed
qed


subsection \<open>The finished graph\<close>

lemma sort_key_pair:
  "sorted (map g xs) \<Longrightarrow> sorted (map (\<lambda>x. (f x, g x)) (sort_key f xs))"
proof (induction xs)
  case Nil
  then show ?case by simp
next
  case (Cons x xs)
  have ins: "(\<And>y. y \<in> set ys \<Longrightarrow> g x \<le> g y) \<Longrightarrow> sorted (map (\<lambda>x. (f x, g x)) ys) \<Longrightarrow>
      sorted (map (\<lambda>x. (f x, g x)) (insort_key f x ys))" for ys
    by (induction ys) (auto simp: set_insort_key less_eq_prod_def not_le)
  from Cons show ?case by (auto intro!: ins)
qed

lemma finish_nodes_Inr:
  assumes "theme_keeps opts" "finish_nodes opts b ps = Inr ns"
  shows "map ID ns = map fst ps \<and> map Depth ns = map (Depth \<circ> snd) ps"
  using assms(2)
proof (induction ps arbitrary: ns)
  case Nil
  then show ?case by simp
next
  case (Cons p ps)
  then obtain m ms where m: "finish_node opts b p = Inr m" "finish_nodes opts b ps = Inr ms" "ns = m # ms"
    by (auto simp: and_then_Inr)
  have "ID m = fst p" using m(1) by (auto simp: finish_node_def Let_def split: prod.splits if_splits)
  moreover have "Depth m = Depth (snd p)"
  proof (cases "Theme opts")
    case None
    with m(1) show ?thesis by (auto simp: finish_node_def Let_def split: prod.splits if_splits)
  next
    case (Some th)
    with assms(1) have keep: "Depth (theme_node th x) = Depth x" for x by (simp add: theme_keeps_def)
    obtain i x where p: "p = (i, x)" by (cases p)
    have "m = theme_node th (x\<lparr> In := max (In x) (drawn_in (bedges b) i), Out := max (Out x) (drawn_out (bedges b) i) \<rparr>)"
      using m(1) Some p by (auto simp: finish_node_def Let_def split: if_splits)
    then have "Depth m = Depth (x\<lparr> In := max (In x) (drawn_in (bedges b) i), Out := max (Out x) (drawn_out (bedges b) i) \<rparr>)"
      by (simp only: keep)
    with p show ?thesis by simp
  qed
  ultimately have "ID m = fst p \<and> Depth m = Depth (snd p)" by simp
  with Cons.IH [OF m(2)] m(3) show ?case by simp
qed

lemma finish_nodes_safe: "yields broken (\<lambda>_. True) (finish_nodes opts b ps)"
proof (induction ps)
  case (Cons p ps)
  have "yields broken (\<lambda>_. True) (finish_node opts b p)" by (auto simp: finish_node_def Let_def split: prod.splits)
  with Cons show ?case by (auto intro!: yields_and_then)
qed simp

lemma finish_safe: "yields broken (\<lambda>_. True) (finish opts b)"
  unfolding finish_def by (rule yields_and_then [OF finish_nodes_safe]) simp

definition drawable :: "graph_source \<Rightarrow> options \<Rightarrow> graph \<Rightarrow> bool" where
  "drawable src opts g \<longleftrightarrow>
     distinct (map ID (Nodes g)) \<and> int (length (Nodes g)) \<le> Limit opts \<and>
     (\<forall>n \<in> set (Nodes g). \<bar>Depth n\<bar> \<le> ODepth opts) \<and>
     set (Roots g) \<subseteq> ID ` set (Nodes g) \<and>
     (\<forall>e \<in> set (Edges g). From e \<in> ID ` set (Nodes g) \<and> To e \<in> ID ` set (Nodes g) \<and>
        reported src opts (From e) (To e)) \<and>
     sorted (map (\<lambda>n. (Depth n, ID n)) (Nodes g)) \<and> sorted (map edge_order (Edges g))"

lemma finish_drawable:
  assumes "theme_keeps opts" "builder_inv src opts b" "finish opts b = Inr g"
  shows "drawable src opts g"
proof -
  obtain ns where ns: "finish_nodes opts b (sort_key fst (bnodes b)) = Inr ns"
    and g: "Nodes g = sort_key Depth ns" "Roots g = broots b" "Edges g = sort_key edge_order (map snd (bedges b))"
    using assms(3) by (auto simp: finish_def and_then_Inr)
  note f = finish_nodes_Inr [OF assms(1) ns]
  have ids: "map ID ns = map fst (sort_key fst (bnodes b))" using f by simp
  then have key: "ID ` set ns = keys b" by (metis keys_def list.set_map set_sort)
  have len: "length ns = length (bnodes b)" using ids by (metis length_map length_sort)
  have "distinct (map fst (sort_key fst (bnodes b)))"
    using assms(2) by (simp add: builder_inv_def distinct_map)
  then have dist: "distinct (map ID ns)" using ids by simp
  have "set (map Depth ns) = (Depth \<circ> snd) ` set (bnodes b)" using f by simp
  then have depth: "\<forall>n \<in> set ns. \<bar>Depth n\<bar> \<le> ODepth opts"
  proof (intro ballI)
    fix n assume n: "n \<in> set ns"
    have bs: "\<forall>p \<in> set (bnodes b). \<bar>(Depth \<circ> snd) p\<bar> \<le> ODepth opts"
      using assms(2) unfolding builder_inv_def by auto
    have "Depth n \<in> (Depth \<circ> snd) ` set (bnodes b)"
      using n \<open>set (map Depth ns) = _\<close> by (metis image_eqI list.set_map)
    then obtain p where "p \<in> set (bnodes b)" "Depth n = (Depth \<circ> snd) p" by blast
    with bs show "\<bar>Depth n\<bar> \<le> ODepth opts" by metis
  qed
  have "sorted (map ID ns)" unfolding ids by simp
  then have order: "sorted (map (\<lambda>n. (Depth n, ID n)) (Nodes g))" unfolding g by (rule sort_key_pair)
  have nodes: "set (Nodes g) = set ns" "length (Nodes g) = length ns" by (simp_all add: g)
  have edges: "set (Edges g) = snd ` set (bedges b)" by (simp add: g)
  have limit: "int (length (bnodes b)) \<le> Limit opts" and roots: "set (broots b) \<subseteq> keys b"
    and ends: "\<And>e. e \<in> snd ` set (bedges b) \<Longrightarrow> edge_ok src opts e \<and> From e \<in> keys b \<and> To e \<in> keys b"
    using assms(2) unfolding builder_inv_def by blast+
  have "distinct (map ID (Nodes g))" using dist by (simp add: g distinct_map)
  moreover have "sorted (map edge_order (Edges g))" by (simp add: g)
  ultimately show ?thesis
    unfolding drawable_def nodes edges key g(2) using limit len depth roots ends order
    unfolding edge_ok_def by simp
qed

text \<open>C2: what \<open>Build\<close> returns is a drawable graph: no two nodes share an id, there are at most \<open>Limit\<close> of them
  and none lies further than \<open>Depth\<close> from a root, roots and the ends of every edge are among the nodes,
  every edge joins two nodes the source reported a followed step between, nodes are ordered by depth
  then id and edges by from, to, type and kind. A theme may restyle, but not move, nodes and edges.\<close>

theorem Build_drawable:
  assumes "theme_keeps opts" "Build ctx src roots opts = Inr g"
  shows "drawable src opts g"
proof -
  obtain b c where v: "validate opts = Inr ()" and b: "addRoots src opts roots new_builder = Inr b"
    and c: "walk_all ctx src opts (walk_fuel opts) b = Inr c" and g: "finish opts c = Inr g"
    using assms(2) by (auto simp: Build_def and_then_Inr split: if_splits)
  have bounds: "0 \<le> ODepth opts" "0 \<le> Limit opts" using v by (auto simp: validate_def split: if_splits)
  have "grown src opts new_builder b"
    using addRoots_grown [OF new_builder_inv [OF bounds(2)] bounds(1), of src roots] b by simp
  then have inv: "builder_inv src opts b" "balance b = 0" by (auto simp: grown_def balance_def new_builder_def)
  have "builder_inv src opts c"
    using walk_all_inv [OF assms(1) inv(1), of "walk_fuel opts" ctx] inv(2) bounds(2) c
    by (simp add: walk_fuel_def)
  from finish_drawable [OF assms(1) this g] show ?thesis .
qed

text \<open>C3: \<open>Build\<close> always returns a graph or an error, and never by running on or dereferencing a missing node:
  each node is walked at most once in each direction, so the walk queue empties within twice the node
  limit, whatever cycles the source has.\<close>

theorem Build_terminates:
  assumes "theme_keeps opts"
  shows "\<forall>e. Build ctx src roots opts = Inl e \<longrightarrow> \<not> broken e"
proof -
  have "yields broken (\<lambda>_. True) (Build ctx src roots opts)"
    unfolding Build_def
  proof (rule yields_and_then)
    show "yields broken (\<lambda>_. 0 \<le> ODepth opts \<and> 0 \<le> Limit opts) (validate opts)"
      by (auto simp: validate_def split: sum.splits)
    assume bounds: "0 \<le> ODepth opts \<and> 0 \<le> Limit opts"
    have "yields broken (\<lambda>_. True)
      (and_then (addRoots src opts roots new_builder) (\<lambda>b.
         and_then (walk_all ctx src opts (walk_fuel opts) b) (\<lambda>b. finish opts b)))"
    proof (rule yields_and_then [OF addRoots_grown [OF new_builder_inv]])
      show "0 \<le> Limit opts" "0 \<le> ODepth opts" using bounds by simp_all
      fix b assume "grown src opts new_builder b"
      then have b: "builder_inv src opts b" "2 * Limit opts \<le> int (walk_fuel opts) + balance b"
        using bounds by (simp_all add: grown_def balance_def new_builder_def walk_fuel_def)
      show "yields broken (\<lambda>_. True) (and_then (walk_all ctx src opts (walk_fuel opts) b) (\<lambda>b. finish opts b))"
        by (rule yields_and_then [OF walk_all_inv [OF assms b] finish_safe])
    qed
    then show "yields broken (\<lambda>_. True)
      (if roots = [] then Inl NoRoots
       else and_then (addRoots src opts roots new_builder) (\<lambda>b.
         and_then (walk_all ctx src opts (walk_fuel opts) b) (\<lambda>b. finish opts b)))" for u :: unit
      by simp
  qed
  then show ?thesis by (auto simp: yields_def)
qed

lemma walk_all_more:
  "queue b = w # ws \<Longrightarrow> walk_all ctx src opts (numeral k) b =
     and_then (walk_step ctx src opts w (b\<lparr> queue := ws \<rparr>)) (walk_all ctx src opts (pred_numeral k))"
  by (subst walk_all.simps) (simp add: numeral_eq_Suc)

lemma walk_all_done: "queue b = [] \<Longrightarrow> walk_all ctx src opts fuel b = Inr b"
  by (simp add: walk_all.simps)

definition sample_source :: graph_source where
  "sample_source =
     \<lparr> describe = (\<lambda>i. Inr (no_node\<lparr> ID := i \<rparr>)),
       src_out = (\<lambda>i. Inr [\<lparr> SNode = no_node\<lparr> ID := ''a'' \<rparr>, SEdge = no_edge\<lparr> EType := RelationshipTypeCall \<rparr> \<rparr>]),
       src_in = (\<lambda>i. Inr []) \<rparr>"

definition sample_options :: options where
  "sample_options =
     \<lparr> Direction = DirectionCallees, ODepth = 2, Limit = 3, Theme = None, Exclude = None, Access = [] \<rparr>"

lemma sample_keeps: "theme_keeps sample_options"
  by (simp add: theme_keeps_def sample_options_def)

theorem Build_drawable_witness:
  "\<exists>g. Build (\<lambda>_. False) sample_source [''a''] sample_options = Inr g \<and> drawable sample_source sample_options g"
proof -
  have "\<exists>g. Build (\<lambda>_. False) sample_source [''a''] sample_options = Inr g"
    by (simp add: Build_def sample_source_def sample_options_def validate_def direction_defs MaxDepth_def MaxLimit_def
      validateAccess_def addRoot_def present_def new_builder_def add_def enqueue_def no_node_def no_edge_def
      walk_fuel_def walk_all_more walk_all_done walk_step_def expandWalk_def follow_def merge_steps_def
      merge_step_def directed_def edge_id_def themed_def sort_sites_def Follows_def follow_step_def
      record_edge_def Let_def finish_def finish_node_def List.map_filter_simps relationship_type_defs)
  then show ?thesis using Build_drawable [OF sample_keeps] by blast
qed

theorem Build_terminates_witness:
  "\<not> (\<exists>e. Build (\<lambda>_. False) sample_source [''a''] sample_options = Inl e \<and> broken e)"
  using Build_terminates [OF sample_keeps] by blast

end
