(* ===== verification/Graph_Paths.thy ===== *)
theory Graph_Paths
  imports Graph_Model
begin

text \<open>
  Shortest walks from the roots of a drawn graph (\<open>graph/paths.go\<close>). The parent map is the
  association list of its entries in the order they are made. Both loops take fuel, and \<open>None\<close> is a
  loop that has not ended: it is proved that none occurs, that exactly the reachable targets have a
  walk, and that the walk is a shortest one.
\<close>

definition next_of :: "edge list \<Rightarrow> gostring \<Rightarrow> gostring list" where
  "next_of es x = map To (filter (\<lambda>e. From e = x) es)"

type_synonym bfs_state = "(gostring \<times> gostring) list \<times> gostring list"

definition discover :: "gostring \<Rightarrow> gostring \<Rightarrow> bfs_state \<Rightarrow> bfs_state" where
  "discover x y s =
     (case s of (parent, queue) \<Rightarrow>
        if map_of parent y \<noteq> None then (parent, queue) else (parent @ [(y, x)], queue @ [y]))"

definition start :: "gostring list \<Rightarrow> bfs_state" where
  "start roots = fold (discover []) roots ([], [])"

fun bfs :: "edge list \<Rightarrow> nat \<Rightarrow> bfs_state \<Rightarrow> (gostring \<times> gostring) list option" where
  "bfs es k (parent, []) = Some parent"
| "bfs es 0 (parent, x # queue) = None"
| "bfs es (Suc k) (parent, x # queue) = bfs es k (fold (discover x) (next_of es x) (parent, queue))"

fun walk_back :: "(gostring \<times> gostring) list \<Rightarrow> nat \<Rightarrow> gostring \<Rightarrow> gostring list \<Rightarrow> gostring list option" where
  "walk_back parent k [] path = Some path"
| "walk_back parent 0 (c # cs) path = None"
| "walk_back parent (Suc k) (c # cs) path =
     walk_back parent k (case map_of parent (c # cs) of None \<Rightarrow> [] | Some p \<Rightarrow> p) ((c # cs) # path)"

fun paths_to :: "(gostring \<times> gostring) list \<Rightarrow> gostring list \<Rightarrow> (gostring \<rightharpoonup> gostring list)
    \<Rightarrow> (gostring \<rightharpoonup> gostring list) option" where
  "paths_to parent [] paths = Some paths"
| "paths_to parent (t # ts) paths =
     (if map_of parent t = None then paths_to parent ts paths
      else case walk_back parent (length parent) t [] of
        None \<Rightarrow> None
      | Some path \<Rightarrow> paths_to parent ts (paths(t \<mapsto> path)))"

definition Paths :: "graph \<Rightarrow> gostring list \<Rightarrow> (gostring \<rightharpoonup> gostring list) option" where
  "Paths g targets =
     (case bfs (Edges g) (length (Roots g) + length (Edges g)) (start (Roots g)) of
        None \<Rightarrow> None
      | Some parent \<Rightarrow> paths_to parent targets Map.empty)"

subsection \<open>Walks\<close>

text \<open>A walk along the edges, by its nodes; its length is one more than the edges it takes.\<close>

fun walk :: "edge list \<Rightarrow> gostring list \<Rightarrow> bool" where
  "walk es [] = False"
| "walk es [x] = True"
| "walk es (x # y # xs) = (y \<in> set (next_of es x) \<and> walk es (y # xs))"

lemma walk_snoc: "walk es (xs @ [x]) \<Longrightarrow> y \<in> set (next_of es x) \<Longrightarrow> walk es (xs @ [x, y])"
  by (induction xs rule: induct_list012) auto

definition root_walk :: "graph \<Rightarrow> gostring \<Rightarrow> gostring list \<Rightarrow> bool" where
  "root_walk g t p \<longleftrightarrow> walk (Edges g) p \<and> hd p \<in> set (Roots g) \<and> last p = t"

subsection \<open>The invariant of the search\<close>

text \<open>The discovered nodes are the done ones, then the queue; each is a root or has an earlier parent,
  \<open>dep\<close> counts the edges to it, and the neighbours of a done node are at most one further away.\<close>

definition bfs_inv :: "gostring list \<Rightarrow> edge list \<Rightarrow> (gostring \<Rightarrow> nat) \<Rightarrow> gostring list \<Rightarrow> bfs_state \<Rightarrow> bool" where
  "bfs_inv roots es dep finished s \<longleftrightarrow>
     (case s of (parent, queue) \<Rightarrow>
        map fst parent = finished @ queue \<and> distinct (map fst parent) \<and>
        sorted (map dep (finished @ queue)) \<and>
        (\<forall>i < length parent. case parent ! i of (x, p) \<Rightarrow>
           x \<in> set roots \<and> p = [] \<and> dep x = 0 \<or>
           (\<exists>j < i. fst (parent ! j) = p \<and> x \<in> set (next_of es p) \<and> dep x = Suc (dep p))))"

definition finished_ok :: "edge list \<Rightarrow> (gostring \<Rightarrow> nat) \<Rightarrow> gostring list \<Rightarrow> bfs_state \<Rightarrow> bool" where
  "finished_ok es dep finished s \<longleftrightarrow>
     (\<forall>x \<in> set finished. \<forall>y \<in> set (next_of es x). y \<in> fst ` set (fst s) \<and> dep y \<le> Suc (dep x))"

lemma discover_inv:
  assumes "bfs_inv roots es dep finished (parent, queue)"
    and "x = [] \<and> y \<in> set roots \<and> n = 0 \<or> x \<in> fst ` set parent \<and> y \<in> set (next_of es x) \<and> n = Suc (dep x)"
    and "\<forall>z \<in> set (finished @ queue). dep z \<le> n"
    and "y \<notin> fst ` set parent"
  shows "bfs_inv roots es (dep(y := n)) finished (discover x y (parent, queue))"
proof -
  have new: "y \<notin> set (finished @ queue)" using assms(1,4) by (auto simp: bfs_inv_def simp flip: set_map)
  have d: "discover x y (parent, queue) = (parent @ [(y, x)], queue @ [y])"
    using assms(4) by (simp add: discover_def map_of_eq_None_iff)
  have dep: "map (dep(y := n)) (finished @ queue) = map dep (finished @ queue)"
    using new by (intro map_cong) auto
  have vis: "map fst parent = finished @ queue" "distinct (map fst parent)" "sorted (map dep (finished @ queue))"
    using assms(1) by (auto simp: bfs_inv_def)
  have "map fst (parent @ [(y, x)]) = finished @ (queue @ [y])" using vis(1) by simp
  moreover have "distinct (map fst (parent @ [(y, x)]))" using vis(2) assms(4) by simp
  moreover have "sorted (map (dep(y := n)) (finished @ (queue @ [y])))"
  proof -
    have "map (dep(y := n)) (finished @ (queue @ [y])) = map dep (finished @ queue) @ [n]"
      using dep by (simp only: append_assoc [symmetric] map_append list.map fun_upd_same)
    then show ?thesis using vis(3) assms(3) by (simp only: sorted_append) auto
  qed
  moreover have "case (parent @ [(y, x)]) ! i of (x', p) \<Rightarrow>
           x' \<in> set roots \<and> p = [] \<and> (dep(y := n)) x' = 0 \<or>
           (\<exists>j < i. fst ((parent @ [(y, x)]) ! j) = p \<and> x' \<in> set (next_of es p) \<and> (dep(y := n)) x' = Suc ((dep(y := n)) p))"
    if "i < length (parent @ [(y, x)])" for i
  proof (cases "i < length parent")
    case True
    obtain x' p where xp: "parent ! i = (x', p)" by fastforce
    have x': "x' \<noteq> y" using assms(4) nth_mem [OF True] xp by force
    from assms(1) True xp have old: "x' \<in> set roots \<and> p = [] \<and> dep x' = 0 \<or>
           (\<exists>j < i. fst (parent ! j) = p \<and> x' \<in> set (next_of es p) \<and> dep x' = Suc (dep p))"
      by (fastforce simp: bfs_inv_def)
    have "fst (parent ! j) \<noteq> y" if "j < i" for j using assms(4) True that nth_mem [of j parent] by (metis image_eqI less_trans)
    with old x' True show ?thesis by (auto simp: nth_append xp)
  next
    case False
    with that have i: "i = length parent" by simp
    from assms(2) show ?thesis
    proof
      assume "x = [] \<and> y \<in> set roots \<and> n = 0"
      with i show ?thesis by simp
    next
      assume x: "x \<in> fst ` set parent \<and> y \<in> set (next_of es x) \<and> n = Suc (dep x)"
      then obtain j where j: "j < length parent" "fst (parent ! j) = x" by (auto simp: in_set_conv_nth)
      have "x \<noteq> y" using x assms(4) by auto
      with i x j show ?thesis by (auto simp: nth_append intro!: exI [of _ j])
    qed
  qed
  ultimately show ?thesis unfolding d bfs_inv_def by auto
qed

definition visited :: "bfs_state \<Rightarrow> gostring set" where
  "visited s = fst ` set (fst s)"

lemma bfs_inv_visited: "bfs_inv roots es dep finished s \<Longrightarrow> visited s = set (finished @ snd s)"
  unfolding bfs_inv_def visited_def by (cases s) (metis (mono_tags, lifting) fst_conv snd_conv case_prod_conv list.set_map)

lemma discover_known: "y \<in> visited s \<Longrightarrow> discover x y s = s"
  by (cases s) (auto simp: discover_def visited_def map_of_eq_None_iff)

lemma visited_discover: "visited (discover x y s) = insert y (visited s)"
  by (cases s) (auto simp: discover_def visited_def map_of_eq_None_iff)

definition pending :: "gostring set \<Rightarrow> bfs_state \<Rightarrow> nat" where
  "pending u s = card (u - visited s) + length (snd s)"

lemma pending_discover:
  assumes "finite u" "y \<in> u" shows "pending u (discover x y s) = pending u s"
proof (cases "y \<in> visited s")
  case True
  then show ?thesis by (simp add: discover_known)
next
  case False
  obtain parent queue where s: "s = (parent, queue)" by (cases s)
  have "u - visited s = insert y (u - visited (discover x y s))"
    using assms(2) False by (auto simp: visited_discover)
  moreover have "card (insert y (u - visited (discover x y s))) = Suc (card (u - visited (discover x y s)))"
    using assms(1) by (intro card_insert_disjoint) (auto simp: visited_discover)
  ultimately have "card (u - visited s) = Suc (card (u - visited (discover x y s)))" by (simp only:)
  with False show ?thesis by (simp add: pending_def s discover_def visited_def map_of_eq_None_iff)
qed

text \<open>All neighbours of one node, or all roots, discovered at distance \<open>n\<close>.\<close>

lemma discover_all_inv:
  assumes "\<And>y. y \<in> set ys \<Longrightarrow> x = [] \<and> y \<in> set roots \<and> n = 0 \<or> x \<in> visited s \<and> y \<in> set (next_of es x) \<and> n = Suc (dep x)"
    and "finite u" "set ys \<subseteq> u" "bfs_inv roots es dep finished s" "\<forall>z \<in> visited s. dep z \<le> n"
  shows "\<exists>dep'. bfs_inv roots es dep' finished (fold (discover x) ys s) \<and>
     visited (fold (discover x) ys s) = visited s \<union> set ys \<and>
     (\<forall>z \<in> visited s. dep' z = dep z) \<and> (\<forall>z \<in> visited s \<union> set ys. dep' z \<le> n) \<and>
     pending u (fold (discover x) ys s) = pending u s"
  using assms
proof (induction ys arbitrary: s dep)
  case Nil
  then show ?case by auto
next
  case (Cons y ys)
  obtain parent queue where s: "s = (parent, queue)" by (cases s)
  obtain dep1 where 1: "bfs_inv roots es dep1 finished (discover x y s)" "\<forall>z \<in> visited s. dep1 z = dep z"
    "\<forall>z \<in> insert y (visited s). dep1 z \<le> n"
  proof (cases "y \<in> visited s")
    case True
    show ?thesis
      by (rule that [of dep]) (use Cons.prems True in \<open>auto simp: discover_known\<close>)
  next
    case False
    have v: "visited s = set (finished @ queue)" using bfs_inv_visited [OF Cons.prems(4)] s by simp
    have "bfs_inv roots es (dep(y := n)) finished (discover x y (parent, queue))"
    proof (rule discover_inv)
      show "bfs_inv roots es dep finished (parent, queue)" using Cons.prems(4) s by simp
      show "\<forall>z \<in> set (finished @ queue). dep z \<le> n" using Cons.prems(5) unfolding v .
      show "x = [] \<and> y \<in> set roots \<and> n = 0 \<or> x \<in> fst ` set parent \<and> y \<in> set (next_of es x) \<and> n = Suc (dep x)"
        using Cons.prems(1) [of y] by (simp add: visited_def s)
      show "y \<notin> fst ` set parent" using False by (simp add: visited_def s)
    qed
    then show ?thesis
      using Cons.prems(5) False s by (intro that [of "dep(y := n)"]) auto
  qed
  let ?s = "discover x y s"
  have vis: "visited ?s = insert y (visited s)" by (rule visited_discover)
  have "\<exists>dep'. bfs_inv roots es dep' finished (fold (discover x) ys ?s) \<and>
     visited (fold (discover x) ys ?s) = visited ?s \<union> set ys \<and>
     (\<forall>z \<in> visited ?s. dep' z = dep1 z) \<and> (\<forall>z \<in> visited ?s \<union> set ys. dep' z \<le> n) \<and>
     pending u (fold (discover x) ys ?s) = pending u ?s"
  proof (rule Cons.IH)
    fix z assume z: "z \<in> set ys"
    from Cons.prems(1) [of z] z 1(2)
    show "x = [] \<and> z \<in> set roots \<and> n = 0 \<or> x \<in> visited ?s \<and> z \<in> set (next_of es x) \<and> n = Suc (dep1 x)"
      by (auto simp: vis)
  qed (use Cons.prems 1 vis in auto)
  then obtain dep' where d: "bfs_inv roots es dep' finished (fold (discover x) ys ?s)"
     "visited (fold (discover x) ys ?s) = visited ?s \<union> set ys"
     "\<forall>z \<in> visited ?s. dep' z = dep1 z" "\<forall>z \<in> visited ?s \<union> set ys. dep' z \<le> n"
     "pending u (fold (discover x) ys ?s) = pending u ?s" by blast
  have "pending u ?s = pending u s" using Cons.prems(2,3) by (intro pending_discover) auto
  with d 1 vis show ?case by (intro exI [of _ dep']) auto
qed

definition search_ok :: "graph \<Rightarrow> (gostring \<Rightarrow> nat) \<Rightarrow> (gostring \<times> gostring) list \<Rightarrow> bool" where
  "search_ok g dep parent \<longleftrightarrow>
     bfs_inv (Roots g) (Edges g) dep (map fst parent) (parent, []) \<and> set (Roots g) \<subseteq> fst ` set parent \<and>
     (\<forall>r \<in> set (Roots g). dep r = 0) \<and>
     (\<forall>x \<in> fst ` set parent. \<forall>y \<in> set (next_of (Edges g) x). y \<in> fst ` set parent \<and> dep y \<le> Suc (dep x))"

lemma bfs_inv_shift:
  "bfs_inv roots es dep finished (parent, x # queue) = bfs_inv roots es dep (finished @ [x]) (parent, queue)"
  by (simp only: bfs_inv_def prod.case append_assoc append_Cons append_Nil)

lemma bfs_search:
  assumes u: "finite u" "\<And>x. set (next_of (Edges g) x) \<subseteq> u"
  shows "bfs_inv (Roots g) (Edges g) dep finished s \<Longrightarrow> set (Roots g) \<subseteq> visited s \<Longrightarrow> \<forall>r \<in> set (Roots g). dep r = 0 \<Longrightarrow>
    \<forall>x \<in> set finished. \<forall>y \<in> set (next_of (Edges g) x). y \<in> visited s \<and> dep y \<le> Suc (dep x) \<Longrightarrow>
    (snd s \<noteq> [] \<longrightarrow> (\<forall>z \<in> visited s. dep z \<le> Suc (dep (hd (snd s))))) \<Longrightarrow> pending u s \<le> k \<Longrightarrow>
    \<exists>parent dep'. bfs (Edges g) k s = Some parent \<and> search_ok g dep' parent"
proof (induction k arbitrary: s dep finished)
  case 0
  then obtain parent where s: "s = (parent, [])" by (cases s) (auto simp: pending_def)
  with 0 have "finished = map fst parent" by (simp add: bfs_inv_def)
  with 0 s have "bfs (Edges g) 0 s = Some parent \<and> search_ok g dep parent"
    by (simp add: search_ok_def visited_def)
  then show ?case by blast
next
  case (Suc k)
  obtain parent queue where s: "s = (parent, queue)" by (cases s)
  show ?case
  proof (cases queue)
    case Nil
    with Suc.prems(1) s have "finished = map fst parent" by (simp add: bfs_inv_def)
    with Suc.prems s Nil have "bfs (Edges g) (Suc k) s = Some parent \<and> search_ok g dep parent"
      by (simp add: search_ok_def visited_def)
    then show ?thesis by blast
  next
    case (Cons x q)
    let ?s = "(parent, q)" and ?t = "fold (discover x) (next_of (Edges g) x) (parent, q)"
    have inv: "bfs_inv (Roots g) (Edges g) dep (finished @ [x]) ?s"
      using Suc.prems(1) unfolding s Cons bfs_inv_shift .
    have v: "visited ?s = visited s" "x \<in> visited ?s"
      using bfs_inv_visited [OF inv] bfs_inv_visited [OF Suc.prems(1)] by (auto simp: s Cons)
    have "\<exists>dep'. bfs_inv (Roots g) (Edges g) dep' (finished @ [x]) ?t \<and>
       visited ?t = visited ?s \<union> set (next_of (Edges g) x) \<and> (\<forall>z \<in> visited ?s. dep' z = dep z) \<and>
       (\<forall>z \<in> visited ?s \<union> set (next_of (Edges g) x). dep' z \<le> Suc (dep x)) \<and> pending u ?t = pending u ?s"
      using v u inv Suc.prems(5) by (intro discover_all_inv) (auto simp: s Cons)
    then obtain dep' where d: "bfs_inv (Roots g) (Edges g) dep' (finished @ [x]) ?t"
       "visited ?t = visited ?s \<union> set (next_of (Edges g) x)" "\<And>z. z \<in> visited ?s \<Longrightarrow> dep' z = dep z"
       "\<And>z. z \<in> visited ?s \<union> set (next_of (Edges g) x) \<Longrightarrow> dep' z \<le> Suc (dep x)" "pending u ?t = pending u ?s" by blast
    have fin: "set finished \<subseteq> visited ?s" using bfs_inv_visited [OF inv] by auto
    have "\<exists>parent dep'. bfs (Edges g) k ?t = Some parent \<and> search_ok g dep' parent"
    proof (rule Suc.IH [OF d(1)])
      show "set (Roots g) \<subseteq> visited ?t" "\<forall>r \<in> set (Roots g). dep' r = 0"
        using Suc.prems(2,3) v d(2,3) by auto
      show "\<forall>a \<in> set (finished @ [x]). \<forall>y \<in> set (next_of (Edges g) a). y \<in> visited ?t \<and> dep' y \<le> Suc (dep' a)"
        using Suc.prems(4) d(2-4) v fin by auto
      show "pending u ?t \<le> k" using Suc.prems(6) v d(5) by (simp add: pending_def s Cons)
      show "snd ?t \<noteq> [] \<longrightarrow> (\<forall>z \<in> visited ?t. dep' z \<le> Suc (dep' (hd (snd ?t))))"
      proof (intro impI ballI)
        fix z assume q: "snd ?t \<noteq> []" and z: "z \<in> visited ?t"
        have srt: "sorted (map dep' ((finished @ [x]) @ snd ?t))" using d(1) by (cases ?t) (auto simp: bfs_inv_def)
        then have "dep' x \<le> dep' (hd (snd ?t))" using q by (cases "snd ?t") (auto simp: sorted_append)
        with d(3) [OF v(2)] d(4) [of z] z d(2) show "dep' z \<le> Suc (dep' (hd (snd ?t)))" by auto
      qed
    qed
    then show ?thesis by (simp add: s Cons)
  qed
qed

subsection \<open>The walks it returns\<close>

lemma parent_cases:
  assumes "bfs_inv roots es dep finished (parent, queue)" "i < length parent" "parent ! i = (x, p)"
  shows "x \<in> set roots \<and> p = [] \<and> dep x = 0 \<or>
    (\<exists>j < i. fst (parent ! j) = p \<and> x \<in> set (next_of es p) \<and> dep x = Suc (dep p))"
proof -
  have "\<forall>i < length parent. case parent ! i of (x, p) \<Rightarrow>
           x \<in> set roots \<and> p = [] \<and> dep x = 0 \<or>
           (\<exists>j < i. fst (parent ! j) = p \<and> x \<in> set (next_of es p) \<and> dep x = Suc (dep p))"
    using assms(1) by (simp add: bfs_inv_def)
  from this [rule_format, OF assms(2)] show ?thesis unfolding assms(3) prod.case .
qed

lemma dep_index:
  assumes "bfs_inv roots es dep finished (parent, queue)"
  shows "i < length parent \<Longrightarrow> dep (fst (parent ! i)) \<le> i"
proof (induction i rule: less_induct)
  case (less i)
  obtain x p where xp: "parent ! i = (x, p)" by fastforce
  with assms less.prems have "dep x = 0 \<or> (\<exists>j < i. fst (parent ! j) = p \<and> dep x = Suc (dep p))"
    by (fastforce simp: bfs_inv_def)
  then show ?case
  proof
    assume "\<exists>j < i. fst (parent ! j) = p \<and> dep x = Suc (dep p)"
    then obtain j where "j < i" "fst (parent ! j) = p" "dep x = Suc (dep p)" by blast
    with less.IH [of j] less.prems xp show ?case by simp
  qed (simp add: xp)
qed

lemma walk_Cons_last: "walk es p \<Longrightarrow> y \<in> set (next_of es (last p)) \<Longrightarrow> walk es (p @ [y])"
proof -
  assume w: "walk es p" and y: "y \<in> set (next_of es (last p))"
  have "p \<noteq> []" using w by auto
  then have "p = butlast p @ [last p]" by simp
  with w y walk_snoc [of es "butlast p" "last p" y] show ?thesis by (metis append.assoc append_Cons append_Nil)
qed

lemma walk_back_walk:
  assumes inv: "bfs_inv (Roots g) (Edges g) dep finished (parent, queue)" and ne: "[] \<notin> fst ` set parent"
  shows "i < length parent \<Longrightarrow> dep (fst (parent ! i)) < k \<Longrightarrow>
    \<exists>p. walk_back parent k (fst (parent ! i)) path = Some (p @ path) \<and> root_walk g (fst (parent ! i)) p \<and>
      length p = Suc (dep (fst (parent ! i)))"
proof (induction i arbitrary: k path rule: less_induct)
  case (less i)
  obtain x q where xq: "parent ! i = (x, q)" by fastforce
  have "(x, q) \<in> set parent" using less.prems(1) xq by (metis nth_mem)
  then have look: "map_of parent x = Some q" and x: "x \<noteq> []"
    using inv ne by (auto simp: bfs_inv_def image_iff)
  obtain k' where k: "k = Suc k'" using less.prems(2) by (cases k) auto
  have bk: "walk_back parent k x path = walk_back parent k' q (x # path)"
    using x look by (cases x) (simp_all add: k)
  from parent_cases [OF inv less.prems(1) xq] consider "x \<in> set (Roots g)" "q = []" "dep x = 0"
    | j where "j < i" "fst (parent ! j) = q" "x \<in> set (next_of (Edges g) q)" "dep x = Suc (dep q)"
    by (elim disjE exE conjE)
  then show ?case
  proof cases
    case 1
    then show ?thesis using bk xq by (intro exI [of _ "[x]"]) (simp add: root_walk_def)
  next
    case 2
    then obtain p where p: "walk_back parent k' q (x # path) = Some (p @ x # path)" "root_walk g q p" "length p = Suc (dep q)"
      using less.IH [of j k' "x # path"] less.prems xq k by auto
    have "p \<noteq> []" using p(3) by auto
    then have "root_walk g x (p @ [x])" using p(2) 2(3) by (simp add: root_walk_def walk_Cons_last)
    moreover have "walk_back parent k x path = Some ((p @ [x]) @ path)" using bk p(1) by simp
    moreover have "length (p @ [x]) = Suc (dep x)" using p(3) 2(4) by simp
    ultimately show ?thesis unfolding xq fst_conv by (intro exI [of _ "p @ [x]"] conjI)
  qed
qed

lemma search_reaches:
  assumes "search_ok g dep parent"
  shows "walk (Edges g) p \<Longrightarrow> hd p \<in> fst ` set parent \<Longrightarrow> last p \<in> fst ` set parent \<and> dep (last p) + 1 \<le> dep (hd p) + length p"
proof (induction p rule: induct_list012)
  case (3 x y zs)
  then have "y \<in> set (next_of (Edges g) x)" "walk (Edges g) (y # zs)" "x \<in> fst ` set parent" by simp_all
  moreover from this assms have "y \<in> fst ` set parent" "dep y \<le> Suc (dep x)" unfolding search_ok_def by blast+
  ultimately show ?case using "3.IH"(2) by simp
qed simp_all

lemma paths_to_spec:
  assumes "\<And>t. t \<in> set ts \<Longrightarrow> map_of parent t \<noteq> None \<Longrightarrow> walk_back parent (length parent) t [] = Some (f t)"
  shows "paths_to parent ts m = Some (\<lambda>t. if t \<in> set ts \<and> map_of parent t \<noteq> None then Some (f t) else m t)"
  using assms
proof (induction ts arbitrary: m)
  case Nil
  then show ?case by simp
next
  case (Cons t ts)
  let ?m = "if map_of parent t = None then m else m(t \<mapsto> f t)"
  have "paths_to parent (t # ts) m = paths_to parent ts ?m"
    using Cons.prems [of t] by (auto split: option.splits)
  also have "\<dots> = Some (\<lambda>t. if t \<in> set ts \<and> map_of parent t \<noteq> None then Some (f t) else ?m t)"
    using Cons.prems by (intro Cons.IH) simp
  also have "(\<lambda>t. if t \<in> set ts \<and> map_of parent t \<noteq> None then Some (f t) else ?m t) =
      (\<lambda>x. if x \<in> set (t # ts) \<and> map_of parent x \<noteq> None then Some (f x) else m x)"
    by (auto simp: fun_eq_iff)
  finally show ?case .
qed

lemma bfs_ends: "\<exists>parent dep. bfs (Edges g) (length (Roots g) + length (Edges g)) (start (Roots g)) = Some parent \<and> search_ok g dep parent"
proof -
  let ?u = "set (Roots g) \<union> To ` set (Edges g)"
  have next': "set (next_of (Edges g) x) \<subseteq> ?u" for x by (auto simp: next_of_def)
  have empty: "bfs_inv (Roots g) (Edges g) (\<lambda>_. 0) [] ([], [])" by (simp add: bfs_inv_def)
  have none: "visited ([], []) = {}" by (simp add: visited_def)
  have "\<exists>dep'. bfs_inv (Roots g) (Edges g) dep' [] (start (Roots g)) \<and>
     visited (start (Roots g)) = visited ([], []) \<union> set (Roots g) \<and>
     (\<forall>z \<in> visited ([], []). dep' z = 0) \<and> (\<forall>z \<in> visited ([], []) \<union> set (Roots g). dep' z \<le> 0) \<and>
     pending ?u (start (Roots g)) = pending ?u ([], [])"
    unfolding start_def by (rule discover_all_inv) (simp_all add: empty none)
  from this [unfolded none Un_empty_left] obtain dep where
    "bfs_inv (Roots g) (Edges g) dep [] (start (Roots g)) \<and> visited (start (Roots g)) = set (Roots g) \<and>
     (\<forall>z \<in> {}. dep z = 0) \<and> (\<forall>z \<in> set (Roots g). dep z \<le> 0) \<and>
     pending ?u (start (Roots g)) = pending ?u ([], [])" ..
  then have d: "bfs_inv (Roots g) (Edges g) dep [] (start (Roots g))" "visited (start (Roots g)) = set (Roots g)"
    "\<forall>z \<in> set (Roots g). dep z \<le> 0" "pending ?u (start (Roots g)) = pending ?u ([], [])"
    by simp_all
  have p: "pending ?u ([], []) = card ?u" by (simp add: pending_def none)
  have "card ?u \<le> card (set (Roots g)) + card (To ` set (Edges g))" by (rule card_Un_le)
  also have "\<dots> \<le> length (Roots g) + length (Edges g)"
    by (intro add_mono card_length) (metis card_length length_map list.set_map)
  finally have fuel: "pending ?u (start (Roots g)) \<le> length (Roots g) + length (Edges g)"
    unfolding d(4) p .
  show ?thesis
    by (rule bfs_search [OF _ next' d(1)]) (use d(2,3) fuel in simp_all)
qed

text \<open>C14: \<open>Paths\<close> ends, and holds for each target exactly one shortest walk from a root when there is one and no
  entry otherwise, in any graph whose roots and edge targets have ids.\<close>

theorem Paths_shortest:
  assumes "[] \<notin> set (Roots g)" "\<forall>e \<in> set (Edges g). To e \<noteq> []"
  shows "\<exists>ps. Paths g targets = Some ps \<and>
    (\<forall>t. ps t \<noteq> None \<longleftrightarrow> t \<in> set targets \<and> (\<exists>p. root_walk g t p)) \<and>
    (\<forall>t p. ps t = Some p \<longrightarrow> root_walk g t p \<and> (\<forall>q. root_walk g t q \<longrightarrow> length p \<le> length q))"
proof -
  obtain parent dep where bfs: "bfs (Edges g) (length (Roots g) + length (Edges g)) (start (Roots g)) = Some parent"
    and ok: "search_ok g dep parent" using bfs_ends by blast
  then have inv: "bfs_inv (Roots g) (Edges g) dep (map fst parent) (parent, [])" by (simp add: search_ok_def)
  have ne: "[] \<notin> fst ` set parent"
  proof
    assume "[] \<in> fst ` set parent"
    then obtain i q where "i < length parent" "parent ! i = ([], q)" by (auto simp: in_set_conv_nth)
    from parent_cases [OF inv this] assms show False by (auto simp: next_of_def)
  qed
  have found: "\<exists>p. walk_back parent (length parent) t [] = Some p \<and> root_walk g t p \<and> length p = Suc (dep t)"
    if "map_of parent t \<noteq> None" for t
  proof -
    have "t \<in> fst ` set parent" using that by (auto simp: map_of_eq_None_iff)
    then obtain i where i: "i < length parent" "fst (parent ! i) = t" by (auto simp: in_set_conv_nth)
    have "dep (fst (parent ! i)) < length parent" using dep_index [OF inv i(1)] i(1) by simp
    from walk_back_walk [OF inv ne i(1) this, of "[]"] i(2) show ?thesis by auto
  qed
  then obtain f where f: "\<And>t. map_of parent t \<noteq> None \<Longrightarrow>
      walk_back parent (length parent) t [] = Some (f t) \<and> root_walk g t (f t) \<and> length (f t) = Suc (dep t)"
    by metis
  have reach: "map_of parent t \<noteq> None \<and> Suc (dep t) \<le> length q" if "root_walk g t q" for t q
  proof -
    have "hd q \<in> fst ` set parent" "dep (hd q) = 0" using that ok by (auto simp: root_walk_def search_ok_def)
    with search_reaches [OF ok, of q] that show ?thesis by (auto simp: root_walk_def map_of_eq_None_iff)
  qed
  have "Paths g targets = Some (\<lambda>t. if t \<in> set targets \<and> map_of parent t \<noteq> None then Some (f t) else None)"
    unfolding Paths_def bfs using paths_to_spec [of targets parent f Map.empty] f by simp
  moreover let ?ps = "\<lambda>t. if t \<in> set targets \<and> map_of parent t \<noteq> None then Some (f t) else None"
  have "?ps t \<noteq> None \<longleftrightarrow> t \<in> set targets \<and> (\<exists>p. root_walk g t p)" for t
  proof (cases "map_of parent t = None")
    case True
    then have "\<not> root_walk g t p" for p using reach [of t p] by blast
    then show ?thesis using True by simp
  next
    case False
    then show ?thesis using f [OF False] by auto
  qed
  moreover have "root_walk g t p \<and> (\<forall>q. root_walk g t q \<longrightarrow> length p \<le> length q)" if "?ps t = Some p" for t p
  proof -
    have t: "map_of parent t \<noteq> None" "p = f t" using that by (auto split: if_splits)
    show ?thesis using f [OF t(1)] reach [of t] unfolding t(2) by auto
  qed
  ultimately show ?thesis by (intro exI [of _ ?ps]) simp
qed

definition path_example :: graph where
  "path_example = \<lparr>Roots = [''a''], Nodes = [], Edges = [no_edge\<lparr>From := ''a'', To := ''b''\<rparr>], Groups = [],
     Omitted = undefined\<rparr>"

lemma Paths_shortest_witness: "\<exists>ps. Paths path_example [''b''] = Some ps \<and> ps ''b'' \<noteq> None"
proof -
  have "root_walk path_example ''b'' [''a'', ''b'']"
    by (simp add: root_walk_def path_example_def next_of_def no_edge_def)
  then show ?thesis using Paths_shortest [of path_example "[''b'']"]
    by (fastforce simp: path_example_def)
qed

end
