(* ===== verification/Go_Numbers.thy ===== *)
theory Go_Numbers
  imports Go_Strings
begin

text \<open>
  \<open>strconv.Itoa\<close> and \<open>strconv.FormatBool\<close>: the decimal text of an integer and of a truth value,
  with the facts that the text determines the value and holds only digits and a sign.
\<close>

fun digits :: "nat \<Rightarrow> gostring" where
  "digits n = (if n < 10 then [char_of (48 + n)] else digits (n div 10) @ [char_of (48 + n mod 10)])"

declare digits.simps [simp del]

definition itoa :: "int \<Rightarrow> gostring" where
  "itoa i = (if i < 0 then CHR ''-'' # digits (nat (- i)) else digits (nat i))"

definition format_bool :: "bool \<Rightarrow> gostring" where
  "format_bool b = (if b then ''true'' else ''false'')"

definition is_digit :: "char \<Rightarrow> bool" where
  "is_digit c \<longleftrightarrow> 48 \<le> byte c \<and> byte c \<le> 57"

lemma byte_digit: "n < 10 \<Longrightarrow> byte (char_of (48 + n)) = 48 + n"
  by (rule byte_char_of) simp

lemma digits_digit: "c \<in> set (digits n) \<Longrightarrow> is_digit c"
proof (induction n rule: digits.induct)
  case (1 n)
  then show ?case
    by (subst (asm) (2) digits.simps) (auto simp: is_digit_def byte_digit split: if_splits)
qed

lemma digits_nonempty [simp]: "digits n \<noteq> []"
  by (subst digits.simps) simp

fun digits_value :: "gostring \<Rightarrow> nat" where
  "digits_value [] = 0"
| "digits_value (c # s) = (byte c - 48) * 10 ^ length s + digits_value s"

lemma digits_value_snoc: "digits_value (s @ [c]) = 10 * digits_value s + (byte c - 48)"
  by (induction s) (simp_all add: algebra_simps)

lemma digits_value_digits: "digits_value (digits n) = n"
proof (induction n rule: digits.induct)
  case (1 n)
  show ?case
  proof (cases "n < 10")
    case True
    then show ?thesis by (subst digits.simps) (simp add: byte_digit)
  next
    case False
    have "digits n = digits (n div 10) @ [char_of (48 + n mod 10)]" using False by (subst digits.simps) simp
    then have "digits_value (digits n) = 10 * (n div 10) + (byte (char_of (48 + n mod 10)) - 48)"
      using 1 False by (simp add: digits_value_snoc)
    also have "\<dots> = n" by (simp add: byte_digit)
    finally show ?thesis .
  qed
qed

lemma digits_inject [simp]: "digits m = digits n \<longleftrightarrow> m = n"
  by (metis digits_value_digits)

lemma sign_not_digit: "\<not> is_digit (CHR ''-'')"
  by (simp add: is_digit_def byte_def)

lemma itoa_inject [simp]: "itoa i = itoa j \<longleftrightarrow> i = j"
proof -
  have "CHR ''-'' # s \<noteq> digits n" for s n
    using digits_digit [of "CHR ''-''" n] sign_not_digit by (metis list.set_intros(1))
  then show ?thesis unfolding itoa_def by (auto simp: nat_eq_iff dest: sym)
qed

lemma itoa_nonempty [simp]: "itoa i \<noteq> []"
  by (simp add: itoa_def)

lemma format_bool_inject [simp]: "format_bool a = format_bool b \<longleftrightarrow> a = b"
  by (simp add: format_bool_def)

end
