(* ===== verification/Statement.thy ===== *)
theory Statement
  imports Identifier Go_Numbers
begin

text \<open>
  The statement model of the root package (\<open>statement.go\<close>, \<open>statement_control.go\<close>,
  \<open>statement_decl_call.go\<close>, \<open>statement_expr.go\<close>, \<open>location.go\<close>, \<open>typeref.go\<close>): one datatype per
  Go struct, the one-of wrapper \<open>ExprStmt\<close> with its eleven pointer fields, the statement kinds,
  signatures and direct relationships.

  A \<open>Statement\<close> held by pointer reads as the statement itself, which is how every operation here
  treats it, and a nil interface is \<open>None\<close>. A \<open>Node\<close> a statement refers to is the identifier it
  answers \<open>GetIdentifier\<close> with, the one method these operations call; a nil node is \<open>None\<close>. Metadata
  is left out, and a floating-point number, a date and a value that only its JSON encoding is read of
  are their texts.
\<close>

subsection \<open>Locations and source\<close>

record uir_location =
  LocPath :: gostring
  StartLine :: "int option"
  EndLine :: "int option"
  LocColumn :: "int option"
  LastModified :: "int option"

record source_code =
  Location :: uir_location
  SourceContent :: "gostring option"
  SourceLanguage :: "gostring option"

record base =
  StmtType :: gostring
  Source :: source_code

definition no_location :: uir_location where
  "no_location = \<lparr> LocPath = [], StartLine = None, EndLine = None, LocColumn = None, LastModified = None \<rparr>"

definition no_source :: source_code where
  "no_source = \<lparr> Location = no_location, SourceContent = None, SourceLanguage = None \<rparr>"

definition no_base :: base where
  "no_base = \<lparr> StmtType = [], Source = no_source \<rparr>"

definition location_IsEmpty :: "uir_location \<Rightarrow> bool" where
  "location_IsEmpty l \<longleftrightarrow> LocPath l = [] \<and> StartLine l = None \<and> EndLine l = None \<and> LocColumn l = None"

definition location_String :: "uir_location \<Rightarrow> gostring" where
  "location_String l =
     LocPath l @
     (case StartLine l of
        None \<Rightarrow> []
      | Some s \<Rightarrow>
          '':'' @ itoa s @
          (case EndLine l of None \<Rightarrow> [] | Some e \<Rightarrow> if e \<noteq> s then ''-'' @ itoa e else []) @
          (case LocColumn l of None \<Rightarrow> [] | Some c \<Rightarrow> '':'' @ itoa c))"

subsection \<open>Types, values and declared nodes\<close>

datatype type_ref = TypeReference
  (TRName: gostring) (TRFieldType: gostring) (TypeArgs: "type_ref list") (UnionOf: "type_ref list")
  (IntersectionOf: "type_ref list") (IsOptional: bool) (LiteralOf: "gostring option") (IsArray: bool)
  (TupleElements: "type_ref list") (FunctionParams: "type_ref list") (FunctionReturns: "type_ref option")
  (RawType: gostring) (TRPackage: gostring)

record unit_value =
  UnitType :: gostring
  UnitVal :: "gostring option"

record typed_value =
  StrValue :: "gostring option"
  FloatValue :: "gostring option"
  IntValue :: "int option"
  BoolValue :: "bool option"
  DateValue :: "gostring option"
  UnitValue :: "unit_value option"

record scoped_ref =
  VarName :: gostring
  VarDefault :: "typed_value option"
  VarIdentifier :: ident

text \<open>Default values and validations are their canonical JSON; an empty validation encodes as \<open>{}\<close>.\<close>

record record_field =
  RFIdentifier :: ident
  RFLabel :: gostring
  RFFieldType :: gostring
  RFSQLType :: gostring
  RFTypeRef :: "type_ref option"
  RFDefaultValue :: "gostring option"
  RFReadOnly :: bool
  RFWriteOnly :: bool
  RFValidation :: gostring
  RFVisibility :: gostring
  RFSource :: source_code

record type_param =
  TPName :: gostring
  TPConstraint :: "type_ref option"
  TPDefault :: "type_ref option"

text \<open>An error's code is its canonical JSON, \<open>None\<close> when the value is empty.\<close>

record ast_error =
  ErrName :: gostring
  ErrType :: gostring
  ErrCode :: "gostring option"

record sql_dependency =
  DepSchema :: gostring
  DepName :: gostring

record sql_runtime_dependency =
  RunServer :: gostring
  RunDatabase :: gostring
  RunSchema :: gostring
  RunName :: gostring

text \<open>A method without its body; its properties hold the text \<open>fmt.Sprint\<close> gives each value.\<close>

record method_facts =
  MIdentifier :: ident
  MVisibility :: gostring
  MParams :: "record_field list"
  MReturns :: "record_field list"
  MErrors :: "ast_error list"
  MTypeParams :: "type_param list"
  MReturnType :: "type_ref option"
  MIsAsync :: bool
  MIsGenerator :: bool
  MProperties :: "(gostring \<times> gostring) list"
  MSQLDependencies :: "sql_dependency list"
  MSQLRuntimeDependencies :: "sql_runtime_dependency list"
  MSQLQuotedIdentifierOff :: bool
  MSource :: source_code

subsection \<open>Expressions\<close>

type_synonym statement_type = gostring
type_synonym 'e arguments = "(gostring option \<times> 'e) list"

datatype (plugins only: code size) literal_stmt = LiteralStmt base "gostring option" gostring
datatype (plugins only: code size) doc_stmt = DocStmt base gostring gostring gostring "doc_stmt list"
datatype (plugins only: code size) 'e binary_stmt = BinaryStmt base 'e gostring 'e
datatype (plugins only: code size) 'e unary_stmt = UnaryStmt base gostring 'e
datatype (plugins only: code size) 'e cast_stmt = CastStmt base 'e gostring
datatype (plugins only: code size) 'e tuple_stmt = TupleStmt base "'e list"
datatype (plugins only: code size) 'e object_literal = ObjectLiteralStmt base "(gostring \<times> 'e) list"
datatype (plugins only: code size) 'e method_call =
  MethodCallStmt base "ident option" "'e option" "'e arguments" bool
datatype (plugins only: code size) 'e dispatch_call =
  DispatchCallStmt base "ident option" "'e option" "'e arguments" "ident option list"
datatype (plugins only: code size) 'e endpoint_call = EndpointCallStmt base "ident option" "'e arguments"

text \<open>A record read or write: its record and record type, the type and text of its expression, and its
  arguments.\<close>

datatype (plugins only: code size) 'e record_op =
  RecordStmt base "ident option" gostring gostring gostring "'e arguments"

datatype (plugins only: code size) expr_stmt = ExprStmt
  (ExprBase: base) (ELiteral: "literal_stmt option") (EVariable: "scoped_ref option")
  (EBinary: "expr_stmt binary_stmt option") (ECast: "expr_stmt cast_stmt option")
  (EUnary: "expr_stmt unary_stmt option") (EMethodCall: "expr_stmt method_call option")
  (EDispatchCall: "expr_stmt dispatch_call option") (EEndpointCall: "expr_stmt endpoint_call option")
  (ERecordRead: "expr_stmt record_op option") (ETuple: "expr_stmt tuple_stmt option")
  (EObjectLiteral: "expr_stmt object_literal option")

datatype (plugins only: code size) condition_stmt = ConditionStmt (ConditionBase: base) (ConditionExpr: expr_stmt)
datatype (plugins only: code size) assignment_stmt = AssignmentStmt base scoped_ref expr_stmt gostring bool
datatype (plugins only: code size) 'd binding = Binding gostring gostring "expr_stmt option" "'d option"
datatype (plugins only: code size) destructuring =
  DestructuringStmt base bool "destructuring binding list" "gostring option" expr_stmt gostring

subsection \<open>Statements\<close>

datatype (plugins only: code size) stmt =
  SAssignment assignment_stmt
| SBinary "expr_stmt binary_stmt"
| SBlock block_stmt
| SBreak base
| SCast "expr_stmt cast_stmt"
| SCondition condition_stmt
| SConstDecl base record_field
| SContinue base
| SEndpointCall "expr_stmt endpoint_call"
| SExpr expr_stmt
| SFor base assignment_stmt condition_stmt block_stmt expr_stmt
| SForEach base assignment_stmt expr_stmt block_stmt
| SFunctionDecl base method_node
| SIf base condition_stmt block_stmt "block_stmt option"
| SLiteral literal_stmt
| SMethodCall "expr_stmt method_call"
| SDispatchCall "expr_stmt dispatch_call"
| SRecordRead "expr_stmt record_op"
| SRecordWrite "expr_stmt record_op"
| SReturn base expr_stmt
| SSwitch base expr_stmt "(condition_stmt \<times> block_stmt) list"
| SThrow base expr_stmt
| STry base block_stmt block_stmt
| STuple "expr_stmt tuple_stmt"
| SObjectLiteral "expr_stmt object_literal"
| STypeDecl base gostring
| SUnary "expr_stmt unary_stmt"
| SVariableDecl base record_field
| SVariable base gostring
| SWhile base condition_stmt block_stmt
| SDoc doc_stmt
| STest block_stmt gostring
| SRaw base gostring gostring
| SDestructuring destructuring
| STemplate base "gostring list" "expr_stmt list" "expr_stmt option"
| SScopedVariable scoped_ref
| SGeneric base
and block_stmt = BlockStmt (BlockBase: base) (BlockVariables: "record_field list") (BlockChildren: "stmt option list")
and method_node = MethodNode (MethodFacts: method_facts) (MethodBody: "block_stmt option")

subsection \<open>Statement types\<close>

definition ASTStatementTypeCall :: statement_type where "ASTStatementTypeCall = ''call''"
definition ASTStatementTypeDispatchCall :: statement_type where "ASTStatementTypeDispatchCall = ''dispatch_call''"
definition ASTStatementTypeRecordRead :: statement_type where "ASTStatementTypeRecordRead = ''call:read:record''"
definition ASTStatementTypeRecordWrite :: statement_type where "ASTStatementTypeRecordWrite = ''call:write:record''"
definition ASTStatementTypeCallAPI :: statement_type where "ASTStatementTypeCallAPI = ''call:api''"
definition ASTStatementTypeDeclareVariable :: statement_type where "ASTStatementTypeDeclareVariable = ''decl:var''"
definition ASTStatementTypeDeclareConstant :: statement_type where "ASTStatementTypeDeclareConstant = ''decl:const''"
definition ASTStatementTypeDeclareFunction :: statement_type where "ASTStatementTypeDeclareFunction = ''decl:func''"
definition ASTStatementTypeDeclareType :: statement_type where "ASTStatementTypeDeclareType = ''decl:type''"
definition ASTStatementTypeIf :: statement_type where "ASTStatementTypeIf = ''control:if''"
definition ASTStatementTypeLoopFor :: statement_type where "ASTStatementTypeLoopFor = ''control:loop:for''"
definition ASTStatementTypeLoopForEach :: statement_type where "ASTStatementTypeLoopForEach = ''control:loop:foreach''"
definition ASTStatementTypeLoopWhile :: statement_type where "ASTStatementTypeLoopWhile = ''control:loop:while''"
definition ASTStatementTypeSwitch :: statement_type where "ASTStatementTypeSwitch = ''control:switch''"
definition ASTStatementTypeThrow :: statement_type where "ASTStatementTypeThrow = ''control:throw''"
definition ASTStatementTypeTry :: statement_type where "ASTStatementTypeTry = ''control:try''"
definition ASTStatementTypeBlock :: statement_type where "ASTStatementTypeBlock = ''control:block''"
definition ASTStatementTypeReturn :: statement_type where "ASTStatementTypeReturn = ''control:return''"
definition ASTStatementTypeBreak :: statement_type where "ASTStatementTypeBreak = ''control:break''"
definition ASTStatementTypeContinue :: statement_type where "ASTStatementTypeContinue = ''control:continue''"
definition ASTStatementTypeExpression :: statement_type where "ASTStatementTypeExpression = ''assignment:expression''"
definition ASTStatementTypeAssignment :: statement_type where "ASTStatementTypeAssignment = ''assignment''"
definition ASTStatementTypeLiteral :: statement_type where "ASTStatementTypeLiteral = ''assignment:literal''"
definition ASTStatementTypeTuple :: statement_type where "ASTStatementTypeTuple = ''assignment:tuple''"
definition ASTStatementTypeObjectLiteral :: statement_type where "ASTStatementTypeObjectLiteral = ''assignment:object''"
definition ASTStatementTypeVariable :: statement_type where "ASTStatementTypeVariable = ''assignment:variable''"
definition ASTStatementTypeBinary :: statement_type where "ASTStatementTypeBinary = ''assignment:binary''"
definition ASTStatementTypeUnary :: statement_type where "ASTStatementTypeUnary = ''assignment:unary''"
definition ASTStatementTypeCast :: statement_type where "ASTStatementTypeCast = ''assignment:cast''"
definition ASTStatementTypeDoc :: statement_type where "ASTStatementTypeDoc = ''doc''"
definition ASTStatementTypeTest :: statement_type where "ASTStatementTypeTest = ''test''"
definition ASTStatementTypeDestructure :: statement_type where "ASTStatementTypeDestructure = ''assignment:destructure''"
definition ASTStatementTypeRaw :: statement_type where "ASTStatementTypeRaw = ''raw''"
definition ASTStatementTypeTemplateLit :: statement_type where "ASTStatementTypeTemplateLit = ''assignment:template''"
definition ASTStatmentTypeCondition :: statement_type where "ASTStatmentTypeCondition = ''control:condition''"
definition ASTStatementRefScopeVar :: statement_type where "ASTStatementRefScopeVar = ''ref:var''"

lemmas statement_type_defs = ASTStatementTypeCall_def ASTStatementTypeDispatchCall_def
  ASTStatementTypeRecordRead_def ASTStatementTypeRecordWrite_def ASTStatementTypeCallAPI_def
  ASTStatementTypeDeclareVariable_def ASTStatementTypeDeclareConstant_def
  ASTStatementTypeDeclareFunction_def ASTStatementTypeDeclareType_def ASTStatementTypeIf_def
  ASTStatementTypeLoopFor_def ASTStatementTypeLoopForEach_def ASTStatementTypeLoopWhile_def
  ASTStatementTypeSwitch_def ASTStatementTypeThrow_def ASTStatementTypeTry_def ASTStatementTypeBlock_def
  ASTStatementTypeReturn_def ASTStatementTypeBreak_def ASTStatementTypeContinue_def
  ASTStatementTypeExpression_def ASTStatementTypeAssignment_def ASTStatementTypeLiteral_def
  ASTStatementTypeTuple_def ASTStatementTypeObjectLiteral_def ASTStatementTypeVariable_def
  ASTStatementTypeBinary_def ASTStatementTypeUnary_def ASTStatementTypeCast_def ASTStatementTypeDoc_def
  ASTStatementTypeTest_def ASTStatementTypeDestructure_def ASTStatementTypeRaw_def
  ASTStatementTypeTemplateLit_def ASTStatmentTypeCondition_def ASTStatementRefScopeVar_def

text \<open>\<open>GetStatementType\<close>; a generic statement answers the type it was stamped with.\<close>

fun GetStatementType :: "stmt \<Rightarrow> statement_type" where
  "GetStatementType (SAssignment _) = ASTStatementTypeAssignment"
| "GetStatementType (SBinary _) = ASTStatementTypeBinary"
| "GetStatementType (SBlock _) = ASTStatementTypeBlock"
| "GetStatementType (SBreak _) = ASTStatementTypeBreak"
| "GetStatementType (SCast _) = ASTStatementTypeCast"
| "GetStatementType (SCondition _) = ASTStatmentTypeCondition"
| "GetStatementType (SConstDecl _ _) = ASTStatementTypeDeclareConstant"
| "GetStatementType (SContinue _) = ASTStatementTypeContinue"
| "GetStatementType (SEndpointCall _) = ASTStatementTypeCallAPI"
| "GetStatementType (SExpr _) = ASTStatementTypeExpression"
| "GetStatementType (SFor _ _ _ _ _) = ASTStatementTypeLoopFor"
| "GetStatementType (SForEach _ _ _ _) = ASTStatementTypeLoopForEach"
| "GetStatementType (SFunctionDecl _ _) = ASTStatementTypeDeclareFunction"
| "GetStatementType (SIf _ _ _ _) = ASTStatementTypeIf"
| "GetStatementType (SLiteral _) = ASTStatementTypeLiteral"
| "GetStatementType (SMethodCall _) = ASTStatementTypeCall"
| "GetStatementType (SDispatchCall _) = ASTStatementTypeDispatchCall"
| "GetStatementType (SRecordRead _) = ASTStatementTypeRecordRead"
| "GetStatementType (SRecordWrite _) = ASTStatementTypeRecordWrite"
| "GetStatementType (SReturn _ _) = ASTStatementTypeReturn"
| "GetStatementType (SSwitch _ _ _) = ASTStatementTypeSwitch"
| "GetStatementType (SThrow _ _) = ASTStatementTypeThrow"
| "GetStatementType (STry _ _ _) = ASTStatementTypeTry"
| "GetStatementType (STuple _) = ASTStatementTypeTuple"
| "GetStatementType (SObjectLiteral _) = ASTStatementTypeObjectLiteral"
| "GetStatementType (STypeDecl _ _) = ASTStatementTypeDeclareType"
| "GetStatementType (SUnary _) = ASTStatementTypeUnary"
| "GetStatementType (SVariableDecl _ _) = ASTStatementTypeDeclareVariable"
| "GetStatementType (SVariable _ _) = ASTStatementTypeVariable"
| "GetStatementType (SWhile _ _ _) = ASTStatementTypeLoopWhile"
| "GetStatementType (SDoc _) = ASTStatementTypeDoc"
| "GetStatementType (STest _ _) = ASTStatementTypeTest"
| "GetStatementType (SRaw _ _ _) = ASTStatementTypeRaw"
| "GetStatementType (SDestructuring _) = ASTStatementTypeDestructure"
| "GetStatementType (STemplate _ _ _ _) = ASTStatementTypeTemplateLit"
| "GetStatementType (SScopedVariable _) = ASTStatementRefScopeVar"
| "GetStatementType (SGeneric b) = StmtType b"

subsection \<open>The statement an expression holds\<close>

text \<open>\<open>firstStatement\<close> takes the first candidate that is set.\<close>

fun firstStatement :: "'s option list \<Rightarrow> 's option" where
  "firstStatement [] = None"
| "firstStatement (Some s # cs) = Some s"
| "firstStatement (None # cs) = firstStatement cs"

definition Value :: "expr_stmt \<Rightarrow> stmt option" where
  "Value e =
     firstStatement
       [map_option SLiteral (ELiteral e), map_option SScopedVariable (EVariable e), map_option SBinary (EBinary e),
        map_option SCast (ECast e), map_option SUnary (EUnary e), map_option SMethodCall (EMethodCall e),
        map_option SDispatchCall (EDispatchCall e), map_option SEndpointCall (EEndpointCall e),
        map_option SRecordRead (ERecordRead e), map_option STuple (ETuple e),
        map_option SObjectLiteral (EObjectLiteral e)]"

definition no_expr :: expr_stmt where
  "no_expr = ExprStmt no_base None None None None None None None None None None None"

subsection \<open>The expressions directly inside an expression\<close>

fun binary_exprs :: "'e binary_stmt \<Rightarrow> 'e list" where
  "binary_exprs (BinaryStmt _ l _ r) = [l, r]"

fun unary_exprs :: "'e unary_stmt \<Rightarrow> 'e list" where
  "unary_exprs (UnaryStmt _ _ x) = [x]"

fun cast_exprs :: "'e cast_stmt \<Rightarrow> 'e list" where
  "cast_exprs (CastStmt _ x _) = [x]"

fun tuple_exprs :: "'e tuple_stmt \<Rightarrow> 'e list" where
  "tuple_exprs (TupleStmt _ xs) = xs"

fun entry_values :: "'e object_literal \<Rightarrow> 'e list" where
  "entry_values (ObjectLiteralStmt _ es) = map snd es"

definition receiver_exprs :: "'e option \<Rightarrow> 'e list" where
  "receiver_exprs r = (case r of None \<Rightarrow> [] | Some x \<Rightarrow> [x])"

definition argument_exprs :: "'e arguments \<Rightarrow> 'e list" where
  "argument_exprs args = map snd args"

fun method_call_exprs :: "'e method_call \<Rightarrow> 'e list" where
  "method_call_exprs (MethodCallStmt _ _ r args _) = receiver_exprs r @ argument_exprs args"

fun dispatch_call_exprs :: "'e dispatch_call \<Rightarrow> 'e list" where
  "dispatch_call_exprs (DispatchCallStmt _ _ r args _) = receiver_exprs r @ argument_exprs args"

fun endpoint_call_exprs :: "'e endpoint_call \<Rightarrow> 'e list" where
  "endpoint_call_exprs (EndpointCallStmt _ _ args) = argument_exprs args"

fun record_exprs :: "'e record_op \<Rightarrow> 'e list" where
  "record_exprs (RecordStmt _ _ _ _ _ args) = argument_exprs args"

lemma size_in_list: "x \<in> set xs \<Longrightarrow> size x < size_list size xs"
  by (induction xs) auto

lemma size_in_entries: "x \<in> snd ` set es \<Longrightarrow> size x < size_list (size_prod (\<lambda>_. 0) size) es"
  by (induction es) force+

lemma size_binary: "x \<in> set (binary_exprs b) \<Longrightarrow> size x < size_binary_stmt size b"
  by (cases b) auto

lemma size_unary: "x \<in> set (unary_exprs b) \<Longrightarrow> size x < size_unary_stmt size b"
  by (cases b) auto

lemma size_cast: "x \<in> set (cast_exprs b) \<Longrightarrow> size x < size_cast_stmt size b"
  by (cases b) auto

lemma size_tuple: "x \<in> set (tuple_exprs b) \<Longrightarrow> size x < size_tuple_stmt size b"
  by (cases b) (auto dest: size_in_list)

lemma size_object: "x \<in> set (entry_values b) \<Longrightarrow> size x < size_object_literal size b"
  by (cases b) (use size_in_entries in force)

lemma size_arguments: "x \<in> set (argument_exprs args) \<Longrightarrow> size x < size_list (size_prod (\<lambda>_. 0) size) args"
  by (simp add: argument_exprs_def size_in_entries)

lemma size_receiver: "x \<in> set (receiver_exprs r) \<Longrightarrow> size x < size_option size r"
  by (auto simp: receiver_exprs_def split: option.splits)

lemma size_method_call: "x \<in> set (method_call_exprs b) \<Longrightarrow> size x < size_method_call size b"
  by (cases b) (auto dest!: size_receiver size_arguments)

lemma size_dispatch_call: "x \<in> set (dispatch_call_exprs b) \<Longrightarrow> size x < size_dispatch_call size b"
  by (cases b) (auto dest!: size_receiver size_arguments)

lemma size_endpoint_call: "x \<in> set (endpoint_call_exprs b) \<Longrightarrow> size x < size_endpoint_call size b"
  by (cases b) (auto dest!: size_arguments)

lemma size_record: "x \<in> set (record_exprs b) \<Longrightarrow> size x < size_record_op size b"
  by (cases b) (auto dest!: size_arguments)

lemma size_fields:
  "EBinary e = Some x1 \<Longrightarrow> size_binary_stmt size x1 < size e"
  "EUnary e = Some x2 \<Longrightarrow> size_unary_stmt size x2 < size e"
  "ECast e = Some x3 \<Longrightarrow> size_cast_stmt size x3 < size e"
  "EMethodCall e = Some x4 \<Longrightarrow> size_method_call size x4 < size e"
  "EDispatchCall e = Some x5 \<Longrightarrow> size_dispatch_call size x5 < size e"
  "EEndpointCall e = Some x6 \<Longrightarrow> size_endpoint_call size x6 < size e"
  "ERecordRead e = Some x7 \<Longrightarrow> size_record_op size x7 < size e"
  "ETuple e = Some x8 \<Longrightarrow> size_tuple_stmt size x8 < size e"
  "EObjectLiteral e = Some x9 \<Longrightarrow> size_object_literal size x9 < size e"
  by (cases e; simp)+

lemmas size_field_exprs = size_binary size_unary size_cast size_tuple size_object size_method_call
  size_dispatch_call size_endpoint_call size_record

subsection \<open>Relationships a statement makes itself\<close>

text \<open>\<open>GetRelationships\<close>: the relationship type and the target of each relationship, whose source is nil.
  The relationships of an object literal's entries are those of their values. A nil candidate of a
  dispatch call is a relationship to nil here; only \<open>CollectRelationships\<close> refuses it.\<close>

type_synonym relation = "gostring \<times> ident option"

definition call_relations :: "'e method_call \<Rightarrow> relation list" where
  "call_relations c = (case c of MethodCallStmt _ m _ _ _ \<Rightarrow> [(''call'', m)])"

definition dispatch_relations :: "'e dispatch_call \<Rightarrow> relation list" where
  "dispatch_relations c =
     (case c of DispatchCallStmt _ m _ _ cs \<Rightarrow> (''call'', m) # map (\<lambda>c. (''dispatch'', c)) cs)"

definition endpoint_relations :: "'e endpoint_call \<Rightarrow> relation list" where
  "endpoint_relations c = (case c of EndpointCallStmt _ e _ \<Rightarrow> [(''call'', e)])"

definition record_relations :: "gostring \<Rightarrow> 'e record_op \<Rightarrow> relation list" where
  "record_relations typ c = (case c of RecordStmt _ r _ _ _ _ \<Rightarrow> [(typ, r)])"

definition of_option :: "('a \<Rightarrow> 'b list) \<Rightarrow> 'a option \<Rightarrow> 'b list" where
  "of_option f x = (case x of None \<Rightarrow> [] | Some y \<Rightarrow> f y)"

definition target_relations :: "(expr_stmt \<Rightarrow> relation list) \<Rightarrow> expr_stmt \<Rightarrow> relation list" where
  "target_relations nested e =
     of_option call_relations (EMethodCall e) @ of_option dispatch_relations (EDispatchCall e) @
     of_option endpoint_relations (EEndpointCall e) @ of_option (record_relations ''read'') (ERecordRead e) @
     of_option (\<lambda>v. [(''read'', Some (VarIdentifier v))]) (EVariable e) @
     of_option (\<lambda>obj. concat (map nested (entry_values obj))) (EObjectLiteral e)"

lemma target_relations_cong [fundef_cong]:
  "e = e' \<Longrightarrow> (\<And>obj x. EObjectLiteral e' = Some obj \<Longrightarrow> x \<in> set (entry_values obj) \<Longrightarrow> f x = g x) \<Longrightarrow>
    target_relations f e = target_relations g e'"
  by (auto simp: target_relations_def of_option_def split: option.split intro!: arg_cong [where f = concat])

function expr_relations :: "expr_stmt \<Rightarrow> relation list" where
  "expr_relations e = target_relations expr_relations e"
  by pat_completeness auto

termination by (relation "measure size") (auto dest!: size_object size_fields)

declare expr_relations.simps [simp del]

fun statement_relations :: "stmt \<Rightarrow> relation list" and block_relations :: "block_stmt \<Rightarrow> relation list" where
  "statement_relations (SAssignment (AssignmentStmt _ t _ _ _)) = [(''write'', Some (VarIdentifier t))]"
| "statement_relations (SMethodCall c) = call_relations c"
| "statement_relations (SDispatchCall c) = dispatch_relations c"
| "statement_relations (SEndpointCall c) = endpoint_relations c"
| "statement_relations (SRecordRead r) = record_relations ''read'' r"
| "statement_relations (SRecordWrite r) = record_relations ''write'' r"
| "statement_relations (SExpr e) = expr_relations e"
| "statement_relations (SBlock b) = block_relations b"
| "statement_relations (STest b _) = block_relations b"
| "statement_relations _ = []"
| "block_relations (BlockStmt _ _ cs) =
     concat (map (\<lambda>c. case c of None \<Rightarrow> [] | Some s \<Rightarrow> statement_relations s) cs)"

subsection \<open>Signatures\<close>

text \<open>\<open>GetSignature\<close> is the location when there is one. An expression answers for the statement it holds
  and dereferences nil when it holds none, which is \<open>None\<close>.\<close>

definition located :: "base \<Rightarrow> gostring option \<Rightarrow> gostring option" where
  "located b s =
     (if \<not> location_IsEmpty (Location (Source b)) then Some (location_String (Location (Source b))) else s)"

definition glue :: "gostring option list \<Rightarrow> gostring option" where
  "glue parts = (if None \<in> set parts then None else Some (concat (map the parts)))"

fun literal_signature :: "literal_stmt \<Rightarrow> gostring option" where
  "literal_signature (LiteralStmt b v _) =
     located b (Some (case v of Some x \<Rightarrow> ''lit:'' @ x | None \<Rightarrow> ''literal''))"

definition scoped_signature :: "scoped_ref \<Rightarrow> gostring" where
  "scoped_signature v = String (VarIdentifier v) @ ''.'' @ VarName v"

fun binary_signature :: "('e \<Rightarrow> gostring option) \<Rightarrow> 'e binary_stmt \<Rightarrow> gostring option" where
  "binary_signature f (BinaryStmt b l op r) = located b (glue [f l, Some '' '', Some op, Some '' '', f r])"

fun unary_signature :: "('e \<Rightarrow> gostring option) \<Rightarrow> 'e unary_stmt \<Rightarrow> gostring option" where
  "unary_signature f (UnaryStmt b op x) = located b (glue [Some op, f x])"

fun cast_signature :: "('e \<Rightarrow> gostring option) \<Rightarrow> 'e cast_stmt \<Rightarrow> gostring option" where
  "cast_signature f (CastStmt b x t) = located b (glue [Some (''('' @ t @ '')''), f x])"

fun separated :: "gostring option list \<Rightarrow> gostring option list" where
  "separated [] = []"
| "separated [x] = [x]"
| "separated (x # y # xs) = x # Some '', '' # separated (y # xs)"

fun tuple_signature :: "('e \<Rightarrow> gostring option) \<Rightarrow> 'e tuple_stmt \<Rightarrow> gostring option" where
  "tuple_signature f (TupleStmt b xs) =
     located b (if xs = [] then Some ''()''
                else glue ([Some ''(''] @ separated (map f xs) @ [Some '')'']))"

fun method_call_base :: "'e method_call \<Rightarrow> base" where "method_call_base (MethodCallStmt b _ _ _ _) = b"
fun dispatch_call_base :: "'e dispatch_call \<Rightarrow> base" where "dispatch_call_base (DispatchCallStmt b _ _ _ _) = b"
fun object_literal_base :: "'e object_literal \<Rightarrow> base" where "object_literal_base (ObjectLiteralStmt b _) = b"

fun endpoint_signature :: "'e endpoint_call \<Rightarrow> gostring option" where
  "endpoint_signature (EndpointCallStmt b ep _) =
     located b (Some (case ep of Some i \<Rightarrow> ''endpoint:'' @ String i | None \<Rightarrow> ''endpoint''))"

fun record_signature :: "gostring \<Rightarrow> 'e record_op \<Rightarrow> gostring option" where
  "record_signature verb (RecordStmt b r _ _ _ _) =
     located b (Some (case r of Some i \<Rightarrow> verb @ '':'' @ String i | None \<Rightarrow> verb))"

definition call_location :: "base \<Rightarrow> gostring option" where
  "call_location b = Some (location_String (Location (Source b)))"

definition field_signature :: "(expr_stmt \<Rightarrow> gostring option) \<Rightarrow> expr_stmt \<Rightarrow> gostring option" where
  "field_signature f e =
     (case firstStatement
        [map_option literal_signature (ELiteral e), map_option (\<lambda>v. Some (scoped_signature v)) (EVariable e),
         map_option (binary_signature f) (EBinary e), map_option (cast_signature f) (ECast e),
         map_option (unary_signature f) (EUnary e), map_option (\<lambda>c. call_location (method_call_base c)) (EMethodCall e),
         map_option (\<lambda>c. call_location (dispatch_call_base c)) (EDispatchCall e),
         map_option endpoint_signature (EEndpointCall e), map_option (record_signature ''read'') (ERecordRead e),
         map_option (tuple_signature f) (ETuple e),
         map_option (\<lambda>x. located (object_literal_base x) (Some ''stmt'')) (EObjectLiteral e)] of
        None \<Rightarrow> None
      | Some s \<Rightarrow> s)"

lemma binary_signature_cong [fundef_cong]:
  "b = b' \<Longrightarrow> (\<And>x. x \<in> set (binary_exprs b') \<Longrightarrow> f x = g x) \<Longrightarrow> binary_signature f b = binary_signature g b'"
  by (cases b') simp

lemma cast_signature_cong [fundef_cong]:
  "b = b' \<Longrightarrow> (\<And>x. x \<in> set (cast_exprs b') \<Longrightarrow> f x = g x) \<Longrightarrow> cast_signature f b = cast_signature g b'"
  by (cases b') simp

lemma unary_signature_cong [fundef_cong]:
  "b = b' \<Longrightarrow> (\<And>x. x \<in> set (unary_exprs b') \<Longrightarrow> f x = g x) \<Longrightarrow> unary_signature f b = unary_signature g b'"
  by (cases b') simp

lemma tuple_signature_cong [fundef_cong]:
  "b = b' \<Longrightarrow> (\<And>x. x \<in> set (tuple_exprs b') \<Longrightarrow> f x = g x) \<Longrightarrow> tuple_signature f b = tuple_signature g b'"
  by (cases b') (simp cong: map_cong)

lemmas signature_congs = binary_signature_cong cast_signature_cong unary_signature_cong tuple_signature_cong

text \<open>The expressions an expression's fields hold.\<close>

definition field_exprs :: "expr_stmt \<Rightarrow> expr_stmt list" where
  "field_exprs e =
     of_option binary_exprs (EBinary e) @ of_option cast_exprs (ECast e) @ of_option unary_exprs (EUnary e) @
     of_option method_call_exprs (EMethodCall e) @ of_option dispatch_call_exprs (EDispatchCall e) @
     of_option endpoint_call_exprs (EEndpointCall e) @ of_option record_exprs (ERecordRead e) @
     of_option tuple_exprs (ETuple e) @ of_option entry_values (EObjectLiteral e)"

lemma of_optionD: "x \<in> set (of_option f y) \<Longrightarrow> \<exists>z. y = Some z \<and> x \<in> set (f z)"
  by (cases y) (auto simp: of_option_def)

lemma size_field_exprs_less: "x \<in> set (field_exprs e) \<Longrightarrow> size x < size e"
  unfolding field_exprs_def set_append
  by (elim UnE; drule of_optionD; elim exE conjE; drule size_field_exprs; drule size_fields; simp)

lemma field_signature_cong [fundef_cong]:
  assumes "e = e'" "\<And>x. x \<in> set (field_exprs e') \<Longrightarrow> f x = g x"
  shows "field_signature f e = field_signature g e'"
proof -
  have "map_option (binary_signature f) (EBinary e') = map_option (binary_signature g) (EBinary e')"
    "map_option (cast_signature f) (ECast e') = map_option (cast_signature g) (ECast e')"
    "map_option (unary_signature f) (EUnary e') = map_option (unary_signature g) (EUnary e')"
    "map_option (tuple_signature f) (ETuple e') = map_option (tuple_signature g) (ETuple e')"
    using assms(2)
    by (auto intro!: option.map_cong0 signature_congs simp: field_exprs_def of_option_def)
  then show ?thesis unfolding field_signature_def assms(1) by simp
qed

function expr_signature :: "expr_stmt \<Rightarrow> gostring option" where
  "expr_signature e = field_signature expr_signature e"
  by pat_completeness auto

termination by (relation "measure size") (auto dest: size_field_exprs_less)

declare expr_signature.simps [simp del]

definition base_signature :: "base \<Rightarrow> gostring option" where
  "base_signature b = located b (Some ''stmt'')"

fun condition_signature :: "condition_stmt \<Rightarrow> gostring option" where
  "condition_signature (ConditionStmt b _) = base_signature b"

fun assignment_signature :: "assignment_stmt \<Rightarrow> gostring option" where
  "assignment_signature (AssignmentStmt b t e op _) =
     located b (glue [Some (scoped_signature t), Some '' '', Some op, Some '' '', expr_signature e])"

fun block_signature :: "block_stmt \<Rightarrow> gostring option" where
  "block_signature (BlockStmt b _ _) = located b (Some ''block'')"

fun GetSignature :: "stmt \<Rightarrow> gostring option" where
  "GetSignature (SAssignment a) = assignment_signature a"
| "GetSignature (SBinary b) = binary_signature expr_signature b"
| "GetSignature (SBlock b) = block_signature b"
| "GetSignature (SBreak b) = base_signature b"
| "GetSignature (SCast c) = cast_signature expr_signature c"
| "GetSignature (SCondition c) = condition_signature c"
| "GetSignature (SConstDecl b f) = located b (Some (''const '' @ RFLabel f))"
| "GetSignature (SContinue b) = base_signature b"
| "GetSignature (SEndpointCall c) = endpoint_signature c"
| "GetSignature (SExpr e) = expr_signature e"
| "GetSignature (SFor b _ c _ _) = located b (glue [Some ''for('', condition_signature c, Some '')''])"
| "GetSignature (SForEach b v it _) =
     located b (glue [Some ''for('', assignment_signature v, Some '' of '', expr_signature it, Some '')''])"
| "GetSignature (SFunctionDecl b m) = located b (Some (''func '' @ Method (MIdentifier (MethodFacts m))))"
| "GetSignature (SIf b c _ _) = located b (glue [Some ''if('', condition_signature c, Some '')''])"
| "GetSignature (SLiteral l) = literal_signature l"
| "GetSignature (SMethodCall c) = call_location (method_call_base c)"
| "GetSignature (SDispatchCall c) = call_location (dispatch_call_base c)"
| "GetSignature (SRecordRead r) = record_signature ''read'' r"
| "GetSignature (SRecordWrite r) = record_signature ''write'' r"
| "GetSignature (SReturn b _) = base_signature b"
| "GetSignature (SSwitch b v _) = located b (glue [Some ''switch('', expr_signature v, Some '')''])"
| "GetSignature (SThrow b _) = base_signature b"
| "GetSignature (STry b _ _) = base_signature b"
| "GetSignature (STuple t) = tuple_signature expr_signature t"
| "GetSignature (SObjectLiteral x) = base_signature (object_literal_base x)"
| "GetSignature (STypeDecl b n) = located b (Some (''type '' @ n))"
| "GetSignature (SUnary x) = unary_signature expr_signature x"
| "GetSignature (SVariableDecl b f) = located b (Some (''var '' @ RFLabel f))"
| "GetSignature (SVariable b n) = located b (Some (if n \<noteq> [] then n else ''var''))"
| "GetSignature (SWhile b c _) = located b (glue [Some ''while('', condition_signature c, Some '')''])"
| "GetSignature (SDoc (DocStmt b _ _ _ _)) = base_signature b"
| "GetSignature (STest b _) = block_signature b"
| "GetSignature (SRaw _ _ _) = Some ''raw''"
| "GetSignature (SDestructuring _) = Some ''destructure''"
| "GetSignature (STemplate _ _ _ _) = Some ''template''"
| "GetSignature (SScopedVariable v) = Some (scoped_signature v)"
| "GetSignature (SGeneric b) = base_signature b"

end
