(* ===== verification/Graph_Source.thy ===== *)
theory Graph_Source
  imports Graph_Build Statement
begin

text \<open>
  The sources a call graph is drawn from: relationships read off a parsed tree
  (\<open>graph/relationships.go\<close>), references a resolver looks up by name (\<open>graph/resolver.go\<close>), a source
  with structural nodes absorbed into others (\<open>graph/absorb.go\<close>), and the guards and request options set
  beside them (\<open>graph/guards.go\<close>, \<open>graph/filter.go\<close>). A guard statement is an argument of the model,
  with the function that writes it as plain text.
\<close>

subsection \<open>Relationships as a source\<close>

definition graphRelationships :: "relationship_type list" where
  "graphRelationships =
     [RelationshipTypeCall, RelationshipTypeDispatch, RelationshipTypeRead, RelationshipTypeWrite]"

record 'g relationship =
  RelType :: relationship_type
  RelKind :: gostring
  RelFrom :: "ident option"
  RelTo :: "ident option"
  RelSource :: source_code
  RelGuards :: "'g list"

record relationship_source =
  rs_nodes :: "gostring \<rightharpoonup> node"
  rs_out :: "gostring \<Rightarrow> step list"
  rs_in :: "gostring \<Rightarrow> step list"

datatype 'g relationship_error =
  DescribeRequired
| NilDeclared nat
| NoSource nat "'g relationship"
| NoTarget nat "'g relationship"

definition siteOf :: "('g \<Rightarrow> gostring) \<Rightarrow> 'g relationship \<Rightarrow> site" where
  "siteOf render r =
     (let l = Location (RelSource r) in
      no_site\<lparr> SPath := LocPath l,
        SLine := (case StartLine l of None \<Rightarrow> 0 | Some x \<Rightarrow> x),
        SColumn := (case LocColumn l of None \<Rightarrow> 0 | Some c \<Rightarrow> c),
        SText := (case SourceContent (RelSource r) of None \<Rightarrow> [] | Some t \<Rightarrow> t),
        Guards := map render (RelGuards r) \<rparr>)"

text \<open>What \<open>Describe\<close> returns for an identifier, completed as \<open>relationshipSource.node\<close> does.\<close>

definition completed :: "unicode_tables \<Rightarrow> (ident \<Rightarrow> node) \<Rightarrow> (ident \<Rightarrow> gostring) \<Rightarrow> ident \<Rightarrow> node" where
  "completed u desc label i =
     (let n = (desc i)\<lparr> ID := IdentityKey u i, NIdentifier := i \<rparr>;
          n = (if NKind n = [] then n\<lparr> NKind := GetNodeType i \<rparr> else n)
      in if Label n = [] then n\<lparr> Label := label i \<rparr> else n)"

definition rs_node :: "unicode_tables \<Rightarrow> (ident \<Rightarrow> node) \<Rightarrow> (ident \<Rightarrow> gostring) \<Rightarrow> ident
    \<Rightarrow> relationship_source \<Rightarrow> node \<times> relationship_source" where
  "rs_node u desc label i s =
     (case rs_nodes s (IdentityKey u i) of
        Some n \<Rightarrow> (n, s)
      | None \<Rightarrow>
          let n = completed u desc label i in (n, s\<lparr> rs_nodes := (rs_nodes s)(IdentityKey u i \<mapsto> n) \<rparr>))"

fun declare_nodes :: "unicode_tables \<Rightarrow> (ident \<Rightarrow> node) \<Rightarrow> (ident \<Rightarrow> gostring) \<Rightarrow> nat \<Rightarrow> ident option list
    \<Rightarrow> relationship_source \<Rightarrow> ('g relationship_error, relationship_source) outcome" where
  "declare_nodes u desc label n [] s = Inr s"
| "declare_nodes u desc label n (None # is) s = Inl (NilDeclared n)"
| "declare_nodes u desc label n (Some i # is) s =
     declare_nodes u desc label (Suc n) is (snd (rs_node u desc label i s))"

definition edge_of :: "('g \<Rightarrow> gostring) \<Rightarrow> 'g relationship \<Rightarrow> edge" where
  "edge_of render r = no_edge\<lparr> EType := RelType r, EKind := RelKind r, Sites := [siteOf render r] \<rparr>"

definition draw :: "unicode_tables \<Rightarrow> (ident \<Rightarrow> node) \<Rightarrow> (ident \<Rightarrow> gostring) \<Rightarrow> edge \<Rightarrow> ident \<Rightarrow> ident
    \<Rightarrow> relationship_source \<Rightarrow> relationship_source" where
  "draw u desc label e from to s =
     (case rs_node u desc label from s of (caller, s) \<Rightarrow>
      case rs_node u desc label to s of (callee, s) \<Rightarrow>
        s\<lparr> rs_out := (rs_out s)(ID caller := rs_out s (ID caller) @ [\<lparr> SNode = callee, SEdge = e \<rparr>]),
           rs_in := (rs_in s)(ID callee := rs_in s (ID callee) @ [\<lparr> SNode = caller, SEdge = e \<rparr>]) \<rparr>)"

fun draw_all :: "unicode_tables \<Rightarrow> (ident \<Rightarrow> node) \<Rightarrow> (ident \<Rightarrow> gostring) \<Rightarrow> ('g \<Rightarrow> gostring) \<Rightarrow> nat
    \<Rightarrow> 'g relationship list \<Rightarrow> relationship_source \<Rightarrow> ('g relationship_error, relationship_source) outcome" where
  "draw_all u desc label render n [] s = Inr s"
| "draw_all u desc label render n (r # rs) s =
     (if RelType r \<notin> set graphRelationships then draw_all u desc label render (Suc n) rs s
      else case RelFrom r of
        None \<Rightarrow> Inl (NoSource n r)
      | Some from \<Rightarrow>
          (case RelTo r of
             None \<Rightarrow> Inl (NoTarget n r)
           | Some to \<Rightarrow>
               draw_all u desc label render (Suc n) rs (draw u desc label (edge_of render r) from to s)))"

definition unknown_node :: "unicode_tables \<Rightarrow> gostring \<Rightarrow> gostring" where
  "unknown_node u i =
     ''graph: '' @ go_quote u i @
     '' is neither a declared node nor named by a call, dispatch, read or write relationship''"

definition rs_describe :: "unicode_tables \<Rightarrow> relationship_source \<Rightarrow> gostring \<Rightarrow> (gostring, node) outcome" where
  "rs_describe u s i = (case rs_nodes s i of None \<Rightarrow> Inl (unknown_node u i) | Some n \<Rightarrow> Inr n)"

definition rs_Out :: "unicode_tables \<Rightarrow> relationship_source \<Rightarrow> gostring \<Rightarrow> (gostring, step list) outcome" where
  "rs_Out u s i = and_then (rs_describe u s i) (\<lambda>_. Inr (rs_out s i))"

definition rs_In :: "unicode_tables \<Rightarrow> relationship_source \<Rightarrow> gostring \<Rightarrow> (gostring, step list) outcome" where
  "rs_In u s i = and_then (rs_describe u s i) (\<lambda>_. Inr (rs_in s i))"

definition empty_source :: relationship_source where
  "empty_source = \<lparr> rs_nodes = Map.empty, rs_out = (\<lambda>_. []), rs_in = (\<lambda>_. []) \<rparr>"

definition FromRelationships :: "unicode_tables \<Rightarrow> (ident \<Rightarrow> gostring) \<Rightarrow> ('g \<Rightarrow> gostring) \<Rightarrow> ident option list
    \<Rightarrow> 'g relationship list \<Rightarrow> (ident \<Rightarrow> node) option \<Rightarrow> ('g relationship_error, graph_source) outcome" where
  "FromRelationships u label render nodes rels desc =
     (case desc of
        None \<Rightarrow> Inl DescribeRequired
      | Some desc \<Rightarrow>
          and_then (declare_nodes u desc label 0 nodes empty_source) (\<lambda>s.
          and_then (draw_all u desc label render 0 rels s) (\<lambda>s.
            Inr \<lparr> describe = rs_describe u s, src_out = rs_Out u s, src_in = rs_In u s \<rparr>)))"

subsection \<open>References resolved by name\<close>

definition ResolutionStatic :: gostring where "ResolutionStatic = ''static''"
definition ResolutionDynamic :: gostring where "ResolutionDynamic = ''dynamic''"
definition ResolutionAmbiguous :: gostring where "ResolutionAmbiguous = ''ambiguous''"
definition ResolutionUnresolved :: gostring where "ResolutionUnresolved = ''unresolved''"

lemmas resolution_defs = ResolutionStatic_def ResolutionDynamic_def ResolutionAmbiguous_def ResolutionUnresolved_def

record target =
  TNode :: node
  TProperties :: properties

record reference =
  RefKind :: gostring
  RefName :: gostring
  RefSites :: "site list"
  Status :: gostring
  Targets :: "target list"
  Candidates :: "target list"

record referrer =
  ReferrerNode :: node
  ReferrerReference :: reference

datatype reference_error =
  StaticTargets gostring gostring nat
| BadStatus gostring gostring gostring

definition reference_validate :: "reference \<Rightarrow> (reference_error, unit) outcome" where
  "reference_validate r =
     (if Status r = ResolutionStatic then
        (if length (Targets r) \<noteq> 1 then Inl (StaticTargets (RefKind r) (RefName r) (length (Targets r))) else Inr ())
      else if Status r \<in> {ResolutionDynamic, ResolutionAmbiguous, ResolutionUnresolved} then Inr ()
      else Inl (BadStatus (RefKind r) (RefName r) (Status r)))"

definition reference_edge :: "reference \<Rightarrow> target \<Rightarrow> edge" where
  "reference_edge r t =
     (let e = no_edge\<lparr> EType := RelationshipTypeCall, EKind := RefKind r, Sites := RefSites r,
                EProperties := TProperties t \<rparr> in
      if Status r = ResolutionDynamic then e\<lparr> EType := RelationshipTypeDispatch \<rparr>
      else if Status r = ResolutionAmbiguous then
        e\<lparr> EType := RelationshipTypeDispatch,
           EProperties := AList.update ''status'' ResolutionAmbiguous (TProperties t) \<rparr>
      else e)"

definition reference_targets :: "reference \<Rightarrow> target list" where
  "reference_targets r = (if Status r = ResolutionAmbiguous then Candidates r else Targets r)"

definition unresolved_leaf :: "reference \<Rightarrow> node" where
  "unresolved_leaf r =
     no_node\<lparr> ID := UnresolvedID (RefKind r) (RefName r), NKind := RefKind r, Label := RefName r,
       Unresolved := True \<rparr>"

definition Steps :: "reference \<Rightarrow> (reference_error, step list) outcome" where
  "Steps r =
     and_then (reference_validate r) (\<lambda>_.
       if Status r = ResolutionUnresolved then
         Inr [\<lparr> SNode = unresolved_leaf r,
                SEdge = no_edge\<lparr> EType := RelationshipTypeCall, EKind := RefKind r, Sites := RefSites r \<rparr> \<rparr>]
       else Inr (map (\<lambda>t. \<lparr> SNode = TNode t, SEdge = reference_edge r t \<rparr>) (reference_targets r)))"

definition EdgeTo :: "reference \<Rightarrow> gostring \<Rightarrow> (reference_error, edge option) outcome" where
  "EdgeTo r i =
     and_then (reference_validate r) (\<lambda>_.
       Inr (map_option (reference_edge r) (find (\<lambda>t. ID (TNode t) = i) (reference_targets r))))"

record resolver =
  ResolverDescribe :: "gostring \<Rightarrow> (gostring, node) outcome"
  References :: "gostring \<Rightarrow> (gostring, reference list) outcome"
  Referrers :: "gostring \<Rightarrow> (gostring, referrer list) outcome"

datatype resolver_error =
  ResolverFailed gostring
| ReferencesOf gostring reference_error

fun all_steps :: "gostring \<Rightarrow> reference list \<Rightarrow> (resolver_error, step list) outcome" where
  "all_steps i [] = Inr []"
| "all_steps i (r # rs) =
     (case Steps r of
        Inl e \<Rightarrow> Inl (ReferencesOf i e)
      | Inr drawn \<Rightarrow> and_then (all_steps i rs) (\<lambda>ss. Inr (drawn @ ss)))"

fun all_callers :: "gostring \<Rightarrow> referrer list \<Rightarrow> (resolver_error, step list) outcome" where
  "all_callers i [] = Inr []"
| "all_callers i (r # rs) =
     (case EdgeTo (ReferrerReference r) i of
        Inl e \<Rightarrow> Inl (ReferencesOf (ID (ReferrerNode r)) e)
      | Inr None \<Rightarrow> all_callers i rs
      | Inr (Some e) \<Rightarrow>
          and_then (all_callers i rs) (\<lambda>ss. Inr (\<lparr> SNode = ReferrerNode r, SEdge = e \<rparr> # ss)))"

definition resolver_Out :: "resolver \<Rightarrow> gostring \<Rightarrow> (resolver_error, step list) outcome" where
  "resolver_Out rv i =
     (case References rv i of Inl e \<Rightarrow> Inl (ResolverFailed e) | Inr refs \<Rightarrow> all_steps i refs)"

definition resolver_In :: "resolver \<Rightarrow> gostring \<Rightarrow> (resolver_error, step list) outcome" where
  "resolver_In rv i =
     (case Referrers rv i of Inl e \<Rightarrow> Inl (ResolverFailed e) | Inr refs \<Rightarrow> all_callers i refs)"

subsection \<open>Absorbed nodes\<close>

datatype absorb_error =
  SourceFailed gostring
| AbsorbingFailed gostring gostring gostring
| AbsorbedIntoItself gostring gostring "gostring list"
| CalleesFailed gostring gostring absorb_error
| NoParent gostring gostring
| ParentFailed gostring gostring gostring

type_synonym drawn_site = "gostring \<times> relationship_type \<times> gostring \<times> gostring \<times> int \<times> int"
type_synonym absorber = "node \<Rightarrow> (gostring, gostring \<times> bool) outcome"

definition drawnSite :: "step \<Rightarrow> site \<Rightarrow> drawn_site" where
  "drawnSite s x = (ID (SNode s), EType (SEdge s), SPath x, SText x, SLine x, SColumn x)"

fun undrawn :: "step \<Rightarrow> site list \<Rightarrow> drawn_site set \<Rightarrow> site list \<times> drawn_site set" where
  "undrawn s [] drawn = ([], drawn)"
| "undrawn s (x # xs) drawn =
     (if drawnSite s x \<in> drawn then undrawn s xs drawn
      else case undrawn s xs (insert (drawnSite s x) drawn) of (kept, drawn) \<Rightarrow> (x # kept, drawn))"

definition withoutDrawnSites :: "step \<Rightarrow> drawn_site set \<Rightarrow> step option \<times> drawn_site set" where
  "withoutDrawnSites s drawn =
     (if Sites (SEdge s) = [] then (Some s, drawn)
      else case undrawn s (Sites (SEdge s)) drawn of (kept, drawn) \<Rightarrow>
        (if kept = [] then None else Some (s\<lparr> SEdge := (SEdge s)\<lparr> Sites := kept \<rparr> \<rparr>), drawn))"

fun take_inner :: "step list \<Rightarrow> step list \<times> drawn_site set \<Rightarrow> step list \<times> drawn_site set" where
  "take_inner [] (out, drawn) = (out, drawn)"
| "take_inner (s # ss) (out, drawn) =
     (case withoutDrawnSites s drawn of
        (None, drawn) \<Rightarrow> take_inner ss (out, drawn)
      | (Some s, drawn) \<Rightarrow> take_inner ss (out @ [s], drawn))"

fun absorb_steps :: "graph_source \<Rightarrow> absorber \<Rightarrow> nat \<Rightarrow> gostring \<Rightarrow> gostring list \<Rightarrow> step list
    \<Rightarrow> step list \<times> drawn_site set \<Rightarrow> (absorb_error, step list) outcome option" where
  "absorb_steps src ab k i expanding [] (out, drawn) = Some (Inr out)"
| "absorb_steps src ab k i expanding (s # ss) (out, drawn) =
     (case ab (SNode s) of
        Inl e \<Rightarrow> Some (Inl (AbsorbingFailed (ID (SNode s)) i e))
      | Inr (_, absorbed) \<Rightarrow>
          if \<not> absorbed then absorb_steps src ab k i expanding ss (out @ [s], drawn)
          else if ID (SNode s) \<in> set expanding
          then Some (Inl (AbsorbedIntoItself (ID (SNode s)) i (expanding @ [ID (SNode s)])))
          else
            (case k of
               0 \<Rightarrow> None
             | Suc k' \<Rightarrow>
                 (case (case src_out src (ID (SNode s)) of
                          Inl e \<Rightarrow> Some (Inl (SourceFailed e))
                        | Inr steps \<Rightarrow>
                            absorb_steps src ab k' (ID (SNode s)) (expanding @ [ID (SNode s)]) steps ([], {})) of
                    None \<Rightarrow> None
                  | Some (Inl e) \<Rightarrow> Some (Inl (CalleesFailed (ID (SNode s)) i e))
                  | Some (Inr inner) \<Rightarrow> absorb_steps src ab k i expanding ss (take_inner inner (out, drawn)))))"

definition absorb_out :: "graph_source \<Rightarrow> absorber \<Rightarrow> nat \<Rightarrow> gostring \<Rightarrow> gostring list
    \<Rightarrow> (absorb_error, step list) outcome option" where
  "absorb_out src ab k i expanding =
     (case src_out src i of
        Inl e \<Rightarrow> Some (Inl (SourceFailed e))
      | Inr steps \<Rightarrow> absorb_steps src ab k i expanding steps ([], {}))"

definition absorb_Out :: "graph_source \<Rightarrow> absorber \<Rightarrow> nat \<Rightarrow> gostring \<Rightarrow> (absorb_error, step list) outcome option" where
  "absorb_Out src ab k i = absorb_out src ab k i [i]"

fun absorb_callers :: "graph_source \<Rightarrow> absorber \<Rightarrow> gostring \<Rightarrow> step list \<Rightarrow> (absorb_error, step list) outcome" where
  "absorb_callers src ab i [] = Inr []"
| "absorb_callers src ab i (s # ss) =
     (case ab (SNode s) of
        Inl e \<Rightarrow> Inl (AbsorbingFailed (ID (SNode s)) i e)
      | Inr (parent, absorbed) \<Rightarrow>
          if \<not> absorbed then and_then (absorb_callers src ab i ss) (\<lambda>ss. Inr (s # ss))
          else if parent = [] then Inl (NoParent (ID (SNode s)) i)
          else case describe src parent of
            Inl e \<Rightarrow> Inl (ParentFailed parent (ID (SNode s)) e)
          | Inr n \<Rightarrow> and_then (absorb_callers src ab i ss) (\<lambda>ss. Inr (s\<lparr> SNode := n \<rparr> # ss)))"

definition absorb_In :: "graph_source \<Rightarrow> absorber \<Rightarrow> gostring \<Rightarrow> (absorb_error, step list) outcome" where
  "absorb_In src ab i =
     (case src_in src i of Inl e \<Rightarrow> Inl (SourceFailed e) | Inr ss \<Rightarrow> absorb_callers src ab i ss)"

subsection \<open>Guards and request options\<close>

text \<open>What reading the guards of a site gives: unreadable source, another error, or the guards.\<close>

datatype guards_read = UnreadableGuards | GuardsFailed gostring | GuardsRead "gostring list"

datatype guards_error = GuardsOf gostring gostring gostring int gostring

fun fill_sites :: "(edge \<Rightarrow> site \<Rightarrow> guards_read) \<Rightarrow> edge \<Rightarrow> site list \<Rightarrow> site list \<Rightarrow> gostring list
    \<Rightarrow> (guards_error, site list \<times> gostring list) outcome" where
  "fill_sites guards e done' [] unreadable = Inr (done', unreadable)"
| "fill_sites guards e done' (x # xs) unreadable =
     (if SPath x = [] \<or> SLine x = 0 then fill_sites guards e (done' @ [x]) xs unreadable
      else case guards (e\<lparr> Sites := done' @ x # xs \<rparr>) x of
        UnreadableGuards \<Rightarrow>
          fill_sites guards e (done' @ [x]) xs
            (if SPath x \<in> set unreadable then unreadable else unreadable @ [SPath x])
      | GuardsFailed err \<Rightarrow> Inl (GuardsOf (From e) (To e) (SPath x) (SLine x) err)
      | GuardsRead gs \<Rightarrow> fill_sites guards e (done' @ [x\<lparr> Guards := gs \<rparr>]) xs unreadable)"

fun fill_edges :: "(edge \<Rightarrow> site \<Rightarrow> guards_read) \<Rightarrow> edge list \<Rightarrow> gostring list
    \<Rightarrow> (guards_error, edge list \<times> gostring list) outcome" where
  "fill_edges guards [] unreadable = Inr ([], unreadable)"
| "fill_edges guards (e # es) unreadable =
     and_then (fill_sites guards e [] (Sites e) unreadable) (\<lambda>(xs, unreadable).
     and_then (fill_edges guards es unreadable) (\<lambda>(es, unreadable).
       Inr (e\<lparr> Sites := xs \<rparr> # es, unreadable)))"

definition FillGuards :: "graph \<Rightarrow> (edge \<Rightarrow> site \<Rightarrow> guards_read) \<Rightarrow> (guards_error, graph) outcome" where
  "FillGuards g guards =
     and_then (fill_edges guards (Edges g) (UnreadableSource (Omitted g))) (\<lambda>(es, unreadable).
       Inr (g\<lparr> Edges := es, Omitted := (Omitted g)\<lparr> UnreadableSource := unreadable \<rparr> \<rparr>))"

definition DefaultDepth :: int where "DefaultDepth = 2"
definition DefaultLimit :: int where "DefaultLimit = 150"

record graph_filter =
  FDirection :: gostring
  FDepth :: int
  FLimit :: int
  FAccess :: "gostring list"
  Columns :: bool

definition filter_Options :: "unicode_tables \<Rightarrow> graph_filter \<Rightarrow> (gostring, options) outcome" where
  "filter_Options u f =
     and_then (ParseAccess u (FAccess f)) (\<lambda>access.
       Inr \<lparr> Direction = FDirection f, ODepth = (if FDepth f \<noteq> 0 then FDepth f else DefaultDepth),
             Limit = (if FLimit f \<noteq> 0 then FLimit f else DefaultLimit), Theme = None, Exclude = None,
             Access = access \<rparr>)"

subsection \<open>What a relationship source serves\<close>

text \<open>The identifiers a source is asked to serve, in the order they are met, and the node of each key.\<close>

definition drawn :: "'g relationship list \<Rightarrow> 'g relationship list" where
  "drawn rels = filter (\<lambda>r. RelType r \<in> set graphRelationships) rels"

definition ends :: "'g relationship \<Rightarrow> ident list" where
  "ends r = [the (RelFrom r), the (RelTo r)]"

definition mentioned :: "ident option list \<Rightarrow> 'g relationship list \<Rightarrow> ident list" where
  "mentioned nodes rels = map the nodes @ concat (map ends (drawn rels))"

definition node_at :: "unicode_tables \<Rightarrow> (ident \<Rightarrow> node) \<Rightarrow> (ident \<Rightarrow> gostring) \<Rightarrow> ident list \<Rightarrow> gostring \<rightharpoonup> node" where
  "node_at u desc label is k = map_option (completed u desc label) (find (\<lambda>i. IdentityKey u i = k) is)"

definition steps_from :: "unicode_tables \<Rightarrow> (gostring \<rightharpoonup> node) \<Rightarrow> ('g \<Rightarrow> gostring) \<Rightarrow> 'g relationship list \<Rightarrow> gostring \<Rightarrow> step list" where
  "steps_from u N render rs k =
     map (\<lambda>r. \<lparr> SNode = the (N (IdentityKey u (the (RelTo r)))), SEdge = edge_of render r \<rparr>)
       (filter (\<lambda>r. IdentityKey u (the (RelFrom r)) = k) rs)"

definition steps_into :: "unicode_tables \<Rightarrow> (gostring \<rightharpoonup> node) \<Rightarrow> ('g \<Rightarrow> gostring) \<Rightarrow> 'g relationship list \<Rightarrow> gostring \<Rightarrow> step list" where
  "steps_into u N render rs k =
     map (\<lambda>r. \<lparr> SNode = the (N (IdentityKey u (the (RelFrom r)))), SEdge = edge_of render r \<rparr>)
       (filter (\<lambda>r. IdentityKey u (the (RelTo r)) = k) rs)"

lemma find_append: "find P (xs @ ys) = (case find P xs of None \<Rightarrow> find P ys | Some x \<Rightarrow> Some x)"
  by (induction xs) auto

lemma completed_ID [simp]: "ID (completed u desc label i) = IdentityKey u i"
  by (simp add: completed_def Let_def)

lemma node_at_ID: "node_at u desc label is k = Some n \<Longrightarrow> ID n = k"
  by (auto simp: node_at_def find_Some_iff)

lemma node_at_None: "node_at u desc label is k = None \<longleftrightarrow> k \<notin> IdentityKey u ` set is"
  by (auto simp: node_at_def find_None_iff)

lemma node_at_more: "node_at u desc label is k = Some n \<Longrightarrow> node_at u desc label (is @ js) k = Some n"
  by (auto simp: node_at_def find_append)

lemma rs_node_spec:
  assumes "rs_nodes s = node_at u desc label is"
  shows "rs_node u desc label i s =
     (the (node_at u desc label (is @ [i]) (IdentityKey u i)), s\<lparr> rs_nodes := node_at u desc label (is @ [i]) \<rparr>)"
proof (cases "node_at u desc label is (IdentityKey u i)")
  case None
  have "node_at u desc label (is @ [i]) =
      (node_at u desc label is)(IdentityKey u i \<mapsto> completed u desc label i)"
    using None by (auto simp: node_at_def find_append fun_eq_iff split: option.splits)
  then show ?thesis using None by (simp add: rs_node_def assms Let_def)
next
  case (Some n)
  have "node_at u desc label (is @ [i]) = node_at u desc label is"
    using Some by (auto simp: node_at_def find_append fun_eq_iff split: option.splits)
  then show ?thesis using Some by (simp add: rs_node_def assms)
qed

lemma declare_nodes_spec:
  assumes "rs_nodes s = node_at u desc label is"
  shows "declare_nodes u desc label n nodes s =
     (case index_of (\<lambda>i. i = None) nodes of
        Some j \<Rightarrow> Inl (NilDeclared (n + j))
      | None \<Rightarrow> Inr (s\<lparr> rs_nodes := node_at u desc label (is @ map the nodes) \<rparr>))"
  using assms
proof (induction nodes arbitrary: n s "is")
  case Nil
  then show ?case by simp
next
  case (Cons i nodes)
  show ?case
  proof (cases i)
    case None
    then show ?thesis by simp
  next
    case (Some j)
    have "rs_nodes (snd (rs_node u desc label j s)) = node_at u desc label (is @ [j])"
      using rs_node_spec [OF Cons.prems] by simp
    from Cons.IH [OF this] rs_node_spec [OF Cons.prems] Some show ?thesis
      by (simp split: option.splits)
  qed
qed

definition source_state :: "unicode_tables \<Rightarrow> (ident \<Rightarrow> node) \<Rightarrow> (ident \<Rightarrow> gostring) \<Rightarrow> ('g \<Rightarrow> gostring) \<Rightarrow>
    ident list \<Rightarrow> 'g relationship list \<Rightarrow> relationship_source" where
  "source_state u desc label render is rs =
     (let N = node_at u desc label (is @ concat (map ends rs)) in
      \<lparr> rs_nodes = N, rs_out = steps_from u N render rs, rs_in = steps_into u N render rs \<rparr>)"

lemma the_node_at_more:
  "k \<in> IdentityKey u ` set is \<Longrightarrow> the (node_at u desc label (is @ js) k) = the (node_at u desc label is k)"
  using node_at_more [of u desc label "is" k _ js] node_at_None [of u desc label "is" k] by fastforce

lemma steps_from_more:
  assumes "\<forall>r \<in> set rs. IdentityKey u (the (RelTo r)) \<in> IdentityKey u ` set is"
  shows "steps_from u (node_at u desc label (is @ js)) render rs = steps_from u (node_at u desc label is) render rs"
  using assms by (auto simp: steps_from_def fun_eq_iff the_node_at_more)

lemma steps_into_more:
  assumes "\<forall>r \<in> set rs. IdentityKey u (the (RelFrom r)) \<in> IdentityKey u ` set is"
  shows "steps_into u (node_at u desc label (is @ js)) render rs = steps_into u (node_at u desc label is) render rs"
  using assms by (auto simp: steps_into_def fun_eq_iff the_node_at_more)

lemma draw_spec:
  assumes "RelFrom r = Some from" "RelTo r = Some to"
  shows "draw u desc label (edge_of render r) from to (source_state u desc label render is rs) =
    source_state u desc label render is (rs @ [r])"
proof -
  let ?is = "is @ concat (map ends rs)"
  let ?N = "node_at u desc label (?is @ [from, to])"
  have e: "ends r = [from, to]" using assms by (simp add: ends_def)
  have mem: "\<forall>x \<in> set rs. IdentityKey u (the (RelTo x)) \<in> IdentityKey u ` set ?is"
    "\<forall>x \<in> set rs. IdentityKey u (the (RelFrom x)) \<in> IdentityKey u ` set ?is"
    by (auto simp: ends_def)
  have N: "\<exists>n. node_at u desc label (?is @ [from]) (IdentityKey u from) = Some n"
    "\<exists>n. ?N (IdentityKey u to) = Some n"
    using node_at_None [of u desc label "?is @ [from]" "IdentityKey u from"]
      node_at_None [of u desc label "?is @ [from, to]" "IdentityKey u to"] by auto
  then obtain nf nt where nf: "node_at u desc label (?is @ [from]) (IdentityKey u from) = Some nf"
    and nt: "?N (IdentityKey u to) = Some nt" by blast
  have nf': "?N (IdentityKey u from) = Some nf" using node_at_more [OF nf, of "[to]"] by simp
  have one: "rs_node u desc label from (source_state u desc label render is rs) =
      (nf, (source_state u desc label render is rs)\<lparr> rs_nodes := node_at u desc label (?is @ [from]) \<rparr>)"
    by (subst rs_node_spec [of _ _ _ _ ?is]) (simp_all add: source_state_def Let_def nf [simplified])
  have two: "rs_node u desc label to ((source_state u desc label render is rs)\<lparr> rs_nodes := node_at u desc label (?is @ [from]) \<rparr>) =
      (nt, (source_state u desc label render is rs)\<lparr> rs_nodes := ?N \<rparr>)"
    by (subst rs_node_spec [of _ _ _ _ "?is @ [from]"]) (simp_all add: nt [simplified])
  have "IdentityKey u from = ID nf" "IdentityKey u to = ID nt"
    using node_at_ID [OF nf] node_at_ID [OF nt] by simp_all
  then show ?thesis unfolding draw_def one prod.case two
    using steps_from_more [OF mem(1), of desc label "[from, to]" render] steps_into_more [OF mem(2), of desc label "[from, to]" render]
      assms nf' nt
    by (auto simp: source_state_def Let_def e steps_from_def steps_into_def fun_eq_iff)
qed

definition endless :: "'g relationship \<Rightarrow> bool" where
  "endless r \<longleftrightarrow> RelType r \<in> set graphRelationships \<and> (RelFrom r = None \<or> RelTo r = None)"

definition endless_error :: "nat \<Rightarrow> 'g relationship \<Rightarrow> 'g relationship_error" where
  "endless_error n r = (if RelFrom r = None then NoSource n r else NoTarget n r)"

lemma draw_all_spec:
  "draw_all u desc label render n rels (source_state u desc label render is rs) =
     (case index_of endless rels of
        Some j \<Rightarrow> Inl (endless_error (n + j) (rels ! j))
      | None \<Rightarrow> Inr (source_state u desc label render is (rs @ drawn rels)))"
proof (induction rels arbitrary: n rs)
  case Nil
  then show ?case by (simp add: drawn_def)
next
  case (Cons r rels)
  show ?case
  proof (cases "RelType r \<in> set graphRelationships")
    case False
    then show ?thesis using Cons by (auto simp: endless_def drawn_def split: option.splits)
  next
    case True
    show ?thesis
    proof (cases "RelFrom r = None \<or> RelTo r = None")
      case True
      with \<open>RelType r \<in> _\<close> show ?thesis by (auto simp: endless_def endless_error_def split: option.splits)
    next
      case False
      then obtain x y where "RelFrom r = Some x" "RelTo r = Some y" by auto
      then show ?thesis using Cons.IH [of "Suc n" "rs @ [r]"] True
        by (auto simp: endless_def drawn_def draw_spec split: option.splits)
    qed
  qed
qed

lemma empty_source_state: "empty_source\<lparr> rs_nodes := node_at u desc label is \<rparr> = source_state u desc label render is []"
  by (simp add: empty_source_def source_state_def Let_def steps_from_def steps_into_def fun_eq_iff)

lemma FromRelationships_spec:
  "FromRelationships u label render nodes rels (Some desc) =
     (case index_of (\<lambda>i. i = None) nodes of
        Some j \<Rightarrow> Inl (NilDeclared j)
      | None \<Rightarrow>
          (case index_of endless rels of
             Some j \<Rightarrow> Inl (endless_error j (rels ! j))
           | None \<Rightarrow>
               (let s = source_state u desc label render (map the nodes) (drawn rels) in
                Inr \<lparr> describe = rs_describe u s, src_out = rs_Out u s, src_in = rs_In u s \<rparr>)))"
proof -
  have "rs_nodes empty_source = node_at u desc label []" by (simp add: empty_source_def node_at_def fun_eq_iff)
  then have d: "declare_nodes u desc label 0 nodes empty_source =
      (case index_of (\<lambda>i. i = None) nodes of
         Some j \<Rightarrow> Inl (NilDeclared j)
       | None \<Rightarrow> Inr (source_state u desc label render (map the nodes) []))"
    by (simp add: declare_nodes_spec empty_source_state [of u desc label _ render] split: option.split)
  show ?thesis unfolding FromRelationships_def option.case d
    by (simp add: Let_def draw_all_spec split: option.splits)
qed

definition known :: "unicode_tables \<Rightarrow> ident list \<Rightarrow> gostring \<Rightarrow> 'a \<Rightarrow> (gostring, 'a) outcome" where
  "known u is k x = (if k \<in> IdentityKey u ` set is then Inr x else Inl (unknown_node u k))"

lemma serve_known:
  assumes "rs_nodes s = node_at u desc label is"
  shows "rs_describe u s k = known u is k (the (node_at u desc label is k)) \<and>
    rs_Out u s k = known u is k (rs_out s k) \<and> rs_In u s k = known u is k (rs_in s k)"
  using node_at_None [of u desc label "is" k]
  by (cases "node_at u desc label is k") (simp_all add: rs_describe_def rs_Out_def rs_In_def known_def assms)

text \<open>C10: \<open>FromRelationships\<close> fails only for a missing \<open>Describe\<close>, the first nil declared node, or the first drawn
  relationship that lacks an end. What it returns describes a key exactly when a declared node or an end of a
  drawn relationship has it, as the completed description of the first identifier that has it, and lists as
  callees (callers) one step per drawn relationship from (to) the key, in the order given.\<close>

theorem FromRelationships_serves:
  "FromRelationships u label render nodes rels None = Inl DescribeRequired \<and>
   FromRelationships u label render nodes rels (Some desc) =
      (case (index_of (\<lambda>i. i = None) nodes, index_of endless rels) of
         (Some j, _) \<Rightarrow> Inl (NilDeclared j)
       | (None, Some j) \<Rightarrow> Inl (endless_error j (rels ! j))
       | (None, None) \<Rightarrow>
           (let is = mentioned nodes rels; N = node_at u desc label is in
            Inr \<lparr> describe = (\<lambda>k. known u is k (the (N k))),
                  src_out = (\<lambda>k. known u is k (steps_from u N render (drawn rels) k)),
                  src_in = (\<lambda>k. known u is k (steps_into u N render (drawn rels) k)) \<rparr>))"
proof -
  let ?s = "source_state u desc label render (map the nodes) (drawn rels)"
  let ?is = "mentioned nodes rels"
  have "rs_describe u ?s = (\<lambda>k. known u ?is k (the (node_at u desc label ?is k)))"
    "rs_Out u ?s = (\<lambda>k. known u ?is k (steps_from u (node_at u desc label ?is) render (drawn rels) k))"
    "rs_In u ?s = (\<lambda>k. known u ?is k (steps_into u (node_at u desc label ?is) render (drawn rels) k))"
    using serve_known [of ?s u desc label ?is] by (simp_all add: source_state_def Let_def mentioned_def fun_eq_iff)
  then show ?thesis
    unfolding FromRelationships_spec by (simp add: FromRelationships_def Let_def split: option.split)
qed

subsection \<open>Sources whose callers mirror their callees\<close>

text \<open>The contract a \<open>Source\<close> promises: each step from one end is a step from the other, carrying the same
  edge. A client that walks both ways then draws every edge once.\<close>

locale mirrored =
  fixes callees :: "gostring \<Rightarrow> step list" and callers :: "gostring \<Rightarrow> step list"
  assumes callee_calls: "s \<in> set (callees m) \<Longrightarrow> \<exists>t \<in> set (callers (ID (SNode s))). ID (SNode t) = m \<and> SEdge t = SEdge s"
    and caller_calls: "t \<in> set (callers n) \<Longrightarrow> \<exists>s \<in> set (callees (ID (SNode t))). ID (SNode s) = n \<and> SEdge s = SEdge t"
begin

lemma same_edges:
  "{directed m 1 s |s. s \<in> set (callees m) \<and> ID (SNode s) = n} = {directed n (- 1) t |t. t \<in> set (callers n) \<and> ID (SNode t) = m}"
proof (intro set_eqI iffI)
  fix e assume "e \<in> {directed m 1 s |s. s \<in> set (callees m) \<and> ID (SNode s) = n}"
  then obtain s where s: "e = directed m 1 s" "s \<in> set (callees m)" "ID (SNode s) = n" by blast
  from callee_calls [OF s(2)] s(3) obtain t where "t \<in> set (callers n)" "ID (SNode t) = m" "SEdge t = SEdge s" by auto
  moreover from this s have "e = directed n (- 1) t" by (simp add: directed_def Let_def)
  ultimately show "e \<in> {directed n (- 1) t |t. t \<in> set (callers n) \<and> ID (SNode t) = m}" by blast
next
  fix e assume "e \<in> {directed n (- 1) t |t. t \<in> set (callers n) \<and> ID (SNode t) = m}"
  then obtain t where t: "e = directed n (- 1) t" "t \<in> set (callers n)" "ID (SNode t) = m" by blast
  from caller_calls [OF t(2)] t(3) obtain s where "s \<in> set (callees m)" "ID (SNode s) = n" "SEdge s = SEdge t" by auto
  moreover from this t have "e = directed m 1 s" by (simp add: directed_def Let_def)
  ultimately show "e \<in> {directed m 1 s |s. s \<in> set (callees m) \<and> ID (SNode s) = n}" by blast
qed

definition calls :: "(gostring \<times> gostring) set" where
  "calls = {(m, ID (SNode s)) |m s. s \<in> set (callees m)}"

definition called_by :: "(gostring \<times> gostring) set" where
  "called_by = {(n, ID (SNode t)) |n t. t \<in> set (callers n)}"

lemma called_by_converse: "called_by = calls\<inverse>"
proof -
  have "(n, m) \<in> called_by \<longleftrightarrow> (m, n) \<in> calls" for m n
    using callee_calls caller_calls unfolding called_by_def calls_def by fast
  then show ?thesis by auto
qed

lemma reach_converse: "(n, m) \<in> called_by\<^sup>* \<longleftrightarrow> (m, n) \<in> calls\<^sup>*"
  by (simp add: called_by_converse rtrancl_converse)

end

end
