(* ===== verification/Graph_Source_Facts.thy ===== *)
theory Graph_Source_Facts
  imports Graph_Source
begin

text \<open>
  What the sources of \<open>Graph_Source\<close> promise: a relationship source mirrors its callers, a reference
  draws the edges it reaches, absorbing ends and draws what absorbed nodes lead to, and filling guards
  changes nothing else.
\<close>

subsection \<open>A relationship source mirrors its callers\<close>

definition served :: "('e, graph_source) outcome \<Rightarrow> (graph_source \<Rightarrow> gostring \<Rightarrow> (gostring, step list) outcome)
    \<Rightarrow> gostring \<Rightarrow> step list" where
  "served r list k = (case r of Inl _ \<Rightarrow> [] | Inr src \<Rightarrow> (case list src k of Inl _ \<Rightarrow> [] | Inr ss \<Rightarrow> ss))"

abbreviation rel_callees where
  "rel_callees u label render nodes rels desc \<equiv> served (FromRelationships u label render nodes rels (Some desc)) src_out"

abbreviation rel_callers where
  "rel_callers u label render nodes rels desc \<equiv> served (FromRelationships u label render nodes rels (Some desc)) src_in"

lemma node_at_key:
  "k \<in> IdentityKey u ` set is \<Longrightarrow> \<exists>n. node_at u desc label is k = Some n \<and> ID n = k"
  using node_at_None [of u desc label "is" k] node_at_ID [of u desc label "is" k] by fastforce

lemma served_state:
  fixes rels :: "'g relationship list"
  assumes "\<exists>src. FromRelationships u label render nodes rels (Some desc) = Inr src"
  shows "rel_callees u label render nodes rels desc k =
      (if k \<in> IdentityKey u ` set (mentioned nodes rels)
       then steps_from u (node_at u desc label (mentioned nodes rels)) render (drawn rels) k else [])"
    "rel_callers u label render nodes rels desc k =
      (if k \<in> IdentityKey u ` set (mentioned nodes rels)
       then steps_into u (node_at u desc label (mentioned nodes rels)) render (drawn rels) k else [])"
proof -
  let ?s = "source_state u desc label render (map the nodes) (drawn rels)"
  have "FromRelationships u label render nodes rels (Some desc) =
      Inr \<lparr> describe = rs_describe u ?s, src_out = rs_Out u ?s, src_in = rs_In u ?s \<rparr>"
    using assms unfolding FromRelationships_spec by (auto simp: Let_def split: option.splits)
  then show "rel_callees u label render nodes rels desc k =
      (if k \<in> IdentityKey u ` set (mentioned nodes rels)
       then steps_from u (node_at u desc label (mentioned nodes rels)) render (drawn rels) k else [])"
    "rel_callers u label render nodes rels desc k =
      (if k \<in> IdentityKey u ` set (mentioned nodes rels)
       then steps_into u (node_at u desc label (mentioned nodes rels)) render (drawn rels) k else [])"
    using serve_known [of ?s u desc label "mentioned nodes rels" k]
    by (simp_all add: served_def known_def source_state_def Let_def mentioned_def)
qed

lemma end_mentioned:
  "r \<in> set (drawn rels) \<Longrightarrow> IdentityKey u (the (RelFrom r)) \<in> IdentityKey u ` set (mentioned nodes rels)"
  "r \<in> set (drawn rels) \<Longrightarrow> IdentityKey u (the (RelTo r)) \<in> IdentityKey u ` set (mentioned nodes rels)"
  by (auto simp: mentioned_def ends_def)

lemma served_ok: "s \<in> set (served r list k) \<Longrightarrow> \<exists>src. r = Inr src"
  by (cases r) (simp_all add: served_def)

interpretation rel: mirrored "rel_callees u label render nodes rels desc" "rel_callers u label render nodes rels desc"
  for u label render nodes rels desc
proof unfold_locales
  let ?N = "node_at u desc label (mentioned nodes rels)"
  note key = node_at_key [of _ u "mentioned nodes rels" desc label]
  {
    fix s m assume s: "s \<in> set (rel_callees u label render nodes rels desc m)"
    then have ok: "\<exists>src. FromRelationships u label render nodes rels (Some desc) = Inr src"
      by (rule served_ok)
    from s obtain r where r: "r \<in> set (drawn rels)" "IdentityKey u (the (RelFrom r)) = m"
      "s = \<lparr> SNode = the (?N (IdentityKey u (the (RelTo r)))), SEdge = edge_of render r \<rparr>"
      unfolding served_state [OF ok] by (auto simp: steps_from_def split: if_splits)
    obtain n where n: "?N (IdentityKey u (the (RelTo r))) = Some n" "ID n = IdentityKey u (the (RelTo r))"
      using key [OF end_mentioned(2) [OF r(1)]] by blast
    obtain n' where n': "?N (IdentityKey u (the (RelFrom r))) = Some n'" "ID n' = IdentityKey u (the (RelFrom r))"
      using key [OF end_mentioned(1) [OF r(1)]] by blast
    have "\<lparr> SNode = n', SEdge = edge_of render r \<rparr> \<in> set (rel_callers u label render nodes rels desc (ID (SNode s)))"
      using end_mentioned(2) [OF r(1), of u nodes] r(1) n'(1) r(3) n
      by (simp add: served_state [OF ok] steps_into_def) (intro image_eqI [of _ _ r], simp_all)
    then show "\<exists>t \<in> set (rel_callers u label render nodes rels desc (ID (SNode s))). ID (SNode t) = m \<and> SEdge t = SEdge s"
      using r n' by force
  next
    fix s m assume s: "s \<in> set (rel_callers u label render nodes rels desc m)"
    then have ok: "\<exists>src. FromRelationships u label render nodes rels (Some desc) = Inr src"
      by (rule served_ok)
    from s obtain r where r: "r \<in> set (drawn rels)" "IdentityKey u (the (RelTo r)) = m"
      "s = \<lparr> SNode = the (?N (IdentityKey u (the (RelFrom r)))), SEdge = edge_of render r \<rparr>"
      unfolding served_state [OF ok] by (auto simp: steps_into_def split: if_splits)
    obtain n where n: "?N (IdentityKey u (the (RelTo r))) = Some n" "ID n = IdentityKey u (the (RelTo r))"
      using key [OF end_mentioned(2) [OF r(1)]] by blast
    obtain n' where n': "?N (IdentityKey u (the (RelFrom r))) = Some n'" "ID n' = IdentityKey u (the (RelFrom r))"
      using key [OF end_mentioned(1) [OF r(1)]] by blast
    have "\<lparr> SNode = n, SEdge = edge_of render r \<rparr> \<in> set (rel_callees u label render nodes rels desc (ID (SNode s)))"
      using end_mentioned(1) [OF r(1), of u nodes] r(1,3) n(1) n'
      by (simp add: served_state [OF ok] steps_from_def) (intro image_eqI [of _ _ r], simp_all)
    then show "\<exists>t \<in> set (rel_callees u label render nodes rels desc (ID (SNode s))). ID (SNode t) = m \<and> SEdge t = SEdge s"
      using r n by force
  }
qed

text \<open>C11: in a source made by \<open>FromRelationships\<close>, the edges drawn from a node to another walking callees are the
  edges drawn walking callers, ids included, so a walk both ways draws each once; and a node is reached
  from another by callees exactly when that one is reached from it by callers.\<close>

theorem relationships_mirror:
  "{directed m 1 s |s. s \<in> set (rel_callees u label render nodes rels desc m) \<and> ID (SNode s) = n} =
     {directed n (- 1) t |t. t \<in> set (rel_callers u label render nodes rels desc n) \<and> ID (SNode t) = m} \<and>
   ((n, m) \<in> (mirrored.called_by (rel_callers u label render nodes rels desc))\<^sup>*) =
     ((m, n) \<in> (mirrored.calls (rel_callees u label render nodes rels desc))\<^sup>*)"
  by (intro conjI rel.same_edges rel.reach_converse)

subsection \<open>References\<close>

text \<open>a reference that is not unresolved has an edge to a node exactly when it draws one, and then that is the
  first edge it draws there; both fail alike, and draw exactly for a static reference with one target and for
  a dynamic or ambiguous one.\<close>

theorem EdgeTo_Steps:
  assumes "Status r \<noteq> ResolutionUnresolved"
  shows "EdgeTo r i =
     (case Steps r of
        Inl e \<Rightarrow> Inl e
      | Inr ss \<Rightarrow> Inr (map_option SEdge (find (\<lambda>s. ID (SNode s) = i) ss))) \<and>
   ok (Steps r) =
     (Status r = ResolutionStatic \<and> length (Targets r) = 1 \<or> Status r \<in> {ResolutionDynamic, ResolutionAmbiguous})"
proof -
  have find_map: "find P (map f xs) = map_option f (find (\<lambda>x. P (f x)) xs)"
    for P and f :: "target \<Rightarrow> step" and xs
    by (induction xs) auto
  have "ResolutionStatic \<notin> {ResolutionDynamic, ResolutionAmbiguous, ResolutionUnresolved}"
    by (simp add: resolution_defs)
  with assms show ?thesis
    by (auto simp: EdgeTo_def Steps_def reference_validate_def find_map option.map_comp comp_def split: sum.split)
qed

definition static_reference :: reference where
  "static_reference =
     \<lparr> RefKind = ''call'', RefName = ''f'', RefSites = [], Status = ResolutionStatic,
       Targets = [\<lparr> TNode = no_node\<lparr> ID := ''t'' \<rparr>, TProperties = [] \<rparr>], Candidates = [] \<rparr>"

theorem EdgeTo_Steps_witness: "ok (Steps static_reference) \<and> Status static_reference \<noteq> ResolutionUnresolved"
proof -
  have "Status static_reference \<noteq> ResolutionUnresolved"
    by (simp add: static_reference_def resolution_defs)
  with EdgeTo_Steps [of static_reference "''t''"] show ?thesis by (simp add: static_reference_def)
qed

definition stray_reference :: reference where
  "stray_reference =
     \<lparr> RefKind = ''rule'', RefName = ''R'', RefSites = [], Status = ResolutionUnresolved,
       Targets = [\<lparr> TNode = no_node\<lparr> ID := ''t'' \<rparr>, TProperties = [] \<rparr>], Candidates = [] \<rparr>"

text \<open>\<open>EdgeTo\<close> does not look at the unresolved status: an unresolved reference that carries targets has an edge
  to them, where \<open>Steps\<close> draws only the unresolved leaf.\<close>

theorem EdgeTo_unresolved:
  "(\<exists>e. EdgeTo stray_reference ''t'' = Inr (Some e)) \<and> Status stray_reference = ResolutionUnresolved \<and>
   (\<exists>s. Steps stray_reference = Inr [s] \<and> ID (SNode s) \<noteq> ''t'')"
  by (simp add: stray_reference_def EdgeTo_def Steps_def reference_validate_def resolution_defs reference_targets_def
      unresolved_leaf_def UnresolvedID_def)

subsection \<open>Absorbing\<close>

text \<open>A source all of whose listed nodes are in a finite set: absorbing then ends with fuel for each of them.\<close>

definition lists_within :: "graph_source \<Rightarrow> gostring set \<Rightarrow> bool" where
  "lists_within src U \<longleftrightarrow> (\<forall>i ss s. src_out src i = Inr ss \<longrightarrow> s \<in> set ss \<longrightarrow> ID (SNode s) \<in> U)"

lemma absorb_steps_ends:
  assumes "finite U"
  shows "lists_within src U \<Longrightarrow> distinct expanding \<Longrightarrow> set expanding \<subseteq> insert i0 U \<Longrightarrow> card (insert i0 U) \<le> k + length expanding \<Longrightarrow>
    \<forall>s \<in> set ss. ID (SNode s) \<in> U \<Longrightarrow> absorb_steps src ab k i expanding ss st \<noteq> None"
proof (induction src ab k i expanding ss st rule: absorb_steps.induct)
  case (1 src ab k i expanding out drawn)
  then show ?case by simp
next
  case (2 src ab k i expanding s ss out drawn)
  show ?case
  proof (cases "ab (SNode s)")
    case (Inl e)
    then show ?thesis by simp
  next
    case (Inr pa)
    obtain p absorbed where pa: "pa = (p, absorbed)" by fastforce
    show ?thesis
    proof (cases "absorbed \<and> ID (SNode s) \<notin> set expanding")
      case False
      then show ?thesis using 2 Inr pa by (cases absorbed) auto
    next
      case True
      have sub: "set (expanding @ [ID (SNode s)]) \<subseteq> insert i0 U" "distinct (expanding @ [ID (SNode s)])"
        using 2 True by auto
      then have "length (expanding @ [ID (SNode s)]) \<le> card (insert i0 U)"
        using card_mono [OF _ sub(1)] assms distinct_card [OF sub(2)] by simp
      then obtain k' where k: "k = Suc k'" using 2 by (cases k) auto
      show ?thesis
      proof (cases "src_out src (ID (SNode s))")
        case (Inl e)
        then show ?thesis using Inr pa True k by simp
      next
        case (Inr steps)
        have "\<forall>s \<in> set steps. ID (SNode s) \<in> U" by (rule ballI, rule "2.prems"(1) [unfolded lists_within_def, rule_format, OF Inr])
        then have "absorb_steps src ab k' (ID (SNode s)) (expanding @ [ID (SNode s)]) steps ([], {}) \<noteq> None"
          using 2 \<open>ab (SNode s) = Inr pa\<close> pa True k Inr sub by auto
        then obtain r where r: "absorb_steps src ab k' (ID (SNode s)) (expanding @ [ID (SNode s)]) steps ([], {}) = Some r"
          by blast
        show ?thesis
        proof (cases r)
          case (Inl e)
          then show ?thesis using \<open>ab (SNode s) = Inr pa\<close> pa True k Inr r by simp
        next
          case (Inr inner)
          then show ?thesis using \<open>ab (SNode s) = Inr pa\<close> pa True k Inr r \<open>src_out src (ID (SNode s)) = Inr steps\<close> 2 sub
            by auto
        qed
      qed
    qed
  qed
qed

text \<open>listing the callees of a node ends, with an outcome, when the source lists nodes of a finite set only:
  the chain of nodes being expanded never repeats one, so fuel for each node of the set is enough.\<close>

theorem absorb_Out_ends:
  assumes "finite U" "lists_within src U" "card (insert i U) \<le> Suc k"
  shows "absorb_Out src ab k i \<noteq> None"
proof (cases "src_out src i")
  case (Inr ss)
  have "\<forall>s \<in> set ss. ID (SNode s) \<in> U"
    by (rule ballI, rule assms(2) [unfolded lists_within_def, rule_format, OF Inr])
  with absorb_steps_ends [OF assms(1,2), of "[i]" i k ss ab i "([], {})"] assms(3) Inr show ?thesis
    by (simp add: absorb_Out_def absorb_out_def)
qed (simp add: absorb_Out_def absorb_out_def)

text \<open>A source of two nodes where the absorbed one lists itself: its callees end in an error.\<close>

definition looping_source :: graph_source where
  "looping_source =
     \<lparr> describe = (\<lambda>i. Inr (no_node\<lparr> ID := i \<rparr>)),
       src_out = (\<lambda>_. Inr [\<lparr> SNode = no_node\<lparr> ID := ''b'' \<rparr>, SEdge = no_edge \<rparr>]), src_in = (\<lambda>_. Inr []) \<rparr>"

theorem absorb_Out_ends_witness:
  "lists_within looping_source {''b''} \<and> card (insert ''a'' {''b''}) \<le> Suc 1 \<and>
   absorb_Out looping_source (\<lambda>n. Inr (''a'', ID n = ''b'')) 1 ''a'' \<noteq> None"
proof -
  have w: "lists_within looping_source {''b''}" by (auto simp: lists_within_def looping_source_def)
  have "card (insert ''a'' {''b''}) \<le> Suc 1" by simp
  with w absorb_Out_ends [OF _ w, of "''a''" 1] show ?thesis by simp
qed

text \<open>What absorbing draws: a step leads to what it lists, or through an absorbed node to what that lists.\<close>

inductive leads :: "graph_source \<Rightarrow> absorber \<Rightarrow> gostring \<Rightarrow> step \<Rightarrow> bool" for src ab where
  drawn_itself: "src_out src i = Inr ss \<Longrightarrow> s \<in> set ss \<Longrightarrow> ab (SNode s) = Inr (p, False) \<Longrightarrow> leads src ab i s"
| drawn_through: "src_out src i = Inr ss \<Longrightarrow> s \<in> set ss \<Longrightarrow> ab (SNode s) = Inr (p, True) \<Longrightarrow>
    leads src ab (ID (SNode s)) t \<Longrightarrow> leads src ab i t"

inductive_cases leadsE: "leads src ab i t"

definition listed :: "graph_source \<Rightarrow> absorber \<Rightarrow> step list \<Rightarrow> step \<Rightarrow> bool" where
  "listed src ab ss t \<longleftrightarrow>
     (\<exists>s \<in> set ss. \<exists>p. ab (SNode s) = Inr (p, False) \<and> t = s \<or>
        ab (SNode s) = Inr (p, True) \<and> leads src ab (ID (SNode s)) t)"

lemma leads_listed: 
  assumes "src_out src i = Inr ss"
  shows "leads src ab i t \<longleftrightarrow> listed src ab ss t"
proof
  assume "leads src ab i t"
  then show "listed src ab ss t"
  proof cases
    case (drawn_itself ss' p)
    then show ?thesis using assms unfolding listed_def by (intro bexI [of _ t] exI [of _ p]) auto
  next
    case (drawn_through ss' s p)
    then show ?thesis using assms unfolding listed_def by (intro bexI [of _ s] exI [of _ p]) auto
  qed
qed (use assms in \<open>auto simp: listed_def intro: leads.intros\<close>)

lemma listed_Nil [simp]: "\<not> listed src ab [] t"
  by (simp add: listed_def)

lemma listed_Cons:
  "ab (SNode s) = Inr (p, absorbed) \<Longrightarrow>
     listed src ab (s # ss) t \<longleftrightarrow> (if absorbed then leads src ab (ID (SNode s)) t else t = s) \<or> listed src ab ss t"
  by (auto simp: listed_def)

definition part_of :: "step \<Rightarrow> step \<Rightarrow> bool" where
  "part_of s t \<longleftrightarrow> s = t\<lparr> SEdge := (SEdge t)\<lparr> Sites := Sites (SEdge s) \<rparr> \<rparr> \<and>
     set (Sites (SEdge s)) \<subseteq> set (Sites (SEdge t))"

lemma part_of_refl [simp]: "part_of s s" by (simp add: part_of_def)

lemma part_of_trans: "part_of s t \<Longrightarrow> part_of t v \<Longrightarrow> part_of s v"
  unfolding part_of_def by (cases "SEdge v", cases "SEdge s", cases "SEdge t", cases v, cases s, cases t) auto

lemma part_of_node: "part_of s t \<Longrightarrow> SNode s = SNode t"
  unfolding part_of_def by (cases s, cases t) auto

definition draws :: "step list \<Rightarrow> drawn_site set" where
  "draws out = {drawnSite s x |s x. s \<in> set out \<and> x \<in> set (Sites (SEdge s))}"

definition shown :: "step list \<Rightarrow> step \<Rightarrow> bool" where
  "shown out t \<longleftrightarrow>
     (if Sites (SEdge t) = [] then t \<in> set out else drawnSite t ` set (Sites (SEdge t)) \<subseteq> draws out)"

lemma draws_eq: "draws out = (\<Union>s \<in> set out. drawnSite s ` set (Sites (SEdge s)))"
  by (auto simp: draws_def)

lemma draws_mono: "set out \<subseteq> set out' \<Longrightarrow> draws out \<subseteq> draws out'"
  by (auto simp: draws_def)

lemma shown_mono: "shown out t \<Longrightarrow> set out \<subseteq> set out' \<Longrightarrow> shown out' t"
  unfolding shown_def using draws_mono [of out out'] by (auto split: if_splits)

lemma shown_self: "t \<in> set out \<Longrightarrow> shown out t"
  by (auto simp: shown_def draws_def)

lemma shown_through:
  assumes "shown inner t" "\<forall>s \<in> set inner. shown out s"
  shows "shown out t"
proof -
  have "draws inner \<subseteq> draws out"
    using assms(2) by (fastforce simp: draws_def shown_def split: if_splits)
  then show ?thesis using assms by (auto simp: shown_def split: if_splits)
qed

lemma undrawn_spec:
  "undrawn s xs met = (kept, met') \<Longrightarrow>
     set kept \<subseteq> set xs \<and> met' = met \<union> drawnSite s ` set xs \<and> drawnSite s ` set xs \<subseteq> met \<union> drawnSite s ` set kept"
proof (induction s xs met arbitrary: kept met' rule: undrawn.induct)
  case (2 s x xs met)
  show ?case
  proof (cases "drawnSite s x \<in> met")
    case True
    with 2 have "undrawn s xs met = (kept, met')" by simp
    from "2.IH"(1) [OF True this] True show ?thesis by auto
  next
    case False
    then obtain ks where "undrawn s xs (insert (drawnSite s x) met) = (ks, met')" "kept = x # ks"
      using 2(3) by (auto split: prod.splits)
    with "2.IH"(2) [OF False this(1)] show ?thesis by auto
  qed
qed simp

lemma withoutDrawnSites_spec:
  assumes "withoutDrawnSites s met = (kept, met')" "met \<subseteq> draws out"
  shows "(case kept of None \<Rightarrow> shown out s \<and> met' \<subseteq> draws out
     | Some t \<Rightarrow> part_of t s \<and> shown (out @ [t]) s \<and> met' \<subseteq> draws (out @ [t]))"
proof (cases "Sites (SEdge s) = []")
  case True
  moreover have "draws out \<subseteq> draws (out @ [s])" by (rule draws_mono) auto
  ultimately show ?thesis using assms by (auto simp: withoutDrawnSites_def shown_def)
next
  case False
  obtain ks d where u: "undrawn s (Sites (SEdge s)) met = (ks, d)" by fastforce
  have d: "d = met \<union> drawnSite s ` set (Sites (SEdge s))" and ks: "set ks \<subseteq> set (Sites (SEdge s))"
    "drawnSite s ` set (Sites (SEdge s)) \<subseteq> met \<union> drawnSite s ` set ks"
    using undrawn_spec [OF u] by simp_all
  let ?t = "s\<lparr> SEdge := (SEdge s)\<lparr> Sites := ks \<rparr> \<rparr>"
  have "drawnSite ?t = drawnSite s" by (auto simp: drawnSite_def fun_eq_iff)
  then have "draws (out @ [?t]) = draws out \<union> drawnSite s ` set ks" by (auto simp: draws_eq)
  then have e: "draws (out @ [?t]) = draws out \<union> drawnSite s ` set ks" .
  have sub: "drawnSite s ` set (Sites (SEdge s)) \<subseteq> draws (out @ [?t])" "d \<subseteq> draws (out @ [?t])"
    using ks(2) assms(2) unfolding d e by blast+
  show ?thesis
  proof (cases "ks = []")
    case True
    then show ?thesis using assms False u sub e by (simp add: withoutDrawnSites_def shown_def)
  next
    case False
    then have "kept = Some ?t" "met' = d"
      using assms \<open>Sites (SEdge s) \<noteq> []\<close> u by (simp_all add: withoutDrawnSites_def)
    then show ?thesis using \<open>Sites (SEdge s) \<noteq> []\<close> sub ks(1) by (simp add: shown_def part_of_def)
  qed
qed

lemma take_inner_spec:
  "take_inner inner (out, met) = (out', met') \<Longrightarrow> met \<subseteq> draws out \<Longrightarrow>
     met' \<subseteq> draws out' \<and> set out \<subseteq> set out' \<and> (\<forall>s \<in> set inner. shown out' s) \<and>
     (\<forall>s \<in> set out'. s \<in> set out \<or> (\<exists>t \<in> set inner. part_of s t))"
proof (induction inner arbitrary: out met)
  case (Cons s inner)
  obtain kept d where w: "withoutDrawnSites s met = (kept, d)" by fastforce
  note spec = withoutDrawnSites_spec [OF w Cons.prems(2)]
  show ?case
  proof (cases kept)
    case None
    with Cons.IH [of out d] Cons.prems w spec show ?thesis by (auto intro: shown_mono)
  next
    case (Some t)
    with Cons.IH [of "out @ [t]" d] Cons.prems w spec show ?thesis
      using shown_mono [of "out @ [t]" s out'] by auto
  qed
qed simp

lemma absorb_steps_spec:
  "absorb_steps src ab k i expanding ss st = Some (Inr res) \<Longrightarrow> snd st \<subseteq> draws (fst st) \<Longrightarrow>
     set (fst st) \<subseteq> set res \<and> (\<forall>t. listed src ab ss t \<longrightarrow> shown res t) \<and>
     (\<forall>s \<in> set res. s \<in> set (fst st) \<or> (\<exists>t. listed src ab ss t \<and> part_of s t))"
proof (induction src ab k i expanding ss st arbitrary: res rule: absorb_steps.induct)
  case (1 src ab k i expanding out met)
  then show ?case by simp
next
  case (2 src ab k i expanding s ss out met)
  then obtain p absorbed where ab: "ab (SNode s) = Inr (p, absorbed)" by (cases "ab (SNode s)") auto
  note listed = listed_Cons [where ab = ab, OF ab]
  show ?case
  proof (cases absorbed)
    case False
    have "draws out \<subseteq> draws (out @ [s])" by (rule draws_mono) auto
    then have "set (out @ [s]) \<subseteq> set res \<and> (\<forall>t. listed src ab ss t \<longrightarrow> shown res t) \<and>
        (\<forall>v \<in> set res. v \<in> set (out @ [s]) \<or> (\<exists>t. listed src ab ss t \<and> part_of v t))"
      using 2 ab False by simp
    then show ?thesis using False listed shown_self [of s res] by simp (blast intro: part_of_refl)
  next
    case True
    with 2 ab have fresh: "ID (SNode s) \<notin> set expanding" by (auto split: if_splits)
    then obtain k' steps inner where k: "k = Suc k'" and so: "src_out src (ID (SNode s)) = Inr steps"
      and inner: "absorb_steps src ab k' (ID (SNode s)) (expanding @ [ID (SNode s)]) steps ([], {}) = Some (Inr inner)"
      using "2.prems"(1) ab True by (auto split: nat.splits option.splits sum.splits)
    obtain out' met' where ti: "take_inner inner (out, met) = (out', met')" by fastforce
    have one: "(\<forall>t. leads src ab (ID (SNode s)) t \<longrightarrow> shown inner t) \<and>
        (\<forall>v \<in> set inner. \<exists>t. leads src ab (ID (SNode s)) t \<and> part_of v t)"
      using "2.IH"(2) [OF ab refl _ fresh k so inner] True by (simp add: leads_listed [OF so])
    have two: "met' \<subseteq> draws out' \<and> set out \<subseteq> set out' \<and> (\<forall>v \<in> set inner. shown out' v) \<and>
        (\<forall>v \<in> set out'. v \<in> set out \<or> (\<exists>t \<in> set inner. part_of v t))"
      using take_inner_spec [OF ti] "2.prems"(2) by simp
    have run: "absorb_steps src ab k i expanding ss (take_inner inner (out, met)) = Some (Inr res)"
      using "2.prems"(1) ab True fresh k so inner by simp
    have three: "set out' \<subseteq> set res \<and> (\<forall>t. listed src ab ss t \<longrightarrow> shown res t) \<and>
        (\<forall>v \<in> set res. v \<in> set out' \<or> (\<exists>t. listed src ab ss t \<and> part_of v t))"
      using "2.IH"(3) [OF ab refl _ fresh k _ refl run] True so inner ti two by simp
    have "shown res t" if "leads src ab (ID (SNode s)) t" for t
      using one two three that shown_through [of inner t out'] shown_mono [of out' t res] by simp
    moreover have "\<exists>t. (leads src ab (ID (SNode s)) t \<or> listed src ab ss t) \<and> part_of v t"
      if "v \<in> set res" "v \<notin> set out" for v
      using one two three that by (meson part_of_trans)
    ultimately show ?thesis using two three listed True by simp blast
  qed
qed



subsection \<open>Guards\<close>

definition site_filled :: "site \<Rightarrow> site \<Rightarrow> bool" where
  "site_filled x y \<longleftrightarrow> y = x\<lparr> Guards := Guards y \<rparr> \<and> (SPath x = [] \<or> SLine x = 0 \<longrightarrow> y = x)"

definition edge_filled :: "edge \<Rightarrow> edge \<Rightarrow> bool" where
  "edge_filled e f \<longleftrightarrow> f = e\<lparr> Sites := Sites f \<rparr> \<and> list_all2 site_filled (Sites e) (Sites f)"

text \<open>Paths listed once each after the ones listed before, all of them met.\<close>

definition grown_by :: "gostring list \<Rightarrow> gostring set \<Rightarrow> gostring list \<Rightarrow> bool" where
  "grown_by old met new \<longleftrightarrow> (\<exists>more. new = old @ more \<and> distinct more \<and> set more \<subseteq> met - set old)"

lemma grown_by_refl [simp]: "grown_by old met old"
  by (simp add: grown_by_def)

lemma grown_by_trans:
  assumes "grown_by old met mid" "grown_by mid met' new"
  shows "grown_by old (met \<union> met') new"
proof -
  from assms obtain a b where "mid = old @ a" "distinct a" "set a \<subseteq> met - set old"
    "new = mid @ b" "distinct b" "set b \<subseteq> met' - set mid"
    unfolding grown_by_def by blast
  then show ?thesis unfolding grown_by_def by (intro exI [of _ "a @ b"]) auto
qed

lemma fill_sites_spec:
  "fill_sites guards e before xs old = Inr (ys, new) \<Longrightarrow>
     (\<exists>zs. ys = before @ zs \<and> list_all2 site_filled xs zs) \<and> grown_by old (SPath ` set xs) new"
proof (induction guards e before xs old arbitrary: ys new rule: fill_sites.induct)
  case (2 guards e before x xs old)
  have step: "(\<exists>zs. ys = before @ zs \<and> list_all2 site_filled (x # xs) zs) \<and> grown_by old (SPath ` set (x # xs)) new"
    if "site_filled x x'" "fill_sites guards e (before @ [x']) xs mid = Inr (ys, new)" "grown_by old {SPath x} mid"
      "(\<exists>zs. ys = (before @ [x']) @ zs \<and> list_all2 site_filled xs zs) \<and> grown_by mid (SPath ` set xs) new"
    for x' mid
    using that grown_by_trans [OF that(3), of "SPath ` set xs" new] by auto
  have self: "site_filled x x" by (simp add: site_filled_def)
  show ?case
  proof (cases "SPath x = [] \<or> SLine x = 0")
    case True
    with 2 step [OF self] show ?thesis by simp
  next
    case False
    show ?thesis
    proof (cases "guards (e\<lparr> Sites := before @ x # xs \<rparr>) x")
      case UnreadableGuards
      have "grown_by old {SPath x} (if SPath x \<in> set old then old else old @ [SPath x])"
        by (auto simp: grown_by_def)
      with False UnreadableGuards 2 step [OF self] show ?thesis by simp
    next
      case (GuardsFailed err)
      with False 2 show ?thesis by simp
    next
      case (GuardsRead gs)
      have "site_filled x (x\<lparr> Guards := gs \<rparr>)" using False by (simp add: site_filled_def)
      from False GuardsRead 2 step [OF this] show ?thesis by simp
    qed
  qed
qed simp

lemma fill_edges_spec:
  "fill_edges guards es old = Inr (fs, new) \<Longrightarrow>
     list_all2 edge_filled es fs \<and> grown_by old (SPath ` (\<Union>e \<in> set es. set (Sites e))) new"
proof (induction guards es old arbitrary: fs new rule: fill_edges.induct)
  case (2 guards e es old)
  from "2.prems" obtain xs mid gs where one: "fill_sites guards e [] (Sites e) old = Inr (xs, mid)"
    and two: "fill_edges guards es mid = Inr (gs, new)" and fs: "fs = e\<lparr> Sites := xs \<rparr> # gs"
    by (auto simp: outcome_simps)
  from fill_sites_spec [OF one] "2.IH" [OF one refl two] grown_by_trans
  show ?case by (fastforce simp: fs edge_filled_def image_Un)
qed simp

text \<open>filling guards changes the guards of the sites that name a path and a line, and lists each unreadable
  path once after those listed before; nodes, edges, the other fields of a site and what else was omitted
  stay.\<close>

theorem FillGuards_frame:
  assumes "FillGuards g guards = Inr g'"
  shows "g' = g\<lparr> Edges := Edges g', Omitted := (Omitted g)\<lparr> UnreadableSource := UnreadableSource (Omitted g') \<rparr> \<rparr> \<and>
    list_all2 edge_filled (Edges g) (Edges g') \<and>
    grown_by (UnreadableSource (Omitted g)) (SPath ` (\<Union>e \<in> set (Edges g). set (Sites e))) (UnreadableSource (Omitted g'))"
  using assms fill_edges_spec [of guards "Edges g"]
  by (auto simp: FillGuards_def simp: outcome_simps)

definition guarded_graph :: graph where
  "guarded_graph =
     \<lparr> Roots = [], Nodes = [], Edges = [no_edge\<lparr> Sites := [no_site\<lparr> SPath := ''a.go'', SLine := 3 \<rparr>] \<rparr>],
       Groups = [], Omitted = \<lparr> NodeLimit = False, BeyondDepth = 0, OUnresolved = 0, UnreadableSource = [], Excluded = [] \<rparr> \<rparr>"

theorem FillGuards_frame_witness:
  "\<exists>g'. FillGuards guarded_graph (\<lambda>_ _. UnreadableGuards) = Inr g' \<and> UnreadableSource (Omitted g') = [''a.go''] \<and>
     list_all2 edge_filled (Edges guarded_graph) (Edges g')"
proof -
  have run: "FillGuards guarded_graph (\<lambda>_ _. UnreadableGuards) =
      Inr (guarded_graph\<lparr> Omitted := (Omitted guarded_graph)\<lparr> UnreadableSource := [''a.go''] \<rparr> \<rparr>)"
    by (simp add: FillGuards_def guarded_graph_def no_edge_def no_site_def)
  from FillGuards_frame [OF this] run show ?thesis by (auto simp: guarded_graph_def)
qed

end
