(* ===== verification/Graph_Fold.thy ===== *)
theory Graph_Fold
  imports Graph_Source_Facts "HOL-Library.Multiset"
begin

text \<open>
  Folding the members a body touches into their owners (\<open>graph/fold.go\<close>): columns into their table,
  fields into their entity; and the parameters a stored graph is keyed by (\<open>graph/cache.go\<close>). Where a
  member belongs and what its owner is drawn as are arguments, as in the code.
\<close>

record member =
  Owner :: gostring
  MName :: gostring
  MProperty :: gostring
  Covers :: bool

definition no_member :: member where
  "no_member = \<lparr> Owner = [], MName = [], MProperty = [], Covers = False \<rparr>"

record folding =
  MemberOf :: "node \<Rightarrow> member option"
  OwnerNode :: "gostring \<Rightarrow> node"
  Fold :: bool

record folded_out =
  FStep :: step
  FFrom :: "nat list"

definition same_site :: "site \<Rightarrow> site \<Rightarrow> bool" where
  "same_site s t \<longleftrightarrow>
     SPath s = SPath t \<and> SLine s = SLine t \<and> SColumn s = SColumn t \<and> SText s = SText t \<and> Guards s = Guards t"

type_synonym covered_site = "gostring \<times> relationship_type \<times> int"

definition coveredSites :: "unicode_tables \<Rightarrow> step list \<Rightarrow> (node \<Rightarrow> member option) \<Rightarrow> covered_site set" where
  "coveredSites u ss memberOf =
     set (concat (map (\<lambda>s. case memberOf (SNode s) of
         None \<Rightarrow> []
       | Some m \<Rightarrow>
           (if Covers m then map (\<lambda>x. (to_lower u (Owner m), EType (SEdge s), SLine x)) (Sites (SEdge s)) else [])) ss))"

definition uncoveredSites :: "unicode_tables \<Rightarrow> step \<Rightarrow> covered_site set \<Rightarrow> site list \<times> bool" where
  "uncoveredSites u s covered =
     (if covered = {} then (Sites (SEdge s), True)
      else
        let sites = filter (\<lambda>x. (to_lower u (ID (SNode s)), EType (SEdge s), SLine x) \<notin> covered) (Sites (SEdge s))
        in (sites, sites \<noteq> [] \<or> Sites (SEdge s) = []))"

definition Surviving :: "unicode_tables \<Rightarrow> step list \<Rightarrow> (node \<Rightarrow> member option) \<Rightarrow> nat list" where
  "Surviving u ss memberOf =
     (let covered = coveredSites u ss memberOf in
      map fst (filter (\<lambda>(i, s). snd (uncoveredSites u s covered)) (enumerate 0 ss)))"

record folded_step =
  HStep :: step
  HFrom :: "nat list"
  HKinds :: "gostring list"
  HMembers :: "gostring list"
  HProperty :: gostring

type_synonym folded_steps = "(gostring \<times> folded_step) list"

datatype fold_error = TwoMemberLists gostring gostring gostring

text \<open>\<open>strings.SplitSeq\<close> at a separator of any length.\<close>

function split_seq :: "gostring \<Rightarrow> gostring \<Rightarrow> gostring \<Rightarrow> gostring list" where
  "split_seq sep cur [] = [cur]"
| "split_seq sep cur (c # s) =
     (if sep \<noteq> [] \<and> has_prefix (c # s) sep then cur # split_seq sep [] (drop (length sep) (c # s))
      else split_seq sep (cur @ [c]) s)"
  by pat_completeness auto
termination
  by (relation "measure (\<lambda>(sep, cur, s). length s)") auto

definition add_new :: "('a \<Rightarrow> 'a \<Rightarrow> bool) \<Rightarrow> 'a \<Rightarrow> 'a list \<Rightarrow> 'a list" where
  "add_new eq x xs = (if \<exists>y \<in> set xs. eq y x then xs else xs @ [x])"

definition fold_key :: "node \<Rightarrow> edge \<Rightarrow> gostring" where
  "fold_key n e = ID n @ ''|'' @ EType e"

definition new_folded :: "node \<Rightarrow> edge \<Rightarrow> folded_step" where
  "new_folded n e =
     \<lparr> HStep = \<lparr> SNode = n, SEdge = no_edge\<lparr> EType := EType e \<rparr> \<rparr>, HFrom = [], HKinds = [], HMembers = [],
       HProperty = [] \<rparr>"

definition hold_edge :: "nat \<Rightarrow> edge \<Rightarrow> folded_step \<Rightarrow> folded_step" where
  "hold_edge i e h =
     (let edge = SEdge (HStep h) in
      h\<lparr> HFrom := HFrom h @ [i],
         HStep := (HStep h)\<lparr> SEdge := edge\<lparr>
           Sites := fold (add_new same_site) (Sites e) (Sites edge),
           EProperties := (if EProperties edge = [] then EProperties e else EProperties edge) \<rparr> \<rparr>,
         HKinds := fold (add_new (=)) (filter (\<lambda>k. k \<noteq> []) (split_seq '', '' [] (EKind e))) (HKinds h) \<rparr>)"

definition hold_member :: "node \<Rightarrow> member \<Rightarrow> folded_step \<Rightarrow> (fold_error, folded_step) outcome" where
  "hold_member n m h =
     (if MName m = [] then Inr h
      else if HProperty h \<noteq> [] \<and> HProperty h \<noteq> MProperty m
      then Inl (TwoMemberLists (ID n) (HProperty h) (MProperty m))
      else Inr (h\<lparr> HProperty := MProperty m, HMembers := add_new (=) (MName m) (HMembers h) \<rparr>))"

definition fold_add :: "nat \<Rightarrow> node \<Rightarrow> edge \<Rightarrow> member \<Rightarrow> folded_steps \<Rightarrow> (fold_error, folded_steps) outcome" where
  "fold_add i n e m f =
     (let key = fold_key n e;
          h = (case map_of f key of None \<Rightarrow> new_folded n e | Some h \<Rightarrow> h) in
      and_then (hold_member n m (hold_edge i e h)) (\<lambda>h. Inr (AList.update key h f)))"

text \<open>Members are listed by their lower case, then as they are.\<close>

definition member_order :: "unicode_tables \<Rightarrow> gostring \<Rightarrow> gostring \<times> gostring" where
  "member_order u m = (to_lower u m, m)"

definition finish_folded :: "unicode_tables \<Rightarrow> folded_step \<Rightarrow> folded_out" where
  "finish_folded u h =
     (let s = HStep h;
          e = (SEdge s)\<lparr> EKind := join_with '', '' (sort (HKinds h)), Sites := sort_sites (Sites (SEdge s)) \<rparr>;
          e = (if HMembers h = [] then e
               else e\<lparr> EProperties := AList.update (HProperty h)
                        (join_with '', '' (sort_key (member_order u) (HMembers h))) (EProperties e) \<rparr>)
      in \<lparr> FStep = s\<lparr> SEdge := e \<rparr>, FFrom = HFrom h \<rparr>)"

text \<open>One step as it is folded: left out, or drawn as a node with the member it lists.\<close>

definition fold_step :: "unicode_tables \<Rightarrow> folding \<Rightarrow> covered_site set \<Rightarrow> step \<Rightarrow> (node \<times> edge \<times> member) option" where
  "fold_step u fo covered s =
     (if Fold fo then
        (case MemberOf fo (SNode s) of
           None \<Rightarrow> Some (SNode s, SEdge s, no_member)
         | Some m \<Rightarrow> Some (OwnerNode fo (Owner m), SEdge s, m))
      else
        case uncoveredSites u s covered of (sites, left) \<Rightarrow>
          if left then Some (SNode s, (SEdge s)\<lparr> Sites := sites \<rparr>, no_member) else None)"

fun fold_loop :: "unicode_tables \<Rightarrow> folding \<Rightarrow> covered_site set \<Rightarrow> nat \<Rightarrow> step list \<Rightarrow> folded_steps
    \<Rightarrow> (fold_error, folded_steps) outcome" where
  "fold_loop u fo covered i [] f = Inr f"
| "fold_loop u fo covered i (s # ss) f =
     (case fold_step u fo covered s of
        None \<Rightarrow> fold_loop u fo covered (Suc i) ss f
      | Some (n, e, m) \<Rightarrow> and_then (fold_add i n e m f) (\<lambda>f. fold_loop u fo covered (Suc i) ss f))"

definition FoldMembers :: "unicode_tables \<Rightarrow> step list \<Rightarrow> folding \<Rightarrow> (fold_error, folded_out list) outcome" where
  "FoldMembers u ss fo =
     (let covered = (if Fold fo then {} else coveredSites u ss (MemberOf fo)) in
      and_then (fold_loop u fo covered 0 ss []) (\<lambda>f. Inr (map (finish_folded u \<circ> snd) f)))"

subsection \<open>Parameters of a stored graph\<close>

definition lowerSorted :: "unicode_tables \<Rightarrow> gostring list \<Rightarrow> gostring list" where
  "lowerSorted u values = sort (map (to_lower u) values)"

record params =
  PCodec :: gostring
  PRoots :: "gostring list"
  PDirection :: gostring
  PDepth :: int
  PLimit :: int
  ExcludeKinds :: "gostring list"
  ExcludeGroups :: "gostring list"
  PAccess :: "relationship_type list"
  PColumns :: bool
  PGuards :: bool
  Inputs :: "gostring \<rightharpoonup> gostring"

text \<open>What \<open>Params.Encode\<close> marshals; the JSON encoder is an argument.\<close>

definition canonical_params :: "unicode_tables \<Rightarrow> params \<Rightarrow> params" where
  "canonical_params u p =
     p\<lparr> ExcludeKinds := lowerSorted u (ExcludeKinds p), ExcludeGroups := lowerSorted u (ExcludeGroups p) \<rparr>"

definition Encode :: "unicode_tables \<Rightarrow> (params \<Rightarrow> 'b) \<Rightarrow> params \<Rightarrow> 'b" where
  "Encode u marshal p = marshal (canonical_params u p)"

subsection \<open>What folding draws\<close>

type_synonym fold_item = "nat \<times> node \<times> edge \<times> member"

definition item_key :: "fold_item \<Rightarrow> gostring" where
  "item_key x = (case x of (i, n, e, m) \<Rightarrow> fold_key n e)"

definition item_sites :: "fold_item \<Rightarrow> site list" where
  "item_sites x = (case x of (i, n, e, m) \<Rightarrow> Sites e)"

definition item_member :: "fold_item \<Rightarrow> member" where
  "item_member x = (case x of (i, n, e, m) \<Rightarrow> m)"

definition fold_items :: "unicode_tables \<Rightarrow> folding \<Rightarrow> covered_site set \<Rightarrow> nat \<Rightarrow> step list \<Rightarrow> fold_item list" where
  "fold_items u fo covered i ss =
     concat (map (\<lambda>(j, s). case fold_step u fo covered s of None \<Rightarrow> [] | Some (n, e, m) \<Rightarrow> [(j, n, e, m)]) (enumerate i ss))"

text \<open>The sites held are those of the steps, each once.\<close>

definition sites_once :: "site list \<Rightarrow> site list \<Rightarrow> bool" where
  "sites_once xs ys \<longleftrightarrow> set ys \<subseteq> set xs \<and> (\<forall>x \<in> set xs. \<exists>y \<in> set ys. same_site y x) \<and>
     distinct ys \<and> (\<forall>x \<in> set ys. \<forall>y \<in> set ys. same_site x y \<longrightarrow> x = y)"

lemma same_site_refl [simp]: "same_site x x"
  by (simp add: same_site_def)

lemma same_site_sym: "same_site x y \<Longrightarrow> same_site y x"
  by (simp add: same_site_def)

lemma same_site_trans: "same_site x y \<Longrightarrow> same_site y z \<Longrightarrow> same_site x z"
  by (simp add: same_site_def)

lemma sites_once_add: "sites_once xs ys \<Longrightarrow> sites_once (xs @ [x]) (add_new same_site x ys)"
  unfolding sites_once_def add_new_def using same_site_sym by auto

lemma sites_once_fold: "sites_once xs ys \<Longrightarrow> sites_once (xs @ zs) (fold (add_new same_site) zs ys)"
proof (induction zs arbitrary: xs ys)
  case (Cons z zs)
  from Cons.IH [OF sites_once_add [OF Cons.prems, of z]] show ?case by simp
qed simp

definition held_own :: "fold_item list \<Rightarrow> gostring \<Rightarrow> folded_step \<Rightarrow> bool" where
  "held_own own k h \<longleftrightarrow>
     HFrom h = map fst own \<and> fold_key (SNode (HStep h)) (SEdge (HStep h)) = k \<and>
     sites_once (concat (map item_sites own)) (Sites (SEdge (HStep h))) \<and>
     set (HMembers h) = {MName (item_member x) |x. x \<in> set own \<and> MName (item_member x) \<noteq> []} \<and>
     distinct (HMembers h) \<and>
     (\<forall>x \<in> set own. MName (item_member x) \<noteq> [] \<longrightarrow> MProperty (item_member x) \<in> {[], HProperty h}) \<and>
     (HProperty h \<noteq> [] \<longrightarrow> (\<exists>x \<in> set own. MName (item_member x) \<noteq> [] \<and> MProperty (item_member x) = HProperty h))"

definition of_key :: "gostring \<Rightarrow> fold_item list \<Rightarrow> fold_item list" where
  "of_key k items = filter (\<lambda>x. item_key x = k) items"

definition held :: "fold_item list \<Rightarrow> folded_steps \<Rightarrow> bool" where
  "held items f \<longleftrightarrow> distinct (map fst f) \<and> fst ` set f = item_key ` set items \<and>
     (\<forall>(k, h) \<in> set f. held_own (of_key k items) k h)"

fun add_items :: "fold_item list \<Rightarrow> folded_steps \<Rightarrow> (fold_error, folded_steps) outcome" where
  "add_items [] f = Inr f"
| "add_items ((i, n, e, m) # xs) f = and_then (fold_add i n e m f) (add_items xs)"

lemma fold_loop_items: "fold_loop u fo covered i ss f = add_items (fold_items u fo covered i ss) f"
  by (induction ss arbitrary: i f) (auto simp: fold_items_def split: option.split intro!: and_then_cong)

lemma held_own_new: "held_own [] (fold_key n e) (new_folded n e)"
  by (simp add: held_own_def new_folded_def fold_key_def sites_once_def no_edge_def)

lemma held_own_edge:
  assumes "held_own own k h" "hold_member n m (hold_edge i e h) = Inr h'"
  shows "held_own (own @ [(i, n, e, m)]) k h'"
proof -
  let ?g = "hold_edge i e h"
  have g: "HFrom ?g = HFrom h @ [i]" "SNode (HStep ?g) = SNode (HStep h)" "EType (SEdge (HStep ?g)) = EType (SEdge (HStep h))"
    "Sites (SEdge (HStep ?g)) = fold (add_new same_site) (Sites e) (Sites (SEdge (HStep h)))"
    "HMembers ?g = HMembers h" "HProperty ?g = HProperty h"
    by (simp_all add: hold_edge_def Let_def)
  have h': "HFrom h' = HFrom ?g" "HStep h' = HStep ?g"
    "HMembers h' = (if MName m = [] then HMembers h else add_new (=) (MName m) (HMembers h))"
    "HProperty h' = (if MName m = [] then HProperty h else MProperty m)"
    "MName m \<noteq> [] \<Longrightarrow> HProperty h \<in> {[], MProperty m}"
    using assms(2) by (auto simp: hold_member_def g split: if_splits)
  have k: "fold_key (SNode (HStep h')) (SEdge (HStep h')) = k"
    using assms(1) by (simp add: held_own_def h' g fold_key_def)
  have sites: "sites_once (concat (map item_sites (own @ [(i, n, e, m)]))) (Sites (SEdge (HStep h')))"
    using sites_once_fold [of "concat (map item_sites own)" _ "Sites e"] assms(1)
    by (simp add: held_own_def h' g item_sites_def)
  show ?thesis using assms(1) k sites h'(5)
    by (auto simp: held_own_def h' g item_member_def add_new_def split: if_splits)
qed

lemma of_key_snoc: "of_key k (items @ [x]) = (if item_key x = k then of_key k items @ [x] else of_key k items)"
  by (simp add: of_key_def)

lemma held_add:
  assumes "held items f" "fold_add i n e m f = Inr f'"
  shows "held (items @ [(i, n, e, m)]) f'"
proof -
  let ?k = "fold_key n e" and ?x = "(i, n, e, m)"
  let ?h = "case map_of f ?k of None \<Rightarrow> new_folded n e | Some h \<Rightarrow> h"
  have k: "item_key ?x = ?k" by (simp add: item_key_def)
  from assms(2) obtain h where h: "hold_member n m (hold_edge i e ?h) = Inr h" and f': "f' = AList.update ?k h f"
    by (auto simp: fold_add_def Let_def outcome_simps)
  have "held_own (of_key ?k items) ?k ?h"
  proof (cases "map_of f ?k")
    case None
    then have "?k \<notin> item_key ` set items" using assms(1) by (simp add: held_def map_of_eq_None_iff)
    then have "of_key ?k items = []" by (force simp: of_key_def filter_empty_conv)
    then show ?thesis using None held_own_new by simp
  next
    case (Some h)
    then show ?thesis using assms(1) map_of_SomeD [OF Some] by (auto simp: held_def)
  qed
  then have own: "held_own (of_key ?k (items @ [?x])) ?k h"
    using held_own_edge [OF _ h] by (simp add: of_key_snoc k)
  have d: "distinct (map fst f')" using assms(1) by (simp add: f' held_def distinct_update)
  have "fst ` set f' = item_key ` set (items @ [?x])"
    using assms(1) by (simp add: f' held_def update_keys k)
  moreover have "held_own (of_key k' (items @ [?x])) k' h'" if "(k', h') \<in> set f'" for k' h'
  proof (cases "k' = ?k")
    case True
    then have "h' = h" using map_of_is_SomeI [OF d that] by (simp add: f' update_conv)
    then show ?thesis using own True by simp
  next
    case False
    then have "map_of f k' = Some h'" using map_of_is_SomeI [OF d that] by (simp add: f' update_conv)
    then show ?thesis using map_of_SomeD False assms(1) by (fastforce simp: held_def of_key_snoc k)
  qed
  ultimately show ?thesis using d by (auto simp: held_def)
qed

lemma held_add_items: "held items f \<Longrightarrow> add_items xs f = Inr f' \<Longrightarrow> held (items @ xs) f'"
proof (induction xs f arbitrary: items rule: add_items.induct)
  case (2 i n e m xs f)
  then obtain g where "fold_add i n e m f = Inr g" "add_items xs g = Inr f'" by (auto simp: outcome_simps)
  with "2.IH" [OF this(1) held_add [OF "2.prems"(1) this(1)]] show ?case by simp
qed simp

lemma FoldMembers_held:
  "FoldMembers u ss fo = Inr out \<Longrightarrow>
     \<exists>f. out = map (finish_folded u \<circ> snd) f \<and>
       held (fold_items u fo (if Fold fo then {} else coveredSites u ss (MemberOf fo)) 0 ss) f"
  using held_add_items [of "[]" "[]"]
  by (fastforce simp: FoldMembers_def Let_def outcome_simps fold_loop_items held_def [of "[]"])

lemma mset_by_key:
  "distinct ks \<Longrightarrow> g ` set xs \<subseteq> set ks \<Longrightarrow> mset (concat (map (\<lambda>k. filter (\<lambda>x. g x = k) xs) ks)) = mset xs"
proof (induction ks arbitrary: xs)
  case (Cons k ks)
  let ?ys = "filter (\<lambda>x. g x \<noteq> k) xs"
  have "map (\<lambda>j. filter (\<lambda>x. g x = j) xs) ks = map (\<lambda>j. filter (\<lambda>x. g x = j) ?ys) ks"
    using Cons.prems by (auto simp: filter_filter intro!: filter_cong)
  moreover have "mset (concat (map (\<lambda>j. filter (\<lambda>x. g x = j) ?ys) ks)) = mset ?ys"
    using Cons.prems by (intro Cons.IH) auto
  ultimately have "mset (concat (map (\<lambda>k. filter (\<lambda>x. g x = k) xs) (k # ks))) = mset (filter (\<lambda>x. g x = k) xs) + mset ?ys"
    by (simp only: list.map concat.simps mset_append)
  also have "\<dots> = mset xs" by (induction xs) auto
  finally show ?case .
qed simp

definition drawn_items :: "unicode_tables \<Rightarrow> folding \<Rightarrow> step list \<Rightarrow> fold_item list" where
  "drawn_items u fo ss = fold_items u fo (if Fold fo then {} else coveredSites u ss (MemberOf fo)) 0 ss"

lemma finish_folded_same:
  "SNode (FStep (finish_folded u h)) = SNode (HStep h)"
  "EType (SEdge (FStep (finish_folded u h))) = EType (SEdge (HStep h))" "FFrom (finish_folded u h) = HFrom h"
  "Sites (SEdge (FStep (finish_folded u h))) = sort_sites (Sites (SEdge (HStep h)))"
  by (simp_all add: finish_folded_def Let_def)

lemma FoldMembers_drawn:
  assumes "FoldMembers u ss fo = Inr out"
  shows "mset (concat (map FFrom out)) = mset (map fst (drawn_items u fo ss))"
proof -
  let ?items = "drawn_items u fo ss"
  from FoldMembers_held [OF assms] obtain f where out: "out = map (finish_folded u \<circ> snd) f" and held: "held ?items f"
    unfolding drawn_items_def by blast
  have "map FFrom out = map (map fst) (map (\<lambda>k. filter (\<lambda>x. item_key x = k) ?items) (map fst f))"
    using held by (auto simp: out finish_folded_same held_def held_own_def of_key_def)
  then have "mset (concat (map FFrom out)) =
      image_mset fst (mset (concat (map (\<lambda>k. filter (\<lambda>x. item_key x = k) ?items) (map fst f))))"
    by (simp only: mset_map [symmetric] map_concat)
  also have "\<dots> = mset (map fst ?items)"
    using mset_by_key [of "map fst f" item_key ?items] held by (simp add: held_def)
  finally show ?thesis .
qed

text \<open>C13: \<open>FoldMembers\<close> draws one step per node and edge type; each step that is drawn is folded into exactly one
  of them; a folded step has the sites of the steps it folds, each once and in order; and it names the members
  of those steps.\<close>

theorem FoldMembers_groups:
  assumes "FoldMembers u ss fo = Inr out"
  shows "distinct (map (\<lambda>d. (ID (SNode (FStep d)), EType (SEdge (FStep d)))) out) \<and>
    mset (concat (map FFrom out)) = mset (map fst (drawn_items u fo ss)) \<and>
    (\<forall>d \<in> set out.
       let k = fold_key (SNode (FStep d)) (SEdge (FStep d)); own = of_key k (drawn_items u fo ss) in
       FFrom d = map fst own \<and> sites_once (concat (map item_sites own)) (Sites (SEdge (FStep d))) \<and>
       sorted (map site_key (Sites (SEdge (FStep d)))) \<and>
       (\<forall>x \<in> set own. MName (item_member x) \<noteq> [] \<longrightarrow>
          (\<exists>p ms. map_of (EProperties (SEdge (FStep d))) p = Some (join_with '', '' ms) \<and>
            distinct ms \<and> MName (item_member x) \<in> set ms \<and> MProperty (item_member x) \<in> {[], p})))"
proof -
  let ?items = "drawn_items u fo ss"
  from FoldMembers_held [OF assms] obtain f where out: "out = map (finish_folded u \<circ> snd) f" and held: "held ?items f"
    unfolding drawn_items_def by blast
  have own: "held_own (of_key k ?items) k h" if "(k, h) \<in> set f" for k h
    using held that by (auto simp: held_def)
  note same = finish_folded_same
  have keys: "fold_key (SNode (FStep (finish_folded u h))) (SEdge (FStep (finish_folded u h))) = k" if "(k, h) \<in> set f" for k h
    using own [OF that] by (simp add: held_own_def fold_key_def same)
  have "map fst f = map (\<lambda>d. ID (SNode (FStep d)) @ ''|'' @ EType (SEdge (FStep d))) out"
    using keys by (auto simp: out fold_key_def)
  then have "distinct (map (\<lambda>(i, t). i @ ''|'' @ t) (map (\<lambda>d. (ID (SNode (FStep d)), EType (SEdge (FStep d)))) out))"
    using held by (simp add: held_def comp_def)
  then have one: "distinct (map (\<lambda>d. (ID (SNode (FStep d)), EType (SEdge (FStep d)))) out)"
    by (simp only: distinct_map)
  have three: "sites_once xs (sort_sites ys) \<longleftrightarrow> sites_once xs ys" for xs ys
    by (simp add: sites_once_def sort_sites_def)
  have four: "\<exists>p ms. map_of (EProperties (SEdge (FStep (finish_folded u h)))) p = Some (join_with '', '' ms) \<and>
      distinct ms \<and> MName (item_member x) \<in> set ms \<and> MProperty (item_member x) \<in> {[], p}"
    if "(k, h) \<in> set f" "x \<in> set (of_key k ?items)" "MName (item_member x) \<noteq> []" for k h x
  proof -
    have "MName (item_member x) \<in> set (HMembers h)" "distinct (HMembers h)" "MProperty (item_member x) \<in> {[], HProperty h}"
      using own [OF that(1)] that unfolding held_own_def by blast+
    moreover from this have "map_of (EProperties (SEdge (FStep (finish_folded u h)))) (HProperty h) =
        Some (join_with '', '' (sort_key (member_order u) (HMembers h)))"
      by (auto simp: finish_folded_def Let_def update_conv)
    ultimately show ?thesis
      by (intro exI [of _ "HProperty h"] exI [of _ "sort_key (member_order u) (HMembers h)"]) simp
  qed
  have each: "FFrom d = map fst own \<and> sites_once (concat (map item_sites own)) (Sites (SEdge (FStep d))) \<and>
       sorted (map site_key (Sites (SEdge (FStep d)))) \<and>
       (\<forall>x \<in> set own. MName (item_member x) \<noteq> [] \<longrightarrow>
          (\<exists>p ms. map_of (EProperties (SEdge (FStep d))) p = Some (join_with '', '' ms) \<and>
            distinct ms \<and> MName (item_member x) \<in> set ms \<and> MProperty (item_member x) \<in> {[], p}))"
    if d: "d \<in> set out" and o: "own = of_key (fold_key (SNode (FStep d)) (SEdge (FStep d))) ?items" for d own
  proof -
    from d obtain k h where h: "(k, h) \<in> set f" and dh: "d = finish_folded u h" by (auto simp: out)
    from keys [OF h] o have o': "own = of_key k ?items" by (simp add: dh)
    have s: "FFrom d = map fst own" "sites_once (concat (map item_sites own)) (Sites (SEdge (FStep d)))"
      "sorted (map site_key (Sites (SEdge (FStep d))))"
      using own [OF h] by (simp_all add: dh o' same held_own_def three) (simp add: sort_sites_def)
    show ?thesis using s four [OF h] by (simp add: o' dh)
  qed
  show ?thesis
    by (intro conjI ballI, rule one, rule FoldMembers_drawn [OF assms], unfold Let_def, rule each [OF _ refl])
qed

definition sample_folding :: folding where
  "sample_folding =
     \<lparr> MemberOf = (\<lambda>n. if ID n = ''column:T.A''
          then Some \<lparr> Owner = ''table:T'', MName = ''A'', MProperty = ''columns'', Covers = True \<rparr> else None),
       OwnerNode = (\<lambda>i. no_node\<lparr> ID := i \<rparr>), Fold = True \<rparr>"

definition sample_steps :: "step list" where
  "sample_steps =
     [\<lparr> SNode = no_node\<lparr> ID := ''column:T.A'' \<rparr>,
        SEdge = no_edge\<lparr> EType := ''read'', Sites := [no_site\<lparr> SLine := 3 \<rparr>] \<rparr> \<rparr>,
      \<lparr> SNode = no_node\<lparr> ID := ''table:T'' \<rparr>,
        SEdge = no_edge\<lparr> EType := ''read'', Sites := [no_site\<lparr> SLine := 3 \<rparr>, no_site\<lparr> SLine := 2 \<rparr>] \<rparr> \<rparr>]"

theorem FoldMembers_groups_witness:
  "\<exists>out. FoldMembers ascii_tables sample_steps sample_folding = Inr out \<and> map FFrom out = [[0, 1]] \<and>
     mset (concat (map FFrom out)) = mset (map fst (drawn_items ascii_tables sample_folding sample_steps))"
proof -
  have run: "\<exists>out. FoldMembers ascii_tables sample_steps sample_folding = Inr out \<and> map FFrom out = [[0, 1]]"
    by (simp add: FoldMembers_def sample_steps_def sample_folding_def fold_step_def fold_add_def Let_def hold_edge_def
        hold_member_def fold_key_def new_folded_def finish_folded_def no_member_def no_node_def no_edge_def)
  then obtain out where out: "FoldMembers ascii_tables sample_steps sample_folding = Inr out" "map FFrom out = [[0, 1]]"
    by (elim exE conjE)
  show ?thesis
    by (intro exI [of _ out] conjI out) (rule FoldMembers_groups [OF out(1), THEN conjunct2, THEN conjunct1])
qed

lemma enumerate_Suc: "enumerate (Suc i) xs = map (\<lambda>(j, x). (Suc j, x)) (enumerate i xs)"
  by (induction xs arbitrary: i) auto

lemma fold_items_fst:
  "map fst (fold_items u fo covered i ss) =
     map fst (filter (\<lambda>(j, s). fold_step u fo covered s \<noteq> None) (enumerate i ss))"
  by (induction ss arbitrary: i) (auto simp: fold_items_def split: option.splits)

lemma apart_members: "\<not> Fold fo \<Longrightarrow> fold_step u fo covered s = Some (n, e, m) \<Longrightarrow> m = no_member"
  by (auto simp: fold_step_def split: prod.splits if_splits)

lemma apart_no_error: "\<not> Fold fo \<Longrightarrow> \<exists>f'. fold_loop u fo covered i ss f = Inr f'"
proof (induction ss arbitrary: i f)
  case (Cons s ss)
  show ?case
  proof (cases "fold_step u fo covered s")
    case None
    with Cons show ?thesis by simp
  next
    case (Some x)
    obtain n e m where x: "x = (n, e, m)" by (cases x) auto
    have "m = no_member" using apart_members [OF Cons.prems] Some x by blast
    then have "\<exists>g. fold_add i n e m f = Inr g" by (simp add: fold_add_def Let_def hold_member_def no_member_def)
    with Cons Some x show ?thesis by auto
  qed
qed simp

text \<open>drawing members apart never fails, and the steps it draws are those \<open>Surviving\<close> lists.\<close>

theorem apart_draws_Surviving:
  "\<exists>out. FoldMembers u ss (fo\<lparr> Fold := False \<rparr>) = Inr out \<and>
     mset (concat (map FFrom out)) = mset (Surviving u ss (MemberOf fo))"
proof -
  let ?fo = "fo\<lparr> Fold := False \<rparr>"
  obtain out where out: "FoldMembers u ss ?fo = Inr out"
    using apart_no_error [of ?fo u "coveredSites u ss (MemberOf fo)" 0 ss "[]"] by (auto simp: FoldMembers_def)
  have "map fst (drawn_items u ?fo ss) = Surviving u ss (MemberOf fo)"
    by (simp add: drawn_items_def fold_items_fst Surviving_def Let_def fold_step_def case_prod_beta if_distrib
        cong: if_cong)
  with FoldMembers_drawn [OF out] out show ?thesis by auto
qed

lemma fold_add_error:
  assumes "held items f" "fold_add i n e m f = Inl err"
  shows "\<exists>x \<in> set items. item_key x = fold_key n e \<and> MName (item_member x) \<noteq> [] \<and> MName m \<noteq> [] \<and>
    MProperty (item_member x) \<notin> {[], MProperty m} \<and>
    err = TwoMemberLists (ID n) (MProperty (item_member x)) (MProperty m)"
proof -
  let ?k = "fold_key n e"
  let ?h = "case map_of f ?k of None \<Rightarrow> new_folded n e | Some h \<Rightarrow> h"
  have g: "HProperty (hold_edge i e h) = HProperty h" for h by (simp add: hold_edge_def Let_def)
  from assms(2) have m: "MName m \<noteq> []" "HProperty ?h \<notin> {[], MProperty m}"
    "err = TwoMemberLists (ID n) (HProperty ?h) (MProperty m)"
    by (auto simp: fold_add_def Let_def outcome_simps hold_member_def g split: if_splits)
  then obtain h where h: "map_of f ?k = Some h" by (cases "map_of f ?k") (auto simp: new_folded_def)
  then have "held_own (of_key ?k items) ?k h" using assms(1) map_of_SomeD [OF h] by (auto simp: held_def)
  then obtain x where "x \<in> set (of_key ?k items)" "MName (item_member x) \<noteq> []" "MProperty (item_member x) = HProperty h"
    using m h unfolding held_own_def by auto
  then show ?thesis using m h by (intro bexI [of _ x]) (auto simp: of_key_def)
qed

definition clash :: "fold_item \<Rightarrow> fold_item \<Rightarrow> bool" where
  "clash x y \<longleftrightarrow> item_key x = item_key y \<and> MName (item_member x) \<noteq> [] \<and> MName (item_member y) \<noteq> [] \<and>
     MProperty (item_member x) \<notin> {[], MProperty (item_member y)}"

lemma add_items_error:
  "held items f \<Longrightarrow> add_items xs f = Inl err \<Longrightarrow> \<exists>x \<in> set (items @ xs). \<exists>y \<in> set (items @ xs). clash x y"
proof (induction xs f arbitrary: items rule: add_items.induct)
  case (2 i n e m xs f)
  show ?case
  proof (cases "fold_add i n e m f")
    case (Inl err')
    from fold_add_error [OF "2.prems"(1) this] obtain x where "x \<in> set items" "clash x (i, n, e, m)"
      by (auto simp: clash_def item_key_def item_member_def)
    then show ?thesis by auto
  next
    case (Inr g)
    with "2.IH" [OF Inr held_add [OF "2.prems"(1) Inr]] "2.prems"(2) show ?thesis by simp
  qed
qed simp

lemma held_no_clash:
  assumes "held items f" "x \<in> set items" "y \<in> set items" "clash x y"
  shows "MProperty (item_member y) = []"
proof -
  let ?k = "item_key x"
  have "?k \<in> fst ` set f" using assms by (auto simp: held_def)
  then obtain h where "(?k, h) \<in> set f" by auto
  then have "held_own (of_key ?k items) ?k h" using assms(1) by (auto simp: held_def)
  moreover have "x \<in> set (of_key ?k items)" "y \<in> set (of_key ?k items)"
    using assms by (auto simp: of_key_def clash_def)
  ultimately have "MProperty (item_member x) \<in> {[], HProperty h}" "MProperty (item_member y) \<in> {[], HProperty h}"
    using assms(4) unfolding held_own_def clash_def by blast+
  then show ?thesis using assms(4) by (auto simp: clash_def)
qed

text \<open>folding fails only when two members folded into one owner, on edges of one type, are listed under two
  properties; and it does fail on any two such members whose properties both have a name.\<close>

theorem FoldMembers_error:
  "case FoldMembers u ss fo of
     Inl e \<Rightarrow> \<exists>x \<in> set (drawn_items u fo ss). \<exists>y \<in> set (drawn_items u fo ss). clash x y
   | Inr out \<Rightarrow> \<not> (\<exists>x \<in> set (drawn_items u fo ss). \<exists>y \<in> set (drawn_items u fo ss).
       clash x y \<and> MProperty (item_member y) \<noteq> [])"
proof (cases "FoldMembers u ss fo")
  case (Inl e)
  have "held [] []" by (simp add: held_def)
  from add_items_error [OF this, of "drawn_items u fo ss" e] Inl show ?thesis
    by (simp add: FoldMembers_def Let_def outcome_simps fold_loop_items drawn_items_def)
next
  case (Inr out)
  from FoldMembers_held [OF Inr] obtain f where "held (drawn_items u fo ss) f" unfolding drawn_items_def by blast
  from held_no_clash [OF this] show ?thesis unfolding Inr sum.case by blast
qed

subsection \<open>Parameters\<close>

text \<open>two requests whose exclusion lists differ in order or, as lowered, not at all, and are otherwise alike,
  are keyed alike; an encoder that tells parameters apart keys apart those that differ.\<close>

theorem Encode_key:
  assumes "inj marshal"
  shows "Encode u marshal p = Encode u marshal q \<longleftrightarrow>
    mset (map (to_lower u) (ExcludeKinds p)) = mset (map (to_lower u) (ExcludeKinds q)) \<and>
    mset (map (to_lower u) (ExcludeGroups p)) = mset (map (to_lower u) (ExcludeGroups q)) \<and>
    p\<lparr> ExcludeKinds := [], ExcludeGroups := [] \<rparr> = q\<lparr> ExcludeKinds := [], ExcludeGroups := [] \<rparr>"
proof -
  have sorts: "lowerSorted u xs = lowerSorted u ys \<longleftrightarrow> mset (map (to_lower u) xs) = mset (map (to_lower u) ys)" for xs ys
  proof
    assume "lowerSorted u xs = lowerSorted u ys"
    from arg_cong [OF this, of mset] show "mset (map (to_lower u) xs) = mset (map (to_lower u) ys)"
      by (simp add: lowerSorted_def)
  next
    assume "mset (map (to_lower u) xs) = mset (map (to_lower u) ys)"
    then show "lowerSorted u xs = lowerSorted u ys"
      unfolding lowerSorted_def by (intro properties_for_sort) simp_all
  qed
  have "Encode u marshal p = Encode u marshal q \<longleftrightarrow> canonical_params u p = canonical_params u q"
    using assms by (simp add: Encode_def inj_eq)
  also have "\<dots> \<longleftrightarrow> lowerSorted u (ExcludeKinds p) = lowerSorted u (ExcludeKinds q) \<and>
      lowerSorted u (ExcludeGroups p) = lowerSorted u (ExcludeGroups q) \<and>
      p\<lparr> ExcludeKinds := [], ExcludeGroups := [] \<rparr> = q\<lparr> ExcludeKinds := [], ExcludeGroups := [] \<rparr>"
    by (cases p; cases q) (auto simp: canonical_params_def)
  finally show ?thesis by (simp only: sorts)
qed

definition sample_params :: "gostring list \<Rightarrow> params" where
  "sample_params kinds =
     \<lparr> PCodec = ''v1'', PRoots = [''a''], PDirection = ''callees'', PDepth = 2, PLimit = 150, ExcludeKinds = kinds,
       ExcludeGroups = [], PAccess = [], PColumns = False, PGuards = False, Inputs = Map.empty \<rparr>"

theorem Encode_key_witness:
  "Encode ascii_tables id (sample_params [''sql'', ''function'']) = Encode ascii_tables id (sample_params [''function'', ''sql'']) \<and>
   Encode ascii_tables id (sample_params [''sql'']) \<noteq> Encode ascii_tables id (sample_params [])"
  unfolding Encode_key [of id ascii_tables, OF inj_on_id] by (simp add: sample_params_def add_mset_commute)

end
