(* ===== verification/Statement_Walk.thy ===== *)
theory Statement_Walk
  imports Statement
begin

text \<open>
  The statement walker (\<open>walk_stmt.go\<close>) and the relationships a method body makes
  (\<open>relationship_collect.go\<close>). The visitor carries a state of any type. A panic is an error value: a
  nil statement, or a statement type the walker has no case for, which of the types of the package is
  only the generic \<open>UIRStatement\<close>.
\<close>

subsection \<open>Conditions and scopes\<close>

record scope =
  ScGuards :: "condition_stmt list"
  ScLoops :: int
  ScOrder :: int

definition empty_scope :: scope where
  "empty_scope = \<lparr> ScGuards = [], ScLoops = 0, ScOrder = 0 \<rparr>"

definition typed_base :: "statement_type \<Rightarrow> base" where
  "typed_base t = no_base\<lparr> StmtType := t \<rparr>"

definition empty_expr :: expr_stmt where
  "empty_expr = ExprStmt (typed_base ASTStatementTypeExpression) None None None None None None None None None None None"

definition set_binary :: "expr_stmt binary_stmt \<Rightarrow> expr_stmt" where
  "set_binary b = ExprStmt (typed_base ASTStatementTypeExpression) None None (Some b) None None None None None None None None"

definition set_unary :: "expr_stmt unary_stmt \<Rightarrow> expr_stmt" where
  "set_unary x = ExprStmt (typed_base ASTStatementTypeExpression) None None None None (Some x) None None None None None None"

definition BinaryExpr :: "expr_stmt \<Rightarrow> gostring \<Rightarrow> expr_stmt \<Rightarrow> expr_stmt" where
  "BinaryExpr l op r = set_binary (BinaryStmt (typed_base ASTStatementTypeBinary) l op r)"

definition UnaryExpr :: "gostring \<Rightarrow> expr_stmt \<Rightarrow> expr_stmt" where
  "UnaryExpr op x = set_unary (UnaryStmt (typed_base ASTStatementTypeUnary) op x)"

definition NewCondition :: "expr_stmt \<Rightarrow> condition_stmt" where
  "NewCondition e = ConditionStmt (typed_base ASTStatmentTypeCondition) e"

definition BinaryOpEqual :: gostring where "BinaryOpEqual = ''==''"
definition BinaryOpOr :: gostring where "BinaryOpOr = ''||''"
definition UnaryOpNot :: gostring where "UnaryOpNot = ''!''"

definition emptyExpr :: "expr_stmt \<Rightarrow> bool" where
  "emptyExpr e \<longleftrightarrow> Value e = None \<and> SourceContent (Source (ExprBase e)) \<in> {None, Some []}"

definition emptyCondition :: "condition_stmt \<Rightarrow> bool" where
  "emptyCondition c \<longleftrightarrow> emptyExpr (ConditionExpr c)"

definition negated :: "condition_stmt \<Rightarrow> condition_stmt" where
  "negated c = NewCondition (UnaryExpr UnaryOpNot (ConditionExpr c))"

definition caseMatch :: "expr_stmt \<Rightarrow> condition_stmt \<Rightarrow> expr_stmt" where
  "caseMatch v c = (if emptyExpr v then ConditionExpr c else BinaryExpr v BinaryOpEqual (ConditionExpr c))"

definition anyOf :: "expr_stmt list \<Rightarrow> expr_stmt" where
  "anyOf es = foldl (\<lambda>either e. BinaryExpr either BinaryOpOr e) (hd es) (tl es)"

definition guardedBy :: "scope \<Rightarrow> condition_stmt \<Rightarrow> scope" where
  "guardedBy sc c = sc\<lparr> ScGuards := ScGuards sc @ [c] \<rparr>"

definition looping :: "scope \<Rightarrow> condition_stmt \<Rightarrow> scope" where
  "looping sc c =
     (let sc = sc\<lparr> ScLoops := ScLoops sc + 1 \<rparr> in if emptyCondition c then sc else guardedBy sc c)"

subsection \<open>The statements directly inside a statement, each with its scope\<close>

type_synonym visited = "stmt option \<times> scope"

definition inner :: "scope \<Rightarrow> stmt \<Rightarrow> visited" where
  "inner sc s = (Some s, sc)"

definition inner_all :: "scope \<Rightarrow> stmt option list \<Rightarrow> visited list" where
  "inner_all sc ss = map (\<lambda>s. (s, sc)) ss"

definition inner_exprs :: "scope \<Rightarrow> expr_stmt list \<Rightarrow> visited list" where
  "inner_exprs sc es = map (\<lambda>e. inner sc (SExpr e)) es"

definition case_scope :: "expr_stmt \<Rightarrow> expr_stmt list \<Rightarrow> scope \<Rightarrow> condition_stmt \<Rightarrow> scope" where
  "case_scope v matches sc c =
     (if \<not> emptyCondition c then guardedBy sc (NewCondition (caseMatch v c))
      else if matches \<noteq> [] then guardedBy sc (negated (NewCondition (anyOf matches)))
      else sc)"

definition case_matches :: "expr_stmt \<Rightarrow> (condition_stmt \<times> block_stmt) list \<Rightarrow> expr_stmt list" where
  "case_matches v cases = map (\<lambda>(c, _). caseMatch v c) (filter (\<lambda>(c, _). \<not> emptyCondition c) cases)"

definition switchCases :: "scope \<Rightarrow> expr_stmt \<Rightarrow> (condition_stmt \<times> block_stmt) list \<Rightarrow> visited list" where
  "switchCases sc v cases =
     inner sc (SExpr v) #
     concat (map (\<lambda>(c, b). [inner sc (SCondition c), inner (case_scope v (case_matches v cases) sc c) (SBlock b)]) cases)"

text \<open>\<open>control\<close>, \<open>expression\<close> and \<open>call\<close> answer what the walker visits next, in order; a type none of them
  has a case for is a leaf or unknown.\<close>

fun control :: "scope \<Rightarrow> stmt \<Rightarrow> visited list option" where
  "control sc (SBlock b) = Some (inner_all sc (BlockChildren b))"
| "control sc (STest b _) = Some (inner_all sc (BlockChildren b))"
| "control sc (SIf _ c t el) =
     Some ([inner sc (SCondition c), inner (guardedBy sc c) (SBlock t)] @
       (case el of None \<Rightarrow> [] | Some b \<Rightarrow> [inner (guardedBy sc (negated c)) (SBlock b)]))"
| "control sc (SSwitch _ v cases) = Some (switchCases sc v cases)"
| "control sc (SFor _ init c b update) =
     Some [inner sc (SAssignment init), inner sc (SCondition c), inner (looping sc c) (SBlock b),
       inner (looping sc c) (SExpr update)]"
| "control sc (SForEach _ v it b) =
     Some [inner sc (SAssignment v), inner sc (SExpr it),
       inner (looping sc (ConditionStmt no_base no_expr)) (SBlock b)]"
| "control sc (SWhile _ c b) = Some [inner sc (SCondition c), inner (looping sc c) (SBlock b)]"
| "control sc (STry _ b c) = Some [inner sc (SBlock b), inner sc (SBlock c)]"
| "control sc (SReturn _ e) = Some [inner sc (SExpr e)]"
| "control sc (SThrow _ e) = Some [inner sc (SExpr e)]"
| "control sc (SCondition c) = Some [inner sc (SExpr (ConditionExpr c))]"
| "control sc (SFunctionDecl _ m) =
     Some (case MethodBody m of None \<Rightarrow> [] | Some b \<Rightarrow> [inner sc (SBlock b)])"
| "control sc _ = None"

fun binding_inner :: "scope \<Rightarrow> destructuring binding \<Rightarrow> visited list" where
  "binding_inner sc (Binding _ _ d n) =
     (case d of None \<Rightarrow> [] | Some e \<Rightarrow> [inner sc (SExpr e)]) @
     (case n of None \<Rightarrow> [] | Some x \<Rightarrow> [inner sc (SDestructuring x)])"

fun expression :: "scope \<Rightarrow> stmt \<Rightarrow> visited list option" where
  "expression sc (SExpr e) = Some (case Value e of None \<Rightarrow> [] | Some s \<Rightarrow> [inner sc s])"
| "expression sc (SAssignment (AssignmentStmt _ _ e _ _)) = Some [inner sc (SExpr e)]"
| "expression sc (SBinary b) = Some (inner_exprs sc (binary_exprs b))"
| "expression sc (SUnary b) = Some (inner_exprs sc (unary_exprs b))"
| "expression sc (SCast b) = Some (inner_exprs sc (cast_exprs b))"
| "expression sc (STuple b) = Some (inner_exprs sc (tuple_exprs b))"
| "expression sc (SObjectLiteral b) = Some (inner_exprs sc (entry_values b))"
| "expression sc (STemplate _ _ es tag) = Some (inner_exprs sc (es @ receiver_exprs tag))"
| "expression sc (SDestructuring (DestructuringStmt _ _ bs _ e _)) =
     Some (inner sc (SExpr e) # concat (map (binding_inner sc) bs))"
| "expression sc _ = None"

fun call :: "scope \<Rightarrow> stmt \<Rightarrow> visited list option" where
  "call sc (SMethodCall c) = Some (inner_exprs sc (method_call_exprs c))"
| "call sc (SDispatchCall c) = Some (inner_exprs sc (dispatch_call_exprs c))"
| "call sc (SEndpointCall c) = Some (inner_exprs sc (endpoint_call_exprs c))"
| "call sc (SRecordRead r) = Some (inner_exprs sc (record_exprs r))"
| "call sc (SRecordWrite r) = Some (inner_exprs sc (record_exprs r))"
| "call sc _ = None"

fun isLeafStatement :: "stmt \<Rightarrow> bool" where
  "isLeafStatement (SLiteral _) = True"
| "isLeafStatement (SVariable _ _) = True"
| "isLeafStatement (SScopedVariable _) = True"
| "isLeafStatement (SBreak _) = True"
| "isLeafStatement (SContinue _) = True"
| "isLeafStatement (SVariableDecl _ _) = True"
| "isLeafStatement (SConstDecl _ _) = True"
| "isLeafStatement (STypeDecl _ _) = True"
| "isLeafStatement (SRaw _ _ _) = True"
| "isLeafStatement (SDoc _) = True"
| "isLeafStatement _ = False"

datatype 'p walk_panic = NilStatement | UnknownStatement stmt | VisitorPanic 'p

definition next_statements :: "scope \<Rightarrow> stmt \<Rightarrow> visited list option" where
  "next_statements sc s =
     (case firstStatement [control sc s, expression sc s, call sc s] of
        Some ns \<Rightarrow> Some ns
      | None \<Rightarrow> if isLeafStatement s then Some [] else None)"

subsection \<open>The walk ends\<close>

text \<open>Each statement the walker goes on to is smaller: it holds fewer nested statements, or as few and is
  the block of the other, or as few and fewer nested destructuring patterns, or a smaller expression.\<close>

fun not_block :: "stmt \<Rightarrow> nat" where
  "not_block (SBlock _) = 0"
| "not_block _ = 1"

fun pattern_size :: "stmt \<Rightarrow> nat" where
  "pattern_size (SDestructuring d) = size d"
| "pattern_size _ = 0"

fun expr_rank :: "stmt \<Rightarrow> nat" where
  "expr_rank (SExpr e) = 2 * size e"
| "expr_rank (SReturn _ e) = 2 * size e + 1"
| "expr_rank (SThrow _ e) = 2 * size e + 1"
| "expr_rank (SCondition c) = 2 * size (ConditionExpr c) + 1"
| "expr_rank (SAssignment (AssignmentStmt _ _ e _ _)) = 2 * size e + 1"
| "expr_rank (SBinary b) = 2 * size_binary_stmt size b"
| "expr_rank (SUnary b) = 2 * size_unary_stmt size b"
| "expr_rank (SCast b) = 2 * size_cast_stmt size b"
| "expr_rank (STuple b) = 2 * size_tuple_stmt size b"
| "expr_rank (SObjectLiteral b) = 2 * size_object_literal size b"
| "expr_rank (STemplate _ _ es tag) = Suc (2 * (size_list size es + size_option size tag))"
| "expr_rank (SMethodCall b) = 2 * size_method_call size b"
| "expr_rank (SDispatchCall b) = 2 * size_dispatch_call size b"
| "expr_rank (SEndpointCall b) = 2 * size_endpoint_call size b"
| "expr_rank (SRecordRead b) = 2 * size_record_op size b"
| "expr_rank (SRecordWrite b) = 2 * size_record_op size b"
| "expr_rank _ = 0"

definition smaller :: "(stmt \<times> stmt) set" where
  "smaller = measures [size, not_block, pattern_size, expr_rank]"

text \<open>A visitor answers whether to go on into the statement, with its new state, or panics.\<close>

type_synonym ('p, 'a) visitor = "'a \<Rightarrow> stmt \<Rightarrow> scope \<Rightarrow> ('p, bool \<times> 'a) outcome"

fun each :: "('x \<Rightarrow> 's \<Rightarrow> ('e, 's) outcome) \<Rightarrow> 'x list \<Rightarrow> 's \<Rightarrow> ('e, 's) outcome" where
  "each f [] s = Inr s"
| "each f (x # xs) s = and_then (f x s) (each f xs)"

lemma each_cong [fundef_cong]:
  "xs = ys \<Longrightarrow> s = t \<Longrightarrow> (\<And>x s. x \<in> set ys \<Longrightarrow> f x s = g x s) \<Longrightarrow> each f xs s = each g ys t"
proof (induction ys arbitrary: xs s t)
  case (Cons y ys)
  then show ?case by (cases "g y t") auto
qed simp

lemma wf_smaller: "wf smaller"
  by (simp add: smaller_def)

lemma firstStatement_Some: "firstStatement cs = Some s \<Longrightarrow> Some s \<in> set cs"
  by (induction cs rule: firstStatement.induct) auto

lemma size_sub_block: "Some s \<in> set (BlockChildren b) \<Longrightarrow> size s < size b"
proof -
  have "Some s \<in> set cs \<Longrightarrow> size s < size_list (size_option size) cs" for cs :: "stmt option list"
    by (induction cs) auto
  then show "Some s \<in> set (BlockChildren b) \<Longrightarrow> size s < size b" by (cases b) fastforce
qed

lemma size_case_block: "(c, b) \<in> set cases \<Longrightarrow> size b < size_list (size_prod (\<lambda>_. 0) size) cases"
  by (induction cases) force+

lemma size_method_body: "MethodBody m = Some b \<Longrightarrow> size b < size m"
  by (cases m) auto

lemma smaller_size: "size s < size t \<Longrightarrow> (s, t) \<in> smaller"
  by (simp add: smaller_def)

lemma inner_iff [simp]: "(Some t, sc') = inner sc s \<longleftrightarrow> t = s \<and> sc' = sc" "(t', sc') \<in> set (inner_exprs sc es) \<longleftrightarrow> sc' = sc \<and> (\<exists>e \<in> set es. t' = Some (SExpr e))"
  "(t', sc') \<in> set (inner_all sc cs) \<longleftrightarrow> sc' = sc \<and> t' \<in> set cs"
  by (auto simp: inner_def inner_exprs_def inner_all_def)

lemma set_option_inner: "x \<in> set (case y of None \<Rightarrow> [] | Some b \<Rightarrow> [f b]) \<longleftrightarrow> (\<exists>b. y = Some b \<and> x = f b)"
  by (cases y) auto

lemma size_block_child: "Some s \<in> set (BlockChildren b) \<Longrightarrow> size s < Suc (size b)"
  using size_sub_block [of s b] by simp

lemma control_smaller: "control sc s = Some ns \<Longrightarrow> (Some t, sc') \<in> set ns \<Longrightarrow> (t, s) \<in> smaller"
  by (induction sc s rule: control.induct)
    (auto simp: switchCases_def set_option_inner smaller_def less_Suc_eq
      dest!: size_block_child size_case_block size_method_body split: option.splits)

lemma Value_cases:
  assumes "Value e = Some s"
  obtains (Literal) x where "ELiteral e = Some x" "s = SLiteral x"
  | (Variable) x where "EVariable e = Some x" "s = SScopedVariable x"
  | (Binary) x where "EBinary e = Some x" "s = SBinary x"
  | (Cast) x where "ECast e = Some x" "s = SCast x"
  | (Unary) x where "EUnary e = Some x" "s = SUnary x"
  | (MethodCall) x where "EMethodCall e = Some x" "s = SMethodCall x"
  | (DispatchCall) x where "EDispatchCall e = Some x" "s = SDispatchCall x"
  | (EndpointCall) x where "EEndpointCall e = Some x" "s = SEndpointCall x"
  | (RecordRead) x where "ERecordRead e = Some x" "s = SRecordRead x"
  | (Tuple) x where "ETuple e = Some x" "s = STuple x"
  | (ObjectLiteral) x where "EObjectLiteral e = Some x" "s = SObjectLiteral x"
  using firstStatement_Some [OF assms [unfolded Value_def]] that
  by (simp add: eq_commute [of "Some s"]) blast

lemma size_expr_pos: "0 < size (e :: expr_stmt)"
  by (cases e) simp

lemma size_field_value:
  assumes "Value e = Some s"
  shows "(s, SExpr e) \<in> smaller"
  using assms
  by (cases rule: Value_cases) (use size_expr_pos [of e] in \<open>auto simp: smaller_def dest: size_fields\<close>)

lemma size_bindings: "Binding x y d (Some n) \<in> set bs \<Longrightarrow> size n < size (DestructuringStmt b arr bs r e dec)"
  by (induction bs) force+

lemma expr_smaller: "size t = 0 \<Longrightarrow> not_block t = 1 \<Longrightarrow> 2 * size e < expr_rank t \<or> 0 < pattern_size t \<Longrightarrow> (SExpr e, t) \<in> smaller"
  by (auto simp: smaller_def)

lemma binding_smaller:
  assumes "x \<in> set bs" "(Some t, sc') \<in> set (binding_inner sc x)"
  shows "(t, SDestructuring (DestructuringStmt b arr bs r e dec)) \<in> smaller"
proof (cases x)
  case (Binding n al d nested)
  have "size d' < size (DestructuringStmt b arr bs r e dec)" if "nested = Some d'" for d'
    using size_bindings assms(1) Binding that by blast
  then show ?thesis using assms(2) Binding
    by (auto simp: set_option_inner smaller_def split: option.splits)
qed

lemma expression_smaller:
  assumes "expression sc s = Some ns" "(Some t, sc') \<in> set ns"
  shows "(t, s) \<in> smaller"
  using assms
proof (induction sc s rule: expression.induct)
  case (8 sc b ss es tag)
  then show ?case using size_in_list [of _ es] size_receiver [of _ tag]
    by (fastforce intro!: expr_smaller)
qed (auto simp: set_option_inner size_field_value binding_smaller dest!: size_field_exprs
    intro!: expr_smaller split: option.splits)

lemma call_smaller: "call sc s = Some ns \<Longrightarrow> (Some t, sc') \<in> set ns \<Longrightarrow> (t, s) \<in> smaller"
  by (induction sc s rule: call.induct) (auto dest!: size_field_exprs intro!: expr_smaller)

lemma next_smaller: "next_statements sc s = Some ns \<Longrightarrow> (Some t, sc') \<in> set ns \<Longrightarrow> (t, s) \<in> smaller"
  unfolding next_statements_def
  by (auto split: option.splits if_splits dest!: firstStatement_Some
      intro: control_smaller [OF sym] expression_smaller [OF sym] call_smaller [OF sym])

lemma next_smaller_visited:
  "next_statements sc s = Some ns \<Longrightarrow> v \<in> set ns \<Longrightarrow> fst v = Some t \<Longrightarrow> (t, s) \<in> smaller"
  by (cases v) (simp add: next_smaller)

subsection \<open>The walk\<close>

function walk :: "('p, 'a) visitor \<Rightarrow> visited \<Rightarrow> int \<times> 'a \<Rightarrow> ('p walk_panic, int \<times> 'a) outcome" where
  "walk visit (None, sc) (n, a) = Inl NilStatement"
| "walk visit (Some s, sc) (n, a) =
     (case visit a s (sc\<lparr> ScOrder := n \<rparr>) of
        Inl p \<Rightarrow> Inl (VisitorPanic p)
      | Inr (descend, a) \<Rightarrow>
          if \<not> descend then Inr (n + 1, a)
          else
            (case next_statements (sc\<lparr> ScOrder := n \<rparr>) s of
               None \<Rightarrow> Inl (UnknownStatement s)
             | Some ns \<Rightarrow> each (walk visit) ns (n + 1, a)))"
  by pat_completeness auto

termination
proof (relation "measures [\<lambda>(_, v, _). if fst v = None then 0 else 1, \<lambda>(_, v, _). size (the (fst v)),
    \<lambda>(_, v, _). not_block (the (fst v)), \<lambda>(_, v, _). pattern_size (the (fst v)), \<lambda>(_, v, _). expr_rank (the (fst v))]", goal_cases)
  case 1
  show ?case by simp
next
  case 2
  then show ?case by (auto dest!: next_smaller_visited simp: smaller_def)
qed

definition WalkStatements :: "('p, 'a) visitor \<Rightarrow> stmt option list \<Rightarrow> 'a \<Rightarrow> ('p walk_panic, 'a) outcome" where
  "WalkStatements visit stmts a = and_then (each (walk visit) (inner_all empty_scope stmts) (0, a)) (\<lambda>(_, a). Inr a)"

subsection \<open>The order of the walk\<close>

definition at :: "int \<Rightarrow> visited \<Rightarrow> visited" where
  "at n v = (fst v, (snd v)\<lparr> ScOrder := n \<rparr>)"

function preorder :: "visited \<Rightarrow> visited list" where
  "preorder (None, sc) = [(None, sc)]"
| "preorder (Some s, sc) =
     (Some s, sc) # (case next_statements sc s of None \<Rightarrow> [] | Some ns \<Rightarrow> concat (map preorder ns))"
  by pat_completeness auto

termination
  by (relation "measures [\<lambda>v. if fst v = None then 0 else 1, \<lambda>v. size (the (fst v)),
    \<lambda>v. not_block (the (fst v)), \<lambda>v. pattern_size (the (fst v)), \<lambda>v. expr_rank (the (fst v))]")
    (auto dest!: next_smaller_visited simp: smaller_def)

definition walk_order :: "stmt option list \<Rightarrow> visited list" where
  "walk_order stmts = concat (map preorder (inner_all empty_scope stmts))"

definition step_visit :: "('a \<Rightarrow> stmt \<Rightarrow> scope \<Rightarrow> ('p, 'a) outcome) \<Rightarrow> visited \<Rightarrow> int \<times> 'a \<Rightarrow> ('p walk_panic, int \<times> 'a) outcome" where
  "step_visit f v st =
     (case fst v of
        None \<Rightarrow> Inl NilStatement
      | Some s \<Rightarrow>
          (case f (snd st) s ((snd v)\<lparr> ScOrder := fst st \<rparr>) of
             Inl p \<Rightarrow> Inl (VisitorPanic p)
           | Inr a \<Rightarrow> if next_statements (snd v) s = None then Inl (UnknownStatement s) else Inr (fst st + 1, a)))"

lemma scope_order_update:
  "guardedBy (sc\<lparr> ScOrder := n \<rparr>) c = (guardedBy sc c)\<lparr> ScOrder := n \<rparr>"
  "looping (sc\<lparr> ScOrder := n \<rparr>) c = (looping sc c)\<lparr> ScOrder := n \<rparr>"
  "case_scope v ms (sc\<lparr> ScOrder := n \<rparr>) c = (case_scope v ms sc c)\<lparr> ScOrder := n \<rparr>"
  by (simp_all add: guardedBy_def looping_def case_scope_def Let_def)

lemma at_inner [simp]: "at n (inner sc s) = inner (sc\<lparr> ScOrder := n \<rparr>) s"
  "map (at n) (inner_all sc ss) = inner_all (sc\<lparr> ScOrder := n \<rparr>) ss"
  "map (at n) (inner_exprs sc es) = inner_exprs (sc\<lparr> ScOrder := n \<rparr>) es"
  by (simp_all add: at_def inner_def inner_all_def inner_exprs_def)

lemma control_at: "control (sc\<lparr> ScOrder := n \<rparr>) s = map_option (map (at n)) (control sc s)"
  by (induction sc s rule: control.induct)
    (auto simp: switchCases_def scope_order_update map_concat comp_def split_def split: option.split)

lemma binding_at: "binding_inner (sc\<lparr> ScOrder := n \<rparr>) b = map (at n) (binding_inner sc b)"
  by (induction sc b rule: binding_inner.induct) (auto split: option.split)

lemma expression_at: "expression (sc\<lparr> ScOrder := n \<rparr>) s = map_option (map (at n)) (expression sc s)"
proof (induction sc s rule: expression.induct)
  case (9 sc b arr bs r e d)
  have "concat (map (binding_inner (sc\<lparr> ScOrder := n \<rparr>)) bs) = map (at n) (concat (map (binding_inner sc) bs))"
    by (induction bs) (simp_all add: binding_at)
  then show ?case by simp
qed (auto split: option.split)

lemma call_at: "call (sc\<lparr> ScOrder := n \<rparr>) s = map_option (map (at n)) (call sc s)"
  by (induction sc s rule: call.induct) auto

lemma next_at: "next_statements (sc\<lparr> ScOrder := n \<rparr>) s = map_option (map (at n)) (next_statements sc s)"
  unfolding next_statements_def control_at expression_at call_at
  by (cases "control sc s"; cases "expression sc s"; cases "call sc s") auto

lemma preorder_at: "preorder (at n v) = map (at n) (preorder v)"
proof (induction v rule: preorder.induct)
  case (1 sc)
  then show ?case by (simp add: at_def)
next
  case (2 s sc)
  have "at n (Some s, sc) = (Some s, sc\<lparr> ScOrder := n \<rparr>)" by (simp add: at_def)
  then show ?case using 2
    by (cases "next_statements sc s") (simp_all add: next_at map_concat comp_def cong: map_cong)
qed

lemma step_visit_at: "step_visit f (at n v) st = step_visit f v st"
  by (cases "fst v") (simp_all add: step_visit_def at_def next_at split: sum.split)

lemma each_append: "each f (xs @ ys) s = and_then (each f xs s) (each f ys)"
proof (induction xs arbitrary: s)
  case (Cons x xs)
  then show ?case by (cases "f x s") auto
qed simp

lemma each_map: "each f (map g xs) s = each (\<lambda>x. f (g x)) xs s"
  by (induction xs arbitrary: s) (simp_all cong: and_then_cong)

lemma each_concat: "(\<And>x s. x \<in> set xs \<Longrightarrow> f x s = each g (h x) s) \<Longrightarrow> each f xs s = each g (concat (map h xs)) s"
  by (induction xs arbitrary: s) (simp_all add: each_append cong: and_then_cong)

definition descending :: "('a \<Rightarrow> stmt \<Rightarrow> scope \<Rightarrow> ('p, 'a) outcome) \<Rightarrow> ('p, 'a) visitor" where
  "descending f a s sc = and_then (f a s sc) (\<lambda>a. Inr (True, a))"

lemma order_order: "sc\<lparr> ScOrder := n, ScOrder := m \<rparr> = sc\<lparr> ScOrder := m \<rparr>"
  by simp

lemma walk_at: "walk visit (at n v) st = walk visit v st"
proof -
  obtain so sc m a where "v = (so, sc)" "st = (m, a)" by (cases v; cases st) blast
  then show ?thesis by (cases so) (simp_all only: at_def fst_conv snd_conv walk.simps order_order)
qed

lemma walk_preorder: "walk (descending f) v st = each (step_visit f) (preorder v) st"
proof (induction v arbitrary: st rule: preorder.induct)
  case (1 sc)
  then show ?case by (cases st) (simp add: step_visit_def)
next
  case (2 s sc)
  obtain n a where st: "st = (n, a)" by fastforce
  show ?case
  proof (cases "f a s (sc\<lparr> ScOrder := n \<rparr>)")
    case (Inl p)
    then show ?thesis by (simp add: st step_visit_def descending_def)
  next
    case (Inr b)
    show ?thesis
    proof (cases "next_statements sc s")
      case None
      then show ?thesis using Inr by (simp add: st step_visit_def descending_def next_at)
    next
      case (Some ns)
      have "each (walk (descending f)) (map (at n) ns) (n + 1, b) = each (step_visit f) (concat (map preorder ns)) (n + 1, b)"
        unfolding each_map
      proof (rule each_concat)
        fix v st' assume v: "v \<in> set ns"
        have "walk (descending f) (at n v) st' = walk (descending f) v st'" for st'
          using walk_at by metis
        then show "walk (descending f) (at n v) st' = each (step_visit f) (preorder v) st'"
          using 2 [OF Some v] by simp
      qed
      moreover have "step_visit f (Some s, sc) st = Inr (n + 1, b)" "descending f a s (sc\<lparr> ScOrder := n \<rparr>) = Inr (True, b)"
        using Inr Some by (simp_all add: st step_visit_def descending_def)
      ultimately show ?thesis using Some by (simp add: st next_at)
    qed
  qed
qed

lemma WalkStatements_preorder:
  "WalkStatements (descending f) stmts a = and_then (each (step_visit f) (walk_order stmts) (0, a)) (\<lambda>(_, a). Inr a)"
proof -
  have "each (walk (descending f)) (inner_all empty_scope stmts) (0, a) = each (step_visit f) (walk_order stmts) (0, a)"
    unfolding walk_order_def by (rule each_concat) (rule walk_preorder)
  then show ?thesis by (simp add: WalkStatements_def)
qed


subsection \<open>What is visited\<close>

inductive reached :: "stmt option list \<Rightarrow> visited \<Rightarrow> bool" for stmts where
  Top: "s \<in> set stmts \<Longrightarrow> reached stmts (s, empty_scope)"
| Nested: "reached stmts (Some s, sc) \<Longrightarrow> next_statements sc s = Some ns \<Longrightarrow> v \<in> set ns \<Longrightarrow> reached stmts v"

lemma preorder_self: "v \<in> set (preorder v)"
  by (cases v; cases "fst v") auto

lemma preorder_closed:
  "(Some s, sc) \<in> set (preorder v) \<Longrightarrow> next_statements sc s = Some ns \<Longrightarrow> set ns \<subseteq> set (preorder v)"
proof (induction v rule: preorder.induct)
  case (2 t sc')
  show ?case
  proof (cases "s = t \<and> sc = sc'")
    case True
    then show ?thesis using 2(3) preorder_self by auto
  next
    case False
    with 2(2) obtain ms v where ms: "next_statements sc' t = Some ms" "v \<in> set ms" "(Some s, sc) \<in> set (preorder v)"
      by (cases "next_statements sc' t") auto
    with 2(1) [OF ms(1,2,3) 2(3)] show ?thesis by auto
  qed
qed simp

lemma preorder_reached: "reached stmts v \<Longrightarrow> w \<in> set (preorder v) \<Longrightarrow> reached stmts w"
proof (induction v rule: preorder.induct)
  case (2 s sc)
  show ?case
  proof (cases "w = (Some s, sc)")
    case True
    then show ?thesis using 2(2) by simp
  next
    case False
    with 2(3) obtain ms v where ms: "next_statements sc s = Some ms" "v \<in> set ms" "w \<in> set (preorder v)"
      by (cases "next_statements sc s") auto
    show ?thesis by (rule 2(1) [OF ms(1,2) reached.Nested [OF 2(2) ms(1,2)] ms(3)])
  qed
qed simp

lemma visited_reached: "set (walk_order stmts) = {v. reached stmts v}"
proof (intro set_eqI iffI; unfold mem_Collect_eq)
  fix v assume "v \<in> set (walk_order stmts)"
  then show "reached stmts v"
    by (auto simp: walk_order_def inner_all_def intro: preorder_reached [OF reached.Top])
next
  fix v assume "reached stmts v"
  then show "v \<in> set (walk_order stmts)"
  proof induction
    case (Top s)
    then show ?case using preorder_self [of "(s, empty_scope)"]
      unfolding walk_order_def inner_all_def by (force simp del: preorder.simps)
  next
    case (Nested s sc ns v)
    then show ?case unfolding walk_order_def by (auto dest: preorder_closed)
  qed
qed


subsection \<open>What guards decide\<close>

text \<open>The truth value of an expression whose negations and disjunctions have their meaning and whose other
  forms are atoms.\<close>

function eval :: "(expr_stmt \<Rightarrow> bool) \<Rightarrow> expr_stmt \<Rightarrow> bool" where
  "eval atom e =
     (case EBinary e of
        Some (BinaryStmt _ l op r) \<Rightarrow> if op = BinaryOpOr then eval atom l \<or> eval atom r else atom e
      | None \<Rightarrow>
          (case EUnary e of
             Some (UnaryStmt _ op x) \<Rightarrow> if op = UnaryOpNot then \<not> eval atom x else atom e
           | None \<Rightarrow> atom e))"
  by pat_completeness auto

termination
  by (relation "measure (\<lambda>(_, e). size e)") (auto dest!: size_fields)

declare eval.simps [simp del]

lemma eval_Or [simp]: "eval atom (BinaryExpr l BinaryOpOr r) \<longleftrightarrow> eval atom l \<or> eval atom r"
  by (subst eval.simps) (simp add: BinaryExpr_def set_binary_def)

lemma eval_Not [simp]: "eval atom (UnaryExpr UnaryOpNot x) \<longleftrightarrow> \<not> eval atom x"
  by (subst eval.simps) (simp add: UnaryExpr_def set_unary_def)

lemma eval_anyOf: "es \<noteq> [] \<Longrightarrow> eval atom (anyOf es) \<longleftrightarrow> (\<exists>e \<in> set es. eval atom e)"
proof -
  have "eval atom (foldl (\<lambda>either e. BinaryExpr either BinaryOpOr e) x xs) \<longleftrightarrow> eval atom x \<or> (\<exists>e \<in> set xs. eval atom e)"
    for x xs by (induction xs arbitrary: x) auto
  then show "es \<noteq> [] \<Longrightarrow> ?thesis" unfolding anyOf_def by (cases es) auto
qed

definition guards_hold :: "(expr_stmt \<Rightarrow> bool) \<Rightarrow> scope \<Rightarrow> bool" where
  "guards_hold atom sc \<longleftrightarrow> (\<forall>g \<in> set (ScGuards sc). eval atom (ConditionExpr g))"

lemma guards_hold_guardedBy [simp]:
  "guards_hold atom (guardedBy sc c) \<longleftrightarrow> guards_hold atom sc \<and> eval atom (ConditionExpr c)"
  by (auto simp: guards_hold_def guardedBy_def)

lemma eval_negated [simp]: "eval atom (ConditionExpr (negated c)) \<longleftrightarrow> \<not> eval atom (ConditionExpr c)"
  by (simp add: negated_def NewCondition_def)

lemma ConditionExpr_New [simp]: "ConditionExpr (NewCondition e) = e"
  by (simp add: NewCondition_def)


end
