(* ===== verification/Relationship_Collect.thy ===== *)
theory Relationship_Collect
  imports Statement_Walk Graph_Source
begin

text \<open>
  The relationships a method body makes (\<open>relationship_collect.go\<close>), as the walk of
  \<open>Statement_Walk\<close> meets them, and the graph source \<open>FromRelationships\<close> serves them as.
\<close>

definition namedTargets :: "relationship_type \<Rightarrow> ident option \<Rightarrow> (relationship_type \<times> ident) list" where
  "namedTargets typ n = (case n of None \<Rightarrow> [] | Some i \<Rightarrow> [(typ, i)])"

text \<open>A nil candidate panics with its index.\<close>

datatype collect_panic = NilCandidate base nat

fun statementTargets :: "stmt \<Rightarrow> (collect_panic, source_code \<times> (relationship_type \<times> ident) list) outcome" where
  "statementTargets (SMethodCall (MethodCallStmt b m _ _ _)) = Inr (Source b, namedTargets RelationshipTypeCall m)"
| "statementTargets (SDispatchCall (DispatchCallStmt b m _ _ cs)) =
     (case index_of (\<lambda>c. c = None) cs of
        Some j \<Rightarrow> Inl (NilCandidate b j)
      | None \<Rightarrow>
          Inr (Source b, namedTargets RelationshipTypeCall m @ map (\<lambda>c. (RelationshipTypeDispatch, the c)) cs))"
| "statementTargets (SEndpointCall (EndpointCallStmt b e _)) = Inr (Source b, namedTargets RelationshipTypeCall e)"
| "statementTargets (SRecordRead (RecordStmt b r _ _ _ _)) = Inr (Source b, namedTargets RelationshipTypeRead r)"
| "statementTargets (SRecordWrite (RecordStmt b r _ _ _ _)) = Inr (Source b, namedTargets RelationshipTypeWrite r)"
| "statementTargets _ = Inr (no_source, [])"

definition relate :: "ident \<Rightarrow> source_code \<Rightarrow> condition_stmt list \<Rightarrow> relationship_type \<times> ident \<Rightarrow> condition_stmt relationship" where
  "relate from src guards t =
     \<lparr> RelType = fst t, RelKind = [], RelFrom = Some from, RelTo = Some (snd t), RelSource = src, RelGuards = guards \<rparr>"

definition collect_visit :: "ident \<Rightarrow> condition_stmt relationship list \<Rightarrow> stmt \<Rightarrow> scope
    \<Rightarrow> (collect_panic, condition_stmt relationship list) outcome" where
  "collect_visit from rels s sc =
     and_then (statementTargets s) (\<lambda>(src, targets). Inr (rels @ map (relate from src (ScGuards sc)) targets))"

definition CollectRelationships :: "method_node
    \<Rightarrow> (collect_panic walk_panic, condition_stmt relationship list) outcome" where
  "CollectRelationships m =
     (case MethodBody m of
        None \<Rightarrow> Inr []
      | Some b \<Rightarrow> WalkStatements (descending (collect_visit (MIdentifier (MethodFacts m)))) (BlockChildren b) [])"

subsection \<open>What is collected\<close>

text \<open>A visited statement \<open>CollectRelationships\<close> accepts, and the relationships it makes.\<close>

definition collectable :: "visited \<Rightarrow> bool" where
  "collectable v \<longleftrightarrow>
     (case fst v of None \<Rightarrow> False
      | Some s \<Rightarrow> next_statements (snd v) s \<noteq> None \<and> ok (statementTargets s))"

definition relations_of :: "ident \<Rightarrow> visited \<Rightarrow> condition_stmt relationship list" where
  "relations_of from v =
     (case statementTargets (the (fst v)) of
        Inl _ \<Rightarrow> []
      | Inr (src, targets) \<Rightarrow> map (relate from src (ScGuards (snd v))) targets)"

lemma collect_step:
  "step_visit (collect_visit from) v (n, rels) =
     (if collectable v then Inr (n + 1, rels @ relations_of from v)
      else step_visit (collect_visit from) v (n, rels)) \<and>
   (\<not> collectable v \<longrightarrow> (\<exists>p. step_visit (collect_visit from) v (n, rels) = Inl p))"
  by (cases "fst v"; cases "statementTargets (the (fst v))")
    (auto simp: step_visit_def collectable_def relations_of_def collect_visit_def split: sum.splits)

lemma collect_each_ok:
  "\<forall>v \<in> set vs. collectable v \<Longrightarrow>
   each (step_visit (collect_visit from)) vs (n, rels) =
     Inr (n + int (length vs), rels @ concat (map (relations_of from) vs))"
proof (induction vs arbitrary: n rels)
  case (Cons v vs)
  then have "step_visit (collect_visit from) v (n, rels) = Inr (n + 1, rels @ relations_of from v)"
    using collect_step [of "from" v n rels] by simp
  then show ?case using Cons by simp
qed simp

lemma collect_each_panic:
  "\<exists>v \<in> set vs. \<not> collectable v \<Longrightarrow> \<exists>p. each (step_visit (collect_visit from)) vs (n, rels) = Inl p"
proof (induction vs arbitrary: n rels)
  case (Cons v vs)
  show ?case
  proof (cases "collectable v")
    case True
    then have "step_visit (collect_visit from) v (n, rels) = Inr (n + 1, rels @ relations_of from v)"
      using collect_step [of "from" v n rels] by simp
    then show ?thesis using Cons True by simp
  next
    case False
    then show ?thesis using collect_step [of "from" v n rels] by auto
  qed
qed simp

lemma collect_body:
  "CollectRelationships (MethodNode m (Some b)) =
     and_then (each (step_visit (collect_visit (MIdentifier m))) (walk_order (BlockChildren b)) (0, [])) (\<lambda>(_, a). Inr a)"
  by (simp add: CollectRelationships_def WalkStatements_preorder)

lemma collect_ok:
  assumes "\<forall>v \<in> set (walk_order (BlockChildren b)). collectable v"
  shows "CollectRelationships (MethodNode m (Some b)) =
    Inr (concat (map (relations_of (MIdentifier m)) (walk_order (BlockChildren b))))"
  using collect_each_ok [OF assms] by (simp add: collect_body)

lemma collect_panic:
  assumes "\<exists>v \<in> set (walk_order (BlockChildren b)). \<not> collectable v"
  shows "\<exists>p. CollectRelationships (MethodNode m (Some b)) = Inl p"
proof -
  from collect_each_panic [OF assms, of "MIdentifier m" 0 "[]"] obtain p
    where "each (step_visit (collect_visit (MIdentifier m))) (walk_order (BlockChildren b)) (0, []) = Inl p" ..
  then show ?thesis by (simp add: collect_body)
qed

text \<open>C18: \<open>CollectRelationships\<close> returns the relationships of the statements of the body in walk order, from the
  method, each with the source of its statement and the guards it is reached under, and it panics exactly
  when a statement reached is nil, of an unknown type, or a dispatch with a nil candidate.\<close>

theorem CollectRelationships_walk:
  "(\<exists>rels. CollectRelationships (MethodNode m (Some b)) = Inr rels) =
     (\<not> (\<exists>v. reached (BlockChildren b) v \<and> \<not> collectable v)) \<and>
   CollectRelationships (MethodNode m None) = Inr [] \<and>
   CollectRelationships (MethodNode m (Some b)) \<in>
     insert (Inr (concat (map (relations_of (MIdentifier m)) (walk_order (BlockChildren b))))) (range Inl)"
proof (cases "\<forall>v \<in> set (walk_order (BlockChildren b)). collectable v")
  case True
  then show ?thesis using collect_ok [OF True] by (simp add: CollectRelationships_def visited_reached)
next
  case False
  then have "\<exists>p. CollectRelationships (MethodNode m (Some b)) = Inl p" by (intro collect_panic) blast
  with False show ?thesis by (auto simp: CollectRelationships_def visited_reached)
qed

subsection \<open>The graph of a method's relationships\<close>

lemma relations_of_drawn:
  assumes "r \<in> set (relations_of from v)"
  shows "RelType r \<in> set graphRelationships \<and> RelFrom r = Some from \<and> (\<exists>i. RelTo r = Some i)"
proof -
  have t: "fst t \<in> set graphRelationships" if "statementTargets s = Inr (src, ts)" "t \<in> set ts" for s src ts t
    using that
    by (induction s rule: statementTargets.induct)
      (auto simp: namedTargets_def graphRelationships_def split: option.splits)
  show ?thesis using assms by (auto simp: relations_of_def relate_def split: sum.splits dest: t [OF sym])
qed

lemma collected_drawn:
  assumes "CollectRelationships m = Inr rels"
  shows "drawn rels = rels" "\<not> (\<exists>r \<in> set rels. endless r)" "\<forall>r \<in> set rels. RelFrom r = Some (MIdentifier (MethodFacts m))"
proof -
  have r: "RelType r \<in> set graphRelationships \<and> RelFrom r = Some (MIdentifier (MethodFacts m)) \<and> (\<exists>i. RelTo r = Some i)"
    if "r \<in> set rels" for r
  proof (cases m)
    case (MethodNode f body)
    show ?thesis
    proof (cases body)
      case None
      then show ?thesis using assms that MethodNode by (simp add: CollectRelationships_def)
    next
      case (Some b)
      with assms MethodNode have "\<forall>v \<in> set (walk_order (BlockChildren b)). collectable v"
        using collect_panic [of b f] by auto
      from collect_ok [OF this, of f] show ?thesis using assms that MethodNode Some
        by (auto dest: relations_of_drawn)
    qed
  qed
  then show "drawn rels = rels" "\<not> (\<exists>r \<in> set rels. endless r)"
    "\<forall>r \<in> set rels. RelFrom r = Some (MIdentifier (MethodFacts m))"
    by (auto simp: drawn_def endless_def filter_id_conv)
qed

text \<open>C19: the source drawn from what \<open>CollectRelationships\<close> returns for a method is always built, and lists as the
  callees of the method one step per relationship, in the order of the walk.\<close>

theorem collected_graph:
  assumes "CollectRelationships m = Inr rels"
  shows "\<exists>src. FromRelationships u label render [Some (MIdentifier (MethodFacts m))] rels (Some desc) = Inr src \<and>
    src_out src (IdentityKey u (MIdentifier (MethodFacts m))) =
      Inr (map (\<lambda>r. \<lparr> SNode = the (node_at u desc label (MIdentifier (MethodFacts m) # concat (map ends rels)) (IdentityKey u (the (RelTo r)))),
        SEdge = edge_of render r \<rparr>) rels)"
proof -
  let ?i = "MIdentifier (MethodFacts m)"
  let ?s = "source_state u desc label render [?i] rels"
  have none: "index_of endless rels = None" using collected_drawn(2) [OF assms] by (simp add: index_of_None)
  have key: "IdentityKey u ?i \<in> IdentityKey u ` set (?i # concat (map ends rels))" by simp
  have all: "filter (\<lambda>r. IdentityKey u (the (RelFrom r)) = IdentityKey u ?i) rels = rels"
    using collected_drawn(3) [OF assms] by (auto simp: filter_id_conv)
  have "rs_Out u ?s (IdentityKey u ?i) = Inr (rs_out ?s (IdentityKey u ?i))"
    using serve_known [of ?s u desc label "?i # concat (map ends rels)" "IdentityKey u ?i"] key
    by (simp add: source_state_def Let_def known_def)
  then show ?thesis unfolding FromRelationships_spec
    using none all collected_drawn(1) [OF assms]
    by (simp add: Let_def) (simp add: source_state_def Let_def steps_from_def)
qed

definition sample_method :: method_node where
  "sample_method = MethodNode
     \<lparr> MIdentifier = NilIdentifier\<lparr> Method := ''m'' \<rparr>, MVisibility = [], MParams = [], MReturns = [], MErrors = [],
       MTypeParams = [], MReturnType = None, MIsAsync = False, MIsGenerator = False, MProperties = [],
       MSQLDependencies = [], MSQLRuntimeDependencies = [], MSQLQuotedIdentifierOff = False,
       MSource = no_source \<rparr>
     (Some (BlockStmt no_base []
       [Some (SMethodCall (MethodCallStmt no_base (Some (NilIdentifier\<lparr> Method := ''n'' \<rparr>)) None [] False))]))"

lemma sample_rels:
  "CollectRelationships sample_method =
     Inr [relate (NilIdentifier\<lparr> Method := ''m'' \<rparr>) no_source [] (RelationshipTypeCall, NilIdentifier\<lparr> Method := ''n'' \<rparr>)]"
  by (simp add: sample_method_def collect_body walk_order_def inner_all_def inner_exprs_def next_statements_def
      step_visit_def collect_visit_def namedTargets_def receiver_exprs_def argument_exprs_def empty_scope_def
      relate_def no_base_def)

theorem collected_graph_witness:
  "\<exists>src s. FromRelationships ascii_tables GetName (\<lambda>_. []) [Some (MIdentifier (MethodFacts sample_method))]
      [relate (NilIdentifier\<lparr> Method := ''m'' \<rparr>) no_source [] (RelationshipTypeCall, NilIdentifier\<lparr> Method := ''n'' \<rparr>)]
      (Some (\<lambda>_. no_node)) = Inr src \<and>
    src_out src (IdentityKey ascii_tables (MIdentifier (MethodFacts sample_method))) = Inr [s]"
  using collected_graph [OF sample_rels, of ascii_tables GetName "\<lambda>_. []" "\<lambda>_. no_node"] by auto

end
