(* ===== verification/Node_Model.thy ===== *)
theory Node_Model
  imports Statement
begin

text \<open>
  The nodes of a program model (\<open>node_types.go\<close>, \<open>record.go\<close>, \<open>endpoint.go\<close>, \<open>table.go\<close>,
  \<open>noderef.go\<close>, \<open>uir.go\<close>): modules of packages of types, records, tables, endpoints and functions, the
  wrapper that holds one of them, and the root that holds all. A slice that is nil and one that is empty
  read alike everywhere here, and both are the empty list. Values only their JSON encoding is read of are
  held as that encoding.
\<close>

subsection \<open>Node types\<close>

definition NodeTypeRecord :: node_type where "NodeTypeRecord = ''record''"
definition NodeTypeFunction :: node_type where "NodeTypeFunction = ''function''"
definition NodeTypeTable :: node_type where "NodeTypeTable = ''table''"
definition NodeTypeColumn :: node_type where "NodeTypeColumn = ''column''"
definition NodeTypeIndex :: node_type where "NodeTypeIndex = ''index''"
definition NodeTypeForeignKey :: node_type where "NodeTypeForeignKey = ''foreign_key''"
definition NodeTypeRef :: node_type where "NodeTypeRef = ''ref''"

definition VisibilityPublic :: gostring where "VisibilityPublic = ''public''"
definition VisibilityNA :: gostring where "VisibilityNA = ''''"

subsection \<open>Nodes\<close>

text \<open>A property is a string or any other value.\<close>

datatype property = PString gostring | POther gostring

record node_base =
  NBIdentifier :: ident
  Annotations :: "gostring list"
  Comments :: "gostring list"
  Properties :: "(gostring \<times> property) list"
  NBSource :: source_code

definition no_node_base :: node_base where
  "no_node_base =
     \<lparr> NBIdentifier = NilIdentifier, Annotations = [], Comments = [], Properties = [], NBSource = no_source \<rparr>"

record record_reference =
  RRName :: gostring
  RRMapping :: gostring
  RRType :: gostring

record record_facts =
  RBase :: node_base
  RDescription :: gostring
  RRecordType :: gostring
  RFields :: "record_field list"
  RValidation :: gostring
  RReferences :: "record_reference list"

datatype ast_record = ASTRecord (RFacts: record_facts) (RExtends: "ast_record list")

record ast_endpoint =
  EpBase :: node_base
  EpMethod :: gostring
  EpType :: gostring
  EpInput :: ast_record
  EpOutput :: ast_record
  EpErrors :: "ast_error list"

record typed_facts =
  TBase :: node_base
  TVisibility :: gostring
  TVariables :: "record_field list"
  TMethods :: "method_node list"
  TConstructor :: "method_node option"
  TDestructor :: "method_node option"
  TTypeParams :: "type_param list"
  TImplements :: "type_ref list"
  TExtends :: "type_ref option"
  TIsAbstract :: bool

datatype typed_node = TypedNode (TFacts: typed_facts) (TTypes: "typed_node list")

record sql_identity =
  Seed :: int
  Increment :: int

record sql_default =
  DefName :: gostring
  DefExpression :: gostring
  SystemNamed :: bool

record sql_check =
  CheckName :: gostring
  CheckExpression :: gostring

record record_column =
  ColBase :: node_base
  ColLabel :: gostring
  ColSQLType :: gostring
  ColFieldType :: gostring
  ColOrdinal :: int
  ColNullable :: bool
  ColPrimaryKey :: bool
  ColAutoIncrement :: bool
  ColUnique :: bool
  ColMaxLength :: "int option"
  ColPrecision :: "int option"
  ColScale :: "int option"
  ColDefaultValue :: "gostring option"
  ColIdentity :: "sql_identity option"
  ColSQLDefault :: "sql_default option"
  ColCollation :: gostring
  ColRowGUID :: bool
  ColEnum :: "gostring list"

record record_index =
  IxBase :: node_base
  IxColumns :: "gostring list"
  IxIncluded :: "gostring list"
  IxUnique :: bool
  IxPrimary :: bool
  IxClustered :: bool
  IxType :: gostring
  IxCondition :: gostring
  IxDescending :: "gostring list"
  IxConstraint :: bool
  IxFillFactor :: int

record record_foreign_key =
  FKBase :: node_base
  FKColumns :: "gostring list"
  ReferencedSchema :: gostring
  ReferencedTable :: gostring
  ReferencedColumns :: "gostring list"
  OnDelete :: gostring
  OnUpdate :: gostring

record record_table =
  TabBase :: node_base
  TabDescription :: gostring
  TabRecordType :: gostring
  TabColumns :: "record_column list"
  TabPrimaryKey :: "gostring list"
  TabIndexes :: "record_index list"
  TabForeignKeys :: "record_foreign_key list"
  TabChecks :: "sql_check list"
  TabSQLDependencies :: "sql_dependency list"
  TabSQLRuntimeDependencies :: "sql_runtime_dependency list"
  TabSQLQuotedIdentifierOff :: bool
  RowCount :: "int option"
  TabDefinition :: "block_stmt option"
  TabTriggers :: "method_node list"

record package_node =
  PBase :: node_base
  PTypes :: "typed_node list"
  PRecords :: "ast_record list"
  PTables :: "record_table list"
  PEndpoints :: "ast_endpoint list"
  PFunctions :: "method_node list"
  PVariables :: "record_field list"
  PInitFunctions :: "method_node list"

record module_node =
  ModBase :: node_base
  ModPackages :: "package_node list"

text \<open>\<open>UIRNode\<close>: the wrapper that should hold one node.\<close>

record node_wrapper =
  WModule :: "module_node option"
  WPackage :: "package_node option"
  WType :: "typed_node option"
  WRecord :: "ast_record option"
  WTable :: "record_table option"
  WEndpoint :: "ast_endpoint option"
  WFunction :: "method_node option"

record hierarchy_node =
  HNId :: gostring
  HNKind :: gostring
  HNName :: gostring

text \<open>The root without the warnings of \<open>Add\<close>, which name nodes.\<close>

record uir_data =
  Modules :: "module_node list"
  Packages :: "package_node list"
  Types :: "typed_node list"
  Records :: "ast_record list"
  Tables :: "record_table list"
  Endpoints :: "ast_endpoint list"
  Functions :: "method_node list"
  Hierarchy :: "hierarchy_node list option"
  RawFiles :: "(gostring \<times> gostring) list"

text \<open>The values of the \<open>Node\<close> interface; a pointer to a node reads as the node.\<close>

datatype (plugins only: code size) uir_node =
  NModule module_node
| NPackage package_node
| NTyped typed_node
| NMethod method_node
| NRecord ast_record
| NEndpoint ast_endpoint
| NField record_field
| NTable record_table
| NColumn record_column
| NIndex record_index
| NForeignKey record_foreign_key
| NRef ident
| NNil
| NWrapper node_wrapper
| NUIR uir_data
| NList "uir_node list"

record uir = uir_data +
  Warnings :: "(gostring \<times> uir_node) list"

subsection \<open>What every node answers\<close>

text \<open>\<open>UIRNode.Value\<close>: the first node it holds.\<close>

definition wrapper_Value :: "node_wrapper \<Rightarrow> uir_node" where
  "wrapper_Value w =
     (case firstStatement
        [map_option NModule (WModule w), map_option NPackage (WPackage w), map_option NTyped (WType w),
         map_option NRecord (WRecord w), map_option NTable (WTable w), map_option NEndpoint (WEndpoint w),
         map_option NMethod (WFunction w)] of
        Some n \<Rightarrow> n
      | None \<Rightarrow> NNil)"

fun direct_identifier :: "uir_node \<Rightarrow> ident" where
  "direct_identifier (NModule m) = NBIdentifier (ModBase m)"
| "direct_identifier (NPackage p) = NBIdentifier (PBase p)"
| "direct_identifier (NTyped t) = NBIdentifier (TBase (TFacts t))"
| "direct_identifier (NMethod m) = MIdentifier (MethodFacts m)"
| "direct_identifier (NRecord r) = NBIdentifier (RBase (RFacts r))"
| "direct_identifier (NEndpoint e) = NBIdentifier (EpBase e)"
| "direct_identifier (NField f) = RFIdentifier f"
| "direct_identifier (NTable t) = NBIdentifier (TabBase t)"
| "direct_identifier (NColumn c) = NBIdentifier (ColBase c)"
| "direct_identifier (NIndex i) = NBIdentifier (IxBase i)"
| "direct_identifier (NForeignKey f) = NBIdentifier (FKBase f)"
| "direct_identifier (NRef i) = i"
| "direct_identifier _ = NilIdentifier"

definition GetIdentifier :: "uir_node \<Rightarrow> ident" where
  "GetIdentifier n = direct_identifier (case n of NWrapper w \<Rightarrow> wrapper_Value w | _ \<Rightarrow> n)"

definition wrapper_GetType :: "node_wrapper \<Rightarrow> node_type" where
  "wrapper_GetType w =
     (let t = NodeType (direct_identifier (wrapper_Value w)) in
      if t \<noteq> NodeTypeUnknown then t
      else if WFunction w \<noteq> None then NodeTypeFunction
      else if WEndpoint w \<noteq> None then NodeTypeEndpoint
      else if WRecord w \<noteq> None then NodeTypeRecord
      else if WTable w \<noteq> None then NodeTypeTable
      else if WType w \<noteq> None then NodeTypeType
      else if WPackage w \<noteq> None then NodeTypePackage
      else if WModule w \<noteq> None then NodeTypeModule
      else NodeTypeUnknown)"

fun GetType :: "uir_node \<Rightarrow> node_type" where
  "GetType (NModule _) = NodeTypeModule"
| "GetType (NPackage _) = NodeTypePackage"
| "GetType (NTyped _) = NodeTypeType"
| "GetType (NMethod _) = NodeTypeMethod"
| "GetType (NRecord _) = NodeTypeRecord"
| "GetType (NEndpoint _) = NodeTypeEndpoint"
| "GetType (NField _) = NodeTypeField"
| "GetType (NTable _) = NodeTypeTable"
| "GetType (NColumn _) = NodeTypeColumn"
| "GetType (NIndex _) = NodeTypeIndex"
| "GetType (NForeignKey _) = NodeTypeForeignKey"
| "GetType (NRef i) = NodeType i"
| "GetType (NWrapper w) = wrapper_GetType w"
| "GetType (NNil) = NodeTypeUnknown"
| "GetType (NUIR _) = NodeTypeUnknown"
| "GetType (NList _) = NodeTypeUnknown"

text \<open>\<open>GetChildren\<close>, per node type; a method and an endpoint answer none.\<close>

definition typed_children :: "typed_node \<Rightarrow> uir_node list" where
  "typed_children t =
     (let f = TFacts t in
      map NField (TVariables f) @ map NMethod (of_option (\<lambda>m. [m]) (TConstructor f)) @
      map NMethod (of_option (\<lambda>m. [m]) (TDestructor f)) @ map NMethod (TMethods f) @ map NTyped (TTypes t))"

definition table_children :: "record_table \<Rightarrow> uir_node list" where
  "table_children t =
     map NColumn (TabColumns t) @ map NIndex (TabIndexes t) @ map NForeignKey (TabForeignKeys t) @
     map NMethod (TabTriggers t)"

definition package_children :: "package_node \<Rightarrow> uir_node list" where
  "package_children p =
     map NTyped (PTypes p) @ map NRecord (PRecords p) @ map NTable (PTables p) @ map NEndpoint (PEndpoints p) @
     map NMethod (PFunctions p) @ map NMethod (PInitFunctions p)"

definition uir_children :: "('a uir_data_scheme) \<Rightarrow> uir_node list" where
  "uir_children x =
     map NModule (Modules x) @ map NPackage (Packages x) @ map NTyped (Types x) @ map NRecord (Records x) @
     map NTable (Tables x) @ map NEndpoint (Endpoints x) @ map NMethod (Functions x)"

fun direct_children :: "uir_node \<Rightarrow> uir_node list" where
  "direct_children (NModule m) = map NPackage (ModPackages m)"
| "direct_children (NPackage p) = package_children p"
| "direct_children (NTyped t) = typed_children t"
| "direct_children (NRecord r) = map NField (RFields (RFacts r))"
| "direct_children (NTable t) = table_children t"
| "direct_children (NUIR x) = uir_children x"
| "direct_children (NList ns) = ns"
| "direct_children _ = []"

definition GetChildren :: "uir_node \<Rightarrow> uir_node list" where
  "GetChildren n = direct_children (case n of NWrapper w \<Rightarrow> wrapper_Value w | _ \<Rightarrow> n)"

fun direct_source :: "uir_node \<Rightarrow> source_code" where
  "direct_source (NModule m) = NBSource (ModBase m)"
| "direct_source (NPackage p) = NBSource (PBase p)"
| "direct_source (NTyped t) = NBSource (TBase (TFacts t))"
| "direct_source (NMethod m) = MSource (MethodFacts m)"
| "direct_source (NRecord r) = NBSource (RBase (RFacts r))"
| "direct_source (NEndpoint e) = NBSource (EpBase e)"
| "direct_source (NField f) = RFSource f"
| "direct_source (NTable t) = NBSource (TabBase t)"
| "direct_source (NColumn c) = NBSource (ColBase c)"
| "direct_source (NIndex i) = NBSource (IxBase i)"
| "direct_source (NForeignKey f) = NBSource (FKBase f)"
| "direct_source _ = no_source"

definition GetSource :: "uir_node \<Rightarrow> source_code" where
  "GetSource n = direct_source (case n of NWrapper w \<Rightarrow> wrapper_Value w | _ \<Rightarrow> n)"

definition GetLocation :: "uir_node \<Rightarrow> uir_location" where
  "GetLocation n = Location (GetSource n)"

definition GetLanguage :: "uir_node \<Rightarrow> gostring" where
  "GetLanguage n = (case SourceLanguage (GetSource n) of None \<Rightarrow> [] | Some l \<Rightarrow> l)"

datatype wrapper_error = NoChild | ManyChildren

definition wrapper_Validate :: "node_wrapper \<Rightarrow> (wrapper_error, unit) outcome" where
  "wrapper_Validate w =
     (let count = (if WModule w \<noteq> None then 1 else 0) + (if WPackage w \<noteq> None then 1 else 0) +
        (if WType w \<noteq> None then 1 else 0) + (if WRecord w \<noteq> None then 1 else 0) + (if WTable w \<noteq> None then 1 else 0) +
        (if WEndpoint w \<noteq> None then 1 else 0) + (if WFunction w \<noteq> None then 1 else (0 :: nat)) in
      if count = 0 then Inl NoChild else if count > 1 then Inl ManyChildren else Inr ())"

text \<open>\<open>SymbolRefForNode\<close>.\<close>

record symbol_ref =
  SymbolKind :: gostring
  SRModule :: gostring
  SRPackage :: gostring
  SRType :: gostring
  SRMethod :: gostring
  SRName :: gostring

definition own_name :: "uir_node \<Rightarrow> ident \<Rightarrow> gostring" where
  "own_name n i =
     (case n of
        NTyped _ \<Rightarrow> Type i | NMethod _ \<Rightarrow> Method i | NPackage _ \<Rightarrow> Package i | NModule _ \<Rightarrow> Module i
      | NRecord _ \<Rightarrow> Type i | NEndpoint _ \<Rightarrow> Type i | NField _ \<Rightarrow> Field i | NTable _ \<Rightarrow> Type i
      | NColumn _ \<Rightarrow> Field i | NIndex _ \<Rightarrow> Field i | NForeignKey _ \<Rightarrow> Field i | _ \<Rightarrow> Field i)"

definition SymbolRefForNode :: "uir_node \<Rightarrow> symbol_ref" where
  "SymbolRefForNode n =
     (let i = GetIdentifier n; name = own_name n i;
          name = (if name \<noteq> [] then name
                  else if Method i \<noteq> [] then Method i
                  else if Type i \<noteq> [] then Type i
                  else if Package i \<noteq> [] then Package i
                  else if Module i \<noteq> [] then Module i else [])
      in \<lparr> SymbolKind = GetType n, SRModule = Module i, SRPackage = Package i, SRType = Type i, SRMethod = Method i,
           SRName = name \<rparr>)"

end
