(* ===== verification/Go_JSON.thy ===== *)
theory Go_JSON
  imports Go_Quote Go_Numbers
begin

text \<open>
  What \<open>encoding/json\<close> writes for strings, integers, truth values, lists and structs: strings with its HTML
  escapes, a struct as its fields in order, an \<open>omitempty\<close> field only when it has a value.
\<close>

definition json_rune :: "nat \<times> gostring \<Rightarrow> gostring" where
  "json_rune p =
     (let r = fst p; esc = (\<lambda>c. [CHR 0x5C, c]); uni = (\<lambda>r. [CHR 0x5C, CHR ''u''] @ hex_digits 4 r) in
      if length (snd p) = 1 \<and> r = rune_error then uni rune_error
      else if r = 0x22 \<or> r = 0x5C then esc (char_of r)
      else if r = 8 then esc (CHR ''b'')
      else if r = 12 then esc (CHR ''f'')
      else if r = 10 then esc (CHR ''n'')
      else if r = 13 then esc (CHR ''r'')
      else if r = 9 then esc (CHR ''t'')
      else if r < 0x20 \<or> r \<in> {0x3C, 0x3E, 0x26, 0x2028, 0x2029} then uni r
      else snd p)"

definition json_string :: "gostring \<Rightarrow> gostring" where
  "json_string s = [CHR 0x22] @ concat (map json_rune (runes s)) @ [CHR 0x22]"

definition json_list :: "gostring list \<Rightarrow> gostring" where
  "json_list xs = ''['' @ join_with '','' xs @ '']''"

text \<open>A field of a struct: its key with its encoding, or nothing when it is left out.\<close>

definition json_field :: "gostring \<Rightarrow> gostring \<Rightarrow> gostring list" where
  "json_field k v = [json_string k @ '':'' @ v]"

definition omit_when :: "bool \<Rightarrow> gostring list \<Rightarrow> gostring list" where
  "omit_when absent f = (if absent then [] else f)"

definition json_struct :: "gostring list list \<Rightarrow> gostring" where
  "json_struct fs = ''{'' @ join_with '','' (concat fs) @ ''}''"

end
