(* ===== verification/Hasher.thy ===== *)
theory Hasher
  imports Statement
begin

text \<open>
  The hasher of \<open>hash.go\<close>: a digest that is fed named values one at a time. The digest function is an
  argument, \<open>sha256.Sum256\<close> where the code runs. A hasher is kept as the values it was fed, a value being a
  text or the digest of another hasher, and digested when it is read; the lemmas show that two hashers
  with one digest were fed the same, as long as the digest function does not collide on what the two feed it.
\<close>

subsection \<open>The hasher\<close>

datatype hasher = NewHasher gostring | Fed hasher gostring hashed
and hashed = Text gostring | Digest hasher

definition NUL :: char where "NUL = CHR 0x00"

definition hex_encode :: "gostring \<Rightarrow> gostring" where
  "hex_encode s = concat (map (\<lambda>c. [hex_digit (byte c div 16), hex_digit (byte c)]) s)"

fun hash_bytes :: "(gostring \<Rightarrow> gostring) \<Rightarrow> hasher \<Rightarrow> gostring"
  and hashed_text :: "(gostring \<Rightarrow> gostring) \<Rightarrow> hashed \<Rightarrow> gostring" where
  "hash_bytes sha (NewHasher kind) = sha (''uir:'' @ kind)"
| "hash_bytes sha (Fed h field v) = sha (hash_bytes sha h @ NUL # field @ NUL # hashed_text sha v)"
| "hashed_text sha (Text s) = s"
| "hashed_text sha (Digest h) = hex_encode (hash_bytes sha h)"

definition hash_String :: "(gostring \<Rightarrow> gostring) \<Rightarrow> hasher \<Rightarrow> gostring" where
  "hash_String sha h = hex_encode (hash_bytes sha h)"

definition AddString :: "gostring \<Rightarrow> gostring \<Rightarrow> hasher \<Rightarrow> hasher" where
  "AddString field s h = Fed h field (Text s)"

definition AddHash :: "gostring \<Rightarrow> hasher \<Rightarrow> hasher \<Rightarrow> hasher" where
  "AddHash field g h = Fed h field (Digest g)"

definition AddBool :: "gostring \<Rightarrow> bool \<Rightarrow> hasher \<Rightarrow> hasher" where
  "AddBool field b = AddString field (format_bool b)"

definition AddInt :: "gostring \<Rightarrow> int \<Rightarrow> hasher \<Rightarrow> hasher" where
  "AddInt field i = AddString field (itoa i)"

definition AddStringPtr :: "gostring \<Rightarrow> gostring option \<Rightarrow> hasher \<Rightarrow> hasher" where
  "AddStringPtr field s = AddString field (case s of None \<Rightarrow> ''<nil>'' | Some s \<Rightarrow> s)"

text \<open>A field of a list element, \<open>fmt.Sprintf("%s.%d", field, i)\<close>, and the elements added under it.\<close>

definition indexed :: "gostring \<Rightarrow> nat \<Rightarrow> gostring" where
  "indexed field i = field @ ''.'' @ itoa (int i)"

fun add_each :: "(nat \<Rightarrow> 'a \<Rightarrow> hasher \<Rightarrow> hasher) \<Rightarrow> nat \<Rightarrow> 'a list \<Rightarrow> hasher \<Rightarrow> hasher" where
  "add_each f i [] h = h"
| "add_each f i (x # xs) h = add_each f (Suc i) xs (f i x h)"

lemma add_each_cong [fundef_cong]:
  "i = j \<Longrightarrow> xs = ys \<Longrightarrow> h = k \<Longrightarrow> (\<And>n x g. x \<in> set ys \<Longrightarrow> f n x g = f' n x g) \<Longrightarrow>
     add_each f i xs h = add_each f' j ys k"
  by (induction xs arbitrary: i j ys h k) auto

definition add_list :: "gostring \<Rightarrow> (nat \<Rightarrow> 'a \<Rightarrow> hasher \<Rightarrow> hasher) \<Rightarrow> 'a list \<Rightarrow> hasher \<Rightarrow> hasher" where
  "add_list field f xs h = add_each f 0 xs (AddInt (field @ ''.len'') (int (length xs)) h)"

lemma add_list_cong [fundef_cong]:
  "field = field' \<Longrightarrow> xs = ys \<Longrightarrow> h = k \<Longrightarrow> (\<And>n x g. x \<in> set ys \<Longrightarrow> f n x g = f' n x g) \<Longrightarrow>
     add_list field f xs h = add_list field' f' ys k"
  by (simp add: add_list_def cong: add_each_cong)

definition AddStringSlice :: "gostring \<Rightarrow> gostring list \<Rightarrow> hasher \<Rightarrow> hasher" where
  "AddStringSlice field = add_list field (\<lambda>i. AddString (indexed field i))"

definition AddRecordFields :: "(record_field \<Rightarrow> hasher) \<Rightarrow> gostring \<Rightarrow> record_field list \<Rightarrow> hasher \<Rightarrow> hasher" where
  "AddRecordFields field_hash field = add_list field (\<lambda>i f. AddHash (indexed field i) (field_hash f))"

text \<open>A node is added by its type and its hash, a nil node by a word of its own.\<close>

definition AddNode :: "gostring \<Rightarrow> (gostring \<times> hasher) option \<Rightarrow> hasher \<Rightarrow> hasher" where
  "AddNode field node h =
     (case node of
        None \<Rightarrow> AddString field ''<nil>'' h
      | Some (typ, g) \<Rightarrow> AddHash (field @ ''.hash'') g (AddString (field @ ''.type'') typ h))"

definition AddNodeList :: "gostring \<Rightarrow> (gostring \<times> hasher) option list \<Rightarrow> hasher \<Rightarrow> hasher" where
  "AddNodeList field = add_list field (\<lambda>i. AddNode (indexed field i))"

subsection \<open>What a digest determines\<close>

text \<open>What a hasher hands the digest function.\<close>

fun fed :: "(gostring \<Rightarrow> gostring) \<Rightarrow> hasher \<Rightarrow> gostring set" and fed_value :: "(gostring \<Rightarrow> gostring) \<Rightarrow> hashed \<Rightarrow> gostring set" where
  "fed sha (NewHasher kind) = {''uir:'' @ kind}"
| "fed sha (Fed h field v) =
     insert (hash_bytes sha h @ NUL # field @ NUL # hashed_text sha v) (fed sha h \<union> fed_value sha v)"
| "fed_value sha (Text s) = {}"
| "fed_value sha (Digest h) = fed sha h"

text \<open>Two hashers are fed alike when they agree on kind, fields and values, where a text may also spell the
  digest of a hasher.\<close>

fun alike :: "(gostring \<Rightarrow> gostring) \<Rightarrow> hasher \<Rightarrow> hasher \<Rightarrow> bool" and alike_value :: "(gostring \<Rightarrow> gostring) \<Rightarrow> hashed \<Rightarrow> hashed \<Rightarrow> bool" where
  "alike sha (NewHasher k) h = (h = NewHasher k)"
| "alike sha (Fed g f v) h =
     (case h of NewHasher _ \<Rightarrow> False | Fed g' f' v' \<Rightarrow> alike sha g g' \<and> f = f' \<and> alike_value sha v v')"
| "alike_value sha (Text s) v = (s = hashed_text sha v)"
| "alike_value sha (Digest g) v =
     (case v of Text s \<Rightarrow> s = hex_encode (hash_bytes sha g) | Digest h \<Rightarrow> alike sha g h)"

definition nul_free :: "gostring \<Rightarrow> bool" where
  "nul_free s \<longleftrightarrow> NUL \<notin> set s"

lemma nul_free_simps [simp]:
  "nul_free []" "nul_free (c # s) \<longleftrightarrow> c \<noteq> CHR 0x00 \<and> nul_free s" "nul_free (s @ t) \<longleftrightarrow> nul_free s \<and> nul_free t"
  by (auto simp: nul_free_def NUL_def)

lemma nul_free_itoa [simp]: "nul_free (itoa i)"
proof -
  have "c \<in> set (digits n) \<Longrightarrow> c \<noteq> NUL" for c n
    using digits_digit [of c n] by (auto simp: is_digit_def NUL_def byte_def)
  then show ?thesis by (auto simp: itoa_def nul_free_def NUL_def)
qed

lemma nul_free_indexed [simp]: "nul_free (indexed f i) \<longleftrightarrow> nul_free f"
  by (simp add: indexed_def)

fun clean :: "hasher \<Rightarrow> bool" and clean_value :: "hashed \<Rightarrow> bool" where
  "clean (NewHasher k) = nul_free k"
| "clean (Fed h f v) = (clean h \<and> nul_free f \<and> clean_value v)"
| "clean_value (Text s) = True"
| "clean_value (Digest h) = clean h"

lemma hex_digit_inject: "m < 16 \<Longrightarrow> n < 16 \<Longrightarrow> hex_digit m = hex_digit n \<Longrightarrow> m = n"
proof -
  have "distinct lowerhex" "length lowerhex = 16" by (simp_all add: lowerhex_def)
  then show "m < 16 \<Longrightarrow> n < 16 \<Longrightarrow> hex_digit m = hex_digit n \<Longrightarrow> m = n"
    by (simp add: hex_digit_def nth_eq_iff_index_eq)
qed

lemma hex_encode_inject: "hex_encode s = hex_encode t \<Longrightarrow> s = t"
proof (induction s arbitrary: t)
  case Nil
  then show ?case by (cases t) (simp_all add: hex_encode_def)
next
  case (Cons c s)
  then obtain d t' where t: "t = d # t'" by (cases t) (auto simp: hex_encode_def)
  with Cons.prems have e: "hex_digit (byte c div 16) = hex_digit (byte d div 16)" "hex_digit (byte c) = hex_digit (byte d)"
    "hex_encode s = hex_encode t'" by (simp_all add: hex_encode_def)
  have "byte c div 16 = byte d div 16"
    using e(1) byte_less [of c] byte_less [of d] by (intro hex_digit_inject) linarith+
  moreover have "hex_digit (byte c mod 16) = hex_digit (byte d mod 16)" using e(2) by (simp add: hex_digit_def)
  then have "byte c mod 16 = byte d mod 16" by (intro hex_digit_inject) simp_all
  ultimately have "byte c = byte d" by (metis div_mult_mod_eq)
  with Cons.IH [OF e(3)] t show ?case by (auto intro: byte_inj)
qed

lemma split_NUL: "NUL \<notin> set f \<Longrightarrow> NUL \<notin> set f' \<Longrightarrow> f @ NUL # v = f' @ NUL # v' \<longleftrightarrow> f = f' \<and> v = v'"
proof (induction f arbitrary: f')
  case Nil
  then show ?case by (cases f') auto
next
  case (Cons c f)
  then show ?case by (cases f') auto
qed

lemma fed_step:
  assumes "\<forall>x. length (sha x) = 32" "nul_free f" "nul_free f'"
    "hash_bytes sha g @ NUL # f @ NUL # v = hash_bytes sha h @ NUL # f' @ NUL # v'"
  shows "hash_bytes sha g = hash_bytes sha h \<and> f = f' \<and> v = v'"
proof -
  have "length (hash_bytes sha x) = 32" for x using assms(1) by (cases x) auto
  then have "hash_bytes sha g = hash_bytes sha h" "f @ NUL # v = f' @ NUL # v'"
    using assms(4) by (simp_all add: append_eq_append_conv)
  then show ?thesis using split_NUL assms(2,3) unfolding nul_free_def by blast
qed

lemma digest_alike:
  assumes len: "\<forall>x. length (sha x) = 32"
  shows "inj_on sha (fed sha g \<union> fed sha h) \<Longrightarrow> clean g \<Longrightarrow> clean h \<Longrightarrow> hash_bytes sha g = hash_bytes sha h \<Longrightarrow> alike sha g h"
    and "inj_on sha (fed_value sha v \<union> fed_value sha w) \<Longrightarrow> clean_value v \<Longrightarrow> clean_value w \<Longrightarrow>
      hashed_text sha v = hashed_text sha w \<Longrightarrow> alike_value sha v w"
proof (induction g and v arbitrary: h and w)
  case (NewHasher k)
  show ?case
  proof (cases h)
    case h: (NewHasher k')
    have "''uir:'' @ k = ''uir:'' @ k'" using NewHasher(4) h by - (rule inj_onD [OF NewHasher(1)], simp_all)
    then show ?thesis using h by simp
  next
    case (Fed h' f v)
    then have "''uir:'' @ k = hash_bytes sha h' @ NUL # f @ NUL # hashed_text sha v"
      using NewHasher(4) by - (rule inj_onD [OF NewHasher(1)], simp_all)
    then have "\<not> nul_free (''uir:'' @ k)" by (simp add: NUL_def)
    then show ?thesis using NewHasher by simp
  qed
next
  case (Fed g f v)
  show ?case
  proof (cases h)
    case (NewHasher k)
    then have "hash_bytes sha g @ NUL # f @ NUL # hashed_text sha v = ''uir:'' @ k"
      using Fed.prems(4) by - (rule inj_onD [OF Fed.prems(1)], simp_all)
    from this [symmetric] have "\<not> nul_free (''uir:'' @ k)" by (simp add: NUL_def)
    then show ?thesis using NewHasher Fed.prems by simp
  next
    case h: (Fed h' f' v')
    have "hash_bytes sha g @ NUL # f @ NUL # hashed_text sha v = hash_bytes sha h' @ NUL # f' @ NUL # hashed_text sha v'"
      using Fed.prems(4) h by - (rule inj_onD [OF Fed.prems(1)], simp_all)
    from fed_step [OF len _ _ this] have eq: "hash_bytes sha g = hash_bytes sha h'" "f = f'" "hashed_text sha v = hashed_text sha v'"
      using Fed.prems h by simp_all
    have "inj_on sha (fed sha g \<union> fed sha h')" "inj_on sha (fed_value sha v \<union> fed_value sha v')"
      using Fed.prems(1) h by (auto elim: inj_on_subset)
    then show ?thesis using Fed.IH eq Fed.prems h by simp
  qed
next
  case (Digest g)
  show ?case
  proof (cases w)
    case (Digest h)
    then show ?thesis using Digest.IH [of h] Digest.prems hex_encode_inject by simp
  qed (use Digest.prems in simp)
qed simp_all

text \<open>hashers with one digest were fed the same kind, fields and values in the same order, as long as the
  digest function does not collide on what the two feed it; only a text that spells a digest stands for it.\<close>

theorem hash_String_alike:
  assumes "\<forall>x. length (sha x) = 32" "inj_on sha (fed sha g \<union> fed sha h)" "clean g" "clean h"
    "hash_String sha g = hash_String sha h"
  shows "alike sha g h"
  using digest_alike(1) [OF assms(1-4)] assms(5) hex_encode_inject unfolding hash_String_def by blast

text \<open>A digest function of 32 bytes that tells short inputs apart.\<close>

definition pad_hash :: "gostring \<Rightarrow> gostring" where
  "pad_hash s = take 32 (s @ replicate 32 (CHR ''.''))"

theorem hash_String_alike_witness:
  "alike pad_hash (NewHasher ''a'') (NewHasher ''a'') \<and> hash_String pad_hash (NewHasher ''a'') \<noteq> hash_String pad_hash (NewHasher ''b'')"
proof -
  have len: "\<forall>x. length (pad_hash x) = 32" by (auto simp: pad_hash_def min_def)
  have inj: "inj_on pad_hash (fed pad_hash (NewHasher ''a'') \<union> fed pad_hash (NewHasher ''b''))"
    by (simp add: pad_hash_def)
  have clean: "clean (NewHasher ''a'')" "clean (NewHasher ''b'')" by simp_all
  have "\<not> alike pad_hash (NewHasher ''a'') (NewHasher ''b'')" by simp
  moreover have "alike pad_hash (NewHasher ''a'') (NewHasher ''a'')"
    by (rule hash_String_alike [OF len _ clean(1) clean(1)]) simp_all
  ultimately show ?thesis using hash_String_alike [OF len inj clean] by blast
qed

text \<open>a nil string and the string \<open><nil>\<close> are fed alike, so the hasher cannot tell them apart; all other pairs
  of strings it feeds differently.\<close>

theorem AddStringPtr_nil:
  "AddStringPtr f s h = AddStringPtr f t h \<longleftrightarrow> s = t \<or> {s, t} = {None, Some ''<nil>''}"
  by (auto simp: AddStringPtr_def AddString_def split: option.splits)

end
