(* ===== verification/Fingerprint_Text.thy ===== *)
theory Fingerprint_Text
  imports Node_Model Go_JSON Hasher "HOL-Library.List_Lexorder" "HOL-Library.Char_ord" "HOL-Library.Product_Lexorder"
begin

text \<open>
  The canonical text of a node's facts (\<open>fingerprint_layers.go\<close>, \<open>fingerprint_table.go\<close>): type references,
  parameters, signatures, columns, indexes and keys, as the public and the private layer spell them.
\<close>

datatype layer = LayerPublic | LayerPrivate | LayerContent

definition visibilityText :: "gostring \<Rightarrow> gostring" where
  "visibilityText v = (if v = VisibilityNA then [] else '' '' @ v)"

definition flagText :: "bool \<Rightarrow> gostring \<Rightarrow> gostring" where
  "flagText on flag = (if \<not> on then [] else '' '' @ flag)"

definition sqlTypeText :: "gostring \<Rightarrow> gostring \<Rightarrow> gostring" where
  "sqlTypeText sqlType fieldType =
     (if sqlType \<noteq> [] then '' '' @ sqlType else []) @
     (if fieldType \<noteq> [] then '' ('' @ fieldType @ '')'' else [])"

definition intText :: "gostring \<Rightarrow> int option \<Rightarrow> gostring" where
  "intText name v = (case v of None \<Rightarrow> [] | Some i \<Rightarrow> '' '' @ name @ ''='' @ itoa i)"

subsection \<open>Types\<close>

definition bracketed :: "gostring \<Rightarrow> gostring \<Rightarrow> gostring \<Rightarrow> gostring list \<Rightarrow> gostring" where
  "bracketed l sep r ts = (if ts = [] then [] else l @ join_with sep ts @ r)"

fun typeRefText :: "unicode_tables \<Rightarrow> type_ref \<Rightarrow> gostring" where
  "typeRefText u (TypeReference name field_type args alts intersection optional lit is_array tuple params returns raw pkg) =
     (if pkg \<noteq> [] then pkg @ ''.'' @ name else name) @
     (if field_type \<noteq> [] then '':'' @ field_type else []) @
     bracketed ''<'' '', '' ''>'' (map (typeRefText u) args) @
     bracketed ''('' '' | '' '')'' (map (typeRefText u) alts) @
     bracketed ''('' '' & '' '')'' (map (typeRefText u) intersection) @
     bracketed ''['' '', '' '']'' (map (typeRefText u) tuple) @
     (if params \<noteq> [] \<or> returns \<noteq> None
      then ''func('' @ join_with '', '' (map (typeRefText u) params) @ '')'' @
        (case returns of None \<Rightarrow> [] | Some r \<Rightarrow> '' '' @ typeRefText u r)
      else []) @
     (case lit of None \<Rightarrow> [] | Some l \<Rightarrow> go_quote u l) @
     (if raw \<noteq> [] then ''raw('' @ go_quote u raw @ '')'' else []) @
     flagText is_array ''[]'' @ flagText optional ''?''"

definition typeRefsText :: "unicode_tables \<Rightarrow> type_ref list \<Rightarrow> gostring \<Rightarrow> gostring" where
  "typeRefsText u refs sep = join_with sep (map (typeRefText u) refs)"

definition typeParamText :: "unicode_tables \<Rightarrow> type_param \<Rightarrow> gostring" where
  "typeParamText u p =
     TPName p @ (case TPConstraint p of None \<Rightarrow> [] | Some c \<Rightarrow> '' '' @ typeRefText u c) @
     (case TPDefault p of None \<Rightarrow> [] | Some d \<Rightarrow> '' = '' @ typeRefText u d)"

definition typeParamsText :: "unicode_tables \<Rightarrow> type_param list \<Rightarrow> gostring" where
  "typeParamsText u params =
     (if params = [] then [] else '' ['' @ join_with '', '' (map (typeParamText u) params) @ '']'')"

definition errorText :: "ast_error \<Rightarrow> gostring" where
  "errorText e = ErrName e @ '':'' @ ErrType e @ (case ErrCode e of None \<Rightarrow> [] | Some c \<Rightarrow> ''='' @ c)"

definition errorsText :: "ast_error list \<Rightarrow> gostring" where
  "errorsText es = join_with '', '' (map errorText es)"

subsection \<open>Fields and methods\<close>

definition fieldFacts :: "unicode_tables \<Rightarrow> record_field \<Rightarrow> layer \<Rightarrow> gostring" where
  "fieldFacts u f layer =
     (let facts = sqlTypeText (RFSQLType f) (RFFieldType f) @
            (case RFTypeRef f of None \<Rightarrow> [] | Some t \<Rightarrow> '' '' @ typeRefText u t) @
            flagText (RFReadOnly f) ''readonly'' @ flagText (RFWriteOnly f) ''writeonly'' @ visibilityText (RFVisibility f)
      in if layer \<noteq> LayerPrivate then facts
         else facts @
           (case RFDefaultValue f of None \<Rightarrow> [] | Some d \<Rightarrow> '' default='' @ d) @
           (if RFLabel f \<noteq> [] then '' label='' @ go_quote u (RFLabel f) else []) @
           (if RFValidation f \<noteq> ''{}'' then '' validation='' @ RFValidation f else []))"

definition paramsText :: "unicode_tables \<Rightarrow> record_field list \<Rightarrow> layer \<Rightarrow> gostring" where
  "paramsText u params layer = join_with '', '' (map (\<lambda>p. Field (RFIdentifier p) @ fieldFacts u p layer) params)"

definition methodFacts :: "unicode_tables \<Rightarrow> method_facts \<Rightarrow> layer \<Rightarrow> gostring" where
  "methodFacts u m layer =
     visibilityText (MVisibility m) @ typeParamsText u (MTypeParams m) @
     '' ('' @ paramsText u (MParams m) layer @ '')'' @
     (if MReturns m \<noteq> [] then '' ('' @ paramsText u (MReturns m) layer @ '')'' else []) @
     (case MReturnType m of None \<Rightarrow> [] | Some t \<Rightarrow> '' '' @ typeRefText u t) @
     (if MErrors m \<noteq> [] then '' throws '' @ errorsText (MErrors m) else []) @
     flagText (MIsAsync m) ''async'' @ flagText (MIsGenerator m) ''generator''"

definition declarationText :: "(gostring \<times> gostring) list \<Rightarrow> gostring" where
  "declarationText props =
     concat (map (\<lambda>k. case map_of props k of None \<Rightarrow> [] | Some v \<Rightarrow> '' '' @ k @ ''='' @ v)
       [''event'', ''timing'', ''isDisabled''])"

definition json_dependency :: "sql_dependency \<Rightarrow> gostring" where
  "json_dependency d =
     json_struct [json_field ''schema'' (json_string (DepSchema d)), json_field ''name'' (json_string (DepName d))]"

definition sqlDependenciesText :: "sql_dependency list \<Rightarrow> gostring" where
  "sqlDependenciesText input =
     (if input = [] then []
      else '' sql-dependencies='' @
        json_list (map json_dependency (sort_key (\<lambda>d. (DepSchema d, DepName d)) input)))"

definition json_runtime_dependency :: "sql_runtime_dependency \<Rightarrow> gostring" where
  "json_runtime_dependency d =
     json_struct
       [omit_when (RunServer d = []) (json_field ''server'' (json_string (RunServer d))),
        omit_when (RunDatabase d = []) (json_field ''database'' (json_string (RunDatabase d))),
        omit_when (RunSchema d = []) (json_field ''schema'' (json_string (RunSchema d))),
        json_field ''name'' (json_string (RunName d))]"

definition sqlModuleText :: "bool \<Rightarrow> sql_runtime_dependency list \<Rightarrow> gostring" where
  "sqlModuleText quotedIdentifierOff runtime =
     flagText quotedIdentifierOff ''quoted-identifier-off'' @
     (if runtime \<noteq> [] then '' sql-runtime-dependencies='' @ json_list (map json_runtime_dependency runtime) else [])"

definition methodPrivateFacts :: "unicode_tables \<Rightarrow> method_facts \<Rightarrow> gostring" where
  "methodPrivateFacts u m =
     methodFacts u m LayerPrivate @ declarationText (MProperties m) @ sqlDependenciesText (MSQLDependencies m) @
     sqlModuleText (MSQLQuotedIdentifierOff m) (MSQLRuntimeDependencies m)"

subsection \<open>Tables\<close>

definition json_check :: "sql_check \<Rightarrow> gostring" where
  "json_check c =
     json_struct [json_field ''name'' (json_string (CheckName c)), json_field ''expression'' (json_string (CheckExpression c))]"

definition json_identity :: "sql_identity \<Rightarrow> gostring" where
  "json_identity i = json_struct [json_field ''seed'' (itoa (Seed i)), json_field ''increment'' (itoa (Increment i))]"

definition json_default :: "sql_default \<Rightarrow> gostring" where
  "json_default d =
     json_struct
       [json_field ''name'' (json_string (DefName d)), json_field ''expression'' (json_string (DefExpression d)),
        omit_when (\<not> SystemNamed d) (json_field ''systemNamed'' (format_bool (SystemNamed d)))]"

definition columnPublicFacts :: "record_column \<Rightarrow> gostring" where
  "columnPublicFacts c =
     sqlTypeText (ColSQLType c) (ColFieldType c) @
     (if ColNullable c then '' null'' else '' not null'') @ flagText (ColAutoIncrement c) ''identity''"

definition columnPrivateFacts :: "unicode_tables \<Rightarrow> record_column \<Rightarrow> gostring" where
  "columnPrivateFacts u c =
     columnPublicFacts c @ flagText (ColPrimaryKey c) ''pk'' @ flagText (ColUnique c) ''unique'' @
     intText ''length'' (ColMaxLength c) @ intText ''precision'' (ColPrecision c) @ intText ''scale'' (ColScale c) @
     (case ColDefaultValue c of None \<Rightarrow> [] | Some d \<Rightarrow> '' default='' @ d) @
     (case ColIdentity c of None \<Rightarrow> [] | Some i \<Rightarrow> '' identity='' @ json_identity i) @
     (case ColSQLDefault c of
        None \<Rightarrow> []
      | Some d \<Rightarrow> '' sql-default='' @ json_default (if SystemNamed d then d\<lparr> DefName := [] \<rparr> else d)) @
     (if ColCollation c \<noteq> [] then '' collation='' @ go_quote u (ColCollation c) else []) @
     flagText (ColRowGUID c) ''rowguidcol'' @
     (if ColEnum c \<noteq> [] then '' enum='' @ json_list (map json_string (ColEnum c)) else []) @
     (if ColLabel c \<noteq> [] then '' label='' @ go_quote u (ColLabel c) else [])"

definition indexPrivateFacts :: "record_index \<Rightarrow> gostring" where
  "indexPrivateFacts i =
     '' ('' @ join_with '', '' (IxColumns i) @ '')'' @
     (if IxIncluded i \<noteq> [] then '' include ('' @ join_with '', '' (IxIncluded i) @ '')'' else []) @
     flagText (IxUnique i) ''unique'' @ flagText (IxPrimary i) ''primary'' @ flagText (IxClustered i) ''clustered'' @
     flagText (IxConstraint i) ''constraint'' @
     (if IxDescending i \<noteq> [] then '' descending='' @ json_list (map json_string (sort (IxDescending i))) else []) @
     (if IxType i \<noteq> [] then '' using '' @ IxType i else []) @
     (if IxCondition i \<noteq> [] then '' where '' @ IxCondition i else []) @
     (if IxFillFactor i \<noteq> 0 then '' fillfactor='' @ itoa (IxFillFactor i) else [])"

definition foreignKeyPrivateFacts :: "record_foreign_key \<Rightarrow> gostring" where
  "foreignKeyPrivateFacts f =
     (let target = (if ReferencedSchema f \<noteq> [] then ReferencedSchema f @ ''.'' @ ReferencedTable f else ReferencedTable f) in
      '' ('' @ join_with '', '' (FKColumns f) @ '') references '' @ target @
      '' ('' @ join_with '', '' (ReferencedColumns f) @ '')'' @
      (if OnDelete f \<noteq> [] then '' on delete '' @ OnDelete f else []) @
      (if OnUpdate f \<noteq> [] then '' on update '' @ OnUpdate f else []))"

subsection \<open>Shapes and layers\<close>

text \<open>One layer of a node: its kind, its own facts, and one line per member.\<close>

record shape =
  ShKind :: node_type
  ShFacts :: gostring
  ShMembers :: "gostring list"

definition LF :: gostring where "LF = [CHR 0x0A]"

definition shape_text :: "shape \<Rightarrow> gostring" where
  "shape_text s =
     (let head = ShKind s @ ShFacts s in
      if ShMembers s = [] then head
      else head @ '' {'' @ LF @ concat (map (\<lambda>m. ''  '' @ m @ LF) (ShMembers s)) @ ''}'')"

text \<open>The content of a node without an implementation is \<open>None\<close>.\<close>

record layers =
  LPublic :: shape
  LPrivate :: shape
  LContent :: "hasher option"

record fingerprints =
  FPublic :: hasher
  FPrivate :: hasher
  FContent :: "hasher option"

definition print_fingerprints :: "layers \<Rightarrow> fingerprints" where
  "print_fingerprints l =
     (let public = AddString ''shape'' (shape_text (LPublic l)) (NewHasher ''fingerprint.public'');
          private = AddString ''shape'' (shape_text (LPrivate l))
            (AddHash ''public'' public (NewHasher ''fingerprint.private''))
      in \<lparr> FPublic = public, FPrivate = private, FContent = LContent l \<rparr>)"

definition AddContent :: "gostring \<Rightarrow> hasher option \<Rightarrow> hasher \<Rightarrow> hasher" where
  "AddContent field c h = (case c of None \<Rightarrow> AddString field [] h | Some g \<Rightarrow> AddHash field g h)"

definition fingerprints_Hash :: "fingerprints \<Rightarrow> hasher" where
  "fingerprints_Hash f =
     AddContent ''content'' (FContent f)
       (AddHash ''private'' (FPrivate f) (AddHash ''public'' (FPublic f) (NewHasher ''fingerprints'')))"

definition leafLayers :: "node_type \<Rightarrow> gostring \<Rightarrow> gostring \<Rightarrow> hasher option \<Rightarrow> layers" where
  "leafLayers kind public private content =
     \<lparr> LPublic = \<lparr> ShKind = kind, ShFacts = public, ShMembers = [] \<rparr>,
       LPrivate = \<lparr> ShKind = kind, ShFacts = private, ShMembers = [] \<rparr>, LContent = content \<rparr>"

text \<open>\<open>ShapeKind\<close>: the node type of the identifier, or that of the Go type.\<close>

definition shape_kind :: "ident \<Rightarrow> node_type \<Rightarrow> node_type" where
  "shape_kind i typ = (if GetNodeType i \<noteq> NodeTypeUnknown then GetNodeType i else typ)"

definition fieldLayers :: "unicode_tables \<Rightarrow> record_field \<Rightarrow> layers" where
  "fieldLayers u f =
     leafLayers (shape_kind (RFIdentifier f) NodeTypeField) (fieldFacts u f LayerPublic) (fieldFacts u f LayerPrivate) None"

definition field_Hash :: "unicode_tables \<Rightarrow> record_field \<Rightarrow> hasher" where
  "field_Hash u f = fingerprints_Hash (print_fingerprints (fieldLayers u f))"

definition methodLayers :: "unicode_tables \<Rightarrow> (block_stmt \<Rightarrow> hasher) \<Rightarrow> method_node \<Rightarrow> layers" where
  "methodLayers u block_hash m =
     leafLayers (shape_kind (MIdentifier (MethodFacts m)) NodeTypeMethod)
       (methodFacts u (MethodFacts m) LayerPublic) (methodPrivateFacts u (MethodFacts m))
       (map_option block_hash (MethodBody m))"

lemma methodLayers_cong [fundef_cong]:
  "m = m' \<Longrightarrow> (\<And>b. MethodBody m' = Some b \<Longrightarrow> f b = g b) \<Longrightarrow> methodLayers u f m = methodLayers u g m'"
  by (auto simp: methodLayers_def intro: arg_cong [where f = "leafLayers _ _ _"] option.map_cong0)

end
