(* ===== verification/Hash_Statement.thy ===== *)
theory Hash_Statement
  imports Fingerprint_Text
begin

text \<open>
  The hash of every statement (\<open>hash_stmt.go\<close>, \<open>hash_node.go\<close>): a hasher of the statement's kind, fed
  its parts in order, nested statements by their own hash. A floating-point number is the text
  \<open>strconv.FormatFloat\<close> gives it and a date the text \<open>Format\<close> does; a scoped variable is held by pointer, as
  \<open>ExprStmt.Value\<close> returns it.
\<close>

subsection \<open>Values and types\<close>

definition unit_String :: "unit_value \<Rightarrow> gostring" where
  "unit_String x = (case UnitVal x of Some v \<Rightarrow> UnitType x @ '' ('' @ v @ '')'' | None \<Rightarrow> UnitType x)"

definition add_set :: "'a option \<Rightarrow> ('a \<Rightarrow> hasher \<Rightarrow> hasher) \<Rightarrow> hasher \<Rightarrow> hasher" where
  "add_set x f h = (case x of None \<Rightarrow> h | Some y \<Rightarrow> f y h)"

definition hashTypedValue :: "typed_value \<Rightarrow> hasher" where
  "hashTypedValue v =
     (let h = NewHasher ''typed_value'';
          h = add_set (StrValue v) (AddString ''str'') h;
          h = add_set (FloatValue v) (AddString ''float'') h;
          h = add_set (IntValue v) (\<lambda>i. AddString ''int'' (itoa i)) h;
          h = add_set (BoolValue v) (AddBool ''bool'') h;
          h = add_set (DateValue v) (AddString ''date'') h
      in add_set (UnitValue v) (\<lambda>x. AddString ''unit'' (unit_String x)) h)"

definition AddTypedValue :: "gostring \<Rightarrow> typed_value option \<Rightarrow> hasher \<Rightarrow> hasher" where
  "AddTypedValue field v h =
     (case v of None \<Rightarrow> AddString field ''<nil>'' h | Some x \<Rightarrow> AddHash field (hashTypedValue x) h)"

definition add_hashes :: "('a \<Rightarrow> hasher) \<Rightarrow> gostring \<Rightarrow> 'a list \<Rightarrow> hasher \<Rightarrow> hasher" where
  "add_hashes f field = add_list field (\<lambda>i x. AddHash (indexed field i) (f x))"

lemma add_hashes_cong [fundef_cong]:
  "field = field' \<Longrightarrow> xs = ys \<Longrightarrow> h = k \<Longrightarrow> (\<And>x. x \<in> set ys \<Longrightarrow> f x = g x) \<Longrightarrow>
     add_hashes f field xs h = add_hashes g field' ys k"
  by (auto simp: add_hashes_def add_list_def intro!: add_each_cong)

fun hashTypeReference :: "type_ref \<Rightarrow> hasher" where
  "hashTypeReference (TypeReference name field_type args alts intersection optional lit is_array tuple params returns raw pkg) =
     (let h = AddString ''field_type'' field_type (AddString ''name'' name (NewHasher ''type_ref''));
          h = add_hashes hashTypeReference ''type_args'' args h;
          h = add_hashes hashTypeReference ''union'' alts h;
          h = add_hashes hashTypeReference ''intersection'' intersection h;
          h = AddBool ''optional'' optional h;
          h = AddStringPtr ''literal_value'' lit h;
          h = AddBool ''is_array'' is_array h;
          h = add_hashes hashTypeReference ''tuple_elements'' tuple h;
          h = add_hashes hashTypeReference ''function_params'' params h;
          h = (case returns of
                 None \<Rightarrow> AddString ''function_returns'' ''<nil>'' h
               | Some r \<Rightarrow> AddHash ''function_returns'' (hashTypeReference r) h);
          h = AddString ''raw_type'' raw h
      in AddString ''package'' pkg h)"

definition hashScopedVariableRef :: "unicode_tables \<Rightarrow> scoped_ref \<Rightarrow> hasher" where
  "hashScopedVariableRef u v =
     AddString ''identifier'' (SymbolKey u (VarIdentifier v))
       (AddTypedValue ''default_value'' (VarDefault v)
         (AddString ''name'' (VarName v) (NewHasher ''stmt.scoped_variable_ref'')))"

subsection \<open>Expressions\<close>

definition hashArguments :: "('e \<Rightarrow> hasher) \<Rightarrow> 'e arguments \<Rightarrow> hasher" where
  "hashArguments f args =
     add_each (\<lambda>i arg h. AddHash (itoa (int i) @ ''.value'') (f (snd arg)) (AddStringPtr (itoa (int i) @ ''.name'') (fst arg) h)) 0 args
       (AddInt ''len'' (int (length args)) (NewHasher ''arguments''))"

fun hashLiteralStmt :: "literal_stmt \<Rightarrow> hasher" where
  "hashLiteralStmt (LiteralStmt _ v field_type) =
     AddString ''field_type'' field_type (AddStringPtr ''value'' v (NewHasher ''stmt.literal''))"

fun hashBinaryStmt :: "('e \<Rightarrow> hasher) \<Rightarrow> 'e binary_stmt \<Rightarrow> hasher" where
  "hashBinaryStmt f (BinaryStmt _ l op r) =
     AddHash ''right'' (f r) (AddString ''op'' op (AddHash ''left'' (f l) (NewHasher ''stmt.binary'')))"

fun hashUnaryStmt :: "('e \<Rightarrow> hasher) \<Rightarrow> 'e unary_stmt \<Rightarrow> hasher" where
  "hashUnaryStmt f (UnaryStmt _ op x) = AddHash ''operand'' (f x) (AddString ''op'' op (NewHasher ''stmt.unary''))"

fun hashCastStmt :: "('e \<Rightarrow> hasher) \<Rightarrow> 'e cast_stmt \<Rightarrow> hasher" where
  "hashCastStmt f (CastStmt _ x target) =
     AddString ''target_type'' target (AddHash ''expr'' (f x) (NewHasher ''stmt.cast''))"

fun hashTupleStmt :: "('e \<Rightarrow> hasher) \<Rightarrow> 'e tuple_stmt \<Rightarrow> hasher" where
  "hashTupleStmt f (TupleStmt _ xs) = add_hashes f ''elements'' xs (NewHasher ''stmt.tuple'')"

fun hashObjectLiteralStmt :: "('e \<Rightarrow> hasher) \<Rightarrow> 'e object_literal \<Rightarrow> hasher" where
  "hashObjectLiteralStmt f (ObjectLiteralStmt _ es) =
     add_list ''entries''
       (\<lambda>i e h. AddHash (indexed ''entries'' i @ ''.value'') (f (snd e)) (AddString (indexed ''entries'' i @ ''.key'') (fst e) h))
       es (NewHasher ''stmt.object_literal'')"

definition add_symbol :: "unicode_tables \<Rightarrow> gostring \<Rightarrow> ident option \<Rightarrow> hasher \<Rightarrow> hasher" where
  "add_symbol u field i = add_set i (\<lambda>i. AddString field (SymbolKey u i))"

definition add_expr :: "('e \<Rightarrow> hasher) \<Rightarrow> gostring \<Rightarrow> 'e option \<Rightarrow> hasher \<Rightarrow> hasher" where
  "add_expr f field x = add_set x (\<lambda>x. AddHash field (f x))"

fun hashMethodCallStmt :: "unicode_tables \<Rightarrow> ('e \<Rightarrow> hasher) \<Rightarrow> 'e method_call \<Rightarrow> hasher" where
  "hashMethodCallStmt u f (MethodCallStmt _ m receiver args ctor) =
     AddBool ''is_constructor'' ctor
       (AddHash ''arguments'' (hashArguments f args)
         (add_expr f ''receiver'' receiver (add_symbol u ''method'' m (NewHasher ''stmt.method_call''))))"

fun hashDispatchCallStmt :: "unicode_tables \<Rightarrow> ('e \<Rightarrow> hasher) \<Rightarrow> 'e dispatch_call \<Rightarrow> hasher" where
  "hashDispatchCallStmt u f (DispatchCallStmt _ m receiver args candidates) =
     add_list ''candidates''
       (\<lambda>i c. AddString (indexed ''candidates'' i) (case c of None \<Rightarrow> ''<nil>'' | Some c \<Rightarrow> SymbolKey u c)) candidates
       (AddHash ''arguments'' (hashArguments f args)
         (add_expr f ''receiver'' receiver (add_symbol u ''method'' m (NewHasher ''stmt.dispatch_call''))))"

fun hashEndpointCallStmt :: "unicode_tables \<Rightarrow> ('e \<Rightarrow> hasher) \<Rightarrow> 'e endpoint_call \<Rightarrow> hasher" where
  "hashEndpointCallStmt u f (EndpointCallStmt _ ep args) =
     AddHash ''arguments'' (hashArguments f args) (add_symbol u ''endpoint'' ep (NewHasher ''stmt.endpoint_call''))"

text \<open>A record read and a record write are hashed alike under their own kind.\<close>

fun hashRecordStmt :: "unicode_tables \<Rightarrow> ('e \<Rightarrow> hasher) \<Rightarrow> gostring \<Rightarrow> 'e record_op \<Rightarrow> hasher" where
  "hashRecordStmt u f kind (RecordStmt _ record record_type expr_type expr args) =
     AddString ''expression'' expr
       (AddString ''expression_type'' expr_type
         (AddHash ''arguments'' (hashArguments f args)
           (AddString ''record_type'' record_type (add_symbol u ''record'' record (NewHasher kind)))))"

definition hashExprFields :: "unicode_tables \<Rightarrow> (expr_stmt \<Rightarrow> hasher) \<Rightarrow> expr_stmt \<Rightarrow> hasher" where
  "hashExprFields u f e =
     (let h = NewHasher ''stmt.expr'';
          h = add_expr hashLiteralStmt ''literal'' (ELiteral e) h;
          h = add_expr (hashScopedVariableRef u) ''variable'' (EVariable e) h;
          h = add_expr (hashBinaryStmt f) ''binary'' (EBinary e) h;
          h = add_expr (hashCastStmt f) ''cast'' (ECast e) h;
          h = add_expr (hashUnaryStmt f) ''unary'' (EUnary e) h;
          h = add_expr (hashMethodCallStmt u f) ''method_call'' (EMethodCall e) h;
          h = add_expr (hashDispatchCallStmt u f) ''dispatch_call'' (EDispatchCall e) h;
          h = add_expr (hashEndpointCallStmt u f) ''endpoint_call'' (EEndpointCall e) h;
          h = add_expr (hashRecordStmt u f ''stmt.record_read'') ''record_read'' (ERecordRead e) h;
          h = add_expr (hashTupleStmt f) ''tuple'' (ETuple e) h
      in add_expr (hashObjectLiteralStmt f) ''object_literal'' (EObjectLiteral e) h)"

lemma hashArguments_cong:
  "(\<And>x. x \<in> set (argument_exprs args) \<Longrightarrow> f x = g x) \<Longrightarrow> hashArguments f args = hashArguments g args"
  unfolding hashArguments_def argument_exprs_def by (intro add_each_cong refl) simp

lemma add_expr_cong [fundef_cong]:
  "field = field' \<Longrightarrow> e = e' \<Longrightarrow> h = k \<Longrightarrow> (\<And>x. e' = Some x \<Longrightarrow> f x = g x) \<Longrightarrow>
     add_expr f field e h = add_expr g field' e' k"
  by (cases e') (simp_all add: add_expr_def add_set_def)

lemma hash_expr_congs:
  "(\<And>x. x \<in> set (binary_exprs b1) \<Longrightarrow> f x = g x) \<Longrightarrow> hashBinaryStmt f b1 = hashBinaryStmt g b1"
  "(\<And>x. x \<in> set (cast_exprs b2) \<Longrightarrow> f x = g x) \<Longrightarrow> hashCastStmt f b2 = hashCastStmt g b2"
  "(\<And>x. x \<in> set (unary_exprs b3) \<Longrightarrow> f x = g x) \<Longrightarrow> hashUnaryStmt f b3 = hashUnaryStmt g b3"
  "(\<And>x. x \<in> set (method_call_exprs b4) \<Longrightarrow> f x = g x) \<Longrightarrow> hashMethodCallStmt u f b4 = hashMethodCallStmt u g b4"
  "(\<And>x. x \<in> set (dispatch_call_exprs b5) \<Longrightarrow> f x = g x) \<Longrightarrow> hashDispatchCallStmt u f b5 = hashDispatchCallStmt u g b5"
  "(\<And>x. x \<in> set (endpoint_call_exprs b6) \<Longrightarrow> f x = g x) \<Longrightarrow> hashEndpointCallStmt u f b6 = hashEndpointCallStmt u g b6"
  "(\<And>x. x \<in> set (record_exprs b7) \<Longrightarrow> f x = g x) \<Longrightarrow> hashRecordStmt u f k b7 = hashRecordStmt u g k b7"
  "(\<And>x. x \<in> set (tuple_exprs b8) \<Longrightarrow> f x = g x) \<Longrightarrow> hashTupleStmt f b8 = hashTupleStmt g b8"
  "(\<And>x. x \<in> set (entry_values b9) \<Longrightarrow> f x = g x) \<Longrightarrow> hashObjectLiteralStmt f b9 = hashObjectLiteralStmt g b9"
proof -
  have receiver: "add_expr f field r h = add_expr g field r h" if "\<And>x. x \<in> set (receiver_exprs r) \<Longrightarrow> f x = g x" for r field h
    using that by (intro add_expr_cong refl) (simp add: receiver_exprs_def)
  show "(\<And>x. x \<in> set (binary_exprs b1) \<Longrightarrow> f x = g x) \<Longrightarrow> hashBinaryStmt f b1 = hashBinaryStmt g b1" by (cases b1) simp
  show "(\<And>x. x \<in> set (cast_exprs b2) \<Longrightarrow> f x = g x) \<Longrightarrow> hashCastStmt f b2 = hashCastStmt g b2" by (cases b2) simp
  show "(\<And>x. x \<in> set (unary_exprs b3) \<Longrightarrow> f x = g x) \<Longrightarrow> hashUnaryStmt f b3 = hashUnaryStmt g b3" by (cases b3) simp
  show "(\<And>x. x \<in> set (method_call_exprs b4) \<Longrightarrow> f x = g x) \<Longrightarrow> hashMethodCallStmt u f b4 = hashMethodCallStmt u g b4"
    by (cases b4) (simp add: receiver cong: hashArguments_cong)
  show "(\<And>x. x \<in> set (dispatch_call_exprs b5) \<Longrightarrow> f x = g x) \<Longrightarrow> hashDispatchCallStmt u f b5 = hashDispatchCallStmt u g b5"
    by (cases b5) (simp add: receiver cong: hashArguments_cong)
  show "(\<And>x. x \<in> set (endpoint_call_exprs b6) \<Longrightarrow> f x = g x) \<Longrightarrow> hashEndpointCallStmt u f b6 = hashEndpointCallStmt u g b6"
    by (cases b6) (simp cong: hashArguments_cong)
  show "(\<And>x. x \<in> set (record_exprs b7) \<Longrightarrow> f x = g x) \<Longrightarrow> hashRecordStmt u f k b7 = hashRecordStmt u g k b7"
    by (cases b7) (simp cong: hashArguments_cong)
  show "(\<And>x. x \<in> set (tuple_exprs b8) \<Longrightarrow> f x = g x) \<Longrightarrow> hashTupleStmt f b8 = hashTupleStmt g b8"
    by (cases b8) (simp cong: add_hashes_cong)
  show "(\<And>x. x \<in> set (entry_values b9) \<Longrightarrow> f x = g x) \<Longrightarrow> hashObjectLiteralStmt f b9 = hashObjectLiteralStmt g b9"
    by (cases b9) (simp add: add_list_def cong: add_each_cong)
qed

lemma hashExprFields_cong [fundef_cong]:
  assumes "u = u'" "e = e'" "\<And>x. x \<in> set (field_exprs e') \<Longrightarrow> f x = g x"
  shows "hashExprFields u f e = hashExprFields u' g e'"
proof -
  have "add_expr (hashBinaryStmt f) k (EBinary e') h = add_expr (hashBinaryStmt g) k (EBinary e') h"
    "add_expr (hashCastStmt f) k (ECast e') h = add_expr (hashCastStmt g) k (ECast e') h"
    "add_expr (hashUnaryStmt f) k (EUnary e') h = add_expr (hashUnaryStmt g) k (EUnary e') h"
    "add_expr (hashMethodCallStmt u f) k (EMethodCall e') h = add_expr (hashMethodCallStmt u g) k (EMethodCall e') h"
    "add_expr (hashDispatchCallStmt u f) k (EDispatchCall e') h = add_expr (hashDispatchCallStmt u g) k (EDispatchCall e') h"
    "add_expr (hashEndpointCallStmt u f) k (EEndpointCall e') h = add_expr (hashEndpointCallStmt u g) k (EEndpointCall e') h"
    "add_expr (hashRecordStmt u f kind) k (ERecordRead e') h = add_expr (hashRecordStmt u g kind) k (ERecordRead e') h"
    "add_expr (hashTupleStmt f) k (ETuple e') h = add_expr (hashTupleStmt g) k (ETuple e') h"
    "add_expr (hashObjectLiteralStmt f) k (EObjectLiteral e') h = add_expr (hashObjectLiteralStmt g) k (EObjectLiteral e') h"
    for k h kind
    by (rule add_expr_cong, rule refl, rule refl, rule refl, rule hash_expr_congs, rule assms(3), simp add: field_exprs_def of_option_def)+
  then show ?thesis by (simp add: hashExprFields_def assms)
qed

function hashExprStmt :: "unicode_tables \<Rightarrow> expr_stmt \<Rightarrow> hasher" where
  "hashExprStmt u e = hashExprFields u (hashExprStmt u) e"
  by pat_completeness auto

termination by (relation "measure (\<lambda>(u, e). size e)") (auto dest: size_field_exprs_less)

declare hashExprStmt.simps [simp del]

subsection \<open>Statements\<close>

fun hashDocStmt :: "doc_stmt \<Rightarrow> hasher" where
  "hashDocStmt (DocStmt _ doc_type content style children) =
     add_hashes hashDocStmt ''children'' children
       (AddString ''style'' style (AddString ''content'' content (AddString ''doc_type'' doc_type (NewHasher ''stmt.doc''))))"

definition hash_binding :: "unicode_tables \<Rightarrow> ('d \<Rightarrow> hasher) \<Rightarrow> nat \<Rightarrow> 'd binding \<Rightarrow> hasher \<Rightarrow> hasher" where
  "hash_binding u f i b h =
     (case b of Binding name alias def nested \<Rightarrow>
        let p = indexed ''bindings'' i;
            h = AddString (p @ ''.alias'') alias (AddString (p @ ''.name'') name h);
            h = add_expr (hashExprStmt u) (p @ ''.default'') def h
        in add_expr f (p @ ''.nested'') nested h)"

lemma hash_binding_cong [fundef_cong]:
  "u = u' \<Longrightarrow> i = j \<Longrightarrow> b = b' \<Longrightarrow> h = k \<Longrightarrow> (\<And>d. d \<in> set_binding b' \<Longrightarrow> f d = g d) \<Longrightarrow>
     hash_binding u f i b h = hash_binding u' g j b' k"
  by (cases b') (auto simp: hash_binding_def Let_def intro!: add_expr_cong)

lemma size_in_binding: "d \<in> set_binding b \<Longrightarrow> size d < size_binding size b"
  by (cases b) (auto split: option.splits)

lemma size_in_bindings [termination_simp]:
  "b \<in> set bs \<Longrightarrow> d \<in> set_binding b \<Longrightarrow> size d < Suc (size_list (size_binding size) bs)"
  by (induction bs) (auto dest: size_in_binding)

fun hashDestructuringStmt :: "unicode_tables \<Rightarrow> destructuring \<Rightarrow> hasher" where
  "hashDestructuringStmt u (DestructuringStmt _ is_array bindings rest v declare') =
     AddString ''declare'' declare'
       (AddHash ''value'' (hashExprStmt u v)
         (AddStringPtr ''rest'' rest
           (add_list ''bindings'' (\<lambda>i b h. hash_binding u (\<lambda>d. hashDestructuringStmt u d) i b h) bindings
             (AddBool ''is_array'' is_array (NewHasher ''stmt.destructure'')))))"

fun hashAssignmentStmt :: "unicode_tables \<Rightarrow> assignment_stmt \<Rightarrow> hasher" where
  "hashAssignmentStmt u (AssignmentStmt _ target v op decl) =
     AddBool ''is_declaration'' decl
       (AddString ''op'' op
         (AddHash ''value'' (hashExprStmt u v)
           (AddHash ''target'' (hashScopedVariableRef u target) (NewHasher ''stmt.assignment''))))"

fun hashConditionStmt :: "unicode_tables \<Rightarrow> condition_stmt \<Rightarrow> hasher" where
  "hashConditionStmt u (ConditionStmt _ e) = AddHash ''expr'' (hashExprStmt u e) (NewHasher ''stmt.condition'')"

definition method_Hash :: "unicode_tables \<Rightarrow> (block_stmt \<Rightarrow> hasher) \<Rightarrow> method_node \<Rightarrow> hasher" where
  "method_Hash u block_hash m = fingerprints_Hash (print_fingerprints (methodLayers u block_hash m))"

lemma method_Hash_cong [fundef_cong]:
  "u = u' \<Longrightarrow> m = m' \<Longrightarrow> (\<And>b. MethodBody m' = Some b \<Longrightarrow> f b = g b) \<Longrightarrow> method_Hash u f m = method_Hash u' g m'"
  by (simp add: method_Hash_def cong: methodLayers_cong)

definition stmt_nil :: hasher where "stmt_nil = NewHasher ''stmt.nil''"

fun HashStatement :: "unicode_tables \<Rightarrow> stmt \<Rightarrow> hasher"
  and block_Hash :: "unicode_tables \<Rightarrow> block_stmt \<Rightarrow> hasher"
  and function_Hash :: "unicode_tables \<Rightarrow> method_node \<Rightarrow> hasher" where
  "HashStatement u (SScopedVariable v) = hashScopedVariableRef u v"
| "HashStatement u (SExpr e) = hashExprStmt u e"
| "HashStatement u (SIf _ c t e) =
     add_expr (\<lambda>b. block_Hash u b) ''else'' e
       (AddHash ''then'' (block_Hash u t) (AddHash ''condition'' (hashConditionStmt u c) (NewHasher ''stmt.if'')))"
| "HashStatement u (SSwitch _ v cases) =
     add_list ''cases''
       (\<lambda>i c h. AddHash (indexed ''cases'' i @ ''.body'') (block_Hash u (snd c))
          (AddHash (indexed ''cases'' i @ ''.condition'') (hashConditionStmt u (fst c)) h)) cases
       (AddHash ''value'' (hashExprStmt u v) (NewHasher ''stmt.switch''))"
| "HashStatement u (SFor _ init c body update) =
     AddHash ''update'' (hashExprStmt u update)
       (AddHash ''body'' (block_Hash u body)
         (AddHash ''cond'' (hashConditionStmt u c)
           (AddHash ''init'' (hashAssignmentStmt u init) (NewHasher ''stmt.for''))))"
| "HashStatement u (SForEach _ v it body) =
     AddHash ''body'' (block_Hash u body)
       (AddHash ''iterable'' (hashExprStmt u it)
         (AddHash ''variable'' (hashAssignmentStmt u v) (NewHasher ''stmt.foreach'')))"
| "HashStatement u (SWhile _ c body) =
     AddHash ''body'' (block_Hash u body) (AddHash ''condition'' (hashConditionStmt u c) (NewHasher ''stmt.while''))"
| "HashStatement u (SAssignment a) = hashAssignmentStmt u a"
| "HashStatement u (SUnary x) = hashUnaryStmt (hashExprStmt u) x"
| "HashStatement u (SLiteral l) = hashLiteralStmt l"
| "HashStatement u (SBinary b) = hashBinaryStmt (hashExprStmt u) b"
| "HashStatement u (SCast c) = hashCastStmt (hashExprStmt u) c"
| "HashStatement u (STuple t) = hashTupleStmt (hashExprStmt u) t"
| "HashStatement u (SObjectLiteral x) = hashObjectLiteralStmt (hashExprStmt u) x"
| "HashStatement u (SVariable _ name) = AddString ''name'' name (NewHasher ''stmt.variable'')"
| "HashStatement u (SMethodCall c) = hashMethodCallStmt u (hashExprStmt u) c"
| "HashStatement u (SDispatchCall c) = hashDispatchCallStmt u (hashExprStmt u) c"
| "HashStatement u (SEndpointCall c) = hashEndpointCallStmt u (hashExprStmt u) c"
| "HashStatement u (SRecordRead r) = hashRecordStmt u (hashExprStmt u) ''stmt.record_read'' r"
| "HashStatement u (SRecordWrite r) = hashRecordStmt u (hashExprStmt u) ''stmt.record_write'' r"
| "HashStatement u (SReturn _ e) = AddHash ''value'' (hashExprStmt u e) (NewHasher ''stmt.return'')"
| "HashStatement u (SBreak _) = NewHasher ''stmt.break''"
| "HashStatement u (SContinue _) = NewHasher ''stmt.continue''"
| "HashStatement u (SThrow _ e) = AddHash ''exception'' (hashExprStmt u e) (NewHasher ''stmt.throw'')"
| "HashStatement u (STry _ body catch) =
     AddHash ''catch'' (block_Hash u catch) (AddHash ''body'' (block_Hash u body) (NewHasher ''stmt.try''))"
| "HashStatement u (SCondition c) = hashConditionStmt u c"
| "HashStatement u (SVariableDecl _ f) = AddHash ''field'' (field_Hash u f) (NewHasher ''stmt.variable_decl'')"
| "HashStatement u (SFunctionDecl _ m) = AddHash ''method'' (function_Hash u m) (NewHasher ''stmt.function_decl'')"
| "HashStatement u (STypeDecl _ name) = AddString ''name'' name (NewHasher ''stmt.type_decl'')"
| "HashStatement u (SConstDecl _ f) = AddHash ''field'' (field_Hash u f) (NewHasher ''stmt.const_decl'')"
| "HashStatement u (SDoc d) = hashDocStmt d"
| "HashStatement u (STest b name) =
     AddHash ''body'' (block_Hash u b) (AddString ''name'' name (NewHasher ''stmt.test''))"
| "HashStatement u (SRaw _ source language) =
     AddString ''language'' language (AddString ''source'' source (NewHasher ''stmt.raw''))"
| "HashStatement u (SDestructuring d) = hashDestructuringStmt u d"
| "HashStatement u (STemplate _ strings es tag) =
     add_expr (hashExprStmt u) ''tag'' tag
       (add_hashes (hashExprStmt u) ''expressions'' es (AddStringSlice ''strings'' strings (NewHasher ''stmt.template'')))"
| "HashStatement u (SBlock b) = block_Hash u b"
| "HashStatement u (SGeneric b) = AddString ''statement_type'' (StmtType b) (NewHasher ''statement'')"
| "block_Hash u (BlockStmt _ vars children) =
     add_hashes (\<lambda>c. case c of None \<Rightarrow> stmt_nil | Some s \<Rightarrow> HashStatement u s) ''children'' children
       (AddRecordFields (field_Hash u) ''variables'' vars (NewHasher ''stmt.block''))"
| "function_Hash u (MethodNode m body) =
     method_Hash u (\<lambda>b. block_Hash u b) (MethodNode m body)"

subsection \<open>What a statement hash determines\<close>

lemma clean_adds [simp]:
  "clean (AddString f s h) \<longleftrightarrow> nul_free f \<and> clean h"
  "clean (AddHash f g h) \<longleftrightarrow> nul_free f \<and> clean g \<and> clean h"
  "clean (AddBool f b h) \<longleftrightarrow> nul_free f \<and> clean h"
  "clean (AddInt f i h) \<longleftrightarrow> nul_free f \<and> clean h"
  "clean (AddStringPtr f p h) \<longleftrightarrow> nul_free f \<and> clean h"
  by (auto simp: AddString_def AddHash_def AddBool_def AddInt_def AddStringPtr_def)

lemma clean_each: "clean h \<Longrightarrow> (\<And>n x g. x \<in> set xs \<Longrightarrow> clean g \<Longrightarrow> clean (f n x g)) \<Longrightarrow> clean (add_each f i xs h)"
  by (induction f i xs h rule: add_each.induct) auto

lemma clean_list: "nul_free field \<Longrightarrow> clean h \<Longrightarrow> (\<And>n x g. x \<in> set xs \<Longrightarrow> clean g \<Longrightarrow> clean (f n x g)) \<Longrightarrow>
    clean (add_list field f xs h)"
  unfolding add_list_def by (rule clean_each) auto

lemma clean_hashes: "nul_free field \<Longrightarrow> clean h \<Longrightarrow> (\<And>x. x \<in> set xs \<Longrightarrow> clean (f x)) \<Longrightarrow> clean (add_hashes f field xs h)"
  unfolding add_hashes_def by (rule clean_list) auto

lemma clean_set: "clean h \<Longrightarrow> (\<And>y g. x = Some y \<Longrightarrow> clean g \<Longrightarrow> clean (f y g)) \<Longrightarrow> clean (add_set x f h)"
  by (simp add: add_set_def split: option.split)

lemma clean_expr: "nul_free field \<Longrightarrow> clean h \<Longrightarrow> (\<And>y. e = Some y \<Longrightarrow> clean (f y)) \<Longrightarrow> clean (add_expr f field e h)"
  unfolding add_expr_def by (rule clean_set) auto

lemma clean_symbol: "nul_free field \<Longrightarrow> clean h \<Longrightarrow> clean (add_symbol u field i h)"
  unfolding add_symbol_def by (rule clean_set) auto

lemma clean_slice: "nul_free field \<Longrightarrow> clean h \<Longrightarrow> clean (AddStringSlice field xs h)"
  unfolding AddStringSlice_def by (rule clean_list) auto

lemmas clean_intros = clean_list clean_hashes clean_set clean_expr clean_symbol clean_slice

lemma clean_typed_value [simp]: "clean (hashTypedValue v)"
  unfolding hashTypedValue_def Let_def by (intro clean_set) simp_all

lemma clean_scoped [simp]: "clean (hashScopedVariableRef u v)"
  by (simp add: hashScopedVariableRef_def AddTypedValue_def split: option.split)

lemma clean_arguments: "(\<And>x. x \<in> set (argument_exprs args) \<Longrightarrow> clean (f x)) \<Longrightarrow> clean (hashArguments f args)"
  unfolding hashArguments_def argument_exprs_def by (rule clean_each) simp_all

lemma clean_exprs:
  "clean (hashLiteralStmt l)"
  "(\<And>x. x \<in> set (binary_exprs b1) \<Longrightarrow> clean (f x)) \<Longrightarrow> clean (hashBinaryStmt f b1)"
  "(\<And>x. x \<in> set (cast_exprs b2) \<Longrightarrow> clean (f x)) \<Longrightarrow> clean (hashCastStmt f b2)"
  "(\<And>x. x \<in> set (unary_exprs b3) \<Longrightarrow> clean (f x)) \<Longrightarrow> clean (hashUnaryStmt f b3)"
  "(\<And>x. x \<in> set (method_call_exprs b4) \<Longrightarrow> clean (f x)) \<Longrightarrow> clean (hashMethodCallStmt u f b4)"
  "(\<And>x. x \<in> set (dispatch_call_exprs b5) \<Longrightarrow> clean (f x)) \<Longrightarrow> clean (hashDispatchCallStmt u f b5)"
  "(\<And>x. x \<in> set (endpoint_call_exprs b6) \<Longrightarrow> clean (f x)) \<Longrightarrow> clean (hashEndpointCallStmt u f b6)"
  "nul_free k \<Longrightarrow> (\<And>x. x \<in> set (record_exprs b7) \<Longrightarrow> clean (f x)) \<Longrightarrow> clean (hashRecordStmt u f k b7)"
  "(\<And>x. x \<in> set (tuple_exprs b8) \<Longrightarrow> clean (f x)) \<Longrightarrow> clean (hashTupleStmt f b8)"
  "(\<And>x. x \<in> set (entry_values b9) \<Longrightarrow> clean (f x)) \<Longrightarrow> clean (hashObjectLiteralStmt f b9)"
  subgoal by (cases l) (auto simp: receiver_exprs_def intro!: clean_intros clean_arguments)
  subgoal by (cases b1) (auto simp: receiver_exprs_def intro!: clean_intros clean_arguments)
  subgoal by (cases b2) (auto simp: receiver_exprs_def intro!: clean_intros clean_arguments)
  subgoal by (cases b3) (auto simp: receiver_exprs_def intro!: clean_intros clean_arguments)
  subgoal by (cases b4) (auto simp: receiver_exprs_def intro!: clean_intros clean_arguments)
  subgoal by (cases b5) (auto simp: receiver_exprs_def intro!: clean_intros clean_arguments)
  subgoal by (cases b6) (auto simp: receiver_exprs_def intro!: clean_intros clean_arguments)
  subgoal by (cases b7) (auto simp: receiver_exprs_def intro!: clean_intros clean_arguments)
  subgoal by (cases b8) (auto simp: receiver_exprs_def intro!: clean_intros clean_arguments)
  subgoal by (cases b9) (simp, rule clean_list, simp_all)
  done

lemma clean_expression [simp]: "clean (hashExprStmt u e)"
proof (induction u e rule: hashExprStmt.induct)
  case (1 u e)
  then show ?case
    unfolding hashExprStmt.simps [of u e] hashExprFields_def Let_def
    by (intro clean_expr clean_exprs) (auto simp: field_exprs_def of_option_def)
qed

lemma clean_doc [simp]: "clean (hashDocStmt d)"
  by (induction d rule: hashDocStmt.induct) (auto intro!: clean_intros)

lemma clean_binding:
  "clean h \<Longrightarrow> (\<And>d. d \<in> set_binding b \<Longrightarrow> clean (f d)) \<Longrightarrow> clean (hash_binding u f i b h)"
  by (cases b) (auto simp: hash_binding_def Let_def intro!: clean_intros)

lemma clean_destructuring [simp]: "clean (hashDestructuringStmt u d)"
  by (induction u d rule: hashDestructuringStmt.induct) (auto intro!: clean_intros clean_binding)

lemma clean_parts [simp]: "clean (hashAssignmentStmt u a)" "clean (hashConditionStmt u c)" "clean (field_Hash u f)"
  subgoal by (cases a) simp
  subgoal by (cases c) simp
  subgoal by (simp add: field_Hash_def fingerprints_Hash_def print_fingerprints_def AddContent_def
      fieldLayers_def leafLayers_def Let_def)
  done

lemma clean_method: "(\<And>b. MethodBody m = Some b \<Longrightarrow> clean (f b)) \<Longrightarrow> clean (method_Hash u f m)"
  by (cases "MethodBody m") (simp_all add: method_Hash_def fingerprints_Hash_def print_fingerprints_def AddContent_def
      methodLayers_def leafLayers_def Let_def)

lemma clean_statement [simp]: "clean (HashStatement u s)" and clean_block [simp]: "clean (block_Hash u b)"
  and clean_function [simp]: "clean (function_Hash u m)"
  by (induction u s and u b and u m rule: HashStatement_block_Hash_function_Hash.induct)
    (auto simp: AddRecordFields_def stmt_nil_def intro!: clean_intros clean_exprs clean_method split: option.split)

fun base_kind :: "hasher \<Rightarrow> gostring" where
  "base_kind (NewHasher k) = k"
| "base_kind (Fed h f v) = base_kind h"

lemma alike_kind: "alike sha g h \<Longrightarrow> base_kind g = base_kind h" and "alike_value sha v w \<Longrightarrow> True"
proof (induction g and v arbitrary: h and w)
  case (Fed g f v)
  then show ?case by (cases h) auto
qed simp_all

lemma kind_adds [simp]:
  "base_kind (AddString f s h) = base_kind h" "base_kind (AddHash f g h) = base_kind h"
  "base_kind (AddBool f b h) = base_kind h" "base_kind (AddInt f i h) = base_kind h"
  "base_kind (AddStringPtr f p h) = base_kind h"
  by (simp_all add: AddString_def AddHash_def AddBool_def AddInt_def AddStringPtr_def)

lemma kind_each: "(\<And>n x g. base_kind (f n x g) = base_kind g) \<Longrightarrow> base_kind (add_each f i xs h) = base_kind h"
  by (induction f i xs h rule: add_each.induct) auto

lemma kind_expr [simp]: "base_kind (add_expr f field e h) = base_kind h"
  by (simp add: add_expr_def add_set_def split: option.split)

lemma kind_more [simp]:
  "base_kind (add_hashes f field xs h) = base_kind h"
  "base_kind (add_symbol u field i h) = base_kind h"
  "base_kind (AddStringSlice field ss h) = base_kind h"
  "base_kind (AddRecordFields g field rs h) = base_kind h"
  by (simp_all add: add_hashes_def add_list_def add_symbol_def add_set_def AddStringSlice_def AddRecordFields_def
      kind_each split: option.split)

lemma kind_list: "(\<And>n x g. base_kind (f n x g) = base_kind g) \<Longrightarrow> base_kind (add_list field f xs h) = base_kind h"
  by (simp add: add_list_def kind_each)

lemma kind_binding [simp]: "base_kind (hash_binding u f i b h) = base_kind h"
  by (cases b) (simp add: hash_binding_def Let_def)

text \<open>The kind a statement is hashed under; a generic statement has a kind of its own.\<close>

definition statement_kind :: "(gostring \<times> statement_type) list" where
  "statement_kind =
     [(''stmt.scoped_variable_ref'', ASTStatementRefScopeVar), (''stmt.expr'', ASTStatementTypeExpression),
      (''stmt.if'', ASTStatementTypeIf), (''stmt.switch'', ASTStatementTypeSwitch), (''stmt.for'', ASTStatementTypeLoopFor),
      (''stmt.foreach'', ASTStatementTypeLoopForEach), (''stmt.while'', ASTStatementTypeLoopWhile),
      (''stmt.assignment'', ASTStatementTypeAssignment), (''stmt.unary'', ASTStatementTypeUnary),
      (''stmt.literal'', ASTStatementTypeLiteral), (''stmt.binary'', ASTStatementTypeBinary),
      (''stmt.cast'', ASTStatementTypeCast), (''stmt.tuple'', ASTStatementTypeTuple),
      (''stmt.object_literal'', ASTStatementTypeObjectLiteral), (''stmt.variable'', ASTStatementTypeVariable),
      (''stmt.method_call'', ASTStatementTypeCall), (''stmt.dispatch_call'', ASTStatementTypeDispatchCall),
      (''stmt.endpoint_call'', ASTStatementTypeCallAPI), (''stmt.record_read'', ASTStatementTypeRecordRead),
      (''stmt.record_write'', ASTStatementTypeRecordWrite), (''stmt.return'', ASTStatementTypeReturn),
      (''stmt.break'', ASTStatementTypeBreak), (''stmt.continue'', ASTStatementTypeContinue),
      (''stmt.throw'', ASTStatementTypeThrow), (''stmt.try'', ASTStatementTypeTry),
      (''stmt.condition'', ASTStatmentTypeCondition), (''stmt.variable_decl'', ASTStatementTypeDeclareVariable),
      (''stmt.function_decl'', ASTStatementTypeDeclareFunction), (''stmt.type_decl'', ASTStatementTypeDeclareType),
      (''stmt.const_decl'', ASTStatementTypeDeclareConstant), (''stmt.doc'', ASTStatementTypeDoc),
      (''stmt.test'', ASTStatementTypeTest), (''stmt.raw'', ASTStatementTypeRaw),
      (''stmt.destructure'', ASTStatementTypeDestructure), (''stmt.template'', ASTStatementTypeTemplateLit),
      (''stmt.block'', ASTStatementTypeBlock)]"

lemma kind_expression: "base_kind (hashExprStmt u e) = ''stmt.expr''"
  by (subst hashExprStmt.simps) (simp add: hashExprFields_def Let_def)

lemma kind_parts:
  "base_kind (hashLiteralStmt l) = ''stmt.literal''" "base_kind (hashBinaryStmt f b1) = ''stmt.binary''"
  "base_kind (hashCastStmt f b2) = ''stmt.cast''" "base_kind (hashUnaryStmt f b3) = ''stmt.unary''"
  "base_kind (hashMethodCallStmt u f b4) = ''stmt.method_call''"
  "base_kind (hashDispatchCallStmt u f b5) = ''stmt.dispatch_call''"
  "base_kind (hashEndpointCallStmt u f b6) = ''stmt.endpoint_call''" "base_kind (hashRecordStmt u f k b7) = k"
  "base_kind (hashTupleStmt f b8) = ''stmt.tuple''" "base_kind (hashObjectLiteralStmt f b9) = ''stmt.object_literal''"
  "base_kind (hashAssignmentStmt u a) = ''stmt.assignment''" "base_kind (hashConditionStmt u c) = ''stmt.condition''"
  "base_kind (hashDocStmt d) = ''stmt.doc''" "base_kind (hashDestructuringStmt u x) = ''stmt.destructure''"
  subgoal by (cases l) simp
  subgoal by (cases b1) simp
  subgoal by (cases b2) simp
  subgoal by (cases b3) simp
  subgoal by (cases b4) simp
  subgoal by (cases b5) (simp add: kind_list)
  subgoal by (cases b6) simp
  subgoal by (cases b7) simp
  subgoal by (cases b8) simp
  subgoal by (cases b9) (simp add: kind_list)
  subgoal by (cases a) simp
  subgoal by (cases c) simp
  subgoal by (cases d) simp
  subgoal by (cases x) (simp add: kind_list)
  done

lemma kind_block: "base_kind (block_Hash u b) = ''stmt.block''"
  by (cases b) simp

lemma distinct_kinds: "distinct (map fst statement_kind)"
  by code_simp

lemma kind_scoped: "base_kind (hashScopedVariableRef u v) = ''stmt.scoped_variable_ref''"
  by (simp add: hashScopedVariableRef_def AddTypedValue_def split: option.split)

lemma kind_list_cases:
  "base_kind (add_list ''cases''
     (\<lambda>i c h. AddHash (indexed ''cases'' i @ ''.body'') (g c) (AddHash (indexed ''cases'' i @ ''.condition'') (f c) h)) cases h) =
   base_kind h"
  by (simp add: kind_list)

lemma listed_kind:
  "(\<forall>b. s \<noteq> SGeneric b) \<Longrightarrow> (base_kind (HashStatement u s), GetStatementType s) \<in> set statement_kind"
  by (cases s; simp only: HashStatement.simps GetStatementType.simps kind_parts kind_expression kind_block kind_scoped
        kind_list_cases kind_adds kind_expr kind_more base_kind.simps statement_kind_def;
      (rule list.set_intros(1) | rule list.set_intros(2) | simp)+)

lemma kind_statement:
  "(\<forall>b. s \<noteq> SGeneric b) \<Longrightarrow> map_of statement_kind (base_kind (HashStatement u s)) = Some (GetStatementType s)"
  by (rule map_of_is_SomeI [OF distinct_kinds listed_kind])

text \<open>C20: statements with one hash are of one type and were hashed from the same parts, as long as the digest
  function does not collide on what hashing the two feeds it.\<close>

theorem HashStatement_determines:
  assumes "\<forall>x. length (sha x) = 32" "inj_on sha (fed sha (HashStatement u s) \<union> fed sha (HashStatement u t))"
    "hash_String sha (HashStatement u s) = hash_String sha (HashStatement u t)"
  shows "GetStatementType s = GetStatementType t \<and> alike sha (HashStatement u s) (HashStatement u t)"
proof -
  have alike: "alike sha (HashStatement u s) (HashStatement u t)"
    using digest_alike(1) [OF assms(1,2)] assms(3) hex_encode_inject unfolding hash_String_def by simp
  note kind = alike_kind [OF alike]
  have generic: "base_kind (HashStatement u (SGeneric b)) = ''statement''" "map_of statement_kind ''statement'' = None" for b
    by (simp_all add: statement_kind_def)
  have "GetStatementType s = GetStatementType t"
  proof (cases "(\<forall>b. s \<noteq> SGeneric b) \<and> (\<forall>b. t \<noteq> SGeneric b)")
    case True
    then show ?thesis using kind_statement [of s u] kind_statement [of t u] kind by simp
  next
    case False
    then obtain b where "s = SGeneric b \<or> t = SGeneric b" by blast
    moreover from this have "base_kind (HashStatement u s) = ''statement''" "base_kind (HashStatement u t) = ''statement''"
      using kind generic(1) by (metis, metis)
    ultimately obtain c d where "s = SGeneric c" "t = SGeneric d"
      using kind_statement [of s u] kind_statement [of t u] generic(2) by fastforce
    then show ?thesis using alike by (simp add: AddString_def)
  qed
  with alike show ?thesis by blast
qed

theorem HashStatement_determines_witness:
  "hash_String pad_hash (HashStatement ascii_tables (SBreak no_base)) = hash_String pad_hash (HashStatement ascii_tables (SBreak no_base)) \<and>
   hash_String pad_hash (HashStatement ascii_tables (SBreak no_base)) \<noteq> hash_String pad_hash (HashStatement ascii_tables (SContinue no_base))"
proof -
  have len: "\<forall>x. length (pad_hash x) = 32" by (auto simp: pad_hash_def min_def)
  have inj: "inj_on pad_hash (fed pad_hash (HashStatement ascii_tables (SBreak no_base)) \<union>
      fed pad_hash (HashStatement ascii_tables (SContinue no_base)))"
    by (simp add: pad_hash_def)
  have "GetStatementType (SBreak no_base) \<noteq> GetStatementType (SContinue no_base)" by (simp add: statement_type_defs)
  then show ?thesis using HashStatement_determines [OF len inj] by blast
qed

text \<open>a literal without a value and the literal \<open><nil>\<close> have one hash; literals that differ otherwise, in value or
  in type, are hashed apart.\<close>

theorem hashLiteralStmt_eq:
  "hashLiteralStmt (LiteralStmt b v t) = hashLiteralStmt (LiteralStmt b' v' t') \<longleftrightarrow>
     t = t' \<and> (v = v' \<or> {v, v'} = {None, Some ''<nil>''})"
  by (auto simp: AddStringPtr_def AddString_def split: option.splits)

end
