(* ===== verification/Fingerprint.thy ===== *)
theory Fingerprint
  imports Hash_Statement "HOL-Library.Multiset"
begin

text \<open>
  The three hash layers of a node (\<open>fingerprint.go\<close>, \<open>fingerprint_layers.go\<close>, \<open>fingerprint_table.go\<close>):
  a container composes its members by their names relative to it, public members into its public layer,
  all of them into its private one, implementations into its content.
\<close>

subsection \<open>Members\<close>

record member =
  MemName :: gostring
  MemPublic :: bool
  MemLayers :: layers

definition member_name :: "ident \<Rightarrow> gostring" where
  "member_name i = (if Signature i \<noteq> [] then GetName i @ ''#'' @ Signature i else GetName i)"

definition IsPublic :: "gostring \<Rightarrow> bool" where
  "IsPublic visibility \<longleftrightarrow> visibility = VisibilityPublic \<or> visibility = VisibilityNA"

definition ellipsis :: gostring where
  "ellipsis = '' {'' @ [CHR 0xE2, CHR 0x80, CHR 0xA6] @ ''} ''"

definition line_of :: "(gostring \<Rightarrow> gostring) \<Rightarrow> gostring \<Rightarrow> shape \<Rightarrow> hasher \<Rightarrow> gostring" where
  "line_of sha name s h =
     (let line = ShKind s @ '' '' @ name @ ShFacts s in
      if ShMembers s \<noteq> [] then line @ ellipsis @ hash_String sha h else line)"

definition public_line :: "(gostring \<Rightarrow> gostring) \<Rightarrow> member \<Rightarrow> gostring" where
  "public_line sha m = line_of sha (MemName m) (LPublic (MemLayers m)) (FPublic (print_fingerprints (MemLayers m)))"

definition private_line :: "(gostring \<Rightarrow> gostring) \<Rightarrow> member \<Rightarrow> gostring" where
  "private_line sha m = line_of sha (MemName m) (LPrivate (MemLayers m)) (FPrivate (print_fingerprints (MemLayers m)))"

definition content_line :: "(gostring \<Rightarrow> gostring) \<Rightarrow> gostring \<Rightarrow> member \<Rightarrow> gostring list" where
  "content_line sha kind m =
     (case LContent (MemLayers m) of None \<Rightarrow> [] | Some h \<Rightarrow> [kind @ MemName m @ '' '' @ hash_String sha h])"

subsection \<open>Composition\<close>

datatype memberOrder = declaredOrder | unordered | orderedPrivately

record composition =
  CPublic :: "gostring list"
  CPrivate :: "gostring list"
  CContent :: "gostring list"
  Hidden :: bool

definition no_members :: composition where
  "no_members = \<lparr> CPublic = [], CPrivate = [], CContent = [], Hidden = False \<rparr>"

fun compose_member :: "(gostring \<Rightarrow> gostring) \<Rightarrow> bool \<Rightarrow> member \<Rightarrow> gostring list \<times> gostring list \<times> composition
    \<Rightarrow> gostring list \<times> gostring list \<times> composition" where
  "compose_member sha privateOnly m (public, private, c) =
     (let show = (\<not> privateOnly \<and> MemPublic m);
          public = (if show then public @ [public_line sha m] else public);
          c = (if \<not> show \<and> \<not> privateOnly then c\<lparr> Hidden := True \<rparr> else c);
          private = private @ [private_line sha m];
          c = c\<lparr> CContent := CContent c @ content_line sha (ShKind (LPublic (MemLayers m)) @ '' '') m \<rparr>
      in (public, private, c))"

definition add_members :: "(gostring \<Rightarrow> gostring) \<Rightarrow> member list \<Rightarrow> memberOrder \<Rightarrow> bool \<Rightarrow> composition \<Rightarrow> composition" where
  "add_members sha ms order privateOnly c =
     (case fold (compose_member sha privateOnly) ms ([], [], c) of (public, private, c) \<Rightarrow>
        let public = (if order \<noteq> declaredOrder then sort public else public);
            private = (if order = unordered then sort private else private)
        in c\<lparr> CPublic := CPublic c @ public, CPrivate := CPrivate c @ private \<rparr>)"

definition opaque :: "composition \<Rightarrow> composition" where
  "opaque c = (if Hidden c then c\<lparr> CPublic := CPublic c @ [''opaque''] \<rparr> else c)"

definition add_private :: "gostring list \<Rightarrow> composition \<Rightarrow> composition" where
  "add_private lines c = c\<lparr> CPrivate := CPrivate c @ lines \<rparr>"

definition composeContent :: "hasher option \<Rightarrow> gostring list \<Rightarrow> hasher option" where
  "composeContent own members =
     (if own = None \<and> members = [] then None
      else Some (AddStringSlice ''members'' (sort members) (AddContent ''own'' own (NewHasher ''fingerprint.content''))))"

definition close_layers :: "node_type \<Rightarrow> gostring \<Rightarrow> hasher option \<Rightarrow> composition \<Rightarrow> layers" where
  "close_layers kind facts own c =
     \<lparr> LPublic = \<lparr> ShKind = kind, ShFacts = facts, ShMembers = CPublic c \<rparr>,
       LPrivate = \<lparr> ShKind = kind, ShFacts = facts, ShMembers = CPrivate c \<rparr>,
       LContent = composeContent own (CContent c) \<rparr>"

subsection \<open>Leaves\<close>

definition method_layers :: "unicode_tables \<Rightarrow> method_node \<Rightarrow> layers" where
  "method_layers u m = methodLayers u (block_Hash u) m"

definition columnLayers :: "unicode_tables \<Rightarrow> record_column \<Rightarrow> layers" where
  "columnLayers u c =
     leafLayers (shape_kind (NBIdentifier (ColBase c)) NodeTypeColumn) (columnPublicFacts c) (columnPrivateFacts u c) None"

definition indexLayers :: "record_index \<Rightarrow> layers" where
  "indexLayers i = leafLayers (shape_kind (NBIdentifier (IxBase i)) NodeTypeIndex) [] (indexPrivateFacts i) None"

definition foreignKeyLayers :: "record_foreign_key \<Rightarrow> layers" where
  "foreignKeyLayers f =
     leafLayers (shape_kind (NBIdentifier (FKBase f)) NodeTypeForeignKey) [] (foreignKeyPrivateFacts f) None"

definition refLayers :: "unicode_tables \<Rightarrow> ident \<Rightarrow> layers" where
  "refLayers u i = leafLayers NodeTypeRef ('' '' @ SymbolKey u i) ('' '' @ SymbolKey u i) None"

definition member_of :: "ident \<Rightarrow> gostring \<Rightarrow> layers \<Rightarrow> member" where
  "member_of i visibility l = \<lparr> MemName = member_name i, MemPublic = IsPublic visibility, MemLayers = l \<rparr>"

definition method_member :: "unicode_tables \<Rightarrow> method_node \<Rightarrow> member" where
  "method_member u m = member_of (MIdentifier (MethodFacts m)) (MVisibility (MethodFacts m)) (method_layers u m)"

definition field_member :: "unicode_tables \<Rightarrow> record_field \<Rightarrow> member" where
  "field_member u f = member_of (RFIdentifier f) (RFVisibility f) (fieldLayers u f)"

definition column_member :: "unicode_tables \<Rightarrow> record_column \<Rightarrow> member" where
  "column_member u c = member_of (NBIdentifier (ColBase c)) VisibilityNA (columnLayers u c)"

definition index_member :: "record_index \<Rightarrow> member" where
  "index_member i = member_of (NBIdentifier (IxBase i)) VisibilityNA (indexLayers i)"

definition foreign_key_member :: "record_foreign_key \<Rightarrow> member" where
  "foreign_key_member f = member_of (NBIdentifier (FKBase f)) VisibilityNA (foreignKeyLayers f)"

subsection \<open>Containers\<close>

definition typed_member :: "typed_node \<Rightarrow> layers \<Rightarrow> member" where
  "typed_member t = member_of (NBIdentifier (TBase (TFacts t))) (TVisibility (TFacts t))"

definition typed_text :: "unicode_tables \<Rightarrow> typed_facts \<Rightarrow> gostring" where
  "typed_text u f =
     visibilityText (TVisibility f) @ typeParamsText u (TTypeParams f) @
     (case TExtends f of None \<Rightarrow> [] | Some t \<Rightarrow> '' extends '' @ typeRefText u t) @
     (if TImplements f \<noteq> [] then '' implements '' @ typeRefsText u (TImplements f) '', '' else []) @
     (if TIsAbstract f then '' abstract'' else [])"

fun typedLayers :: "(gostring \<Rightarrow> gostring) \<Rightarrow> unicode_tables \<Rightarrow> typed_node \<Rightarrow> layers" where
  "typedLayers sha u (TypedNode f ts) =
     (let c = no_members;
          c = add_members sha (map (field_member u) (TVariables f)) declaredOrder False c;
          c = add_members sha (map (method_member u) (of_option (\<lambda>m. [m]) (TConstructor f))) declaredOrder False c;
          c = add_members sha (map (method_member u) (of_option (\<lambda>m. [m]) (TDestructor f))) declaredOrder False c;
          c = add_members sha (map (method_member u) (TMethods f)) unordered False c;
          c = add_members sha (map (\<lambda>t. typed_member t (typedLayers sha u t)) ts) unordered False c;
          c = opaque c
      in close_layers (shape_kind (NBIdentifier (TBase f)) NodeTypeType) (typed_text u f) None c)"

definition record_member :: "ast_record \<Rightarrow> layers \<Rightarrow> member" where
  "record_member r = member_of (NBIdentifier (RBase (RFacts r))) VisibilityNA"

definition reference_line :: "record_reference \<Rightarrow> gostring" where
  "reference_line r = ''reference '' @ RRName r @ '' '' @ RRType r @ '' '' @ RRMapping r"

fun recordLayers :: "(gostring \<Rightarrow> gostring) \<Rightarrow> unicode_tables \<Rightarrow> ast_record \<Rightarrow> layers" where
  "recordLayers sha u (ASTRecord f exts) =
     (let c = no_members;
          c = add_members sha (map (field_member u) (RFields f)) declaredOrder False c;
          c = add_members sha (map (\<lambda>r. record_member r (recordLayers sha u r)) exts) declaredOrder False c;
          c = opaque c;
          c = add_private (map reference_line (RReferences f)) c;
          c = (if RValidation f \<noteq> ''{}'' then add_private [''validation '' @ RValidation f] c else c)
      in close_layers (shape_kind (NBIdentifier (RBase f)) NodeTypeRecord)
           (if RRecordType f \<noteq> [] then '' '' @ RRecordType f else []) None c)"

definition add_role :: "(gostring \<Rightarrow> gostring) \<Rightarrow> unicode_tables \<Rightarrow> gostring \<Rightarrow> ast_record \<Rightarrow> composition \<Rightarrow> composition" where
  "add_role sha u role r c =
     (let m = (record_member r (recordLayers sha u r))\<lparr> MemName := role \<rparr> in
      c\<lparr> CPublic := CPublic c @ [public_line sha m], CPrivate := CPrivate c @ [private_line sha m],
         CContent := CContent c @ content_line sha [] m \<rparr>)"

definition endpointLayers :: "(gostring \<Rightarrow> gostring) \<Rightarrow> unicode_tables \<Rightarrow> ast_endpoint \<Rightarrow> layers" where
  "endpointLayers sha u e =
     (let c = add_role sha u ''output'' (EpOutput e) (add_role sha u ''input'' (EpInput e) no_members);
          facts = concat (map (\<lambda>f. if f \<noteq> [] then '' '' @ f else []) [EpMethod e, EpType e]) @
            (if EpErrors e \<noteq> [] then '' throws '' @ errorsText (EpErrors e) else [])
      in close_layers (shape_kind (NBIdentifier (EpBase e)) NodeTypeEndpoint) facts None c)"

definition tableLayers :: "(gostring \<Rightarrow> gostring) \<Rightarrow> unicode_tables \<Rightarrow> record_table \<Rightarrow> layers" where
  "tableLayers sha u t =
     (let c = no_members;
          c = add_members sha (map (column_member u) (TabColumns t)) orderedPrivately False c;
          c = (if TabPrimaryKey t \<noteq> [] then add_private [''primary key ('' @ join_with '', '' (TabPrimaryKey t) @ '')''] c else c);
          c = add_members sha (map index_member (TabIndexes t)) unordered True c;
          c = add_members sha (map foreign_key_member (TabForeignKeys t)) unordered True c;
          c = add_members sha (map (method_member u) (TabTriggers t)) unordered True c;
          deps = sqlDependenciesText (TabSQLDependencies t) @
            sqlModuleText (TabSQLQuotedIdentifierOff t) (TabSQLRuntimeDependencies t);
          c = (if deps \<noteq> [] then add_private [deps] c else c);
          checks = sort_key CheckName (TabChecks t);
          c = (if checks \<noteq> [] then add_private [''checks='' @ json_list (map json_check checks)] c else c)
      in close_layers (shape_kind (NBIdentifier (TabBase t)) NodeTypeTable)
           (if TabRecordType t \<noteq> [] then '' '' @ TabRecordType t else [])
           (map_option (block_Hash u) (TabDefinition t)) c)"

definition packageLayers :: "(gostring \<Rightarrow> gostring) \<Rightarrow> unicode_tables \<Rightarrow> package_node \<Rightarrow> layers" where
  "packageLayers sha u p =
     (let c = no_members;
          c = add_members sha (map (\<lambda>t. typed_member t (typedLayers sha u t)) (PTypes p)) unordered False c;
          c = add_members sha (map (\<lambda>r. record_member r (recordLayers sha u r)) (PRecords p)) unordered False c;
          c = add_members sha
            (map (\<lambda>t. member_of (NBIdentifier (TabBase t)) VisibilityNA (tableLayers sha u t)) (PTables p)) unordered False c;
          c = add_members sha
            (map (\<lambda>e. member_of (NBIdentifier (EpBase e)) VisibilityNA (endpointLayers sha u e)) (PEndpoints p)) unordered False c;
          c = add_members sha (map (method_member u) (PFunctions p)) unordered False c;
          c = add_members sha (map (field_member u) (PVariables p)) unordered False c;
          c = add_members sha (map (method_member u) (PInitFunctions p)) unordered True c
      in close_layers (shape_kind (NBIdentifier (PBase p)) NodeTypePackage) [] None c)"

definition moduleLayers :: "(gostring \<Rightarrow> gostring) \<Rightarrow> unicode_tables \<Rightarrow> module_node \<Rightarrow> layers" where
  "moduleLayers sha u m =
     close_layers (shape_kind (NBIdentifier (ModBase m)) NodeTypeModule) [] None
       (add_members sha
         (map (\<lambda>p. member_of (NBIdentifier (PBase p)) VisibilityNA (packageLayers sha u p)) (ModPackages m))
         unordered False no_members)"

text \<open>A node without layers panics, which is \<open>None\<close>.\<close>

fun layersOf :: "(gostring \<Rightarrow> gostring) \<Rightarrow> unicode_tables \<Rightarrow> uir_node \<Rightarrow> layers option" where
  "layersOf sha u (NModule m) = Some (moduleLayers sha u m)"
| "layersOf sha u (NPackage p) = Some (packageLayers sha u p)"
| "layersOf sha u (NTyped t) = Some (typedLayers sha u t)"
| "layersOf sha u (NMethod m) = Some (method_layers u m)"
| "layersOf sha u (NRecord r) = Some (recordLayers sha u r)"
| "layersOf sha u (NEndpoint e) = Some (endpointLayers sha u e)"
| "layersOf sha u (NField f) = Some (fieldLayers u f)"
| "layersOf sha u (NTable t) = Some (tableLayers sha u t)"
| "layersOf sha u (NColumn c) = Some (columnLayers u c)"
| "layersOf sha u (NIndex i) = Some (indexLayers i)"
| "layersOf sha u (NForeignKey f) = Some (foreignKeyLayers f)"
| "layersOf sha u (NRef i) = Some (refLayers u i)"
| "layersOf sha u _ = None"

definition fingerprint :: "(gostring \<Rightarrow> gostring) \<Rightarrow> unicode_tables \<Rightarrow> uir_node \<Rightarrow> fingerprints option" where
  "fingerprint sha u n = map_option print_fingerprints (layersOf sha u n)"

fun layer_text :: "layers \<Rightarrow> layer \<Rightarrow> gostring" where
  "layer_text l LayerPublic = shape_text (LPublic l)"
| "layer_text l LayerPrivate = shape_text (LPrivate l)"
| "layer_text l LayerContent = []"

definition Shape :: "(gostring \<Rightarrow> gostring) \<Rightarrow> unicode_tables \<Rightarrow> uir_node \<Rightarrow> layer \<Rightarrow> gostring option" where
  "Shape sha u n layer = map_option (\<lambda>l. layer_text l layer) (layersOf sha u n)"

subsection \<open>The hash of a node\<close>

definition registered_Hash :: "(gostring \<Rightarrow> gostring) \<Rightarrow> unicode_tables \<Rightarrow> uir_node \<Rightarrow> hasher" where
  "registered_Hash sha u n =
     (case fingerprint sha u n of None \<Rightarrow> NewHasher ''nil'' | Some f \<Rightarrow> fingerprints_Hash f)"

definition hashed_nodes :: "(uir_node \<Rightarrow> hasher) \<Rightarrow> uir_node list \<Rightarrow> (gostring \<times> hasher) option list" where
  "hashed_nodes f ns = map (\<lambda>n. Some (GetType n, f n)) ns"

definition uir_Hash :: "(gostring \<Rightarrow> gostring) \<Rightarrow> unicode_tables \<Rightarrow> uir_data \<Rightarrow> hasher" where
  "uir_Hash sha u x =
     (let nodes = hashed_nodes (registered_Hash sha u); h = NewHasher ''uir'';
          h = AddNodeList ''modules'' (nodes (map NModule (Modules x))) h;
          h = AddNodeList ''packages'' (nodes (map NPackage (Packages x))) h;
          h = AddNodeList ''types'' (nodes (map NTyped (Types x))) h;
          h = AddNodeList ''records'' (nodes (map NRecord (Records x))) h;
          h = AddNodeList ''tables'' (nodes (map NTable (Tables x))) h;
          h = AddNodeList ''endpoints'' (nodes (map NEndpoint (Endpoints x))) h;
          h = AddNodeList ''functions'' (nodes (map NMethod (Functions x))) h
      in add_each (\<lambda>i f h. AddString (indexed ''raw'' i @ ''.content'') (snd f) (AddString (indexed ''raw'' i @ ''.path'') (fst f) h))
           0 (RawFiles x) h)"

fun node_Hash :: "(gostring \<Rightarrow> gostring) \<Rightarrow> unicode_tables \<Rightarrow> uir_node \<Rightarrow> hasher" where
  "node_Hash sha u (NList ns) =
     AddNodeList ''nodes'' (map (\<lambda>n. Some (GetType n, node_Hash sha u n)) ns) (NewHasher ''nodeList'')"
| "node_Hash sha u (NUIR x) = uir_Hash sha u x"
| "node_Hash sha u (NWrapper w) = registered_Hash sha u (wrapper_Value w)"
| "node_Hash sha u n = registered_Hash sha u n"

subsection \<open>What the layers depend on\<close>

lemma compose_all:
  "fold (compose_member sha po) ms (pub, priv, c) =
     (pub @ map (public_line sha) (filter (\<lambda>m. \<not> po \<and> MemPublic m) ms), priv @ map (private_line sha) ms,
      c\<lparr> Hidden := Hidden c \<or> \<not> po \<and> (\<exists>m \<in> set ms. \<not> MemPublic m),
         CContent := CContent c @ concat (map (\<lambda>m. content_line sha (ShKind (LPublic (MemLayers m)) @ '' '') m) ms) \<rparr>)"
  by (induction ms arbitrary: pub priv c) (auto simp: Let_def)

lemma add_members_eq:
  "add_members sha ms order po c =
     (let pub = map (public_line sha) (filter (\<lambda>m. \<not> po \<and> MemPublic m) ms); priv = map (private_line sha) ms in
      c\<lparr> CPublic := CPublic c @ (if order \<noteq> declaredOrder then sort pub else pub),
         CPrivate := CPrivate c @ (if order = unordered then sort priv else priv),
         CContent := CContent c @ concat (map (\<lambda>m. content_line sha (ShKind (LPublic (MemLayers m)) @ '' '') m) ms),
         Hidden := Hidden c \<or> \<not> po \<and> (\<exists>m \<in> set ms. \<not> MemPublic m) \<rparr>)"
  by (simp add: add_members_def compose_all Let_def)

text \<open>Compositions that close to the same layers: content is sorted only then.\<close>

definition same_public :: "composition \<Rightarrow> composition \<Rightarrow> bool" where
  "same_public c d \<longleftrightarrow> CPublic c = CPublic d \<and> Hidden c = Hidden d"

definition same_composition :: "composition \<Rightarrow> composition \<Rightarrow> bool" where
  "same_composition c d \<longleftrightarrow> same_public c d \<and> CPrivate c = CPrivate d \<and> mset (CContent c) = mset (CContent d)"

lemma sort_mset: "mset xs = mset ys \<Longrightarrow> sort xs = sort (ys :: gostring list)"
  by (rule properties_for_sort) simp_all

lemma mset_members:
  assumes "mset ms = mset ms'"
  shows "mset (filter P ms) = mset (filter P ms')" "mset (map f ms) = mset (map f ms')"
    "mset (concat (map g ms)) = mset (concat (map g ms'))" "set ms = set ms'"
proof -
  have "mset (concat (map g xs)) = \<Sum>\<^sub># (image_mset (\<lambda>x. mset (g x)) (mset xs))" for xs
    by (induction xs) auto
  then show "mset (concat (map g ms)) = mset (concat (map g ms'))" using assms by simp
qed (use assms mset_eq_setD in auto)

lemma same_add:
  assumes "same_composition c d" "mset ms = mset ms'"
  shows "same_composition (add_members sha ms unordered po c) (add_members sha ms' unordered po d)"
  using assms mset_members [OF assms(2)]
  by (auto simp: same_composition_def same_public_def add_members_eq Let_def intro!: sort_mset)

lemma same_add_declared:
  "same_composition c d \<Longrightarrow> same_composition (add_members sha ms order po c) (add_members sha ms order po d)"
  by (simp add: same_composition_def same_public_def add_members_eq Let_def)

lemma same_opaque: "same_composition c d \<Longrightarrow> same_composition (opaque c) (opaque d)"
  by (simp add: same_composition_def same_public_def opaque_def)

lemma same_refl: "same_composition c c"
  by (simp add: same_composition_def same_public_def)

lemma same_close: "same_composition c d \<Longrightarrow> close_layers kind facts own c = close_layers kind facts own d"
  using sort_mset [of "CContent c" "CContent d"]
  by (auto simp: same_composition_def same_public_def close_layers_def composeContent_def)

lemma typed_text_methods: "typed_text u (f\<lparr> TMethods := ms \<rparr>) = typed_text u f"
  by (simp add: typed_text_def)

definition same_members :: "package_node \<Rightarrow> package_node \<Rightarrow> bool" where
  "same_members p q \<longleftrightarrow>
     mset (PTypes p) = mset (PTypes q) \<and> mset (PRecords p) = mset (PRecords q) \<and> mset (PTables p) = mset (PTables q) \<and>
     mset (PEndpoints p) = mset (PEndpoints q) \<and> mset (PFunctions p) = mset (PFunctions q) \<and>
     mset (PVariables p) = mset (PVariables q) \<and> mset (PInitFunctions p) = mset (PInitFunctions q)"

text \<open>the order a package lists its members in, or a module its packages, or a type its methods and inner
  types, is in none of its layers.\<close>

theorem layers_unordered:
  assumes "same_members p q" "NBIdentifier (PBase p) = NBIdentifier (PBase q)"
    "mset (ModPackages m) = mset (ModPackages n)" "NBIdentifier (ModBase m) = NBIdentifier (ModBase n)"
    "mset methods = mset methods'" "mset ts = mset ts'"
  shows "fingerprint sha u (NPackage p) = fingerprint sha u (NPackage q) \<and>
    fingerprint sha u (NModule m) = fingerprint sha u (NModule n) \<and>
    fingerprint sha u (NTyped (TypedNode (f\<lparr> TMethods := methods \<rparr>) ts)) =
      fingerprint sha u (NTyped (TypedNode (f\<lparr> TMethods := methods' \<rparr>) ts'))"
proof -
  have "packageLayers sha u p = packageLayers sha u q"
    using assms(1) unfolding packageLayers_def Let_def assms(2) same_members_def
    by (intro same_close same_add same_refl) (simp_all add: mset_map)
  moreover have "moduleLayers sha u m = moduleLayers sha u n"
    using assms(3) unfolding moduleLayers_def assms(4) by (intro same_close same_add same_refl) (simp add: mset_map)
  moreover have "typedLayers sha u (TypedNode (f\<lparr> TMethods := methods \<rparr>) ts) =
      typedLayers sha u (TypedNode (f\<lparr> TMethods := methods' \<rparr>) ts')"
    using assms(5,6) unfolding typedLayers.simps Let_def
    by (simp add: typed_text_methods) (intro same_close same_opaque same_add same_add_declared same_refl; simp)
  ultimately show ?thesis by (simp add: fingerprint_def)
qed

definition empty_package :: package_node where
  "empty_package =
     \<lparr> PBase = no_node_base, PTypes = [], PRecords = [], PTables = [], PEndpoints = [], PFunctions = [], PVariables = [],
       PInitFunctions = [] \<rparr>"

definition named_ref :: "gostring \<Rightarrow> ident" where
  "named_ref n = NilIdentifier\<lparr> Field := n \<rparr>"

definition named_field :: "gostring \<Rightarrow> gostring \<Rightarrow> record_field" where
  "named_field n v =
     \<lparr> RFIdentifier = named_ref n, RFLabel = [], RFFieldType = ''string'', RFSQLType = [], RFTypeRef = None,
       RFDefaultValue = None, RFReadOnly = False, RFWriteOnly = False, RFValidation = ''{}'', RFVisibility = v,
       RFSource = no_source \<rparr>"

definition empty_type :: typed_facts where
  "empty_type =
     \<lparr> TBase = no_node_base, TVisibility = [], TVariables = [], TMethods = [], TConstructor = None, TDestructor = None,
       TTypeParams = [], TImplements = [], TExtends = None, TIsAbstract = False \<rparr>"

theorem layers_unordered_witness:
  "fingerprint pad_hash ascii_tables (NPackage (empty_package\<lparr> PVariables := [named_field ''a'' [], named_field ''b'' []] \<rparr>)) =
   fingerprint pad_hash ascii_tables (NPackage (empty_package\<lparr> PVariables := [named_field ''b'' [], named_field ''a'' []] \<rparr>))"
  by (rule layers_unordered [of _ _ "\<lparr> ModBase = no_node_base, ModPackages = [] \<rparr>" "\<lparr> ModBase = no_node_base, ModPackages = [] \<rparr>"
        "[]" "[]" "[]" "[]", THEN conjunct1])
    (simp_all add: same_members_def empty_package_def add_mset_commute)

definition same_outside :: "composition \<Rightarrow> composition \<Rightarrow> bool" where
  "same_outside c d \<longleftrightarrow> same_public c d \<and> CContent c = CContent d"

lemma same_outside_add: "same_outside c d \<Longrightarrow> same_outside (add_members sha ms order po c) (add_members sha ms order po d)"
  by (simp add: same_outside_def same_public_def add_members_eq Let_def)

lemma same_outside_private: "same_outside c d \<Longrightarrow> same_outside (add_private xs c) (add_private ys d)"
  by (simp add: same_outside_def same_public_def add_private_def)

lemma same_outside_if: "same_outside a c \<Longrightarrow> same_outside b d \<Longrightarrow> same_outside (if P then a else b) (if P then c else d)"
  by simp

lemma same_outside_close:
  "same_outside c d \<Longrightarrow> LPublic (close_layers k f own c) = LPublic (close_layers k f own d) \<and>
     LContent (close_layers k f own c) = LContent (close_layers k f own d)"
  by (simp add: same_outside_def same_public_def close_layers_def)

text \<open>the order of a table's columns is in its private layer only.\<close>

theorem columns_unordered_publicly:
  assumes "mset cols = mset cols'"
  shows "LPublic (tableLayers sha u (t\<lparr> TabColumns := cols \<rparr>)) = LPublic (tableLayers sha u (t\<lparr> TabColumns := cols' \<rparr>)) \<and>
    LContent (tableLayers sha u (t\<lparr> TabColumns := cols \<rparr>)) = LContent (tableLayers sha u (t\<lparr> TabColumns := cols' \<rparr>))"
proof -
  have leaf: "content_line sha k (column_member u x) = []" "MemPublic (column_member u x)" for k x
    by (simp_all add: content_line_def column_member_def member_of_def columnLayers_def leafLayers_def IsPublic_def)
  have e: "add_members sha (map (column_member u) cols) orderedPrivately False no_members =
      no_members\<lparr> CPublic := sort (map (public_line sha \<circ> column_member u) cols),
        CPrivate := map (private_line sha \<circ> column_member u) cols \<rparr>" for cols
    by (simp add: add_members_eq Let_def no_members_def leaf filter_map comp_def)
  have "sort (map (public_line sha \<circ> column_member u) cols) = sort (map (public_line sha \<circ> column_member u) cols')"
    using assms by (intro sort_mset) (simp add: mset_map)
  then have start: "same_outside (add_members sha (map (column_member u) cols) orderedPrivately False no_members)
      (add_members sha (map (column_member u) cols') orderedPrivately False no_members)"
    by (simp add: e same_outside_def same_public_def)
  show ?thesis
    unfolding tableLayers_def Let_def
    by (cases t; simp only: record_table.simps; intro same_outside_close same_outside_if same_outside_add same_outside_private start)
qed

definition empty_table :: record_table where
  "empty_table =
     \<lparr> TabBase = no_node_base, TabDescription = [], TabRecordType = ''sql:table'', TabColumns = [], TabPrimaryKey = [],
       TabIndexes = [], TabForeignKeys = [], TabChecks = [], TabSQLDependencies = [], TabSQLRuntimeDependencies = [],
       TabSQLQuotedIdentifierOff = False, RowCount = None, TabDefinition = None, TabTriggers = [] \<rparr>"

definition named_column :: "gostring \<Rightarrow> record_column" where
  "named_column n =
     \<lparr> ColBase = no_node_base\<lparr> NBIdentifier := NilIdentifier\<lparr> Field := n \<rparr> \<rparr>, ColLabel = [], ColSQLType = ''int'',
       ColFieldType = [], ColOrdinal = 0, ColNullable = False, ColPrimaryKey = False, ColAutoIncrement = False,
       ColUnique = False, ColMaxLength = None, ColPrecision = None, ColScale = None, ColDefaultValue = None,
       ColIdentity = None, ColSQLDefault = None, ColCollation = [], ColRowGUID = False, ColEnum = [] \<rparr>"

theorem columns_unordered_publicly_witness:
  "LPublic (tableLayers pad_hash ascii_tables (empty_table\<lparr> TabColumns := [named_column ''a'', named_column ''b''] \<rparr>)) =
   LPublic (tableLayers pad_hash ascii_tables (empty_table\<lparr> TabColumns := [named_column ''b'', named_column ''a''] \<rparr>))"
  by (rule columns_unordered_publicly [THEN conjunct1]) (simp add: add_mset_commute)

text \<open>what a consumer cannot see is not in the public layer: methods of a type that are not public may be
  changed, reordered or renamed and leave its public layer as it is, as long as the public ones stay and the
  type still has a member that is hidden, or still has none.\<close>

theorem hidden_methods:
  assumes "mset (filter (\<lambda>m. IsPublic (MVisibility (MethodFacts m))) ms) = mset (filter (\<lambda>m. IsPublic (MVisibility (MethodFacts m))) ms')"
    "(\<exists>m \<in> set ms. \<not> IsPublic (MVisibility (MethodFacts m))) = (\<exists>m \<in> set ms'. \<not> IsPublic (MVisibility (MethodFacts m)))"
  shows "LPublic (typedLayers sha u (TypedNode (f\<lparr> TMethods := ms \<rparr>) ts)) =
    LPublic (typedLayers sha u (TypedNode (f\<lparr> TMethods := ms' \<rparr>) ts))"
proof -
  have member: "MemPublic (method_member u m) = IsPublic (MVisibility (MethodFacts m))" for m
    by (simp add: method_member_def member_of_def)
  have add: "same_public (add_members sha xs order po c) (add_members sha xs order po d)" if "same_public c d" for xs order po c d
    using that by (simp add: same_public_def add_members_eq Let_def)
  have close: "LPublic (close_layers k t own (opaque c)) = LPublic (close_layers k t own (opaque d))" if "same_public c d" for c d k t own
    using that by (simp add: same_public_def close_layers_def opaque_def)
  have sorted: "sort (map (public_line sha) (filter MemPublic (map (method_member u) ms))) =
      sort (map (public_line sha) (filter MemPublic (map (method_member u) ms')))"
    using assms(1) by (intro sort_mset) (simp add: filter_map comp_def member mset_map)
  have change: "same_public (add_members sha (map (method_member u) ms) unordered False c)
      (add_members sha (map (method_member u) ms') unordered False c)" for c
    using sorted assms(2) by (simp add: same_public_def add_members_eq Let_def member)
  show ?thesis
    unfolding typedLayers.simps Let_def typed_text_methods
    by (cases f; simp only: typed_facts.simps; intro close add change)
qed

definition named_method :: "gostring \<Rightarrow> gostring \<Rightarrow> method_node" where
  "named_method n v =
     MethodNode
       \<lparr> MIdentifier = NilIdentifier\<lparr> Method := n \<rparr>, MVisibility = v, MParams = [], MReturns = [], MErrors = [],
         MTypeParams = [], MReturnType = None, MIsAsync = False, MIsGenerator = False, MProperties = [],
         MSQLDependencies = [], MSQLRuntimeDependencies = [], MSQLQuotedIdentifierOff = False, MSource = no_source \<rparr>
       None"

theorem hidden_methods_witness:
  "LPublic (typedLayers pad_hash ascii_tables (TypedNode (empty_type\<lparr> TMethods := [named_method ''a'' ''public'', named_method ''b'' ''private''] \<rparr>) [])) =
   LPublic (typedLayers pad_hash ascii_tables (TypedNode (empty_type\<lparr> TMethods := [named_method ''c'' ''private'', named_method ''a'' ''public''] \<rparr>) []))"
  by (rule hidden_methods) (simp_all add: named_method_def IsPublic_def VisibilityPublic_def VisibilityNA_def)

text \<open>the private layer's hash determines the public layer's: nodes with one private hash have one public
  text and one private text, as long as the digest function does not collide on what the two feed it.\<close>

theorem private_determines_public:
  assumes "\<forall>x. length (sha x) = 32" "inj_on sha (fed sha (FPrivate (print_fingerprints l)) \<union> fed sha (FPrivate (print_fingerprints l')))"
    "hash_String sha (FPrivate (print_fingerprints l)) = hash_String sha (FPrivate (print_fingerprints l'))"
  shows "shape_text (LPublic l) = shape_text (LPublic l') \<and> shape_text (LPrivate l) = shape_text (LPrivate l')"
proof -
  have "alike sha (FPrivate (print_fingerprints l)) (FPrivate (print_fingerprints l'))"
    using digest_alike(1) [OF assms(1,2)] assms(3) hex_encode_inject unfolding hash_String_def
    by (simp add: print_fingerprints_def Let_def)
  then show ?thesis by (simp add: print_fingerprints_def Let_def AddString_def AddHash_def)
qed

text \<open>A digest function of 32 bytes that tells inputs of up to 255 bytes apart by their length.\<close>

definition len_hash :: "gostring \<Rightarrow> gostring" where
  "len_hash s = char_of (length s) # replicate 31 (CHR ''.'')"

lemma len_hash_length [simp]: "length (len_hash s) = 32"
  by (simp add: len_hash_def)

lemma hex_length: "length (hex_encode s) = 2 * length s"
  by (induction s) (simp_all add: hex_encode_def)

theorem private_determines_public_witness:
  "hash_String len_hash (FPrivate (print_fingerprints (leafLayers ''k'' [] ''p'' None))) \<noteq>
   hash_String len_hash (FPrivate (print_fingerprints (leafLayers ''k'' [] ''pq'' None)))"
proof -
  let ?l = "leafLayers ''k'' [] ''p'' None" and ?m = "leafLayers ''k'' [] ''pq'' None"
  have feed: "fed len_hash (FPrivate (print_fingerprints (leafLayers ''k'' [] f None))) =
      {''uir:fingerprint.private'', ''uir:fingerprint.public'',
       len_hash ''uir:fingerprint.public'' @ NUL # ''shape'' @ NUL # ''k'',
       len_hash ''uir:fingerprint.private'' @ NUL # ''public'' @ NUL #
         hex_encode (len_hash (len_hash ''uir:fingerprint.public'' @ NUL # ''shape'' @ NUL # ''k'')),
       len_hash (len_hash ''uir:fingerprint.private'' @ NUL # ''public'' @ NUL #
         hex_encode (len_hash (len_hash ''uir:fingerprint.public'' @ NUL # ''shape'' @ NUL # ''k''))) @ NUL # ''shape'' @ NUL # ''k'' @ f}" for f
    by (auto simp: print_fingerprints_def leafLayers_def shape_text_def Let_def AddString_def AddHash_def)
  have "inj_on len_hash (fed len_hash (FPrivate (print_fingerprints ?l)) \<union> fed len_hash (FPrivate (print_fingerprints ?m)))"
    unfolding feed by (rule inj_onI) (elim UnE insertE emptyE; simp add: len_hash_def hex_length)
  from private_determines_public [OF _ this] show ?thesis
    by (auto simp: leafLayers_def shape_text_def)
qed

end
