(* ===== verification/Uir.thy ===== *)
theory Uir
  imports Node_Model "HOL-Library.AList" "HOL-Library.Multiset" "HOL-Library.List_Lexorder" "HOL-Library.Char_ord" "HOL-Library.Product_Lexorder"
begin

text \<open>
  The root of a model (\<open>uir.go\<close>, \<open>hierarchy.go\<close>, \<open>PackageNode.Add\<close> of \<open>node_types.go\<close>, \<open>GroupByPackage\<close>
  of \<open>walk.go\<close>): adding nodes, merging two roots, coalescing the types one class was split into, and
  grouping a tree by package.
\<close>

subsection \<open>Adding nodes\<close>

definition drop_message :: gostring where
  "drop_message = ''uir: Add has no case for this node type; the node was dropped''"

fun direct_Add :: "uir_node \<Rightarrow> uir \<Rightarrow> uir" where
  "direct_Add (NModule m) x = x\<lparr> Modules := Modules x @ [m] \<rparr>"
| "direct_Add (NPackage p) x = x\<lparr> Packages := Packages x @ [p] \<rparr>"
| "direct_Add (NTyped t) x = x\<lparr> Types := Types x @ [t] \<rparr>"
| "direct_Add (NRecord r) x = x\<lparr> Records := Records x @ [r] \<rparr>"
| "direct_Add (NTable t) x = x\<lparr> Tables := Tables x @ [t] \<rparr>"
| "direct_Add (NEndpoint e) x = x\<lparr> Endpoints := Endpoints x @ [e] \<rparr>"
| "direct_Add (NMethod m) x = x\<lparr> Functions := Functions x @ [m] \<rparr>"
| "direct_Add n x = x\<lparr> Warnings := Warnings x @ [(drop_message, n)] \<rparr>"

definition AddWrapper :: "node_wrapper \<Rightarrow> uir \<Rightarrow> uir" where
  "AddWrapper w x = (case wrapper_Value w of NNil \<Rightarrow> x | n \<Rightarrow> direct_Add n x)"

definition Add :: "uir_node \<Rightarrow> uir \<Rightarrow> uir" where
  "Add n x = (case n of NWrapper w \<Rightarrow> AddWrapper w x | _ \<Rightarrow> direct_Add n x)"

definition AddNodes :: "node_wrapper list \<Rightarrow> uir \<Rightarrow> uir" where
  "AddNodes ws x = fold AddWrapper ws x"

definition hierarchy_count :: "hierarchy_node list option \<Rightarrow> nat" where
  "hierarchy_count h = (case h of None \<Rightarrow> 0 | Some ns \<Rightarrow> length ns)"

definition uir_IsEmpty :: "uir \<Rightarrow> bool" where
  "uir_IsEmpty x \<longleftrightarrow>
     Modules x = [] \<and> Packages x = [] \<and> Types x = [] \<and> Records x = [] \<and> Tables x = [] \<and> Endpoints x = [] \<and>
     Functions x = [] \<and> RawFiles x = [] \<and> hierarchy_count (Hierarchy x) = 0"

definition Count :: "uir \<Rightarrow> nat" where
  "Count x =
     length (Modules x) + length (Packages x) + length (Types x) + length (Records x) + length (Tables x) +
     length (Endpoints x) + length (Functions x) + hierarchy_count (Hierarchy x)"

definition mergeHierarchyGraphs :: "hierarchy_node list option \<Rightarrow> hierarchy_node list option \<Rightarrow> hierarchy_node list option" where
  "mergeHierarchyGraphs left right =
     (if hierarchy_count left = 0 then (if hierarchy_count right = 0 then None else right)
      else if hierarchy_count right = 0 then left
      else Some (the left @ the right))"

definition Merge :: "uir \<Rightarrow> uir \<Rightarrow> uir" where
  "Merge x y =
     x\<lparr> Modules := Modules x @ Modules y, Packages := Packages x @ Packages y, Types := Types x @ Types y,
        Records := Records x @ Records y, Tables := Tables x @ Tables y, Endpoints := Endpoints x @ Endpoints y,
        Functions := Functions x @ Functions y, Hierarchy := mergeHierarchyGraphs (Hierarchy x) (Hierarchy y),
        Warnings := Warnings x @ Warnings y \<rparr>"

subsection \<open>Coalescing types\<close>

definition ExternalImportProperty :: gostring where "ExternalImportProperty = ''externalImport''"

definition property_text :: "property option \<Rightarrow> gostring" where
  "property_text p = (case p of Some (PString s) \<Rightarrow> s | _ \<Rightarrow> [])"

definition import_lines :: "gostring \<Rightarrow> gostring list" where
  "import_lines s = filter (\<lambda>l. l \<noteq> []) (map trim_space (split_on (CHR 0x0A) s))"

fun keep_first :: "'a set \<Rightarrow> 'a list \<Rightarrow> 'a list" where
  "keep_first seen [] = []"
| "keep_first seen (x # xs) = (if x \<in> seen then keep_first seen xs else x # keep_first (insert x seen) xs)"

definition unionImportHints :: "property option \<Rightarrow> property option \<Rightarrow> property" where
  "unionImportHints a b =
     PString (join_with [CHR 0x0A] (keep_first {} (import_lines (property_text a) @ import_lines (property_text b))))"

definition merge_property :: "gostring \<times> property \<Rightarrow> (gostring \<times> property) list \<Rightarrow> (gostring \<times> property) list" where
  "merge_property kv props =
     (case kv of (k, v) \<Rightarrow>
        if k = ExternalImportProperty then AList.update k (unionImportHints (map_of props k) (Some v)) props
        else if map_of props k = None then AList.update k v props
        else props)"

definition mergeMetadata :: "node_base \<Rightarrow> node_base \<Rightarrow> node_base" where
  "mergeMetadata a b =
     a\<lparr> Annotations := Annotations a @ Annotations b, Comments := Comments a @ Comments b,
        Properties := fold merge_property (Properties b) (Properties a) \<rparr>"

definition union_by :: "('a \<Rightarrow> gostring) \<Rightarrow> 'a list \<Rightarrow> 'a list \<Rightarrow> 'a list" where
  "union_by key a b =
     fst (fold (\<lambda>p (out, seen). if key p \<in> seen then (out, seen) else (out @ [p], insert (key p) seen)) b (a, key ` set a))"

definition unionParams :: "record_field list \<Rightarrow> record_field list \<Rightarrow> record_field list" where
  "unionParams = union_by (\<lambda>p. Field (RFIdentifier p))"

definition unionTypeReferences :: "type_ref list \<Rightarrow> type_ref list \<Rightarrow> type_ref list" where
  "unionTypeReferences = union_by TRName"

definition noTransactionPathScore :: nat where "noTransactionPathScore = 2 ^ 30"

fun transaction_segments :: "gostring list \<Rightarrow> nat" where
  "transaction_segments (p # q # ps) =
     (if p = ''tr'' \<and> q \<noteq> [] then length ps else transaction_segments (q # ps))"
| "transaction_segments _ = noTransactionPathScore"

definition path_Base :: "gostring \<Rightarrow> gostring" where
  "path_Base s =
     (let t = rev (dropWhile (\<lambda>c. c = CHR ''/'') (rev s)) in
      if s = [] then ''.'' else if t = [] then ''/'' else after_last (CHR ''/'') t)"

text \<open>The score of a path, compared component by component; a path under no \<open>tr/<name>\<close> scores last.\<close>

definition scoreCoalescedPath :: "gostring \<Rightarrow> nat \<times> nat \<times> gostring" where
  "scoreCoalescedPath raw =
     (let clean = trim_prefix raw ''file://'' in
      (transaction_segments (split_on (CHR ''/'') clean),
       (if path_Base clean = ''XMLData.xml'' then 0 else if path_Base clean = ''data.xml'' then 1 else 2), clean))"

definition preferTypedNodeSource :: "gostring \<Rightarrow> gostring \<Rightarrow> bool" where
  "preferTypedNodeSource candidate current =
     (if current = [] then candidate \<noteq> []
      else if candidate = [] then False
      else
        case (scoreCoalescedPath candidate, scoreCoalescedPath current) of ((a, r, p), (a', r', p')) \<Rightarrow>
          if a = noTransactionPathScore \<and> a' = noTransactionPathScore then False
          else if a \<noteq> a' then a < a'
          else if r \<noteq> r' then r < r'
          else p < p')"

definition first_set :: "'a option \<Rightarrow> 'a option \<Rightarrow> 'a option" where
  "first_set a b = (case a of None \<Rightarrow> b | Some x \<Rightarrow> Some x)"

definition mergeTypedNode :: "typed_node \<Rightarrow> typed_node \<Rightarrow> typed_node" where
  "mergeTypedNode a b =
     (let f = TFacts a; g = TFacts b; base = mergeMetadata (TBase f) (TBase g);
          prefer = preferTypedNodeSource (LocPath (Location (NBSource (TBase g)))) (LocPath (Location (NBSource (TBase f))))
      in TypedNode
           (f\<lparr> TMethods := TMethods f @ TMethods g, TVariables := unionParams (TVariables f) (TVariables g),
               TImplements := unionTypeReferences (TImplements f) (TImplements g),
               TConstructor := first_set (TConstructor f) (TConstructor g),
               TDestructor := first_set (TDestructor f) (TDestructor g),
               TIsAbstract := TIsAbstract f \<or> TIsAbstract g,
               TBase := (if prefer then base\<lparr> NBSource := NBSource (TBase g) \<rparr> else base) \<rparr>)
           (TTypes a @ TTypes b))"

definition typed_identifier :: "typed_node \<Rightarrow> ident" where
  "typed_identifier t = NBIdentifier (TBase (TFacts t))"

definition coalesce_key :: "typed_node \<Rightarrow> gostring" where
  "coalesce_key t =
     (let i = typed_identifier t in Module i @ ''|'' @ Package i @ ''|'' @ Type i)"

definition unnamed_type :: "typed_node \<Rightarrow> bool" where
  "unnamed_type t \<longleftrightarrow> Package (typed_identifier t) = [] \<and> Type (typed_identifier t) = []"

fun coalesce_into :: "typed_node list \<Rightarrow> (gostring \<rightharpoonup> nat) \<times> typed_node list \<Rightarrow> typed_node list" where
  "coalesce_into [] (groups, merged) = merged"
| "coalesce_into (t # ts) (groups, merged) =
     (if unnamed_type t then coalesce_into ts (groups, merged @ [t])
      else case groups (coalesce_key t) of
        Some i \<Rightarrow> coalesce_into ts (groups, merged[i := mergeTypedNode (merged ! i) t])
      | None \<Rightarrow> coalesce_into ts (groups(coalesce_key t \<mapsto> length merged), merged @ [t]))"

definition Coalesce :: "uir \<Rightarrow> uir" where
  "Coalesce x = (if length (Types x) \<le> 1 then x else x\<lparr> Types := coalesce_into (Types x) (Map.empty, []) \<rparr>)"

subsection \<open>Grouping by package\<close>

datatype package_error = NestedPackage | UnsupportedChild uir_node

fun direct_package_Add :: "uir_node \<Rightarrow> package_node \<Rightarrow> (package_error, package_node) outcome" where
  "direct_package_Add (NTyped t) p = Inr (p\<lparr> PTypes := PTypes p @ [t] \<rparr>)"
| "direct_package_Add (NRecord r) p = Inr (p\<lparr> PRecords := PRecords p @ [r] \<rparr>)"
| "direct_package_Add (NTable t) p = Inr (p\<lparr> PTables := PTables p @ [t] \<rparr>)"
| "direct_package_Add (NEndpoint e) p = Inr (p\<lparr> PEndpoints := PEndpoints p @ [e] \<rparr>)"
| "direct_package_Add (NMethod m) p = Inr (p\<lparr> PFunctions := PFunctions p @ [m] \<rparr>)"
| "direct_package_Add (NPackage _) p = Inl NestedPackage"
| "direct_package_Add n p = Inl (UnsupportedChild n)"

definition package_Add :: "uir_node \<Rightarrow> package_node \<Rightarrow> (package_error, package_node) outcome" where
  "package_Add n p = direct_package_Add (case n of NWrapper w \<Rightarrow> wrapper_Value w | _ \<Rightarrow> n) p"

definition empty_package :: package_node where
  "empty_package =
     \<lparr> PBase = no_node_base, PTypes = [], PRecords = [], PTables = [], PEndpoints = [], PFunctions = [], PVariables = [],
       PInitFunctions = [] \<rparr>"

definition merge_package :: "package_node \<Rightarrow> package_node \<Rightarrow> package_node" where
  "merge_package old p =
     old\<lparr> PTypes := PTypes old @ PTypes p, PRecords := PRecords old @ PRecords p, PTables := PTables old @ PTables p,
          PEndpoints := PEndpoints old @ PEndpoints p, PFunctions := PFunctions old @ PFunctions p,
          PVariables := PVariables old @ PVariables p, PInitFunctions := PInitFunctions old @ PInitFunctions p \<rparr>"

type_synonym grouped = "(gostring \<times> package_node) list"

definition package_name :: "package_node \<Rightarrow> gostring" where
  "package_name p = Package (NBIdentifier (PBase p))"

definition group_package :: "package_node \<Rightarrow> grouped \<Rightarrow> grouped" where
  "group_package p g =
     AList.update (package_name p)
       (case map_of g (package_name p) of Some old \<Rightarrow> merge_package old p | None \<Rightarrow> p) g"

definition group_other :: "uir_node \<Rightarrow> grouped \<Rightarrow> (package_error, grouped) outcome" where
  "group_other n g =
     and_then (package_Add n (case map_of g [] of Some p \<Rightarrow> p | None \<Rightarrow> empty_package))
       (\<lambda>p. Inr (AList.update [] p g))"

definition group_leaf :: "uir_node \<Rightarrow> grouped \<Rightarrow> (package_error, grouped) outcome" where
  "group_leaf n g = (case n of NPackage p \<Rightarrow> Inr (group_package p g) | _ \<Rightarrow> group_other n g)"

text \<open>The nodes grouping descends to: through the root, modules and node lists.\<close>

fun group_nodes :: "uir_node \<Rightarrow> uir_node list" where
  "group_nodes (NUIR x) =
     concat (map (\<lambda>m. map NPackage (ModPackages m)) (Modules x)) @ map NPackage (Packages x) @ map NTyped (Types x) @
     map NRecord (Records x) @ map NTable (Tables x) @ map NEndpoint (Endpoints x) @ map NMethod (Functions x)"
| "group_nodes (NModule m) = map NPackage (ModPackages m)"
| "group_nodes (NList ns) = concat (map group_nodes ns)"
| "group_nodes n = [n]"

fun group_all :: "uir_node list \<Rightarrow> grouped \<Rightarrow> (package_error, grouped) outcome" where
  "group_all [] g = Inr g"
| "group_all (n # ns) g = and_then (group_leaf n g) (group_all ns)"

definition GroupByPackage :: "uir_node \<Rightarrow> (package_error, package_node list) outcome" where
  "GroupByPackage n =
     and_then (group_all (group_nodes n) []) (\<lambda>g. Inr (map snd (sort_key fst g)))"

subsection \<open>What adding and merging keep\<close>

lemma hierarchy_count_merge: "hierarchy_count (mergeHierarchyGraphs a b) = hierarchy_count a + hierarchy_count b"
  by (auto simp: mergeHierarchyGraphs_def hierarchy_count_def split: option.splits)

text \<open>merging keeps every node and every warning of both roots, the first's before the second's, and counts
  add up; of the raw files only the first root's are kept.\<close>

theorem Merge_keeps:
  "Count (Merge x y) = Count x + Count y \<and> mset (uir_children (Merge x y)) = mset (uir_children x @ uir_children y) \<and>
   Warnings (Merge x y) = Warnings x @ Warnings y \<and> RawFiles (Merge x y) = RawFiles x"
  by (simp add: Count_def Merge_def hierarchy_count_merge uir_children_def)

definition placed :: "uir_node \<Rightarrow> bool" where
  "placed n \<longleftrightarrow> (case n of NModule _ \<Rightarrow> True | NPackage _ \<Rightarrow> True | NTyped _ \<Rightarrow> True | NRecord _ \<Rightarrow> True | NTable _ \<Rightarrow> True
     | NEndpoint _ \<Rightarrow> True | NMethod _ \<Rightarrow> True | _ \<Rightarrow> False)"

text \<open>\<open>Add\<close> places a node, or the node a wrapper holds, among the children exactly once, or reports it as a
  warning; only an empty wrapper does neither.\<close>

theorem Add_places:
  "let m = (case n of NWrapper w \<Rightarrow> wrapper_Value w | _ \<Rightarrow> n) in
   if placed m then mset (uir_children (Add n x)) = add_mset m (mset (uir_children x)) \<and> Warnings (Add n x) = Warnings x
   else uir_children (Add n x) = uir_children x \<and>
     Warnings (Add n x) = (if m = NNil \<and> n \<noteq> NNil then Warnings x else Warnings x @ [(drop_message, m)])"
proof -
  have direct: "if placed m then mset (uir_children (direct_Add m x)) = add_mset m (mset (uir_children x)) \<and> Warnings (direct_Add m x) = Warnings x
     else uir_children (direct_Add m x) = uir_children x \<and> Warnings (direct_Add m x) = Warnings x @ [(drop_message, m)]" for m
    by (cases m) (simp_all add: placed_def uir_children_def)
  show ?thesis
  proof (cases n)
    case (NWrapper w)
    have "wrapper_Value w \<noteq> NNil \<Longrightarrow> AddWrapper w x = direct_Add (wrapper_Value w) x"
      by (cases "wrapper_Value w") (simp_all add: AddWrapper_def)
    moreover have "wrapper_Value w = NNil \<Longrightarrow> AddWrapper w x = x" by (simp add: AddWrapper_def)
    ultimately show ?thesis using direct [of "wrapper_Value w"] NWrapper
      by (cases "wrapper_Value w = NNil") (simp_all add: Add_def Let_def placed_def split: if_splits)
  qed (use direct [of n] in \<open>auto simp: Add_def Let_def split: if_splits\<close>)
qed

subsection \<open>Coalescing\<close>

lemma merge_identifier [simp]: "typed_identifier (mergeTypedNode a b) = typed_identifier a"
  by (simp add: typed_identifier_def mergeTypedNode_def mergeMetadata_def Let_def)

lemma merge_key [simp]: "coalesce_key (mergeTypedNode a b) = coalesce_key a" "unnamed_type (mergeTypedNode a b) = unnamed_type a"
  by (simp_all add: coalesce_key_def unnamed_type_def)

text \<open>The groups index the named types merged so far, each key once.\<close>

definition indexes :: "(gostring \<rightharpoonup> nat) \<Rightarrow> typed_node list \<Rightarrow> bool" where
  "indexes groups merged \<longleftrightarrow>
     (\<forall>k i. groups k = Some i \<longleftrightarrow> i < length merged \<and> \<not> unnamed_type (merged ! i) \<and> coalesce_key (merged ! i) = k)"

definition one_per_key :: "typed_node list \<Rightarrow> bool" where
  "one_per_key ts \<longleftrightarrow> distinct (map coalesce_key (filter (\<lambda>t. \<not> unnamed_type t) ts))"

lemma indexes_distinct: "indexes groups merged \<Longrightarrow> one_per_key merged"
proof -
  assume "indexes groups merged"
  then have "i = j" if "i < length merged" "j < length merged" "\<not> unnamed_type (merged ! i)" "\<not> unnamed_type (merged ! j)"
    "coalesce_key (merged ! i) = coalesce_key (merged ! j)" for i j
    using that unfolding indexes_def by (metis option.inject)
  then have "inj_on (\<lambda>i. coalesce_key (merged ! i)) {i. i < length merged \<and> \<not> unnamed_type (merged ! i)}"
    by (auto intro: inj_onI)
  moreover have "map coalesce_key (filter (\<lambda>t. \<not> unnamed_type t) merged) =
      map (\<lambda>i. coalesce_key (merged ! i)) (filter (\<lambda>i. \<not> unnamed_type (merged ! i)) [0..<length merged])"
    by (subst (1 2) map_nth [of merged, symmetric]) (simp add: filter_map comp_def del: map_nth)
  ultimately show ?thesis by (simp add: one_per_key_def distinct_map)
qed

lemma indexes_merge:
  "indexes groups merged \<Longrightarrow> groups k = Some i \<Longrightarrow> indexes groups (merged[i := mergeTypedNode (merged ! i) t])"
  unfolding indexes_def by (auto simp: nth_list_update)

lemma indexes_new:
  "indexes groups merged \<Longrightarrow> groups (coalesce_key t) = None \<Longrightarrow> \<not> unnamed_type t \<Longrightarrow>
     indexes (groups(coalesce_key t \<mapsto> length merged)) (merged @ [t])"
proof -
  assume a: "indexes groups merged" "groups (coalesce_key t) = None" "\<not> unnamed_type t"
  then have "\<not> (i < length merged \<and> \<not> unnamed_type (merged ! i) \<and> coalesce_key (merged ! i) = coalesce_key t)" for i
    unfolding indexes_def by (metis option.distinct(1))
  then show ?thesis using a unfolding indexes_def by (auto simp: nth_append less_Suc_eq)
qed

lemma indexes_unnamed: "indexes groups merged \<Longrightarrow> unnamed_type t \<Longrightarrow> indexes groups (merged @ [t])"
  unfolding indexes_def by (auto simp: nth_append)

lemma coalesced_one_per_key: "indexes (fst gm) (snd gm) \<Longrightarrow> one_per_key (coalesce_into ts gm)"
proof (induction ts gm rule: coalesce_into.induct)
  case (1 groups merged)
  then show ?case by (simp add: indexes_distinct)
next
  case (2 t ts groups merged)
  show ?case
  proof (cases "unnamed_type t")
    case True
    with 2 show ?thesis by (simp add: indexes_unnamed)
  next
    case False
    show ?thesis
    proof (cases "groups (coalesce_key t)")
      case None
      with False 2 indexes_new [of groups merged t] show ?thesis by (simp del: fun_upd_apply)
    next
      case (Some i)
      with False 2 indexes_merge [of groups merged "coalesce_key t" i t] show ?thesis by simp
    qed
  qed
qed

lemma coalesce_distinct:
  "one_per_key ts \<Longrightarrow> \<forall>t \<in> set ts. \<not> unnamed_type t \<longrightarrow> groups (coalesce_key t) = None \<Longrightarrow>
     coalesce_into ts (groups, merged) = merged @ ts"
proof (induction ts arbitrary: groups merged)
  case (Cons t ts)
  show ?case
  proof (cases "unnamed_type t")
    case True
    with Cons show ?thesis by (simp add: one_per_key_def)
  next
    case False
    have "\<forall>x \<in> set ts. \<not> unnamed_type x \<longrightarrow> (groups(coalesce_key t \<mapsto> length merged)) (coalesce_key x) = None"
      using Cons.prems False by (auto simp: one_per_key_def image_iff)
    with Cons.IH [of "groups(coalesce_key t \<mapsto> length merged)" "merged @ [t]"] Cons.prems False show ?thesis
      by (simp add: one_per_key_def del: fun_upd_apply)
  qed
qed simp

text \<open>coalescing leaves one type per module, package and name, other than unnamed ones, and coalescing again
  changes nothing.\<close>

theorem Coalesce_idempotent:
  "Coalesce (Coalesce x) = Coalesce x \<and> one_per_key (Types (Coalesce x))"
proof (cases "length (Types x) \<le> 1")
  case True
  then have "one_per_key (Types x)" by (cases "Types x") (auto simp: one_per_key_def)
  with True show ?thesis by (simp add: Coalesce_def)
next
  case False
  have "one_per_key (coalesce_into (Types x) (Map.empty, []))"
    by (rule coalesced_one_per_key) (simp add: indexes_def)
  moreover from coalesce_distinct [OF this, of Map.empty "[]"]
  have "coalesce_into (coalesce_into (Types x) (Map.empty, [])) (Map.empty, []) = coalesce_into (Types x) (Map.empty, [])"
    by simp
  ultimately show ?thesis using False by (simp add: Coalesce_def)
qed

lemma update_nth_mset:
  "i < length xs \<Longrightarrow> mset (concat (map f (xs[i := y]))) + mset (f (xs ! i)) = mset (concat (map f xs)) + mset (f y)"
  by (induction xs arbitrary: i) (auto split: nat.split)

lemma coalesce_conserves:
  assumes f: "\<And>a b. f (mergeTypedNode a b) = f a @ f b"
  shows "indexes (fst gm) (snd gm) \<Longrightarrow>
    mset (concat (map f (coalesce_into ts gm))) = mset (concat (map f (snd gm))) + mset (concat (map f ts))"
proof (induction ts gm rule: coalesce_into.induct)
  case (2 t ts groups merged)
  show ?case
  proof (cases "unnamed_type t")
    case True
    with 2 show ?thesis by (simp add: indexes_unnamed)
  next
    case False
    show ?thesis
    proof (cases "groups (coalesce_key t)")
      case None
      with False 2 indexes_new [of groups merged t] show ?thesis by (simp del: fun_upd_apply)
    next
      case (Some i)
      have "i < length merged" using 2 Some by (simp add: indexes_def)
      from update_nth_mset [OF this, of f "mergeTypedNode (merged ! i) t"]
      have "mset (concat (map f (merged[i := mergeTypedNode (merged ! i) t]))) = mset (concat (map f merged)) + mset (f t)"
        by (simp add: f)
      with False Some 2 indexes_merge [of groups merged "coalesce_key t" i t] show ?thesis by simp
    qed
  qed
qed simp

text \<open>coalescing loses no method and no inner type: the types it leaves have together the methods and inner types
  the types it was given had.\<close>

theorem Coalesce_conserves:
  "mset (concat (map (\<lambda>t. TMethods (TFacts t)) (Types (Coalesce x)))) = mset (concat (map (\<lambda>t. TMethods (TFacts t)) (Types x))) \<and>
   mset (concat (map TTypes (Types (Coalesce x)))) = mset (concat (map TTypes (Types x)))"
proof -
  have start: "indexes (fst (Map.empty, [])) (snd (Map.empty, []))" by (simp add: indexes_def)
  have "TMethods (TFacts (mergeTypedNode a b)) = TMethods (TFacts a) @ TMethods (TFacts b)"
    "TTypes (mergeTypedNode a b) = TTypes a @ TTypes b" for a b
    by (simp_all add: mergeTypedNode_def Let_def)
  from coalesce_conserves [OF this(1) start] coalesce_conserves [OF this(2) start] show ?thesis
    by (simp add: Coalesce_def)
qed

text \<open>Union by key keeps the first list, and of the second the first element of each key not met before.\<close>

lemma union_by_spec:
  "set a \<subseteq> set (union_by key a b) \<and> key ` set (union_by key a b) = key ` set a \<union> key ` set b \<and>
   (distinct (map key a) \<longrightarrow> distinct (map key (union_by key a b)))"
proof -
  let ?step = "\<lambda>p (out, seen). if key p \<in> seen then (out, seen) else (out @ [p], insert (key p) seen)"
  have "set out \<subseteq> set (fst (fold ?step b (out, key ` set out))) \<and>
      key ` set (fst (fold ?step b (out, key ` set out))) = key ` set out \<union> key ` set b \<and>
      (distinct (map key out) \<longrightarrow> distinct (map key (fst (fold ?step b (out, key ` set out)))))" for out
  proof (induction b arbitrary: out)
    case (Cons p b)
    show ?case
    proof (cases "key p \<in> key ` set out")
      case True
      with Cons.IH [of out] show ?thesis by auto
    next
      case False
      with Cons.IH [of "out @ [p]"] show ?thesis by auto
    qed
  qed simp
  then show ?thesis by (simp add: union_by_def)
qed

definition in_transaction :: "gostring \<Rightarrow> bool" where
  "in_transaction p \<longleftrightarrow> p \<noteq> [] \<and> fst (scoreCoalescedPath p) \<noteq> noTransactionPathScore"

text \<open>among paths under a transaction the preferred source is a strict order, total on paths that differ after a
  \<open>file://\<close> prefix; but between two paths outside any transaction none is preferred, whatever their spelling, so the
  one met first stays.\<close>

theorem preferTypedNodeSource_order:
  "\<not> preferTypedNodeSource p p \<and>
   (in_transaction p \<and> in_transaction q \<and> in_transaction r \<and> preferTypedNodeSource p q \<and> preferTypedNodeSource q r
      \<longrightarrow> preferTypedNodeSource p r) \<and>
   (in_transaction p \<and> in_transaction q \<and> trim_prefix p ''file://'' \<noteq> trim_prefix q ''file://''
      \<longrightarrow> preferTypedNodeSource p q \<or> preferTypedNodeSource q p) \<and>
   (p \<noteq> [] \<and> q \<noteq> [] \<and> \<not> in_transaction p \<and> \<not> in_transaction q \<longrightarrow> \<not> preferTypedNodeSource p q)"
  by (auto simp: preferTypedNodeSource_def in_transaction_def scoreCoalescedPath_def Let_def split: if_splits)

theorem preferTypedNodeSource_order_witness:
  "in_transaction ''tr/a/f'' \<and> in_transaction ''tr/a/b/f'' \<and>
   (preferTypedNodeSource ''tr/a/f'' ''tr/a/b/f'' \<or> preferTypedNodeSource ''tr/a/b/f'' ''tr/a/f'') \<and>
   \<not> preferTypedNodeSource ''a'' ''b'' \<and> \<not> preferTypedNodeSource ''b'' ''a''"
proof -
  have tr: "in_transaction ''tr/a/f''" "in_transaction ''tr/a/b/f''" "trim_prefix ''tr/a/f'' ''file://'' \<noteq> trim_prefix ''tr/a/b/f'' ''file://''"
    "\<not> in_transaction ''a''" "\<not> in_transaction ''b''"
    by (simp_all add: in_transaction_def scoreCoalescedPath_def Let_def trim_prefix_def noTransactionPathScore_def)
  then have "preferTypedNodeSource ''tr/a/f'' ''tr/a/b/f'' \<or> preferTypedNodeSource ''tr/a/b/f'' ''tr/a/f''"
    using preferTypedNodeSource_order [of "''tr/a/f''" "''tr/a/b/f''"] by blast
  moreover have "\<not> preferTypedNodeSource ''a'' ''b''" "\<not> preferTypedNodeSource ''b'' ''a''"
    using tr preferTypedNodeSource_order [of "''a''" "''b''"] preferTypedNodeSource_order [of "''b''" "''a''"] by simp_all
  ultimately show ?thesis using tr by blast
qed

text \<open>grouping a tree by package yields packages in order of name, one per name, and fails only on a node outside
  any package that a package cannot hold.\<close>

theorem GroupByPackage_groups:
  "case GroupByPackage n of
     Inl e \<Rightarrow> \<exists>m \<in> set (group_nodes n). (\<forall>p. m \<noteq> NPackage p) \<and> (\<forall>p. \<not> ok (package_Add m p))
   | Inr ps \<Rightarrow> \<exists>names. sorted names \<and> distinct names \<and> length names = length ps \<and>
       set names = (\<lambda>m. case m of NPackage p \<Rightarrow> package_name p | _ \<Rightarrow> []) ` set (group_nodes n)"
proof -
  let ?name = "\<lambda>m. case m of NPackage p \<Rightarrow> package_name p | _ \<Rightarrow> []"
  have fails: "ok (package_Add m p) = ok (package_Add m q)" for m p q
    by (cases "case m of NWrapper w \<Rightarrow> wrapper_Value w | _ \<Rightarrow> m") (simp_all add: package_Add_def)
  have keys: "set (map fst (AList.update k v g)) = insert k (set (map fst g))" for k and v :: package_node and g
    by (auto simp: AList.update_keys)
  have leaf: "group_leaf m g = Inr g' \<Longrightarrow> distinct (map fst g) \<Longrightarrow>
      distinct (map fst g') \<and> set (map fst g') = insert (?name m) (set (map fst g))" for m g g'
  proof (cases "\<exists>p. m = NPackage p")
    case True
    then obtain p where "m = NPackage p" by blast
    then show "group_leaf m g = Inr g' \<Longrightarrow> distinct (map fst g) \<Longrightarrow>
        distinct (map fst g') \<and> set (map fst g') = insert (?name m) (set (map fst g))"
      using keys [of "package_name p"] by (auto simp: group_leaf_def group_package_def distinct_update simp del: set_map)
  next
    case False
    then have "group_leaf m g = group_other m g" "?name m = []" by (cases m; simp add: group_leaf_def)+
    then show "group_leaf m g = Inr g' \<Longrightarrow> distinct (map fst g) \<Longrightarrow>
        distinct (map fst g') \<and> set (map fst g') = insert (?name m) (set (map fst g))"
      using keys [of "[]"] by (auto simp: group_other_def outcome_simps distinct_update simp del: set_map)
  qed
  have failed: "(\<forall>p. m \<noteq> NPackage p) \<and> (\<forall>p. \<not> ok (package_Add m p))" if "group_leaf m g = Inl e" for m g e
  proof -
    have other: "group_other m g = Inl e" "\<forall>p. m \<noteq> NPackage p" using that by (cases m; simp add: group_leaf_def)+
    then have "\<not> ok (package_Add m (case map_of g [] of Some p \<Rightarrow> p | None \<Rightarrow> empty_package))"
      by (auto simp: group_other_def outcome_simps ok_def)
    with fails [of m] other show ?thesis by blast
  qed
  have all: "distinct (map fst g) \<Longrightarrow> (case group_all ns g of
      Inl e \<Rightarrow> \<exists>m \<in> set ns. (\<forall>p. m \<noteq> NPackage p) \<and> (\<forall>p. \<not> ok (package_Add m p))
    | Inr g' \<Rightarrow> distinct (map fst g') \<and> set (map fst g') = set (map fst g) \<union> ?name ` set ns)" for ns g
  proof (induction ns arbitrary: g)
    case (Cons m ns)
    show ?case
    proof (cases "group_leaf m g")
      case (Inl e)
      with failed [OF Inl] show ?thesis by simp
    next
      case (Inr g')
      with leaf [OF Inr Cons.prems] Cons.IH [of g'] show ?thesis by (auto split: sum.splits simp del: set_map)
    qed
  qed simp
  show ?thesis
  proof (cases "group_all (group_nodes n) []")
    case (Inl e)
    with all [of "[]" "group_nodes n"] show ?thesis by (simp add: GroupByPackage_def)
  next
    case (Inr g)
    with all [of "[]" "group_nodes n"] have g: "distinct (map fst g)" "set (map fst g) = ?name ` set (group_nodes n)"
      by simp_all
    have "distinct (map fst (sort_key fst g))" using g(1) by (metis distinct_map distinct_sort set_sort inj_on_def)
    with Inr g show ?thesis
      by (simp add: GroupByPackage_def) (intro exI [of _ "map fst (sort_key fst g)"], simp)
  qed
qed

end
