(* ===== verification/Node_Walk.thy ===== *)
theory Node_Walk
  imports Uir
begin

text \<open>
  Walking a tree of nodes (\<open>walk.go\<close>): options that hide, skip or stop at node types, a depth limit, and a
  callback that may end the walk; and what is collected by walking: files, locations, the last change.
\<close>

subsection \<open>Options\<close>

type_synonym node_filter = "uir_node \<Rightarrow> bool"

record walk_options =
  IncludeRoot :: bool
  WDepth :: int
  level :: int
  Hide :: "node_type list"
  HideFilter :: "node_filter option"
  Skip :: "node_type list"
  SkipFilter :: "node_filter option"
  Stop :: "node_type list"
  StopFilter :: "node_filter option"

definition no_options :: walk_options where
  "no_options =
     \<lparr> IncludeRoot = False, WDepth = 0, level = 0, Hide = [], HideFilter = None, Skip = [], SkipFilter = None, Stop = [],
       StopFilter = None \<rparr>"

definition later :: "'a option \<Rightarrow> 'a option \<Rightarrow> 'a option" where
  "later old new = (case new of None \<Rightarrow> old | Some x \<Rightarrow> Some x)"

definition merge_option :: "walk_options \<Rightarrow> walk_options \<Rightarrow> walk_options" where
  "merge_option opt merged =
     merged\<lparr> IncludeRoot := IncludeRoot merged \<or> IncludeRoot opt, WDepth := WDepth merged + WDepth opt,
             level := max (level merged) (level opt), Hide := Hide merged @ Hide opt, Skip := Skip merged @ Skip opt,
             Stop := Stop merged @ Stop opt, HideFilter := later (HideFilter merged) (HideFilter opt),
             SkipFilter := later (SkipFilter merged) (SkipFilter opt),
             StopFilter := later (StopFilter merged) (StopFilter opt) \<rparr>"

definition mergeOptions :: "walk_options list \<Rightarrow> walk_options" where
  "mergeOptions opts = fold merge_option opts no_options"

definition matchesNodeFilter :: "uir_node \<Rightarrow> node_type \<Rightarrow> node_type list \<Rightarrow> node_filter option \<Rightarrow> bool" where
  "matchesNodeFilter n t types filt = (case filt of Some f \<Rightarrow> f n | None \<Rightarrow> t \<in> set types)"

definition skips :: "walk_options \<Rightarrow> uir_node \<Rightarrow> bool" where
  "skips o' n = matchesNodeFilter n (GetNodeType (GetIdentifier n)) (Skip o') (SkipFilter o')"

definition hides :: "walk_options \<Rightarrow> uir_node \<Rightarrow> bool" where
  "hides o' n = matchesNodeFilter n (GetNodeType (GetIdentifier n)) (Hide o') (HideFilter o')"

definition stops :: "walk_options \<Rightarrow> uir_node \<Rightarrow> bool" where
  "stops o' n \<longleftrightarrow>
     matchesNodeFilter n (GetNodeType (GetIdentifier n)) (Stop o') (StopFilter o') \<or> (0 < WDepth o' \<and> WDepth o' \<le> level o')"

definition child_options :: "walk_options \<Rightarrow> walk_options" where
  "child_options o' = o'\<lparr> IncludeRoot := True, level := level o' + 1 \<rparr>"

subsection \<open>The walk ends: every child is smaller\<close>

definition package_rank :: "package_node \<Rightarrow> nat" where
  "package_rank p = 5 + sum_list (map size (PTypes p))"

definition module_rank :: "module_node \<Rightarrow> nat" where
  "module_rank m = 1 + sum_list (map package_rank (ModPackages m))"

definition uir_rank :: "uir_data \<Rightarrow> nat" where
  "uir_rank x =
     5 + sum_list (map module_rank (Modules x)) + sum_list (map package_rank (Packages x)) + sum_list (map size (Types x))"

fun direct_rank :: "uir_node \<Rightarrow> nat" where
  "direct_rank (NModule m) = module_rank m"
| "direct_rank (NPackage p) = package_rank p"
| "direct_rank (NTyped t) = 2 + size t"
| "direct_rank (NUIR x) = uir_rank x"
| "direct_rank (NRecord r) = 2"
| "direct_rank (NTable t) = 2"
| "direct_rank _ = 1"

fun rank :: "uir_node \<Rightarrow> nat" where
  "rank (NList ns) = 1 + sum_list (map rank ns)"
| "rank (NWrapper w) = 1 + direct_rank (wrapper_Value w)"
| "rank n = direct_rank n"

lemma wrapper_Value_cases:
  "(\<exists>m. wrapper_Value w = NModule m) \<or> (\<exists>p. wrapper_Value w = NPackage p) \<or> (\<exists>t. wrapper_Value w = NTyped t) \<or>
   (\<exists>r. wrapper_Value w = NRecord r) \<or> (\<exists>t. wrapper_Value w = NTable t) \<or> (\<exists>e. wrapper_Value w = NEndpoint e) \<or>
   (\<exists>m. wrapper_Value w = NMethod m) \<or> wrapper_Value w = NNil"
  by (cases "WModule w"; cases "WPackage w"; cases "WType w"; cases "WRecord w"; cases "WTable w"; cases "WEndpoint w";
      cases "WFunction w") (simp_all add: wrapper_Value_def)

lemma inner_type_less: "t \<in> set (TTypes x) \<Longrightarrow> size t < size x"
  by (cases x) (auto dest: size_in_list)

lemma size_le_sum: "x \<in> set xs \<Longrightarrow> f x \<le> sum_list (map f xs)" for f :: "'a \<Rightarrow> nat"
  by (simp add: member_le_sum_list)

lemma package_child_less: "c \<in> set (package_children p) \<Longrightarrow> rank c < package_rank p"
  unfolding package_children_def package_rank_def
  by (auto dest: size_le_sum [where f = size])

lemma typed_child_less: "c \<in> set (typed_children t) \<Longrightarrow> rank c < 2 + size t"
  by (auto simp: typed_children_def Let_def of_option_def inner_type_less split: option.splits)

lemma uir_child_less: "c \<in> set (uir_children x) \<Longrightarrow> rank c < uir_rank x"
  unfolding uir_children_def uir_rank_def
  by (auto dest: size_le_sum [where f = size] size_le_sum [where f = module_rank] size_le_sum [where f = package_rank])

lemma module_child_less: "c \<in> NPackage ` set (ModPackages m) \<Longrightarrow> rank c < module_rank m"
  unfolding module_rank_def by (auto dest: size_le_sum [where f = package_rank])

lemma direct_child_less: "c \<in> set (direct_children n) \<Longrightarrow> (\<forall>ns. n \<noteq> NList ns) \<Longrightarrow> rank c < direct_rank n"
  using module_child_less [of c] package_child_less [of c] typed_child_less [of c] uir_child_less [of c]
  by (cases n) (auto simp: table_children_def)

lemma rank_direct: "(\<forall>ns. n \<noteq> NList ns) \<Longrightarrow> (\<forall>w. n \<noteq> NWrapper w) \<Longrightarrow> rank n = direct_rank n"
  by (cases n) simp_all

lemma children_direct: "(\<forall>w. n \<noteq> NWrapper w) \<Longrightarrow> GetChildren n = direct_children n"
  by (cases n) (simp_all add: GetChildren_def)

lemma child_less: "c \<in> set (GetChildren n) \<Longrightarrow> rank c < rank n"
proof -
  assume c: "c \<in> set (GetChildren n)"
  consider ns where "n = NList ns" | w where "n = NWrapper w" | "\<forall>ns. n \<noteq> NList ns" "\<forall>w. n \<noteq> NWrapper w" by blast
  then show ?thesis
  proof cases
    case 1
    with c show ?thesis by (auto simp: GetChildren_def less_Suc_eq_le intro: size_le_sum)
  next
    case 2
    with c have "c \<in> set (direct_children (wrapper_Value w))" by (simp add: GetChildren_def)
    moreover have "\<forall>ns. wrapper_Value w \<noteq> NList ns" using wrapper_Value_cases [of w] by auto
    ultimately show ?thesis using direct_child_less [of c "wrapper_Value w"] 2 by simp
  next
    case 3
    with c show ?thesis by (simp add: direct_child_less rank_direct children_direct)
  qed
qed

subsection \<open>The walk\<close>

fun walk_children :: "('n \<Rightarrow> 's \<Rightarrow> 's \<times> bool) \<Rightarrow> 'n list \<Rightarrow> 's \<Rightarrow> 's \<times> bool" where
  "walk_children g [] s = (s, True)"
| "walk_children g (c # cs) s = (case g c s of (s, go) \<Rightarrow> if go then walk_children g cs s else (s, False))"

lemma walk_children_cong [fundef_cong]:
  "cs = ds \<Longrightarrow> s = t \<Longrightarrow> (\<And>c s. c \<in> set ds \<Longrightarrow> g c s = h c s) \<Longrightarrow> walk_children g cs s = walk_children h ds t"
proof (induction ds arbitrary: cs s t)
  case (Cons d ds)
  then show ?case by (auto split: prod.split)
qed simp

function tree_walk :: "(uir_node \<Rightarrow> 's \<Rightarrow> 's \<times> bool) \<Rightarrow> walk_options \<Rightarrow> uir_node \<Rightarrow> 's \<Rightarrow> 's \<times> bool" where
  "tree_walk f o' n s =
     (if skips o' n then (s, True)
      else
        let r = (if \<not> IncludeRoot o' \<or> hides o' n then (s, True) else f n s) in
        if \<not> snd r then (fst r, False)
        else if stops o' n then (fst r, True)
        else walk_children (\<lambda>c s. tree_walk f (child_options o') c s) (GetChildren n) (fst r))"
  by pat_completeness auto

termination by (relation "measure (\<lambda>(f, o', n, s). rank n)") (auto dest: child_less)

declare tree_walk.simps [simp del]

definition Walk :: "uir_node \<Rightarrow> (uir_node \<Rightarrow> 's \<Rightarrow> 's \<times> bool) \<Rightarrow> walk_options list \<Rightarrow> 's \<Rightarrow> 's \<times> bool" where
  "Walk n f opts s = tree_walk f (mergeOptions opts) n s"

text \<open>The walk merges the options it hands itself for a child with none, which gives them back.\<close>

lemma mergeOptions_single: "0 \<le> level o' \<Longrightarrow> mergeOptions [o'] = o'"
  by (cases o') (simp add: mergeOptions_def merge_option_def no_options_def later_def split: option.split)

lemma level_merged: "0 \<le> level (mergeOptions opts)"
proof -
  have "0 \<le> level m \<Longrightarrow> 0 \<le> level (fold merge_option opts m)" for m
    by (induction opts arbitrary: m) (simp_all add: merge_option_def)
  then show ?thesis by (simp add: mergeOptions_def no_options_def)
qed

subsection \<open>What a walk visits\<close>

function visited :: "walk_options \<Rightarrow> uir_node \<Rightarrow> uir_node list" where
  "visited o' n =
     (if skips o' n then []
      else (if \<not> IncludeRoot o' \<or> hides o' n then [] else [n]) @
        (if stops o' n then [] else concat (map (\<lambda>c. visited (child_options o') c) (GetChildren n))))"
  by pat_completeness auto

termination by (relation "measure (\<lambda>(o', n). rank n)") (auto dest: child_less)

declare visited.simps [simp del]

lemma walk_children_append:
  "walk_children f (xs @ ys) s =
     (case walk_children f xs s of (s, go) \<Rightarrow> if go then walk_children f ys s else (s, False))"
  by (induction xs arbitrary: s) (auto split: prod.split)

lemma walk_children_concat:
  "(\<And>c s. c \<in> set cs \<Longrightarrow> g c s = walk_children f (v c) s) \<Longrightarrow> walk_children g cs s = walk_children f (concat (map v cs)) s"
  by (induction cs arbitrary: s) (auto simp: walk_children_append split: prod.split)

lemma tree_walk_visited: "tree_walk f o' n s = walk_children f (visited o' n) s"
proof (induction f o' n s rule: tree_walk.induct)
  case (1 f o' n s)
  show ?case
  proof (cases "skips o' n")
    case True
    then show ?thesis by (simp add: tree_walk.simps [of f o' n s] visited.simps [of o' n])
  next
    case False
    let ?own = "if \<not> IncludeRoot o' \<or> hides o' n then [] else [n]"
    let ?r = "if \<not> IncludeRoot o' \<or> hides o' n then (s, True) else f n s"
    have own: "walk_children f ?own s = ?r" by (cases "f n s") auto
    have below: "walk_children (\<lambda>c s. tree_walk f (child_options o') c s) (GetChildren n) (fst ?r) =
        walk_children f (concat (map (\<lambda>c. visited (child_options o') c) (GetChildren n))) (fst ?r)"
      if "snd ?r" "\<not> stops o' n"
      using "1.IH" [OF False refl] that by (intro walk_children_concat) auto
    show ?thesis
      unfolding tree_walk.simps [of f o' n s] visited.simps [of o' n] Let_def
      using False below own by (cases ?r) (simp add: walk_children_append)
  qed
qed

text \<open>C21: a walk calls back on one list of nodes in depth-first order, whatever the callback, until it answers false;
  the walk reports whether it went through.\<close>

theorem Walk_visits:
  "Walk n f opts s = walk_children f (visited (mergeOptions opts) n) s"
  by (simp add: Walk_def tree_walk_visited)

inductive below :: "uir_node \<Rightarrow> nat \<Rightarrow> uir_node \<Rightarrow> bool" where
  below_root: "below n 0 n"
| below_child: "c \<in> set (GetChildren n) \<Longrightarrow> below c k m \<Longrightarrow> below n (Suc k) m"

inductive_cases belowE: "below n k m"

lemma visited_depth:
  assumes "Hide o' = []" "HideFilter o' = None" "Skip o' = []" "SkipFilter o' = None" "Stop o' = []" "StopFilter o' = None"
    "0 \<le> level o'" "WDepth o' = 0 \<or> level o' \<le> WDepth o'"
  shows "IncludeRoot o' \<Longrightarrow> set (visited o' n) = {m. \<exists>k. below n k m \<and> (WDepth o' = 0 \<or> int k \<le> WDepth o' - level o')}"
  using assms
proof (induction o' n rule: visited.induct)
  case (1 o' n)
  have none: "\<not> skips o' n" "\<not> hides o' n" "stops o' n \<longleftrightarrow> 0 < WDepth o' \<and> WDepth o' \<le> level o'"
    using "1.prems" by (simp_all add: skips_def hides_def stops_def matchesNodeFilter_def)
  show ?case
  proof (cases "stops o' n")
    case True
    then have "WDepth o' = level o'" "0 < WDepth o'" using none(3) "1.prems" by auto
    then have "{m. \<exists>k. below n k m \<and> (WDepth o' = 0 \<or> int k \<le> WDepth o' - level o')} = {n}"
      by (auto intro: below_root elim: belowE)
    with True none "1.prems" show ?thesis by (subst visited.simps) simp
  next
    case False
    have ih: "set (visited (child_options o') c) =
        {m. \<exists>k. below c k m \<and> (WDepth o' = 0 \<or> int k \<le> WDepth o' - level o' - 1)}" if "c \<in> set (GetChildren n)" for c
      using "1.IH" [OF none(1) False that] "1.prems" False none(3)
      by (auto simp: child_options_def algebra_simps)
    have "set (visited o' n) = insert n (\<Union>c \<in> set (GetChildren n). set (visited (child_options o') c))"
      using none(1,2) False "1.prems" by (subst visited.simps) auto
    also have "\<dots> = insert n (\<Union>c \<in> set (GetChildren n). {m. \<exists>k. below c k m \<and> (WDepth o' = 0 \<or> int k \<le> WDepth o' - level o' - 1)})"
      using ih by auto
    also have "\<dots> = {m. \<exists>k. below n k m \<and> (WDepth o' = 0 \<or> int k \<le> WDepth o' - level o')}" (is "?A = ?B")
    proof
      show "?A \<subseteq> ?B" using "1.prems"
        by (auto intro: below_root below_child exI [of _ "0 :: nat"])
      show "?B \<subseteq> ?A"
      proof
        fix m assume "m \<in> ?B"
        then obtain k where k: "below n k m" "WDepth o' = 0 \<or> int k \<le> WDepth o' - level o'" by blast
        from k(1) show "m \<in> ?A"
        proof cases
          case (below_child c j)
          then have "WDepth o' = 0 \<or> int j \<le> WDepth o' - level o' - 1" using k(2) by auto
          with below_child show ?thesis by blast
        qed simp
      qed
    qed
    finally show ?thesis .
  qed
qed

text \<open>with no hiding, skipping or stopping, a walk that includes its root visits exactly the nodes that are below the
  root by at most the depth the options add up to, and every node below it when they add up to 0.\<close>

theorem Walk_depth:
  assumes "opts = [no_options\<lparr> IncludeRoot := True, WDepth := d \<rparr>]" "0 \<le> d"
  shows "set (visited (mergeOptions opts) n) = {m. \<exists>k. below n k m \<and> (d = 0 \<or> int k \<le> d)}"
proof -
  have "mergeOptions opts = no_options\<lparr> IncludeRoot := True, WDepth := d \<rparr>"
    using assms(1) by (simp add: mergeOptions_single no_options_def)
  then show ?thesis using visited_depth [of "no_options\<lparr> IncludeRoot := True, WDepth := d \<rparr>" n] assms(2)
    by (simp add: no_options_def)
qed

theorem Walk_depth_witness:
  "set (visited (mergeOptions [no_options\<lparr> IncludeRoot := True, WDepth := 1 \<rparr>]) (NList [NList [NList []], NNil])) =
     {m. \<exists>k. below (NList [NList [NList []], NNil]) k m \<and> ((1 :: int) = 0 \<or> int k \<le> 1)}"
  by (rule Walk_depth) simp_all

subsection \<open>What is collected\<close>

text \<open>\<open>GetFiles\<close> answers the paths in order, each once; \<open>GetLocations\<close> one location of every text (the
  source holds them in a map and answers them in no order of its own).\<close>

definition walked :: "uir_node \<Rightarrow> uir_node list" where
  "walked n = visited no_options n"

definition GetFiles :: "uir_node \<Rightarrow> gostring list" where
  "GetFiles n =
     sorted_list_of_set (set (filter (\<lambda>p. p \<noteq> []) (map (\<lambda>c. LocPath (GetLocation c)) (walked n))))"

definition GetLocations :: "uir_node \<Rightarrow> gostring \<rightharpoonup> uir_location" where
  "GetLocations n =
     fold (\<lambda>c m. let l = GetLocation c in if LocPath l \<noteq> [] then m(location_String l \<mapsto> l) else m) (walked n) Map.empty"

definition GetRelationshipKey :: "ident option \<Rightarrow> ident option \<Rightarrow> gostring \<Rightarrow> gostring" where
  "GetRelationshipKey r_from r_to r_type =
     (case r_from of None \<Rightarrow> [] | Some i \<Rightarrow> String i) @ ''->'' @ (case r_to of None \<Rightarrow> [] | Some i \<Rightarrow> String i) @ ''@'' @ r_type"

end
