(* ===== verification/Diff_Sequence.thy ===== *)
theory Diff_Sequence
  imports Go_Prelude "HOL-Library.Multiset"
begin

text \<open>
  The two list algorithms of \<open>diff/members.go\<close>: pairing the members of two lists by key, and marking a longest
  strictly increasing subsequence, from which the columns that moved are told from those that stayed.
\<close>

subsection \<open>A longest increasing subsequence\<close>

text \<open>The loop over \<open>j < i\<close> that sets \<open>length[i]\<close> and \<open>prev[i]\<close>; \<open>-1\<close> is \<open>None\<close>.\<close>

definition extend_run :: "nat list \<Rightarrow> nat list \<Rightarrow> nat \<Rightarrow> nat \<Rightarrow> nat \<times> nat option \<Rightarrow> nat \<times> nat option" where
  "extend_run s len i j p = (if s ! j < s ! i \<and> len ! j + 1 > fst p then (len ! j + 1, Some j) else p)"

definition run_at :: "nat list \<Rightarrow> nat list \<Rightarrow> nat \<Rightarrow> nat \<times> nat option" where
  "run_at s len i = fold (extend_run s len i) [0..<i] (1, None)"

definition better :: "nat list \<Rightarrow> nat \<Rightarrow> nat option \<Rightarrow> nat option" where
  "better len i best = (case best of None \<Rightarrow> Some i | Some b \<Rightarrow> if len ! i > len ! b then Some i else Some b)"

definition run_step :: "nat list \<Rightarrow> nat \<Rightarrow> nat list \<times> nat option list \<times> nat option \<Rightarrow> nat list \<times> nat option list \<times> nat option" where
  "run_step s i st =
     (case st of (len, prev, best) \<Rightarrow>
        case run_at s len i of (l, p) \<Rightarrow> (len @ [l], prev @ [p], better (len @ [l]) i best))"

text \<open>The last loop marks the elements from the best one back; it ends within as many steps as there are
  elements (\<open>mark_back_ends\<close>), so running out of the bound is not an outcome.\<close>

fun mark_back :: "nat \<Rightarrow> nat option list \<Rightarrow> nat option \<Rightarrow> bool list \<Rightarrow> bool list option" where
  "mark_back fuel prev None kept = Some kept"
| "mark_back 0 prev (Some i) kept = None"
| "mark_back (Suc fuel) prev (Some i) kept = mark_back fuel prev (prev ! i) (kept[i := True])"

definition run_tables :: "nat list \<Rightarrow> nat list \<times> nat option list \<times> nat option" where
  "run_tables s = fold (run_step s) [0..<length s] ([], [], None)"

definition longestIncreasingSubsequence :: "nat list \<Rightarrow> bool list option" where
  "longestIncreasingSubsequence s =
     (case run_tables s of (len, prev, best) \<Rightarrow> mark_back (length s) prev best (replicate (length s) False))"

text \<open>A set of positions at which a list increases strictly.\<close>

definition increasing_at :: "nat list \<Rightarrow> nat set \<Rightarrow> bool" where
  "increasing_at s I \<longleftrightarrow> I \<subseteq> {..<length s} \<and> (\<forall>i \<in> I. \<forall>j \<in> I. i < j \<longrightarrow> s ! i < s ! j)"

text \<open>What the tables hold for the first elements: the run recorded for an element goes back to a run of the
  element before it, and no run that ends in the element is longer.\<close>

definition good_run :: "nat list \<Rightarrow> nat list \<Rightarrow> nat option list \<Rightarrow> nat \<Rightarrow> bool" where
  "good_run s len prev i \<longleftrightarrow>
     (case prev ! i of
        None \<Rightarrow> len ! i = 1
      | Some j \<Rightarrow> j < i \<and> s ! j < s ! i \<and> len ! i = len ! j + 1) \<and>
     (\<forall>j < i. s ! j < s ! i \<longrightarrow> len ! j < len ! i)"

definition good_tables :: "nat list \<Rightarrow> nat \<Rightarrow> nat list \<times> nat option list \<times> nat option \<Rightarrow> bool" where
  "good_tables s n st \<longleftrightarrow>
     (case st of (len, prev, best) \<Rightarrow>
        length len = n \<and> length prev = n \<and> (\<forall>i < n. good_run s len prev i) \<and>
        (case best of None \<Rightarrow> n = 0 | Some b \<Rightarrow> b < n \<and> (\<forall>i < n. len ! i \<le> len ! b)))"

lemma run_at_prefix:
  "n \<le> i \<Longrightarrow> fold (extend_run s len i) [0..<n] (1, None) = (l, p) \<Longrightarrow>
     (case p of None \<Rightarrow> l = 1 | Some j \<Rightarrow> j < n \<and> s ! j < s ! i \<and> l = len ! j + 1) \<and>
     (\<forall>j < n. s ! j < s ! i \<longrightarrow> len ! j < l)"
proof (induction n arbitrary: l p)
  case (Suc n)
  obtain l' p' where r: "fold (extend_run s len i) [0..<n] (1, None) = (l', p')"
    by (cases "fold (extend_run s len i) [0..<n] (1, None)")
  have ih: "case p' of None \<Rightarrow> l' = 1 | Some j \<Rightarrow> j < n \<and> s ! j < s ! i \<and> l' = len ! j + 1"
    "\<forall>j < n. s ! j < s ! i \<longrightarrow> len ! j < l'"
    using Suc.IH [OF _ r] Suc.prems(1) by simp_all
  have e: "extend_run s len i n (l', p') = (l, p)" using Suc.prems(2) r by simp
  show ?case
  proof (cases "s ! n < s ! i \<and> len ! n + 1 > l'")
    case True
    with e have "l = len ! n + 1" "p = Some n" by (auto simp: extend_run_def)
    with True ih(2) show ?thesis by (fastforce simp: less_Suc_eq)
  next
    case False
    with e have "l = l'" "p = p'" by (auto simp: extend_run_def)
    with False ih show ?thesis by (auto simp: less_Suc_eq split: option.splits)
  qed
qed simp

lemma run_at_spec:
  "case run_at s len i of (l, p) \<Rightarrow>
     (case p of None \<Rightarrow> l = 1 | Some j \<Rightarrow> j < i \<and> s ! j < s ! i \<and> l = len ! j + 1) \<and>
     (\<forall>j < i. s ! j < s ! i \<longrightarrow> len ! j < l)"
  using run_at_prefix [where s = s and len = len and i = i and n = i] unfolding run_at_def by (simp split: prod.split)

lemma good_run_append:
  "i < length len \<Longrightarrow> length prev = length len \<Longrightarrow> good_run s (len @ xs) (prev @ ys) i = good_run s len prev i"
  by (auto simp: good_run_def nth_append split: option.splits)

lemma good_tables_step:
  assumes "good_tables s n (len, prev, best)"
  shows "good_tables s (Suc n) (run_step s n (len, prev, best))"
proof -
  have len: "length len = n" "length prev = n" using assms by (simp_all add: good_tables_def)
  obtain l p where r: "run_at s len n = (l, p)" by (cases "run_at s len n")
  have spec: "case p of None \<Rightarrow> l = 1 | Some j \<Rightarrow> j < n \<and> s ! j < s ! n \<and> l = len ! j + 1"
    "\<forall>j < n. s ! j < s ! n \<longrightarrow> len ! j < l"
    using run_at_spec [where s = s and len = len and i = n] r by auto
  have new: "good_run s (len @ [l]) (prev @ [p]) n"
    using spec len by (auto simp: good_run_def nth_append split: option.splits)
  have old: "good_run s (len @ [l]) (prev @ [p]) i" if "i < n" for i
    using assms that len good_run_append [of i len prev s] by (simp add: good_tables_def)
  have best: "case better (len @ [l]) n best of None \<Rightarrow> False
      | Some b \<Rightarrow> b < Suc n \<and> (\<forall>i < Suc n. (len @ [l]) ! i \<le> (len @ [l]) ! b)"
  proof (cases best)
    case None
    then show ?thesis using assms by (simp add: good_tables_def better_def)
  next
    case (Some b)
    then have b: "b < n" "\<forall>i < n. len ! i \<le> len ! b" using assms by (simp_all add: good_tables_def)
    then show ?thesis using len Some by (auto simp: better_def nth_append less_Suc_eq intro: le_trans)
  qed
  show ?thesis using len new old best
    by (auto simp: run_step_def r good_tables_def less_Suc_eq split: option.splits)
qed

lemma good_tables_prefix: "good_tables s n (fold (run_step s) [0..<n] ([], [], None))"
proof (induction n)
  case (Suc n)
  then show ?case using good_tables_step [of s n] by (cases "fold (run_step s) [0..<n] ([], [], None)") simp
qed (simp add: good_tables_def)

lemma good_tables_all: "good_tables s (length s) (run_tables s)"
  unfolding run_tables_def by (rule good_tables_prefix)

lemma run_of:
  assumes "\<forall>i < n. good_run s len prev i" "length prev = n" "n = length s"
  shows "i < n \<Longrightarrow> \<exists>R. increasing_at s R \<and> i \<in> R \<and> (\<forall>x \<in> R. x \<le> i) \<and> card R = len ! i \<and>
    (\<forall>fuel kept. length kept = n \<longrightarrow> i < fuel \<longrightarrow>
      (\<exists>kept'. mark_back fuel prev (Some i) kept = Some kept' \<and> length kept' = n \<and>
        (\<forall>x < n. kept' ! x = (kept ! x \<or> x \<in> R))))"
proof (induction i rule: less_induct)
  case (less i)
  have run: "good_run s len prev i" using assms(1) less.prems by blast
  show ?case
  proof (cases "prev ! i")
    case None
    have mark: "mark_back fuel prev (Some i) kept = Some (kept[i := True])" if "i < fuel" for fuel kept
      using that None by (cases fuel) simp_all
    show ?thesis using run None less.prems assms(3)
      by (intro exI [of _ "{i}"]) (auto simp: mark good_run_def increasing_at_def nth_list_update)
  next
    case (Some j)
    have j: "j < i" "s ! j < s ! i" "len ! i = len ! j + 1" using run Some by (simp_all add: good_run_def)
    then obtain R where R: "increasing_at s R" "j \<in> R" "\<forall>x \<in> R. x \<le> j" "card R = len ! j" and
      marks: "length kept = n \<Longrightarrow> j < fuel \<Longrightarrow> \<exists>kept'. mark_back fuel prev (Some j) kept = Some kept' \<and> length kept' = n \<and>
        (\<forall>x < n. kept' ! x = (kept ! x \<or> x \<in> R))" for fuel kept
      using less.IH [OF j(1)] less.prems by auto
    have fin: "finite R" using R(3) by (auto intro: finite_subset [of _ "{..j}"])
    have out: "i \<notin> R" using R(3) j(1) by auto
    have "increasing_at s (insert i R)"
      unfolding increasing_at_def
    proof (intro conjI ballI impI)
      show "insert i R \<subseteq> {..<length s}" using R(1) less.prems assms(3) by (auto simp: increasing_at_def)
      fix x y assume xy: "x \<in> insert i R" "y \<in> insert i R" "x < y"
      show "s ! x < s ! y"
      proof (cases "y = i")
        case True
        then have "x \<in> R" using xy by auto
        then have "x \<le> j" using R(3) by blast
          moreover have "x < j \<Longrightarrow> s ! x < s ! j" using \<open>x \<in> R\<close> R(1,2) unfolding increasing_at_def by blast
          ultimately have "s ! x \<le> s ! j" by (cases "x = j") simp_all
          with j(2) True show ?thesis by simp
      next
        case False
        then have "y \<in> R" using xy by simp
        moreover have "x \<in> R" using xy \<open>y \<in> R\<close> R(3) j(1) by auto
        ultimately show ?thesis using R(1) xy(3) by (simp add: increasing_at_def)
      qed
    qed
    moreover have "card (insert i R) = len ! i" using R(4) j(3) fin out by simp
    moreover have "\<exists>kept'. mark_back fuel prev (Some i) kept = Some kept' \<and> length kept' = n \<and>
        (\<forall>x < n. kept' ! x = (kept ! x \<or> x \<in> insert i R))" if k: "length kept = n" "i < fuel" for fuel kept
    proof -
      obtain f where f: "fuel = Suc f" "j < f" using k(2) j(1) by (cases fuel) auto
      obtain kept' where "mark_back f prev (Some j) (kept[i := True]) = Some kept'" "length kept' = n"
        "\<forall>x < n. kept' ! x = (kept[i := True] ! x \<or> x \<in> R)"
        using marks [of "kept[i := True]" f] f(2) k(1) by auto
      moreover from this have "kept' ! x = (kept ! x \<or> x \<in> insert i R)" if "x < n" for x
        using that k(1) less.prems by (cases "x = i") simp_all
      ultimately show ?thesis using f(1) Some by simp
    qed
    ultimately show ?thesis using R(3) j(1) by (intro exI [of _ "insert i R"]) auto
  qed
qed

lemma no_longer:
  assumes "\<forall>i < length s. good_run s len prev i"
  shows "increasing_at s I \<Longrightarrow> i \<in> I \<Longrightarrow> \<forall>x \<in> I. x \<le> i \<Longrightarrow> card I \<le> len ! i"
proof (induction i arbitrary: I rule: less_induct)
  case (less i)
  have fin: "finite I" using less.prems(3) by (auto intro: finite_subset [of _ "{..i}"])
  have i: "i < length s" using less.prems(1,2) by (auto simp: increasing_at_def)
  show ?case
  proof (cases "I = {i}")
    case True
    have "1 \<le> len ! i" using assms i by (auto simp: good_run_def split: option.splits)
    with True show ?thesis by simp
  next
    case False
    let ?J = "I - {i}"
    have ne: "?J \<noteq> {}" using False less.prems(2) by auto
    let ?j = "Max ?J"
    have j: "?j \<in> ?J" using fin ne by (intro Max_in) auto
    then have ji: "?j < i" using less.prems(3) by (simp add: le_neq_implies_less)
    have "card ?J \<le> len ! ?j"
      using less.prems(1) j fin by (intro less.IH [OF ji]) (auto simp: increasing_at_def)
    moreover have "len ! ?j < len ! i"
      using assms i ji less.prems(1,2) j by (auto simp: good_run_def increasing_at_def)
    moreover have "card I = Suc (card ?J)" using fin less.prems(2) by (metis card.remove)
    ultimately show ?thesis by simp
  qed
qed

text \<open>The loop that marks ends, and it marks a strictly increasing subsequence than which none is longer.\<close>

lemma longest_run:
  "\<exists>kept. longestIncreasingSubsequence s = Some kept \<and> length kept = length s \<and>
     increasing_at s {i. i < length s \<and> kept ! i} \<and>
     (\<forall>I. increasing_at s I \<longrightarrow> card I \<le> card {i. i < length s \<and> kept ! i})"
proof -
  obtain len prev best where t: "run_tables s = (len, prev, best)" by (cases "run_tables s")
  have good: "length prev = length s" "\<forall>i < length s. good_run s len prev i"
    "case best of None \<Rightarrow> length s = 0 | Some b \<Rightarrow> b < length s \<and> (\<forall>i < length s. len ! i \<le> len ! b)"
    using good_tables_all [of s] t by (simp_all add: good_tables_def)
  show ?thesis
  proof (cases best)
    case None
    then show ?thesis using t good(3)
      by (intro exI [of _ "[]"]) (auto simp: longestIncreasingSubsequence_def increasing_at_def)
  next
    case (Some b)
    then have b: "b < length s" "\<forall>i < length s. len ! i \<le> len ! b" using good(3) by simp_all
    obtain R kept where R: "increasing_at s R" "card R = len ! b"
      and kept: "mark_back (length s) prev (Some b) (replicate (length s) False) = Some kept" "length kept = length s"
        "\<forall>x < length s. kept ! x = (x \<in> R)"
      using run_of [OF good(2,1) refl b(1)] b(1)
      by (metis (no_types, lifting) length_replicate nth_replicate)
    have set: "{i. i < length s \<and> kept ! i} = R" using kept(3) R(1) by (auto simp: increasing_at_def)
    have "card I \<le> card R" if I: "increasing_at s I" for I
    proof (cases "I = {}")
      case False
      have fin: "finite I" using I by (auto simp: increasing_at_def intro: finite_subset)
      have m: "Max I \<in> I" "\<forall>x \<in> I. x \<le> Max I" using fin False by simp_all
      have "Max I < length s" using m(1) I by (auto simp: increasing_at_def)
      then show ?thesis using no_longer [OF good(2) I m] b(2) R(2) by (metis le_trans)
    qed simp
    then show ?thesis using kept t Some R(1) set by (auto simp: longestIncreasingSubsequence_def)
  qed
qed

subsection \<open>Pairing by key\<close>

text \<open>\<open>pairByKey\<close> on the keys of the two lists: the positions of every key after, in order, of which each
  occurrence before takes the first left.\<close>

type_synonym key_queues = "gostring \<Rightarrow> nat list"

definition queue_step :: "gostring list \<Rightarrow> nat \<Rightarrow> key_queues \<Rightarrow> key_queues" where
  "queue_step ks i q = q(ks ! i := q (ks ! i) @ [i])"

definition afterByKey :: "gostring list \<Rightarrow> key_queues" where
  "afterByKey ks = fold (queue_step ks) [0..<length ks] (\<lambda>_. [])"

definition pair_step :: "gostring list \<Rightarrow> nat \<Rightarrow> key_queues \<times> (nat \<times> nat) list \<Rightarrow> key_queues \<times> (nat \<times> nat) list" where
  "pair_step ks i st =
     (case st of (q, pairs) \<Rightarrow>
        case q (ks ! i) of [] \<Rightarrow> (q, pairs) | j # js \<Rightarrow> (q(ks ! i := js), pairs @ [(i, j)]))"

definition pairByKey :: "gostring list \<Rightarrow> gostring list \<Rightarrow> (nat \<times> nat) list" where
  "pairByKey before after = snd (fold (pair_step before) [0..<length before] (afterByKey after, []))"

text \<open>The positions of a key, and the number of its occurrences before a position.\<close>

definition positions :: "gostring list \<Rightarrow> gostring \<Rightarrow> nat list" where
  "positions ks k = filter (\<lambda>i. ks ! i = k) [0..<length ks]"

definition earlier :: "gostring list \<Rightarrow> gostring \<Rightarrow> nat \<Rightarrow> nat" where
  "earlier ks k i = length (filter (\<lambda>j. ks ! j = k) [0..<i])"

lemma earlier_Suc: "earlier ks k (Suc i) = earlier ks k i + (if ks ! i = k then 1 else 0)"
  by (simp add: earlier_def)

lemma earlier_mono: "i \<le> j \<Longrightarrow> earlier ks k i \<le> earlier ks k j"
  by (induction j) (auto simp: earlier_Suc le_Suc_eq)

lemma earlier_inj: "earlier ks k i = earlier ks k j \<Longrightarrow> ks ! i = k \<Longrightarrow> ks ! j = k \<Longrightarrow> i = j"
proof (induction i j rule: linorder_wlog)
  case (le i j)
  show ?case
  proof (rule ccontr)
    assume "i \<noteq> j"
    with le(1) have "Suc i \<le> j" by simp
    then have "earlier ks k (Suc i) \<le> earlier ks k j" by (rule earlier_mono)
    with le(2,3) show False by (simp add: earlier_Suc)
  qed
qed (metis)

lemma filter_upt_nth:
  "n < length (filter P [0..<m]) \<Longrightarrow>
     filter P [0..<m] ! n < m \<and> P (filter P [0..<m] ! n) \<and> length (filter P [0..<filter P [0..<m] ! n]) = n"
proof (induction m)
  case (Suc m)
  show ?case
  proof (cases "n < length (filter P [0..<m])")
    case True
    with Suc.IH show ?thesis by (auto simp: nth_append less_Suc_eq)
  next
    case False
    with Suc.prems have "n = length (filter P [0..<m])" "P m" by (auto split: if_splits)
    then show ?thesis by (simp add: nth_append)
  qed
qed simp

lemma positions_nth:
  "n < length (positions ks k) \<and> positions ks k ! n = j \<longleftrightarrow> j < length ks \<and> ks ! j = k \<and> earlier ks k j = n"
proof
  assume "n < length (positions ks k) \<and> positions ks k ! n = j"
  then show "j < length ks \<and> ks ! j = k \<and> earlier ks k j = n"
    using filter_upt_nth [of n "\<lambda>i. ks ! i = k" "length ks"] by (auto simp: positions_def earlier_def)
next
  assume j: "j < length ks \<and> ks ! j = k \<and> earlier ks k j = n"
  then have "earlier ks k (Suc j) \<le> earlier ks k (length ks)" by (intro earlier_mono) simp
  then have n: "n < length (positions ks k)" using j by (simp add: earlier_Suc) (simp add: positions_def earlier_def)
  then have "positions ks k ! n < length ks \<and> ks ! (positions ks k ! n) = k \<and> earlier ks k (positions ks k ! n) = n"
    using filter_upt_nth [of n "\<lambda>i. ks ! i = k" "length ks"] by (simp add: positions_def earlier_def)
  then have "positions ks k ! n = j" using earlier_inj [of ks k _ j] j by blast
  with n show "n < length (positions ks k) \<and> positions ks k ! n = j" by simp
qed

lemma afterByKey_positions: "afterByKey ks k = positions ks k"
proof -
  have "fold (queue_step ks) [0..<n] (\<lambda>_. []) k = filter (\<lambda>i. ks ! i = k) [0..<n]" for n
    by (induction n) (auto simp: queue_step_def)
  then show ?thesis by (simp add: afterByKey_def positions_def)
qed

lemma pair_fold:
  "case fold (pair_step ks) [0..<n] (positions as, []) of (q, pairs) \<Rightarrow>
     (\<forall>k. q k = drop (earlier ks k n) (positions as k)) \<and>
     (\<forall>i j. (i, j) \<in> set pairs \<longleftrightarrow>
       i < n \<and> j < length as \<and> as ! j = ks ! i \<and> earlier as (as ! j) j = earlier ks (ks ! i) i) \<and>
     sorted_wrt (<) (map fst pairs)"
proof (induction n)
  case (Suc n)
  obtain q pairs where r: "fold (pair_step ks) [0..<n] (positions as, []) = (q, pairs)"
    by (cases "fold (pair_step ks) [0..<n] (positions as, [])")
  let ?k = "ks ! n"
  have q: "q k = drop (earlier ks k n) (positions as k)" for k using Suc r by simp
  have pairs: "(i, j) \<in> set pairs \<longleftrightarrow>
      i < n \<and> j < length as \<and> as ! j = ks ! i \<and> earlier as (as ! j) j = earlier ks (ks ! i) i" for i j
    using Suc r by simp
  have sorted: "sorted_wrt (<) (map fst pairs)" using Suc r by simp
  have new: "j < length as \<and> as ! j = ?k \<and> earlier as (as ! j) j = earlier ks ?k n \<longleftrightarrow>
      (\<exists>js. q ?k = j # js)" for j
  proof -
    have "j < length as \<and> as ! j = ?k \<and> earlier as (as ! j) j = earlier ks ?k n \<longleftrightarrow>
        earlier ks ?k n < length (positions as ?k) \<and> positions as ?k ! earlier ks ?k n = j"
      by (auto simp: positions_nth)
    also have "\<dots> \<longleftrightarrow> (\<exists>js. q ?k = j # js)"
      unfolding q by (metis Cons_nth_drop_Suc drop_eq_Nil2 linorder_not_le list.distinct(1) list.inject)
    finally show ?thesis .
  qed
  have step: "fold (pair_step ks) [0..<Suc n] (positions as, []) = pair_step ks n (q, pairs)" using r by simp
  show ?case
  proof (cases "q ?k")
    case Nil
    have queue: "\<forall>k. q k = drop (earlier ks k (Suc n)) (positions as k)"
    proof
      fix k
      have "drop (earlier ks k n) (positions as k) = [] \<Longrightarrow> drop (Suc (earlier ks k n)) (positions as k) = []" by simp
      then show "q k = drop (earlier ks k (Suc n)) (positions as k)"
        using Nil q [of k] by (cases "?k = k") (simp_all add: earlier_Suc)
    qed
    have none: "\<not> (j < length as \<and> as ! j = ?k \<and> earlier as (as ! j) j = earlier ks ?k n)" for j
      using new [of j] Nil by simp
    have "pair_step ks n (q, pairs) = (q, pairs)" using Nil by (simp add: pair_step_def)
    then show ?thesis unfolding step using queue pairs none sorted by (auto simp: less_Suc_eq)
  next
    case (Cons j js)
    have queue: "\<forall>k. (q(?k := js)) k = drop (earlier ks k (Suc n)) (positions as k)"
    proof
      fix k
      have "js = drop (Suc (earlier ks ?k n)) (positions as ?k)"
        using Cons q [of ?k] by (metis drop_Suc list.sel(3) tl_drop)
      then show "(q(?k := js)) k = drop (earlier ks k (Suc n)) (positions as k)"
        using q [of k] by (cases "?k = k") (auto simp: earlier_Suc)
    qed
    have some: "(j' < length as \<and> as ! j' = ?k \<and> earlier as (as ! j') j' = earlier ks ?k n) = (j' = j)" for j'
      using new [of j'] Cons by auto
    have eq: "pair_step ks n (q, pairs) = (q(?k := js), pairs @ [(n, j)])" using Cons by (simp add: pair_step_def)
    have "(i, l) \<in> set (pairs @ [(n, j)]) \<longleftrightarrow>
        i < Suc n \<and> l < length as \<and> as ! l = ks ! i \<and> earlier as (as ! l) l = earlier ks (ks ! i) i" for i l
      using pairs [of i l] some [of l] by (cases "i = n") (auto simp: less_Suc_eq)
    moreover have "sorted_wrt (<) (map fst (pairs @ [(n, j)]))"
      using sorted pairs by (auto simp: sorted_wrt_append)
    ultimately show ?thesis unfolding step eq using queue by simp
  qed
qed (simp add: earlier_def)

text \<open>Pairing by key pairs the \<open>n\<close>-th occurrence of a key before with its \<open>n\<close>-th occurrence after, and
  nothing else; so no position is paired twice, and positions of one key keep their order.\<close>

lemma pairByKey_iff:
  "(i, j) \<in> set (pairByKey before after) \<longleftrightarrow>
     i < length before \<and> j < length after \<and> after ! j = before ! i \<and>
     earlier after (after ! j) j = earlier before (before ! i) i"
  using pair_fold [of before "length before" after]
  by (simp add: pairByKey_def afterByKey_positions [abs_def] split: prod.splits)

lemma pairByKey_sorted: "sorted_wrt (<) (map fst (pairByKey before after))"
  using pair_fold [of before "length before" after]
  by (simp add: pairByKey_def afterByKey_positions [abs_def] split: prod.splits)

lemma pairByKey_inj:
  "(i, j) \<in> set (pairByKey before after) \<Longrightarrow> (i', j') \<in> set (pairByKey before after) \<Longrightarrow> (i = i') = (j = j')"
  by (metis earlier_inj pairByKey_iff)

lemma pairByKey_distinct:
  "distinct (map fst (pairByKey before after))" "distinct (map snd (pairByKey before after))"
proof -
  show d: "distinct (map fst (pairByKey before after))"
    using pairByKey_sorted by (simp add: strict_sorted_iff)
  then have "distinct (pairByKey before after)" by (simp add: distinct_map)
  moreover have "inj_on snd (set (pairByKey before after))"
    using pairByKey_inj by (fastforce simp: inj_on_def)
  ultimately show "distinct (map snd (pairByKey before after))" by (simp add: distinct_map)
qed

end
