(* ===== verification/Diff_Model.thy ===== *)
theory Diff_Model
  imports Fingerprint Uir Diff_Sequence "HOL-Library.AList"
begin

text \<open>
  What a structural diff reports (\<open>diff/diff.go\<close>): changes with their summary, and the diff of two bodies, which
  reads an edit script of the third-party \<open>github.com/pkg/diff/myers\<close>. That function, the digest and uuid
  functions, and the order in which a Go map is ranged over are fields of the environment \<open>diff_env\<close>.
\<close>

subsection \<open>Changes\<close>

datatype change_kind =
  NoChange | ChangeAdded | ChangeDeleted | ChangeModified | ChangeReplaced | ChangeRenamed | ChangeMoved | ChangeRenameMove

fun kind_text :: "change_kind \<Rightarrow> gostring" where
  "kind_text NoChange = ''''"
| "kind_text ChangeAdded = ''added''"
| "kind_text ChangeDeleted = ''deleted''"
| "kind_text ChangeModified = ''modified''"
| "kind_text ChangeReplaced = ''replaced''"
| "kind_text ChangeRenamed = ''renamed''"
| "kind_text ChangeMoved = ''moved''"
| "kind_text ChangeRenameMove = ''rename_move''"

record diff_options =
  DStatements :: bool
  DMoves :: bool
  DRenames :: bool

definition DefaultTreeDiffOptions :: diff_options where
  "DefaultTreeDiffOptions = \<lparr> DStatements = True, DMoves = True, DRenames = True \<rparr>"

record diff_summary =
  Added :: int
  Deleted :: int
  Modified :: int
  Replaced :: int
  Renamed :: int
  Moved :: int
  RenameMove :: int

record diff_node_ref =
  DRID :: gostring
  DRSymbol :: gostring
  DRNodeType :: node_type
  DRName :: gostring
  DRParent :: gostring
  DRFile :: gostring
  DRHash :: gostring

datatype (plugins only: code size) diff_change = DiffChange
  (CKind: change_kind) (CPath: gostring) (CDetail: gostring) (CLayer: "layer option")
  (CBefore: "diff_node_ref option") (CAfter: "diff_node_ref option") (CChanges: "diff_change list")

record diff_result =
  Summary :: diff_summary
  Changes :: "diff_change list"

definition no_summary :: diff_summary where
  "no_summary = \<lparr> Added = 0, Deleted = 0, Modified = 0, Replaced = 0, Renamed = 0, Moved = 0, RenameMove = 0 \<rparr>"

definition no_result :: diff_result where
  "no_result = \<lparr> Summary = no_summary, Changes = [] \<rparr>"

fun summary_add :: "change_kind \<Rightarrow> diff_summary \<Rightarrow> diff_summary" where
  "summary_add ChangeAdded s = s\<lparr> Added := Added s + 1 \<rparr>"
| "summary_add ChangeDeleted s = s\<lparr> Deleted := Deleted s + 1 \<rparr>"
| "summary_add ChangeModified s = s\<lparr> Modified := Modified s + 1 \<rparr>"
| "summary_add ChangeReplaced s = s\<lparr> Replaced := Replaced s + 1 \<rparr>"
| "summary_add ChangeRenamed s = s\<lparr> Renamed := Renamed s + 1 \<rparr>"
| "summary_add ChangeMoved s = s\<lparr> Moved := Moved s + 1 \<rparr>"
| "summary_add ChangeRenameMove s = s\<lparr> RenameMove := RenameMove s + 1 \<rparr>"
| "summary_add NoChange s = s"

definition result_Add :: "diff_change \<Rightarrow> diff_result \<Rightarrow> diff_result" where
  "result_Add c r =
     (if CKind c = NoChange then r
      else r\<lparr> Changes := Changes r @ [c],
              Summary := fold (\<lambda>child. summary_add (CKind child)) (CChanges c) (summary_add (CKind c) (Summary r)) \<rparr>)"

definition merge_result :: "diff_result \<Rightarrow> diff_result \<Rightarrow> diff_result" where
  "merge_result other r = fold result_Add (Changes other) r"

text \<open>A change with the fields the code leaves out at their zero value.\<close>

definition change :: "change_kind \<Rightarrow> gostring \<Rightarrow> gostring \<Rightarrow> diff_node_ref option \<Rightarrow> diff_node_ref option \<Rightarrow> diff_change" where
  "change k path detail before after = DiffChange k path detail None before after []"

subsection \<open>The environment\<close>

datatype edit_op = Eq | Del | Ins

record edit_range =
  Op :: edit_op
  LowA :: nat
  HighA :: nat
  LowB :: nat
  HighB :: nat

text \<open>\<open>Myers n m equal\<close> is the script for two sequences of \<open>n\<close> and \<open>m\<close> elements; \<open>KeyOrder\<close> and
  \<open>MatchOrder\<close> arrange the keys of a map in the order it is ranged over.\<close>

record diff_env =
  Sha :: "gostring \<Rightarrow> gostring"
  Unicode :: unicode_tables
  NewSHA1 :: "gostring \<Rightarrow> uuid"
  UuidString :: "uuid \<Rightarrow> gostring"
  Myers :: "nat \<Rightarrow> nat \<Rightarrow> (nat \<Rightarrow> nat \<Rightarrow> bool) \<Rightarrow> edit_range list"
  KeyOrder :: "gostring list \<Rightarrow> gostring list"
  MatchOrder :: "nat list \<Rightarrow> nat list"

definition node_hash :: "diff_env \<Rightarrow> uir_node \<Rightarrow> gostring" where
  "node_hash env n = hash_String (Sha env) (node_Hash (Sha env) (Unicode env) n)"

definition node_symbol :: "diff_env \<Rightarrow> uir_node \<Rightarrow> gostring" where
  "node_symbol env n = SymbolKey (Unicode env) (GetIdentifier n)"

definition nodePath :: "diff_env \<Rightarrow> uir_node option \<Rightarrow> gostring" where
  "nodePath env n = (case n of None \<Rightarrow> [] | Some n \<Rightarrow> node_symbol env n)"

definition node_uuid :: "diff_env \<Rightarrow> uir_node \<Rightarrow> gostring" where
  "node_uuid env n = UuidString env (GetUUID (NewSHA1 env) (Unicode env) (GetIdentifier n))"

definition newDiffNodeRef :: "diff_env \<Rightarrow> uir_node option \<Rightarrow> gostring \<Rightarrow> diff_node_ref option" where
  "newDiffNodeRef env n parent =
     (case n of
        None \<Rightarrow> None
      | Some n \<Rightarrow> Some \<lparr> DRID = node_uuid env n, DRSymbol = node_symbol env n, DRNodeType = GetType n,
                       DRName = GetName (GetIdentifier n), DRParent = parent, DRFile = LocPath (GetLocation n),
                       DRHash = node_hash env n \<rparr>)"

subsection \<open>The diff of two bodies\<close>

definition stmt_hash :: "diff_env \<Rightarrow> stmt option \<Rightarrow> gostring" where
  "stmt_hash env s =
     hash_String (Sha env) (case s of None \<Rightarrow> stmt_nil | Some s \<Rightarrow> HashStatement (Unicode env) s)"

text \<open>The positions of every hash, the map \<open>map[string][]int\<close> as an association list.\<close>

type_synonym hash_positions = "(gostring \<times> nat list) list"

definition held_at :: "hash_positions \<Rightarrow> gostring \<Rightarrow> nat list" where
  "held_at m k = (case map_of m k of None \<Rightarrow> [] | Some is \<Rightarrow> is)"

definition put_position :: "(nat \<Rightarrow> gostring) \<Rightarrow> nat \<Rightarrow> hash_positions \<Rightarrow> hash_positions" where
  "put_position h i m = AList.update (h i) (held_at m (h i) @ [i]) m"

definition index_range :: "(nat \<Rightarrow> gostring) \<Rightarrow> (nat \<Rightarrow> gostring) \<Rightarrow> edit_range \<Rightarrow> hash_positions \<times> hash_positions \<Rightarrow> hash_positions \<times> hash_positions" where
  "index_range ha hb r p =
     (case Op r of
        Eq \<Rightarrow> p
      | Del \<Rightarrow> (fold (put_position ha) [LowA r..<HighA r] (fst p), snd p)
      | Ins \<Rightarrow> (fst p, fold (put_position hb) [LowB r..<HighB r] (snd p)))"

definition moved_pairs :: "diff_env \<Rightarrow> hash_positions \<Rightarrow> hash_positions \<Rightarrow> (nat \<times> nat) list" where
  "moved_pairs env deletedByHash insertedByHash =
     concat (map (\<lambda>k. case (held_at deletedByHash k, held_at insertedByHash k) of ([i], [j]) \<Rightarrow> [(i, j)] | _ \<Rightarrow> [])
       (KeyOrder env (map fst deletedByHash)))"

definition moved_change :: "gostring \<Rightarrow> nat \<times> nat \<Rightarrow> diff_change" where
  "moved_change path p =
     change ChangeMoved path (''statement '' @ itoa (int (fst p)) @ '' -> '' @ itoa (int (snd p))) None None"

definition one_sided :: "change_kind \<Rightarrow> gostring \<Rightarrow> nat \<Rightarrow> diff_change" where
  "one_sided k path i = change k path (''statement '' @ itoa (int i)) None None"

definition range_changes :: "gostring \<Rightarrow> nat set \<Rightarrow> nat set \<Rightarrow> edit_range \<Rightarrow> diff_change list" where
  "range_changes path movedDeleted movedInserted r =
     (case Op r of
        Eq \<Rightarrow> []
      | Del \<Rightarrow> map (one_sided ChangeDeleted path) (filter (\<lambda>i. i \<notin> movedDeleted) [LowA r..<HighA r])
      | Ins \<Rightarrow> map (one_sided ChangeAdded path) (filter (\<lambda>i. i \<notin> movedInserted) [LowB r..<HighB r]))"

definition diffStatements :: "diff_env \<Rightarrow> gostring \<Rightarrow> stmt option list \<Rightarrow> stmt option list \<Rightarrow> diff_result" where
  "diffStatements env path before after =
     (let ha = (\<lambda>i. stmt_hash env (before ! i)); hb = (\<lambda>i. stmt_hash env (after ! i));
          script = Myers env (length before) (length after) (\<lambda>i j. ha i = hb j) in
      case fold (index_range ha hb) script ([], []) of
        (deletedByHash, insertedByHash) \<Rightarrow>
          let moved = moved_pairs env deletedByHash insertedByHash in
          fold result_Add
            (map (moved_change path) moved @
             concat (map (range_changes path (fst ` set moved) (snd ` set moved)) script))
            no_result)"

definition block_hash :: "diff_env \<Rightarrow> block_stmt \<Rightarrow> gostring" where
  "block_hash env b = hash_String (Sha env) (block_Hash (Unicode env) b)"

definition diffBlocks :: "diff_env \<Rightarrow> gostring \<Rightarrow> block_stmt option \<Rightarrow> block_stmt option \<Rightarrow> diff_result" where
  "diffBlocks env path before after =
     (case (before, after) of
        (None, None) \<Rightarrow> no_result
      | (None, Some _) \<Rightarrow> result_Add (change ChangeAdded path ''body added'' None None) no_result
      | (Some _, None) \<Rightarrow> result_Add (change ChangeDeleted path ''body deleted'' None None) no_result
      | (Some b, Some a) \<Rightarrow>
          if block_hash env b = block_hash env a then no_result
          else merge_result (diffStatements env path (BlockChildren b) (BlockChildren a)) no_result)"

subsection \<open>The summary counts the changes\<close>

fun all_kinds :: "diff_change \<Rightarrow> change_kind list" where
  "all_kinds c = CKind c # map CKind (CChanges c)"

definition kinds_in :: "diff_change list \<Rightarrow> change_kind list" where
  "kinds_in cs = concat (map all_kinds cs)"

definition summary_of :: "change_kind list \<Rightarrow> diff_summary" where
  "summary_of ks =
     \<lparr> Added = int (count_list ks ChangeAdded), Deleted = int (count_list ks ChangeDeleted),
       Modified = int (count_list ks ChangeModified), Replaced = int (count_list ks ChangeReplaced),
       Renamed = int (count_list ks ChangeRenamed), Moved = int (count_list ks ChangeMoved),
       RenameMove = int (count_list ks ChangeRenameMove) \<rparr>"

text \<open>A result is sound when its summary counts its changes and none of them is empty.\<close>

definition sound_result :: "diff_result \<Rightarrow> bool" where
  "sound_result r \<longleftrightarrow> Summary r = summary_of (kinds_in (Changes r)) \<and> (\<forall>c \<in> set (Changes r). CKind c \<noteq> NoChange)"

lemma summary_snoc: "summary_add k (summary_of ks) = summary_of (ks @ [k])"
  by (cases k) (simp_all add: summary_of_def)

lemma summary_fold: "fold (\<lambda>c. summary_add (CKind c)) cs (summary_of ks) = summary_of (ks @ map CKind cs)"
  by (induction cs arbitrary: ks) (simp_all add: summary_snoc)

lemma sound_no_result [simp]: "sound_result no_result"
  by (simp add: sound_result_def no_result_def no_summary_def kinds_in_def summary_of_def)

lemma sound_Add [simp]: "sound_result r \<Longrightarrow> sound_result (result_Add c r)"
  by (simp add: sound_result_def result_Add_def kinds_in_def summary_snoc summary_fold)

lemma sound_fold [simp]: "sound_result r \<Longrightarrow> sound_result (fold result_Add cs r)"
  by (induction cs arbitrary: r) simp_all

lemma sound_merge [simp]: "sound_result r \<Longrightarrow> sound_result (merge_result other r)"
  by (simp add: merge_result_def)

lemma sound_blocks [simp]: "sound_result (diffBlocks env path b a)"
  by (simp add: diffBlocks_def split: option.split)

lemma Changes_Add: "Changes (result_Add c r) = Changes r @ (if CKind c = NoChange then [] else [c])"
  by (simp add: result_Add_def)

lemma Changes_fold: "Changes (fold result_Add cs r) = Changes r @ filter (\<lambda>c. CKind c \<noteq> NoChange) cs"
  by (induction cs arbitrary: r) (simp_all add: Changes_Add)

lemma Changes_none [simp]: "Changes no_result = []"
  by (simp add: no_result_def)

lemma Changes_merge:
  "sound_result other \<Longrightarrow> Changes (merge_result other r) = Changes r @ Changes other"
  by (simp add: merge_result_def Changes_fold sound_result_def)

lemma sound_eq: "sound_result r \<Longrightarrow> sound_result r' \<Longrightarrow> Changes r = Changes r' \<Longrightarrow> r = r'"
  by (simp add: sound_result_def)

lemma merge_none [simp]: "sound_result r \<Longrightarrow> merge_result r no_result = r"
  by (rule sound_eq) (simp_all add: Changes_merge)

lemma CKind_change [simp]: "CKind (change k p d b a) = k"
  by (simp add: change_def)

end
