(* ===== verification/Diff_Statement.thy ===== *)
theory Diff_Statement
  imports Diff_Model
begin

text \<open>
  The diff of two bodies is an edit script: every statement of either side is kept, moved, deleted or added, whatever
  order the maps are ranged over in, as long as the third-party script is one.
\<close>

text \<open>What \<open>myers.Diff\<close> documents: ranges that cover both sequences in order, elements of an \<open>Eq\<close> range
  pairwise equal, a \<open>Del\<close> range empty after and an \<open>Ins\<close> range empty before.\<close>

fun valid_script :: "(nat \<Rightarrow> nat \<Rightarrow> bool) \<Rightarrow> nat \<Rightarrow> nat \<Rightarrow> nat \<Rightarrow> nat \<Rightarrow> edit_range list \<Rightarrow> bool" where
  "valid_script eq n m i j [] \<longleftrightarrow> i = n \<and> j = m"
| "valid_script eq n m i j (r # rs) \<longleftrightarrow>
     LowA r = i \<and> LowB r = j \<and> i \<le> HighA r \<and> j \<le> HighB r \<and>
     (case Op r of
        Eq \<Rightarrow> HighA r - i = HighB r - j \<and> (\<forall>k < HighA r - i. eq (i + k) (j + k))
      | Del \<Rightarrow> HighB r = j
      | Ins \<Rightarrow> HighA r = i) \<and>
     valid_script eq n m (HighA r) (HighB r) rs"

definition dels :: "edit_range list \<Rightarrow> nat list" where
  "dels rs = concat (map (\<lambda>r. if Op r = Del then [LowA r..<HighA r] else []) rs)"

definition inss :: "edit_range list \<Rightarrow> nat list" where
  "inss rs = concat (map (\<lambda>r. if Op r = Ins then [LowB r..<HighB r] else []) rs)"

definition kept_pairs :: "edit_range list \<Rightarrow> (nat \<times> nat) list" where
  "kept_pairs rs = concat (map (\<lambda>r. if Op r = Eq then zip [LowA r..<HighA r] [LowB r..<HighB r] else []) rs)"

lemma valid_bounds: "valid_script eq n m i j rs \<Longrightarrow> i \<le> n \<and> j \<le> m"
  by (induction rs arbitrary: i j) force+

lemma upt_split: "i \<le> k \<Longrightarrow> k \<le> n \<Longrightarrow> mset [i..<n] = mset [i..<k] + mset [k..<n]"
  by (metis le_add_diff_inverse mset_append upt_add_eq_append)

lemma zip_upt_mem: "length [i..<a] = length [j..<b] \<Longrightarrow> (x, y) \<in> set (zip [i..<a] [j..<b]) \<Longrightarrow> \<exists>k < a - i. x = i + k \<and> y = j + k"
  by (auto simp: set_zip)

lemma valid_covers:
  "valid_script eq n m i j rs \<Longrightarrow>
     mset (map fst (kept_pairs rs)) + mset (dels rs) = mset [i..<n] \<and>
     mset (map snd (kept_pairs rs)) + mset (inss rs) = mset [j..<m] \<and>
     (\<forall>(x, y) \<in> set (kept_pairs rs). eq x y)"
proof (induction rs arbitrary: i j)
  case Nil
  then show ?case by (simp add: kept_pairs_def dels_def inss_def)
next
  case (Cons r rs)
  then have ih: "mset (map fst (kept_pairs rs)) + mset (dels rs) = mset [HighA r..<n]"
    "mset (map snd (kept_pairs rs)) + mset (inss rs) = mset [HighB r..<m]" "\<forall>(x, y) \<in> set (kept_pairs rs). eq x y"
    using Cons.IH [of "HighA r" "HighB r"] by simp_all
  have low: "LowA r = i" "LowB r = j" "i \<le> HighA r" "j \<le> HighB r" using Cons.prems by simp_all
  have high: "HighA r \<le> n" "HighB r \<le> m" using Cons.prems valid_bounds by auto
  note split = upt_split [OF low(3) high(1)] upt_split [OF low(4) high(2)]
  have add: "kept_pairs (r # rs) = (if Op r = Eq then zip [LowA r..<HighA r] [LowB r..<HighB r] else []) @ kept_pairs rs"
    "dels (r # rs) = (if Op r = Del then [LowA r..<HighA r] else []) @ dels rs"
    "inss (r # rs) = (if Op r = Ins then [LowB r..<HighB r] else []) @ inss rs"
    by (simp_all add: kept_pairs_def dels_def inss_def)
  show ?case
  proof (cases "Op r")
    case Eq
    then have same: "HighA r - i = HighB r - j" "\<forall>k < HighA r - i. eq (i + k) (j + k)" using Cons.prems by simp_all
    then have len: "length [i..<HighA r] = length [j..<HighB r]" by simp
    have "mset (map fst (zip [i..<HighA r] [j..<HighB r])) = mset [i..<HighA r]"
      "mset (map snd (zip [i..<HighA r] [j..<HighB r])) = mset [j..<HighB r]"
      using len by simp_all
    moreover have "\<forall>(x, y) \<in> set (zip [i..<HighA r] [j..<HighB r]). eq x y"
      using zip_upt_mem [OF len] same(2) by fastforce
    ultimately have zip: "mset (map fst (kept_pairs (r # rs))) = mset [i..<HighA r] + mset (map fst (kept_pairs rs))"
      "mset (map snd (kept_pairs (r # rs))) = mset [j..<HighB r] + mset (map snd (kept_pairs rs))"
      "\<forall>(x, y) \<in> set (kept_pairs (r # rs)). eq x y"
      unfolding add low using Eq ih(3) by (simp_all only: if_True refl simp_thms map_append mset_append set_append ball_Un)
    have "dels (r # rs) = dels rs" "inss (r # rs) = inss rs" using Eq by (simp_all add: add)
    then show ?thesis unfolding split zip ih(1,2) [symmetric] using zip(3) by (simp only: add.assoc simp_thms)
  next
    case Del
    then have "HighB r = j" using Cons.prems by simp
    with Del ih low show ?thesis unfolding add split ih(1,2) [symmetric] by (simp add: ac_simps)
  next
    case Ins
    then have "HighA r = i" using Cons.prems by simp
    with Ins ih low show ?thesis unfolding add split ih(1,2) [symmetric] by (simp add: ac_simps)
  qed
qed

lemma script_Cons:
  "dels (r # rs) = (if Op r = Del then [LowA r..<HighA r] else []) @ dels rs"
  "inss (r # rs) = (if Op r = Ins then [LowB r..<HighB r] else []) @ inss rs"
  by (simp_all add: dels_def inss_def)

lemma index_range_pair:
  "index_range ha hb r (p, q) =
     (fold (put_position ha) (if Op r = Del then [LowA r..<HighA r] else []) p,
      fold (put_position hb) (if Op r = Ins then [LowB r..<HighB r] else []) q)"
  by (cases "Op r") (simp_all add: index_range_def)

lemma index_ranges:
  "fold (index_range ha hb) rs (p, q) = (fold (put_position ha) (dels rs) p, fold (put_position hb) (inss rs) q)"
  by (induction rs arbitrary: p q)
    (simp_all add: index_range_pair script_Cons del: upt.simps split del: if_split, simp_all add: dels_def inss_def)

lemma held_at_put: "held_at (put_position h i m) k = (if h i = k then held_at m k @ [i] else held_at m k)"
  by (simp add: put_position_def held_at_def update_conv)

lemma held_at_all: "held_at (fold (put_position h) is m) k = held_at m k @ filter (\<lambda>i. h i = k) is"
  by (induction "is" arbitrary: m) (auto simp: held_at_put)

lemma held_nil: "held_at [] k = []"
  by (simp add: held_at_def)

lemma keys_put: "distinct (map fst m) \<Longrightarrow>
    distinct (map fst (fold (put_position h) is m)) \<and> set (map fst (fold (put_position h) is m)) = set (map fst m) \<union> h ` set is"
proof (induction "is" arbitrary: m)
  case (Cons i "is")
  have "distinct (map fst (put_position h i m))" "set (map fst (put_position h i m)) = insert (h i) (set (map fst m))"
    using Cons.prems by (auto simp: put_position_def distinct_update AList.update_keys)
  then show ?case using Cons.IH by auto
qed simp

lemma only_held: "filter (\<lambda>x. h x = k) xs = [i] \<Longrightarrow> h i = k" "filter (\<lambda>x. h x = k) xs = [i] \<Longrightarrow> i \<in> set xs"
  by (induction xs) (auto split: if_splits)

text \<open>The pairs that moved: the two sides hold their hash once each.\<close>

lemma moved_mem:
  assumes "\<forall>ks. mset (KeyOrder env ks) = mset ks"
  shows "(i, j) \<in> set (moved_pairs env (fold (put_position ha) ds []) (fold (put_position hb) js [])) \<longleftrightarrow>
    ha i = hb j \<and> filter (\<lambda>x. ha x = ha i) ds = [i] \<and> filter (\<lambda>x. hb x = ha i) js = [j]"
proof -
  let ?d = "fold (put_position ha) ds []" and ?j = "fold (put_position hb) js []"
  have set: "set (KeyOrder env (map fst ?d)) = ha ` set ds"
    using assms keys_put [of "[]" ha ds] by (metis Un_empty_left empty_set list.simps(8) mset_eq_setD distinct.simps(1))
  have at: "(i, j) \<in> set (case (held_at ?d k, held_at ?j k) of ([i], [j]) \<Rightarrow> [(i, j)] | _ \<Rightarrow> []) \<longleftrightarrow>
      held_at ?d k = [i] \<and> held_at ?j k = [j]" for k
    by (auto split: list.splits)
  have "(i, j) \<in> set (moved_pairs env ?d ?j) \<longleftrightarrow>
      (\<exists>k \<in> ha ` set ds. filter (\<lambda>x. ha x = k) ds = [i] \<and> filter (\<lambda>x. hb x = k) js = [j])"
    by (simp only: moved_pairs_def set_concat set_map UN_iff set at)
      (simp add: held_at_all held_nil eq_commute [of "[_]"])
  also have "\<dots> \<longleftrightarrow> ha i = hb j \<and> filter (\<lambda>x. ha x = ha i) ds = [i] \<and> filter (\<lambda>x. hb x = ha i) js = [j]"
  proof
    assume "\<exists>k \<in> ha ` set ds. filter (\<lambda>x. ha x = k) ds = [i] \<and> filter (\<lambda>x. hb x = k) js = [j]"
    then obtain k where k: "filter (\<lambda>x. ha x = k) ds = [i]" "filter (\<lambda>x. hb x = k) js = [j]" by blast
    from k have "ha i = k" "hb j = k" by (auto dest: only_held(1))
    with k show "ha i = hb j \<and> filter (\<lambda>x. ha x = ha i) ds = [i] \<and> filter (\<lambda>x. hb x = ha i) js = [j]" by simp
  next
    assume r: "ha i = hb j \<and> filter (\<lambda>x. ha x = ha i) ds = [i] \<and> filter (\<lambda>x. hb x = ha i) js = [j]"
    then have "i \<in> set ds" by (auto dest: only_held(2))
    with r show "\<exists>k \<in> ha ` set ds. filter (\<lambda>x. ha x = k) ds = [i] \<and> filter (\<lambda>x. hb x = k) js = [j]" by blast
  qed
  finally show ?thesis .
qed

lemma moved_distinct:
  assumes "\<forall>ks. mset (KeyOrder env ks) = mset ks"
  shows "distinct (map fst (moved_pairs env (fold (put_position ha) ds []) (fold (put_position hb) js [])))"
    "distinct (map snd (moved_pairs env (fold (put_position ha) ds []) (fold (put_position hb) js [])))"
proof -
  let ?d = "fold (put_position ha) ds []" and ?j = "fold (put_position hb) js []"
  let ?at = "\<lambda>k. case (held_at ?d k, held_at ?j k) of ([i], [j]) \<Rightarrow> [(i, j)] | _ \<Rightarrow> []"
  have keys: "distinct (KeyOrder env (map fst ?d))"
    using assms keys_put [of "[]" ha ds] by (metis distinct.simps(1) list.simps(8) mset_eq_imp_distinct_iff)
  have at: "?at k = [] \<or> (\<exists>i j. ?at k = [(i, j)] \<and> ha i = k \<and> hb j = k)" for k
  proof (cases "\<exists>i j. held_at ?d k = [i] \<and> held_at ?j k = [j]")
    case True
    then obtain i j where ij: "held_at ?d k = [i]" "held_at ?j k = [j]" by blast
    then have "ha i = k" "hb j = k" by (auto simp: held_at_all held_nil dest: only_held(1))
    with ij show ?thesis by simp
  next
    case False
    then show ?thesis by (auto split: list.splits)
  qed
  obtain at' where at': "at' = ?at" by blast
  have at: "at' k = [] \<or> (\<exists>i j. at' k = [(i, j)] \<and> ha i = k \<and> hb j = k)" for k
    unfolding at' by (rule at)
  have one: "distinct (map ha (map fst (concat (map at' ks)))) \<and> distinct (map hb (map snd (concat (map at' ks)))) \<and>
      set (map ha (map fst (concat (map at' ks)))) \<subseteq> set ks \<and> set (map hb (map snd (concat (map at' ks)))) \<subseteq> set ks"
    if "distinct ks" for ks
    using that
  proof (induction ks)
    case (Cons k ks)
    then have out: "k \<notin> set (map ha (map fst (concat (map at' ks))))" "k \<notin> set (map hb (map snd (concat (map at' ks))))"
      by auto
    from at [of k] show ?case
    proof (elim disjE exE conjE)
      fix i j assume "at' k = [(i, j)]" "ha i = k" "hb j = k"
      with Cons out show ?case by (simp del: map_map set_map set_concat) blast
    qed (use Cons in \<open>simp del: map_map set_map set_concat; blast\<close>)
  qed simp
  show "distinct (map fst (moved_pairs env ?d ?j))" "distinct (map snd (moved_pairs env ?d ?j))"
    using one [OF keys] unfolding moved_pairs_def at' [symmetric] by (metis distinct_map)+
qed

lemma range_changes_mset:
  "mset (concat (map (range_changes path D I) rs)) =
     mset (map (one_sided ChangeDeleted path) (filter (\<lambda>i. i \<notin> D) (dels rs))) +
     mset (map (one_sided ChangeAdded path) (filter (\<lambda>i. i \<notin> I) (inss rs)))"
proof (induction rs)
  case (Cons r rs)
  then show ?case by (cases "Op r") (simp_all add: range_changes_def script_Cons del: upt.simps)
qed (simp add: dels_def inss_def)

lemma mset_without: "distinct xs \<Longrightarrow> distinct ys \<Longrightarrow> set ys \<subseteq> set xs \<Longrightarrow> mset ys + mset (filter (\<lambda>x. x \<notin> set ys) xs) = mset xs"
proof -
  assume d: "distinct xs" "distinct ys" "set ys \<subseteq> set xs"
  have "mset ys = mset (filter (\<lambda>x. x \<in> set ys) xs)"
    using d by (intro set_eq_iff_mset_eq_distinct [THEN iffD1]) auto
  then show ?thesis by (simp add: multiset_partition [of "mset xs" "\<lambda>x. x \<in> set ys", symmetric])
qed

text \<open>C25: the diff of two bodies accounts for every statement: each one before is kept, moved or deleted, each one
  after is kept, moved or added, kept and moved ones hash alike, and what moved, went or came is reported once.\<close>

theorem diffStatements_accounts:
  assumes "valid_script (\<lambda>i j. stmt_hash env (before ! i) = stmt_hash env (after ! j)) (length before) (length after) 0 0
      (Myers env (length before) (length after) (\<lambda>i j. stmt_hash env (before ! i) = stmt_hash env (after ! j)))"
    "\<forall>ks. mset (KeyOrder env ks) = mset ks"
  shows "\<exists>kept moved gone new.
    mset (map fst (kept @ moved) @ gone) = mset [0..<length before] \<and>
    mset (map snd (kept @ moved) @ new) = mset [0..<length after] \<and>
    (\<forall>(i, j) \<in> set (kept @ moved). stmt_hash env (before ! i) = stmt_hash env (after ! j)) \<and>
    mset (Changes (diffStatements env path before after)) =
      mset (map (moved_change path) moved @ map (one_sided ChangeDeleted path) gone @ map (one_sided ChangeAdded path) new)"
proof -
  let ?ha = "\<lambda>i. stmt_hash env (before ! i)" and ?hb = "\<lambda>j. stmt_hash env (after ! j)"
  define rs where "rs = Myers env (length before) (length after) (\<lambda>i j. ?ha i = ?hb j)"
  define moved where "moved = moved_pairs env (fold (put_position ?ha) (dels rs) []) (fold (put_position ?hb) (inss rs) [])"
  let ?gone = "filter (\<lambda>i. i \<notin> fst ` set moved) (dels rs)" and ?new = "filter (\<lambda>j. j \<notin> snd ` set moved) (inss rs)"
  note covers = valid_covers [OF assms(1) [folded rs_def]]
  have d: "distinct (dels rs)" "distinct (inss rs)"
    using covers by (metis distinct_append distinct_upt mset_append mset_eq_imp_distinct_iff)+
  have mem: "(i, j) \<in> set moved \<longleftrightarrow>
      ?ha i = ?hb j \<and> filter (\<lambda>x. ?ha x = ?ha i) (dels rs) = [i] \<and> filter (\<lambda>x. ?hb x = ?ha i) (inss rs) = [j]" for i j
    unfolding moved_def by (rule moved_mem [OF assms(2)])
  have once: "distinct (map fst moved)" "distinct (map snd moved)"
    unfolding moved_def by (rule moved_distinct [OF assms(2)])+
  have sub: "set (map fst moved) \<subseteq> set (dels rs)" "set (map snd moved) \<subseteq> set (inss rs)"
    by (auto simp: mem dest: only_held(2))
  have parts: "mset (map fst moved) + mset ?gone = mset (dels rs)" "mset (map snd moved) + mset ?new = mset (inss rs)"
    using mset_without [OF d(1) once(1) sub(1)] mset_without [OF d(2) once(2) sub(2)] by simp_all
  have kinds: "filter (\<lambda>c. CKind c \<noteq> NoChange) (map (moved_change path) moved @ concat (map (range_changes path D I) rs)) =
      map (moved_change path) moved @ concat (map (range_changes path D I) rs)" for D I
    by (auto simp: filter_id_conv moved_change_def range_changes_def one_sided_def split: edit_op.splits)
  have "Changes (diffStatements env path before after) =
      map (moved_change path) moved @ concat (map (range_changes path (fst ` set moved) (snd ` set moved)) rs)"
    unfolding diffStatements_def Let_def rs_def [symmetric] index_ranges prod.case moved_def [symmetric] Changes_fold kinds
    by simp
  then have "mset (Changes (diffStatements env path before after)) =
      mset (map (moved_change path) moved @ map (one_sided ChangeDeleted path) ?gone @ map (one_sided ChangeAdded path) ?new)"
    by (simp add: range_changes_mset del: mset_concat)
  then show ?thesis
    using covers parts mem
    by (intro exI [of _ "kept_pairs rs"] exI [of _ moved] exI [of _ ?gone] exI [of _ ?new]) (auto simp: ac_simps)
qed

text \<open>A script every comparison allows: delete all, then insert all.\<close>

definition replace_all :: "nat \<Rightarrow> nat \<Rightarrow> (nat \<Rightarrow> nat \<Rightarrow> bool) \<Rightarrow> edit_range list" where
  "replace_all n m eq =
     [\<lparr> Op = Del, LowA = 0, HighA = n, LowB = 0, HighB = 0 \<rparr>, \<lparr> Op = Ins, LowA = n, HighA = n, LowB = 0, HighB = m \<rparr>]"

definition plain_env :: diff_env where
  "plain_env = \<lparr> Sha = pad_hash, Unicode = ascii_tables, NewSHA1 = (\<lambda>s. s), UuidString = (\<lambda>s. s),
     Myers = replace_all, KeyOrder = (\<lambda>ks. ks), MatchOrder = (\<lambda>is. is) \<rparr>"

lemma valid_replace_all: "valid_script eq n m 0 0 (replace_all n m eq)"
  by (simp add: replace_all_def)

theorem diffStatements_accounts_witness:
  "\<exists>kept moved gone new.
    mset (map fst (kept @ moved) @ gone) = mset [0..<length [None, Some (SBreak no_base)]] \<and> mset (map snd (kept @ moved) @ new) = mset [0..<length [Some (SBreak no_base)]] \<and>
    (\<forall>(i, j) \<in> set (kept @ moved). stmt_hash plain_env ([None, Some (SBreak no_base)] ! i) = stmt_hash plain_env ([Some (SBreak no_base)] ! j)) \<and>
    mset (Changes (diffStatements plain_env ''p'' [None, Some (SBreak no_base)] [Some (SBreak no_base)])) =
      mset (map (moved_change ''p'') moved @ map (one_sided ChangeDeleted ''p'') gone @ map (one_sided ChangeAdded ''p'') new)"
  by (rule diffStatements_accounts) (simp_all only: plain_env_def diff_env.simps valid_replace_all simp_thms)

end
