(* ===== verification/Diff_Node.thy ===== *)
theory Diff_Node
  imports Diff_Statement Node_Walk
begin

text \<open>
  \<open>DiffNode\<close> (\<open>diff/diff.go\<close>, \<open>diff/members.go\<close>): the structural diff of two nodes, recursing into members
  paired by symbol key. A Go panic is an error value.
\<close>

datatype (plugins only: code size) diff_panic =
  SharedNodeType uir_node uir_node | NoLayers uir_node | NoLayerDiffers gostring

type_synonym diffed = "(diff_panic, diff_result) outcome"

subsection \<open>Identity\<close>

definition NodeTypeConstructor :: node_type where "NodeTypeConstructor = ''constructor''"
definition NodeTypeInterface :: node_type where "NodeTypeInterface = ''interface''"

function diffIdentity :: "diff_env \<Rightarrow> uir_node \<Rightarrow> hasher" where
  "diffIdentity env n =
     add_list ''children'' (\<lambda>i c h. AddHash (indexed ''children'' i) (diffIdentity env c) h) (GetChildren n)
       (AddString ''symbol'' (node_symbol env n)
         (AddString ''node_type'' (GetType n) (NewHasher ''diff-identity'')))"
  by pat_completeness auto

termination by (relation "measure (\<lambda>(env, n). rank n)") (auto dest: child_less)

declare diffIdentity.simps [simp del]

definition identifierParentKey :: "unicode_tables \<Rightarrow> ident \<Rightarrow> gostring" where
  "identifierParentKey u i =
     (let t = GetNodeType i; i = i\<lparr> Signature := [] \<rparr>;
          i = (if t \<in> {NodeTypeField, NodeTypeColumn, NodeTypeIndex, NodeTypeForeignKey} then i\<lparr> Field := [] \<rparr>
               else if t \<in> {NodeTypeMethod, NodeTypeFunction, NodeTypeEndpoint, NodeTypeConstructor}
                 then i\<lparr> Method := [], Field := [] \<rparr>
               else if t \<in> {NodeTypeType, NodeTypeRecord, NodeTypeTable, NodeTypeInterface}
                 then i\<lparr> Type := [], Method := [], Field := [] \<rparr>
               else if t = NodeTypePackage then i\<lparr> Package := [], Type := [], Method := [], Field := [] \<rparr>
               else if t = NodeTypeModule
                 then i\<lparr> Module := [], Package := [], Type := [], Method := [], Field := [] \<rparr>
               else i\<lparr> Field := [], Method := [] \<rparr>)
      in SymbolKey u (i\<lparr> NodeType := NodeTypeUnknown \<rparr>))"

definition classifyNodeIdentityChange :: "diff_env \<Rightarrow> uir_node \<Rightarrow> uir_node \<Rightarrow> change_kind" where
  "classifyNodeIdentityChange env before after =
     (let i = GetIdentifier before; j = GetIdentifier after; u = Unicode env in
      if SymbolKey u i = SymbolKey u j then NoChange
      else
        let renamed = (GetName i \<noteq> [] \<and> GetName j \<noteq> [] \<and> GetName i \<noteq> GetName j);
            moved = (identifierParentKey u i \<noteq> identifierParentKey u j) in
        if renamed \<and> moved then ChangeRenameMove
        else if renamed then ChangeRenamed
        else if moved then ChangeMoved
        else NoChange)"

definition addIdentityChange :: "diff_env \<Rightarrow> uir_node \<Rightarrow> uir_node \<Rightarrow> diff_result \<Rightarrow> diff_result" where
  "addIdentityChange env before after r =
     (let k = classifyNodeIdentityChange env before after in
      if k = NoChange then r
      else result_Add (change k (node_symbol env after) [] (newDiffNodeRef env (Some before) []) (newDiffNodeRef env (Some after) [])) r)"

subsection \<open>The layer that changed\<close>

definition layer_hashes :: "diff_env \<Rightarrow> fingerprints \<Rightarrow> gostring \<times> gostring \<times> gostring option" where
  "layer_hashes env f =
     (hash_String (Sha env) (FPublic f), hash_String (Sha env) (FPrivate f), map_option (hash_String (Sha env)) (FContent f))"

fun is_document :: "uir_node \<Rightarrow> bool" where
  "is_document (NUIR _) = True"
| "is_document _ = False"

definition changedLayer :: "diff_env \<Rightarrow> uir_node \<Rightarrow> uir_node \<Rightarrow> (diff_panic, layer option) outcome" where
  "changedLayer env before after =
     (if is_document before then Inr None
      else case fingerprint (Sha env) (Unicode env) before of
        None \<Rightarrow> Inl (NoLayers before)
      | Some b \<Rightarrow>
          (case fingerprint (Sha env) (Unicode env) after of
             None \<Rightarrow> Inl (NoLayers after)
           | Some a \<Rightarrow>
               (case (layer_hashes env b, layer_hashes env a) of
                  ((bpub, bpriv, bcontent), (apub, apriv, acontent)) \<Rightarrow>
                    if bpub \<noteq> apub then Inr (Some LayerPublic)
                    else if bpriv \<noteq> apriv then Inr (Some LayerPrivate)
                    else if bcontent \<noteq> acontent then Inr (Some LayerContent)
                    else Inl (NoLayerDiffers (node_symbol env after)))))"

definition addModifiedIfDifferent :: "diff_env \<Rightarrow> uir_node \<Rightarrow> uir_node \<Rightarrow> gostring \<Rightarrow> diff_result \<Rightarrow> diffed" where
  "addModifiedIfDifferent env before after detail r =
     (if node_hash env before = node_hash env after then Inr r
      else and_then (changedLayer env before after) (\<lambda>l.
        Inr (result_Add (DiffChange ChangeModified (node_symbol env after) detail l
               (newDiffNodeRef env (Some before) []) (newDiffNodeRef env (Some after) []) []) r)))"

subsection \<open>Members\<close>

text \<open>The first loop of \<open>members\<close>, over the members before from position \<open>i\<close> on.\<close>

fun members_before :: "diff_env \<Rightarrow> (uir_node \<Rightarrow> uir_node \<Rightarrow> diffed) \<Rightarrow> gostring \<Rightarrow> (nat \<times> nat) list \<Rightarrow> uir_node list
    \<Rightarrow> nat \<Rightarrow> uir_node list \<Rightarrow> diff_result \<Rightarrow> diffed" where
  "members_before env rec path pairs after i [] r = Inr r"
| "members_before env rec path pairs after i (n # ns) r =
     (case map_of pairs i of
        None \<Rightarrow> members_before env rec path pairs after (Suc i) ns
                  (result_Add (change ChangeDeleted path [] (newDiffNodeRef env (Some n) []) None) r)
      | Some ai \<Rightarrow>
          and_then (rec n (after ! ai)) (\<lambda>d. members_before env rec path pairs after (Suc i) ns (merge_result d r)))"

definition added_members :: "diff_env \<Rightarrow> gostring \<Rightarrow> nat set \<Rightarrow> uir_node list \<Rightarrow> diff_change list" where
  "added_members env path paired after =
     map (\<lambda>i. change ChangeAdded path [] None (newDiffNodeRef env (Some (after ! i)) []))
       (filter (\<lambda>i. i \<notin> paired) [0..<length after])"

definition members :: "diff_env \<Rightarrow> bool \<Rightarrow> (uir_node \<Rightarrow> uir_node \<Rightarrow> diffed) \<Rightarrow> gostring \<Rightarrow> uir_node list \<Rightarrow> uir_node list \<Rightarrow> diffed" where
  "members env walkMembers rec path before after =
     (if \<not> walkMembers then Inr no_result
      else
        let pairs = pairByKey (map (node_symbol env) before) (map (node_symbol env) after) in
        and_then (members_before env rec path pairs after 0 before no_result) (\<lambda>r.
          Inr (fold result_Add (added_members env path (snd ` set pairs) after) r)))"

fun merge_members :: "((gostring \<times> uir_node list \<times> uir_node list) \<Rightarrow> diffed) \<Rightarrow> (gostring \<times> uir_node list \<times> uir_node list) list
    \<Rightarrow> diff_result \<Rightarrow> diffed" where
  "merge_members f [] r = Inr r"
| "merge_members f (x # xs) r = and_then (f x) (\<lambda>d. merge_members f xs (merge_result d r))"

text \<open>The member parts of a container, each under its path; the first result is merged into no result.\<close>

definition all_members :: "diff_env \<Rightarrow> bool \<Rightarrow> (uir_node \<Rightarrow> uir_node \<Rightarrow> diffed) \<Rightarrow> (gostring \<times> uir_node list \<times> uir_node list) list \<Rightarrow> diffed" where
  "all_members env walkMembers rec parts =
     merge_members (\<lambda>(path, b, a). members env walkMembers rec path b a) parts no_result"

definition typed_lists :: "gostring \<Rightarrow> typed_node \<Rightarrow> typed_node \<Rightarrow> (gostring \<times> uir_node list \<times> uir_node list) list" where
  "typed_lists path b a =
     [(path @ ''variables'', map NField (TVariables (TFacts b)), map NField (TVariables (TFacts a))),
      (path @ ''methods'', map NMethod (TMethods (TFacts b)), map NMethod (TMethods (TFacts a))),
      (path @ ''types'', map NTyped (TTypes b), map NTyped (TTypes a))]"

definition pkg_lists :: "gostring \<Rightarrow> package_node \<Rightarrow> package_node \<Rightarrow> (gostring \<times> uir_node list \<times> uir_node list) list" where
  "pkg_lists path b a =
     [(path @ ''types'', map NTyped (PTypes b), map NTyped (PTypes a)),
      (path @ ''records'', map NRecord (PRecords b), map NRecord (PRecords a)),
      (path @ ''tables'', map NTable (PTables b), map NTable (PTables a)),
      (path @ ''endpoints'', map NEndpoint (PEndpoints b), map NEndpoint (PEndpoints a)),
      (path @ ''functions'', map NMethod (PFunctions b), map NMethod (PFunctions a)),
      (path @ ''initFunctions'', map NMethod (PInitFunctions b), map NMethod (PInitFunctions a))]"

definition document_lists :: "uir_data \<Rightarrow> uir_data \<Rightarrow> (gostring \<times> uir_node list \<times> uir_node list) list" where
  "document_lists b a =
     [(''modules'', map NModule (Modules b), map NModule (Modules a)),
      (''packages'', map NPackage (Packages b), map NPackage (Packages a)),
      (''types'', map NTyped (Types b), map NTyped (Types a)),
      (''records'', map NRecord (Records b), map NRecord (Records a)),
      (''tables'', map NTable (Tables b), map NTable (Tables a)),
      (''endpoints'', map NEndpoint (Endpoints b), map NEndpoint (Endpoints a)),
      (''functions'', map NMethod (Functions b), map NMethod (Functions a))]"

definition table_lists :: "gostring \<Rightarrow> record_table \<Rightarrow> record_table \<Rightarrow> (gostring \<times> uir_node list \<times> uir_node list) list" where
  "table_lists path b a =
     [(path @ ''.columns'', map NColumn (TabColumns b), map NColumn (TabColumns a)),
      (path @ ''.indexes'', map NIndex (TabIndexes b), map NIndex (TabIndexes a)),
      (path @ ''.foreignKeys'', map NForeignKey (TabForeignKeys b), map NForeignKey (TabForeignKeys a)),
      (path @ ''.triggers'', map NMethod (TabTriggers b), map NMethod (TabTriggers a))]"

text \<open>Columns of both sides whose relative order changed. \<open>before\<close> and \<open>after\<close> are the columns as nodes.\<close>

definition common_positions :: "diff_env \<Rightarrow> uir_node list \<Rightarrow> uir_node list \<Rightarrow> (nat \<times> nat) list" where
  "common_positions env before after =
     (let pairs = pairByKey (map (node_symbol env) before) (map (node_symbol env) after);
          beforeOf = map_of (map prod.swap pairs) in
      concat (map (\<lambda>ai. case beforeOf ai of Some bi \<Rightarrow> [(bi, ai)] | None \<Rightarrow> []) [0..<length after]))"

definition column_moved :: "diff_env \<Rightarrow> gostring \<Rightarrow> uir_node list \<Rightarrow> uir_node list \<Rightarrow> nat \<times> nat \<Rightarrow> diff_change" where
  "column_moved env path before after p =
     change ChangeMoved path
       (''column position '' @ itoa (int (fst p) + 1) @ '' -> '' @ itoa (int (snd p) + 1))
       (newDiffNodeRef env (Some (before ! fst p)) []) (newDiffNodeRef env (Some (after ! snd p)) [])"

definition reorderedColumns :: "diff_env \<Rightarrow> gostring \<Rightarrow> uir_node list \<Rightarrow> uir_node list \<Rightarrow> diff_result" where
  "reorderedColumns env path before after =
     (let common = common_positions env before after;
          kept = the (longestIncreasingSubsequence (map fst common)) in
      fold result_Add
        (map (\<lambda>i. column_moved env path before after (common ! i)) (filter (\<lambda>i. \<not> kept ! i) [0..<length common]))
        no_result)"

subsection \<open>The diff of two nodes\<close>

definition method_diff :: "diff_env \<Rightarrow> diff_options \<Rightarrow> method_node \<Rightarrow> method_node \<Rightarrow> diffed" where
  "method_diff env opts b a =
     (if node_hash env (NMethod b) = node_hash env (NMethod a) then Inr no_result
      else
        let r = (if DStatements opts
                 then merge_result (diffBlocks env (node_symbol env (NMethod a) @ ''.body'') (MethodBody b) (MethodBody a)) no_result
                 else no_result)
        in addModifiedIfDifferent env (NMethod b) (NMethod a) ''method attributes'' r)"

definition table_diff :: "diff_env \<Rightarrow> diff_options \<Rightarrow> bool \<Rightarrow> (uir_node \<Rightarrow> uir_node \<Rightarrow> diffed) \<Rightarrow> record_table \<Rightarrow> record_table \<Rightarrow> diffed" where
  "table_diff env opts walkMembers rec b a =
     (let path = node_symbol env (NTable a) in
      and_then (all_members env walkMembers rec (table_lists path b a)) (\<lambda>r.
        let r = merge_result (reorderedColumns env (path @ ''.columns'') (map NColumn (TabColumns b)) (map NColumn (TabColumns a))) r;
            r = (if DStatements opts
                 then merge_result (diffBlocks env (path @ ''.definition'') (TabDefinition b) (TabDefinition a)) r else r)
        in addModifiedIfDifferent env (NTable b) (NTable a) ''table attributes'' r))"

definition contents :: "diff_env \<Rightarrow> diff_options \<Rightarrow> bool \<Rightarrow> (uir_node \<Rightarrow> uir_node \<Rightarrow> diffed) \<Rightarrow> uir_node \<Rightarrow> uir_node \<Rightarrow> diffed" where
  "contents env opts walkMembers rec before after =
     (let path = node_symbol env after @ ''.'';
          finish = (\<lambda>parts detail. and_then (all_members env walkMembers rec parts) (\<lambda>r.
            addModifiedIfDifferent env before after detail r)) in
      case before of
        NMethod b \<Rightarrow> (case after of NMethod a \<Rightarrow> method_diff env opts b a | _ \<Rightarrow> Inl (SharedNodeType before after))
      | NTable b \<Rightarrow> (case after of NTable a \<Rightarrow> table_diff env opts walkMembers rec b a | _ \<Rightarrow> Inl (SharedNodeType before after))
      | NRecord b \<Rightarrow>
          (case after of
             NRecord a \<Rightarrow> finish [(path @ ''fields'', map NField (RFields (RFacts b)), map NField (RFields (RFacts a)))] ''record attributes''
           | _ \<Rightarrow> Inl (SharedNodeType before after))
      | NTyped b \<Rightarrow> (case after of NTyped a \<Rightarrow> finish (typed_lists path b a) ''type attributes'' | _ \<Rightarrow> Inl (SharedNodeType before after))
      | NPackage b \<Rightarrow> (case after of NPackage a \<Rightarrow> finish (pkg_lists path b a) ''package attributes'' | _ \<Rightarrow> Inl (SharedNodeType before after))
      | NModule b \<Rightarrow>
          (case after of
             NModule a \<Rightarrow> finish [(path @ ''packages'', map NPackage (ModPackages b), map NPackage (ModPackages a))] ''module attributes''
           | _ \<Rightarrow> Inl (SharedNodeType before after))
      | NUIR b \<Rightarrow> (case after of NUIR a \<Rightarrow> finish (document_lists b a) ''uir attributes'' | _ \<Rightarrow> Inl (SharedNodeType before after))
      | NList b \<Rightarrow> (case after of NList a \<Rightarrow> members env walkMembers rec ''nodes'' b a | _ \<Rightarrow> Inl (SharedNodeType before after))
      | _ \<Rightarrow> finish [(path @ ''children'', GetChildren before, GetChildren after)] ''attributes'')"

lemma members_before_cong:
  "(\<And>n a. n \<in> set ns \<Longrightarrow> f n a = g n a) \<Longrightarrow> members_before env f path pairs after i ns r = members_before env g path pairs after i ns r"
  by (induction ns arbitrary: i r) (auto split: option.split intro!: arg_cong2 [of _ _ _ _ and_then] ext)

lemma members_cong:
  "(\<And>n a. n \<in> set before \<Longrightarrow> f n a = g n a) \<Longrightarrow> members env w f path before after = members env w g path before after"
  unfolding members_def Let_def by (subst members_before_cong [of before f g]) simp_all

lemma merge_members_cong: "(\<And>x. x \<in> set xs \<Longrightarrow> f x = g x) \<Longrightarrow> merge_members f xs r = merge_members g xs r"
  by (induction xs arbitrary: r) (auto intro!: arg_cong2 [of _ _ _ _ and_then] ext)

lemma all_members_cong:
  "(\<And>p b a n m. (p, b, a) \<in> set parts \<Longrightarrow> n \<in> set b \<Longrightarrow> f n m = g n m) \<Longrightarrow> all_members env w f parts = all_members env w g parts"
  unfolding all_members_def by (intro merge_members_cong) (auto intro: members_cong)

lemma contents_cong [fundef_cong]:
  "env = env' \<Longrightarrow> opts = opts' \<Longrightarrow> w = w' \<Longrightarrow> before = before' \<Longrightarrow> after = after' \<Longrightarrow>
   (\<And>n a. n \<in> set (GetChildren before') \<Longrightarrow> f n a = g n a) \<Longrightarrow>
   contents env opts w f before after = contents env' opts' w' g before' after'"
  by (cases before'; cases after')
    (auto simp: contents_def table_diff_def Let_def GetChildren_def typed_lists_def pkg_lists_def document_lists_def table_lists_def
      typed_children_def package_children_def uir_children_def table_children_def
      intro!: arg_cong2 [of _ _ _ _ and_then] ext all_members_cong members_cong)

function node_diff :: "diff_env \<Rightarrow> diff_options \<Rightarrow> bool \<Rightarrow> uir_node \<Rightarrow> uir_node \<Rightarrow> diffed" where
  "node_diff env opts walkMembers before after =
     (if GetType before \<noteq> GetType after then
        Inr (result_Add (change ChangeReplaced (node_symbol env after) (GetType before @ '' -> '' @ GetType after)
          (newDiffNodeRef env (Some before) []) (newDiffNodeRef env (Some after) [])) no_result)
      else if node_hash env before = node_hash env after \<and>
          hash_String (Sha env) (diffIdentity env before) = hash_String (Sha env) (diffIdentity env after) then Inr no_result
      else
        let r = (if walkMembers then addIdentityChange env before after no_result else no_result) in
        and_then (contents env opts walkMembers (\<lambda>b a. node_diff env opts walkMembers b a) before after) (\<lambda>d. Inr (merge_result d r)))"
  by pat_completeness auto

termination by (relation "measure (\<lambda>(env, opts, w, b, a). rank b)") (auto dest: child_less)

declare node_diff.simps [simp del]

definition differ_node :: "diff_env \<Rightarrow> diff_options \<Rightarrow> bool \<Rightarrow> uir_node option \<Rightarrow> uir_node option \<Rightarrow> diffed" where
  "differ_node env opts walkMembers before after =
     (case (before, after) of
        (None, None) \<Rightarrow> Inr no_result
      | (None, Some a) \<Rightarrow> Inr (result_Add (change ChangeAdded (node_symbol env a) [] None (newDiffNodeRef env (Some a) [])) no_result)
      | (Some b, None) \<Rightarrow> Inr (result_Add (change ChangeDeleted (node_symbol env b) [] (newDiffNodeRef env (Some b) []) None) no_result)
      | (Some b, Some a) \<Rightarrow> node_diff env opts walkMembers b a)"

definition DiffNode :: "diff_env \<Rightarrow> uir_node option \<Rightarrow> uir_node option \<Rightarrow> diff_options \<Rightarrow> diffed" where
  "DiffNode env before after opts = differ_node env opts True before after"

end
