(* ===== verification/Diff_Facts.thy ===== *)
theory Diff_Facts
  imports Diff_Node
begin

text \<open>
  What \<open>DiffNode\<close> promises: it never panics on the nodes of a document, reports nothing for a node that did not change
  and something for one that did, and moves as few columns as can be.
\<close>

text \<open>The nodes of a document: no reference, no missing node, no wrapper and no list.\<close>

fun concrete :: "uir_node \<Rightarrow> bool" where
  "concrete (NRef _) = False"
| "concrete NNil = False"
| "concrete (NWrapper _) = False"
| "concrete (NList _) = False"
| "concrete _ = True"

lemma concrete_child: "concrete n \<Longrightarrow> c \<in> set (GetChildren n) \<Longrightarrow> concrete c"
  by (cases n) (auto simp: GetChildren_def typed_children_def package_children_def uir_children_def table_children_def Let_def)

lemma concrete_type:
  "concrete b \<Longrightarrow> concrete a \<Longrightarrow> GetType b = GetType a \<Longrightarrow>
     (case (b, a) of
        (NModule _, NModule _) \<Rightarrow> True | (NPackage _, NPackage _) \<Rightarrow> True | (NTyped _, NTyped _) \<Rightarrow> True
      | (NMethod _, NMethod _) \<Rightarrow> True | (NRecord _, NRecord _) \<Rightarrow> True | (NEndpoint _, NEndpoint _) \<Rightarrow> True
      | (NField _, NField _) \<Rightarrow> True | (NTable _, NTable _) \<Rightarrow> True | (NColumn _, NColumn _) \<Rightarrow> True
      | (NIndex _, NIndex _) \<Rightarrow> True | (NForeignKey _, NForeignKey _) \<Rightarrow> True | (NUIR _, NUIR _) \<Rightarrow> True | _ \<Rightarrow> False)"
  by (cases b; cases a)
    (simp_all add: node_type_defs NodeTypeRecord_def NodeTypeTable_def NodeTypeColumn_def NodeTypeIndex_def NodeTypeForeignKey_def)

subsection \<open>A differing hash has a differing layer\<close>

lemma hash_bytes_eq: "hash_String sha g = hash_String sha h \<Longrightarrow> hash_bytes sha g = hash_bytes sha h"
  by (simp add: hash_String_def hex_encode_inject)

lemma fingerprints_Hash_layers:
  assumes "layer_hashes env f = layer_hashes env g"
  shows "hash_String (Sha env) (fingerprints_Hash f) = hash_String (Sha env) (fingerprints_Hash g)"
proof -
  have l: "hash_String (Sha env) (FPublic f) = hash_String (Sha env) (FPublic g)"
    "hash_String (Sha env) (FPrivate f) = hash_String (Sha env) (FPrivate g)"
    "map_option (hash_String (Sha env)) (FContent f) = map_option (hash_String (Sha env)) (FContent g)"
    using assms by (simp_all add: layer_hashes_def)
  show ?thesis
    using l hash_bytes_eq [OF l(1)] hash_bytes_eq [OF l(2)]
    by (cases "FContent f"; cases "FContent g")
      (auto simp: fingerprints_Hash_def hash_String_def AddHash_def AddContent_def AddString_def dest: hash_bytes_eq)
qed

lemma concrete_fingerprint:
  "concrete n \<Longrightarrow> \<not> is_document n \<Longrightarrow>
     \<exists>f. fingerprint (Sha env) (Unicode env) n = Some f \<and> node_hash env n = hash_String (Sha env) (fingerprints_Hash f)"
  by (cases n) (simp_all add: fingerprint_def node_hash_def registered_Hash_def)

lemma changedLayer_total:
  assumes "concrete b" "concrete a" "GetType b = GetType a" "node_hash env b \<noteq> node_hash env a"
  shows "\<exists>l. changedLayer env b a = Inr l"
proof (cases "is_document b")
  case False
  then have "\<not> is_document a" using concrete_type [OF assms(1-3)] by (cases b; cases a) simp_all
  then obtain f g where f: "fingerprint (Sha env) (Unicode env) b = Some f" "node_hash env b = hash_String (Sha env) (fingerprints_Hash f)"
    and g: "fingerprint (Sha env) (Unicode env) a = Some g" "node_hash env a = hash_String (Sha env) (fingerprints_Hash g)"
    using concrete_fingerprint assms(1,2) False by metis
  then have "layer_hashes env f \<noteq> layer_hashes env g" using fingerprints_Hash_layers assms(4) by metis
  with False f g show ?thesis by (cases "layer_hashes env f"; cases "layer_hashes env g") (auto simp: changedLayer_def)
qed (simp add: changedLayer_def)

subsection \<open>No panic, and no difference missed\<close>

text \<open>A diff that returned a sound result, which is not empty where it must not be.\<close>

definition returns_sound :: "bool \<Rightarrow> diffed \<Rightarrow> bool" where
  "returns_sound differs d \<longleftrightarrow> (\<exists>r. d = Inr r \<and> sound_result r \<and> (differs \<longrightarrow> Changes r \<noteq> []))"

lemma returns_Inr [simp]: "returns_sound differs (Inr r) \<longleftrightarrow> sound_result r \<and> (differs \<longrightarrow> Changes r \<noteq> [])"
  by (auto simp: returns_sound_def)

lemma returns_then:
  "returns_sound False d \<Longrightarrow> (\<And>r. sound_result r \<Longrightarrow> returns_sound differs (f r)) \<Longrightarrow> returns_sound differs (and_then d f)"
  by (auto simp: returns_sound_def)

lemma sound_weaken: "returns_sound differs d \<Longrightarrow> returns_sound False d"
  by (auto simp: returns_sound_def)

lemma returns_members_before:
  assumes "\<And>n i j. n \<in> set ns \<Longrightarrow> (i, j) \<in> set pairs \<Longrightarrow> returns_sound False (rec n (after ! j))" "sound_result r"
  shows "returns_sound False (members_before env rec path pairs after i ns r)"
  using assms
proof (induction ns arbitrary: i r)
  case (Cons n ns)
  then show ?case by (cases "map_of pairs i") (auto intro!: returns_then dest: map_of_SomeD)
qed simp

lemma returns_members:
  assumes "\<And>n a. n \<in> set before \<Longrightarrow> a \<in> set after \<Longrightarrow> returns_sound False (rec n a)"
  shows "returns_sound False (members env w rec path before after)"
proof (cases w)
  case True
  show ?thesis unfolding members_def Let_def using True
    by (auto intro!: returns_then returns_members_before assms simp: pairByKey_iff)
qed (simp add: members_def)

lemma returns_merge:
  "(\<And>x. x \<in> set xs \<Longrightarrow> returns_sound False (f x)) \<Longrightarrow> sound_result r \<Longrightarrow> returns_sound False (merge_members f xs r)"
  by (induction xs arbitrary: r) (auto intro!: returns_then)

lemma returns_all:
  "(\<And>p b a n m. (p, b, a) \<in> set parts \<Longrightarrow> n \<in> set b \<Longrightarrow> m \<in> set a \<Longrightarrow> returns_sound False (rec n m)) \<Longrightarrow>
     returns_sound False (all_members env w rec parts)"
  unfolding all_members_def by (intro returns_merge) (auto intro!: returns_members)

lemma returns_modified:
  assumes "concrete b" "concrete a" "GetType b = GetType a" "sound_result r"
  shows "returns_sound (node_hash env b \<noteq> node_hash env a) (addModifiedIfDifferent env b a detail r)"
proof (cases "node_hash env b = node_hash env a")
  case False
  then obtain l where "changedLayer env b a = Inr l" using changedLayer_total [OF assms(1-3)] by blast
  with False assms(4) show ?thesis by (simp add: addModifiedIfDifferent_def Changes_Add)
qed (simp add: addModifiedIfDifferent_def assms(4))

text \<open>The member lists \<open>contents\<close> walks, for the nodes other than methods and tables, and the detail it reports.\<close>

definition parts_of :: "gostring \<Rightarrow> uir_node \<Rightarrow> uir_node \<Rightarrow> (gostring \<times> uir_node list \<times> uir_node list) list \<times> gostring" where
  "parts_of path before after =
     (let other = ([(path @ ''children'', GetChildren before, GetChildren after)], ''attributes'') in
      case before of
        NRecord b \<Rightarrow>
          (case after of
             NRecord a \<Rightarrow> ([(path @ ''fields'', map NField (RFields (RFacts b)), map NField (RFields (RFacts a)))], ''record attributes'')
           | _ \<Rightarrow> other)
      | NTyped b \<Rightarrow> (case after of NTyped a \<Rightarrow> (typed_lists path b a, ''type attributes'') | _ \<Rightarrow> other)
      | NPackage b \<Rightarrow> (case after of NPackage a \<Rightarrow> (pkg_lists path b a, ''package attributes'') | _ \<Rightarrow> other)
      | NModule b \<Rightarrow>
          (case after of
             NModule a \<Rightarrow> ([(path @ ''packages'', map NPackage (ModPackages b), map NPackage (ModPackages a))], ''module attributes'')
           | _ \<Rightarrow> other)
      | NUIR b \<Rightarrow> (case after of NUIR a \<Rightarrow> (document_lists b a, ''uir attributes'') | _ \<Rightarrow> other)
      | _ \<Rightarrow> other)"

lemma contents_parts:
  assumes "concrete b" "concrete a" "GetType b = GetType a" "\<forall>m. b \<noteq> NMethod m" "\<forall>t. b \<noteq> NTable t"
  shows "contents env opts w rec b a =
    and_then (all_members env w rec (fst (parts_of (node_symbol env a @ ''.'') b a)))
      (\<lambda>r. addModifiedIfDifferent env b a (snd (parts_of (node_symbol env a @ ''.'') b a)) r)"
  using concrete_type [OF assms(1-3)] assms by (cases b; cases a) (simp_all add: contents_def parts_of_def Let_def)

lemma parts_within:
  assumes "concrete b" "concrete a" "(p, x, y) \<in> set (fst (parts_of path b a))"
  shows "set x \<subseteq> set (GetChildren b) \<and> set y \<subseteq> set (GetChildren a)"
  using assms
  by (cases b; cases a)
    (auto simp: parts_of_def typed_lists_def pkg_lists_def document_lists_def typed_children_def package_children_def
      uir_children_def GetChildren_def Let_def)

lemma returns_contents:
  assumes "concrete b" "concrete a" "GetType b = GetType a"
    "\<And>n m. n \<in> set (GetChildren b) \<Longrightarrow> concrete m \<Longrightarrow> returns_sound False (rec n m)"
  shows "returns_sound (node_hash env b \<noteq> node_hash env a) (contents env opts w rec b a)"
proof -
  have part: "returns_sound False (rec n m)" if "n \<in> set (GetChildren b)" "m \<in> set (GetChildren a)" for n m
    using that assms(2,4) concrete_child by blast
  consider x where "b = NMethod x" | x where "b = NTable x" | "\<forall>m. b \<noteq> NMethod m" "\<forall>t. b \<noteq> NTable t" by blast
  then show ?thesis
  proof cases
    case 1
    then obtain y where a: "a = NMethod y" using concrete_type [OF assms(1-3)] by (cases a) auto
    have "returns_sound (node_hash env b \<noteq> node_hash env a) (method_diff env opts x y)"
    proof (cases "node_hash env b = node_hash env a")
      case False
      then show ?thesis unfolding 1 a method_diff_def Let_def if_not_P [OF False [unfolded 1 a]]
        by (intro returns_modified) simp_all
    qed (simp add: method_diff_def 1 a)
    then show ?thesis unfolding 1 a contents_def Let_def by simp
  next
    case 2
    then obtain y where a: "a = NTable y" using concrete_type [OF assms(1-3)] by (cases a) auto
    have "returns_sound (node_hash env b \<noteq> node_hash env a) (table_diff env opts w rec x y)"
      unfolding 2 a table_diff_def Let_def
    proof (rule returns_then [OF returns_all], goal_cases)
      case (1 p bs as n m)
      then show ?case using part [of n m]
        by (auto simp: 2 a table_lists_def table_children_def GetChildren_def)
    next
      case (2 r)
      then show ?case by (intro returns_modified) simp_all
    qed
    then show ?thesis unfolding 2 a contents_def Let_def by simp
  next
    case 3
    show ?thesis unfolding contents_parts [OF assms(1-3) 3]
    proof (rule returns_then [OF returns_all])
      fix p x y n m assume "(p, x, y) \<in> set (fst (parts_of (node_symbol env a @ ''.'') b a))" "n \<in> set x" "m \<in> set y"
      then show "returns_sound False (rec n m)" using parts_within [OF assms(1,2)] part by blast
    qed (rule returns_modified [OF assms(1-3)])
  qed
qed

lemma node_diff_sound:
  "concrete b \<Longrightarrow> concrete a \<Longrightarrow> returns_sound (node_hash env b \<noteq> node_hash env a) (node_diff env opts w b a)"
proof (induction env opts w b a rule: node_diff.induct)
  case (1 env opts w b a)
  show ?case
  proof (cases "GetType b = GetType a \<and>
      \<not> (node_hash env b = node_hash env a \<and>
         hash_String (Sha env) (diffIdentity env b) = hash_String (Sha env) (diffIdentity env a))")
    case True
    let ?r = "if w then addIdentityChange env b a no_result else no_result"
    have "returns_sound (node_hash env b \<noteq> node_hash env a) (contents env opts w (\<lambda>b a. node_diff env opts w b a) b a)"
      using True "1.prems" "1.IH" concrete_child by (intro returns_contents sound_weaken) auto
    moreover have "sound_result ?r" by (simp add: addIdentityChange_def Let_def)
    ultimately show ?thesis using True
      by (subst node_diff.simps) (auto simp: returns_sound_def Changes_merge)
  next
    case False
    then show ?thesis by (subst node_diff.simps) (auto simp: Changes_Add)
  qed
qed



subsection \<open>Columns that moved\<close>

lemma common_positions_set:
  "set (common_positions env before after) =
     set (pairByKey (map (node_symbol env) before) (map (node_symbol env) after))"
proof -
  let ?p = "pairByKey (map (node_symbol env) before) (map (node_symbol env) after)"
  have "map_of (map prod.swap ?p) j = Some i \<longleftrightarrow> (i, j) \<in> set ?p" for i j
  proof -
    have "distinct (map fst (map prod.swap ?p))" using pairByKey_distinct(2) by (simp add: comp_def)
    then show ?thesis by (subst map_of_eq_Some_iff) (force simp: prod.swap_def)+
  qed
  moreover have "j < length after" if "(i, j) \<in> set ?p" for i j using that by (simp add: pairByKey_iff)
  moreover have "set (concat (map (\<lambda>j. case m j of Some i \<Rightarrow> [(i, j)] | None \<Rightarrow> []) [0..<n])) = P"
    if "\<And>i j. m j = Some i \<longleftrightarrow> (i, j) \<in> P" "\<And>i j. (i, j) \<in> P \<Longrightarrow> j < n" for m :: "nat \<Rightarrow> nat option" and n P
  proof (rule set_eqI)
    fix p show "p \<in> set (concat (map (\<lambda>j. case m j of Some i \<Rightarrow> [(i, j)] | None \<Rightarrow> []) [0..<n])) \<longleftrightarrow> p \<in> P"
      using that by (cases p) (force split: option.splits)
  qed
  ultimately show ?thesis unfolding common_positions_def Let_def by blast
qed

lemma common_positions_sorted: "sorted_wrt (<) (map snd (common_positions env before after))"
proof -
  have "sorted_wrt (<) (map snd (concat (map (\<lambda>j. case m j of Some i \<Rightarrow> [(i, j)] | None \<Rightarrow> []) [0..<n]))) \<and>
      (\<forall>j \<in> set (map snd (concat (map (\<lambda>j. case m j of Some i \<Rightarrow> [(i, j)] | None \<Rightarrow> []) [0..<n]))). j < n)"
    for m :: "nat \<Rightarrow> nat option" and n
    by (induction n) (auto simp: sorted_wrt_append less_Suc_eq split: option.splits)
  then show ?thesis by (simp add: common_positions_def Let_def)
qed

lemma common_less: "i < length c \<Longrightarrow> j < length c \<Longrightarrow> sorted_wrt (<) (map snd c) \<Longrightarrow> (snd (c ! i) < snd (c ! j)) = (i < j)"
  for c :: "(nat \<times> nat) list"
  by (metis length_map linorder_neqE_nat nth_map order_less_asym sorted_wrt_nth_less)

text \<open>A set of paired positions whose columns come in one order on both sides.\<close>

definition keeps_order :: "(nat \<times> nat) set \<Rightarrow> bool" where
  "keeps_order P \<longleftrightarrow> (\<forall>p \<in> P. \<forall>q \<in> P. snd p < snd q \<longrightarrow> fst p < fst q)"

text \<open>C26: the columns reported as moved are as few as can be: those left keep their relative order, and no larger
  set of columns common to both sides does. A column is common when its symbol is on both sides.\<close>

theorem reordered_least:
  "set (common_positions env before after) = set (pairByKey (map (node_symbol env) before) (map (node_symbol env) after)) \<and>
   (\<exists>stay \<subseteq> set (common_positions env before after). keeps_order stay \<and>
     Changes (reorderedColumns env path before after) =
       map (column_moved env path before after) (filter (\<lambda>p. p \<notin> stay) (common_positions env before after)) \<and>
     (\<forall>P \<subseteq> set (common_positions env before after). keeps_order P \<longrightarrow> card P \<le> card stay))"
proof -
  define c where "c = common_positions env before after"
  have sorted: "sorted_wrt (<) (map snd c)" unfolding c_def by (rule common_positions_sorted)
  then have "distinct (map snd c)" by (simp add: strict_sorted_iff)
  then have d: "distinct c" by (simp add: distinct_map)
  obtain kept where kept: "longestIncreasingSubsequence (map fst c) = Some kept" "length kept = length c"
      "increasing_at (map fst c) {i. i < length c \<and> kept ! i}"
      "\<And>I. increasing_at (map fst c) I \<Longrightarrow> card I \<le> card {i. i < length c \<and> kept ! i}"
    using longest_run [of "map fst c"] by auto
  let ?stay = "(!) c ` {i. i < length c \<and> kept ! i}"
  have inj: "inj_on ((!) c) I" if "I \<subseteq> {..<length c}" for I
    by (rule inj_on_subset [OF inj_on_nth [OF d]]) (use that in auto)
  have mem: "c ! i \<in> ?stay \<longleftrightarrow> kept ! i" if "i < length c" for i
    using that d by (auto simp: nth_eq_iff_index_eq)
  have order: "keeps_order ?stay"
    using kept(3) common_less [OF _ _ sorted] by (auto simp: keeps_order_def increasing_at_def)
  have "filter (\<lambda>p. p \<notin> ?stay) c = map ((!) c) (filter (\<lambda>i. c ! i \<notin> ?stay) [0..<length c])"
    by (metis (mono_tags, lifting) comp_apply filter_cong filter_map map_nth)
  also have "filter (\<lambda>i. c ! i \<notin> ?stay) [0..<length c] = filter (\<lambda>i. \<not> kept ! i) [0..<length c]"
    by (rule filter_cong) (simp_all add: mem del: image_iff)
  finally have moved: "filter (\<lambda>p. p \<notin> ?stay) c = map ((!) c) (filter (\<lambda>i. \<not> kept ! i) [0..<length c])" .
  have kinds: "filter (\<lambda>x. CKind x \<noteq> NoChange) (map (\<lambda>i. column_moved env path before after (c ! i)) is) =
      map (\<lambda>i. column_moved env path before after (c ! i)) is" for "is"
    by (simp add: filter_id_conv column_moved_def)
  have changes: "Changes (reorderedColumns env path before after) =
      map (column_moved env path before after) (filter (\<lambda>p. p \<notin> ?stay) c)"
    unfolding moved reorderedColumns_def Let_def c_def [symmetric] kept(1) option.sel Changes_fold kinds by (simp add: comp_def)
  have least: "card P \<le> card ?stay" if P: "P \<subseteq> set c" "keeps_order P" for P
  proof -
    let ?I = "{i. i < length c \<and> c ! i \<in> P}"
    have "P = (!) c ` ?I" using P(1) by (auto simp: in_set_conv_nth image_iff subset_iff) metis
    then have "card P = card ?I" using card_image [OF inj [of ?I]] by auto
    moreover have "increasing_at (map fst c) ?I"
      using P(2) common_less [OF _ _ sorted] by (auto simp: increasing_at_def keeps_order_def)
    moreover have "card ?stay = card {i. i < length c \<and> kept ! i}" by (rule card_image) (rule inj, auto)
    ultimately show ?thesis using kept(4) by simp
  qed
  have "?stay \<subseteq> set c" by auto
  then show ?thesis
    using order changes least common_positions_set [of env before after]
    unfolding c_def [symmetric] by (intro conjI exI [of _ ?stay]) auto
qed

theorem reordered_least_witness:
  "let before = [NMethod (named_method ''a'' ''public''), NMethod (named_method ''b'' ''public'')]; after = [NMethod (named_method ''b'' ''public''), NMethod (named_method ''a'' ''public'')] in
   set (common_positions plain_env before after) = set (pairByKey (map (node_symbol plain_env) before) (map (node_symbol plain_env) after)) \<and>
   (\<exists>stay \<subseteq> set (common_positions plain_env before after). keeps_order stay \<and>
     Changes (reorderedColumns plain_env ''t'' before after) =
       map (column_moved plain_env ''t'' before after) (filter (\<lambda>p. p \<notin> stay) (common_positions plain_env before after)) \<and>
     (\<forall>P \<subseteq> set (common_positions plain_env before after). keeps_order P \<longrightarrow> card P \<le> card stay))"
  unfolding Let_def by (rule reordered_least)

end
