(* ===== verification/Diff_Tree.thy ===== *)
theory Diff_Tree
  imports Diff_Facts
begin

text \<open>
  \<open>DiffTree\<close> (\<open>diff/diff.go\<close>): two documents are coalesced and flattened, their nodes matched by unique id, symbol
  and then hash, and what is matched diffed, what is not reported as deleted or added.
\<close>

subsection \<open>Entries\<close>

record diff_entry =
  ENode :: uir_node
  EParent :: gostring
  EUuid :: gostring
  ESymbol :: gostring
  EName :: gostring
  EFile :: gostring
  EHash :: gostring

definition entry_of :: "diff_env \<Rightarrow> gostring \<Rightarrow> uir_node \<Rightarrow> diff_entry" where
  "entry_of env parent n =
     \<lparr> ENode = n, EParent = parent, EUuid = node_uuid env n, ESymbol = node_symbol env n,
       EName = GetName (GetIdentifier n), EFile = LocPath (GetLocation n), EHash = node_hash env n \<rparr>"

function flattenNode :: "diff_env \<Rightarrow> gostring \<Rightarrow> uir_node \<Rightarrow> diff_entry list" where
  "flattenNode env parent n =
     entry_of env parent n # concat (map (\<lambda>c. flattenNode env (node_symbol env n) c) (GetChildren n))"
  by pat_completeness auto

termination by (relation "measure (\<lambda>(env, p, n). rank n)") (auto dest: child_less)

declare flattenNode.simps [simp del]

definition flattenDiffEntries :: "diff_env \<Rightarrow> uir \<Rightarrow> diff_entry list" where
  "flattenDiffEntries env x = concat (map (flattenNode env []) (uir_children x))"

subsection \<open>Matching\<close>

record match_state =
  Matches :: "(nat \<times> nat) list"
  MatchedBefore :: "nat set"
  MatchedAfter :: "nat set"

definition no_matches :: match_state where
  "no_matches = \<lparr> Matches = [], MatchedBefore = {}, MatchedAfter = {} \<rparr>"

definition entries_by_key :: "(diff_entry \<Rightarrow> gostring) \<Rightarrow> diff_entry list \<Rightarrow> nat set \<Rightarrow> hash_positions" where
  "entries_by_key key es matched =
     fold (\<lambda>i m. if i \<in> matched then m else if key (es ! i) = [] then m else put_position (\<lambda>i. key (es ! i)) i m)
       [0..<length es] []"

definition match_key :: "hash_positions \<Rightarrow> hash_positions \<Rightarrow> gostring \<Rightarrow> match_state \<Rightarrow> match_state" where
  "match_key bkeys akeys k st =
     (case (held_at bkeys k, held_at akeys k) of
        ([i], [j]) \<Rightarrow>
          \<lparr> Matches = AList.update i j (Matches st), MatchedBefore = insert i (MatchedBefore st),
            MatchedAfter = insert j (MatchedAfter st) \<rparr>
      | _ \<Rightarrow> st)"

definition matchUnique :: "diff_env \<Rightarrow> diff_entry list \<Rightarrow> diff_entry list \<Rightarrow> (diff_entry \<Rightarrow> gostring) \<Rightarrow> match_state \<Rightarrow> match_state" where
  "matchUnique env before after key st =
     (let b = entries_by_key key before (MatchedBefore st); a = entries_by_key key after (MatchedAfter st)
      in fold (match_key b a) (KeyOrder env (map fst b)) st)"

definition tree_matches :: "diff_env \<Rightarrow> diff_options \<Rightarrow> diff_entry list \<Rightarrow> diff_entry list \<Rightarrow> match_state" where
  "tree_matches env opts before after =
     (let st = matchUnique env before after ESymbol (matchUnique env before after EUuid no_matches)
      in if DMoves opts \<or> DRenames opts then matchUnique env before after EHash st else st)"

definition classifyRelocation :: "diff_entry \<Rightarrow> diff_entry \<Rightarrow> diff_options \<Rightarrow> change_kind" where
  "classifyRelocation b a opts =
     (let renamed = (EName b \<noteq> EName a); moved = (EParent b \<noteq> EParent a \<or> EFile b \<noteq> EFile a) in
      if renamed \<and> moved \<and> DRenames opts \<and> DMoves opts then ChangeRenameMove
      else if renamed \<and> DRenames opts then ChangeRenamed
      else if moved \<and> DMoves opts then ChangeMoved
      else NoChange)"

subsection \<open>The diff of two documents\<close>

definition relocation :: "diff_env \<Rightarrow> diff_options \<Rightarrow> diff_entry \<Rightarrow> diff_entry \<Rightarrow> diff_result \<Rightarrow> diff_result" where
  "relocation env opts b a r =
     (if ESymbol b \<noteq> ESymbol a then
        let k = classifyRelocation b a opts in
        if k \<noteq> NoChange
        then result_Add (change k (ESymbol a) [] (newDiffNodeRef env (Some (ENode b)) (EParent b))
               (newDiffNodeRef env (Some (ENode a)) (EParent a))) r
        else r
      else r)"

fun diff_matches :: "diff_env \<Rightarrow> diff_options \<Rightarrow> diff_entry list \<Rightarrow> diff_entry list \<Rightarrow> (nat \<times> nat) list \<Rightarrow> diff_result \<Rightarrow> diffed" where
  "diff_matches env opts before after [] r = Inr r"
| "diff_matches env opts before after ((i, j) # ms) r =
     (let r = relocation env opts (before ! i) (after ! j) r in
      and_then (node_diff env opts False (ENode (before ! i)) (ENode (after ! j))) (\<lambda>d.
        diff_matches env opts before after ms (merge_result d r)))"

definition gone_entry :: "diff_env \<Rightarrow> diff_entry \<Rightarrow> diff_change" where
  "gone_entry env e = change ChangeDeleted (ESymbol e) [] (newDiffNodeRef env (Some (ENode e)) (EParent e)) None"

definition new_entry :: "diff_env \<Rightarrow> diff_entry \<Rightarrow> diff_change" where
  "new_entry env e = change ChangeAdded (ESymbol e) [] None (newDiffNodeRef env (Some (ENode e)) (EParent e))"

definition unmatched :: "diff_entry list \<Rightarrow> nat set \<Rightarrow> diff_entry list" where
  "unmatched es matched = map ((!) es) (filter (\<lambda>i. i \<notin> matched) [0..<length es])"

definition change_order :: "diff_change \<Rightarrow> gostring list" where
  "change_order c = [kind_text (CKind c), CPath c, CDetail c]"

definition empty_uir :: uir where
  "empty_uir = \<lparr> Modules = [], Packages = [], Types = [], Records = [], Tables = [], Endpoints = [], Functions = [],
     Hierarchy = None, RawFiles = [], Warnings = [] \<rparr>"

definition coalesced :: "uir option \<Rightarrow> uir" where
  "coalesced x = (case x of None \<Rightarrow> empty_uir | Some x \<Rightarrow> Coalesce x)"

definition DiffTree :: "diff_env \<Rightarrow> uir option \<Rightarrow> uir option \<Rightarrow> diff_options \<Rightarrow> diffed" where
  "DiffTree env before after opts =
     (let bs = flattenDiffEntries env (coalesced before); as = flattenDiffEntries env (coalesced after);
          st = tree_matches env opts bs as;
          ms = map (\<lambda>i. (i, the (map_of (Matches st) i))) (MatchOrder env (map fst (Matches st))) in
      and_then (diff_matches env opts bs as ms no_result) (\<lambda>r.
        let r = fold result_Add (map (gone_entry env) (unmatched bs (MatchedBefore st))) r;
            r = fold result_Add (map (new_entry env) (unmatched as (MatchedAfter st))) r
        in Inr (r\<lparr> Changes := sort_key change_order (Changes r) \<rparr>)))"

subsection \<open>Flattening\<close>

lemma flatten_concrete: "concrete n \<Longrightarrow> e \<in> set (flattenNode env p n) \<Longrightarrow> concrete (ENode e)"
proof (induction env p n rule: flattenNode.induct)
  case (1 env p n)
  from "1.prems"(2) consider "e = entry_of env p n" | c where "c \<in> set (GetChildren n)" "e \<in> set (flattenNode env (node_symbol env n) c)"
    by (subst (asm) flattenNode.simps) auto
  then show ?case
  proof cases
    case 1
    then show ?thesis using "1.prems" by (simp add: entry_of_def)
  next
    case 2
    then show ?thesis using "1.IH" "1.prems"(1) concrete_child by blast
  qed
qed

lemma entries_concrete: "e \<in> set (flattenDiffEntries env x) \<Longrightarrow> concrete (ENode e)"
  by (auto simp: flattenDiffEntries_def uir_children_def dest!: flatten_concrete [rotated])

subsection \<open>What a pass matches\<close>

definition alone :: "(diff_entry \<Rightarrow> gostring) \<Rightarrow> diff_entry list \<Rightarrow> nat set \<Rightarrow> nat \<Rightarrow> bool" where
  "alone key es matched i \<longleftrightarrow>
     i < length es \<and> i \<notin> matched \<and> key (es ! i) \<noteq> [] \<and>
     (\<forall>j < length es. j \<notin> matched \<longrightarrow> key (es ! j) = key (es ! i) \<longrightarrow> j = i)"

lemma entries_by_key_fold:
  "entries_by_key key es matched =
     fold (put_position (\<lambda>i. key (es ! i))) (filter (\<lambda>i. i \<notin> matched \<and> key (es ! i) \<noteq> []) [0..<length es]) []"
proof -
  have "fold (\<lambda>i m. if i \<in> matched then m else if key (es ! i) = [] then m else put_position (\<lambda>i. key (es ! i)) i m) is m =
      fold (put_position (\<lambda>i. key (es ! i))) (filter (\<lambda>i. i \<notin> matched \<and> key (es ! i) \<noteq> []) is) m" for "is" m
    by (induction "is" arbitrary: m) auto
  then show ?thesis by (simp add: entries_by_key_def)
qed

lemma held_entries:
  "held_at (entries_by_key key es matched) k =
     filter (\<lambda>i. i \<notin> matched \<and> key (es ! i) \<noteq> [] \<and> key (es ! i) = k) [0..<length es]"
  by (simp add: entries_by_key_fold held_at_all held_nil conj_ac)

lemma filter_upt_single:
  "filter P [0..<n] = [i] \<longleftrightarrow> i < n \<and> P i \<and> (\<forall>j < n. P j \<longrightarrow> j = i)"
proof
  assume f: "filter P [0..<n] = [i]"
  then have "set (filter P [0..<n]) = {i}" by simp
  then show "i < n \<and> P i \<and> (\<forall>j < n. P j \<longrightarrow> j = i)" by auto
next
  assume r: "i < n \<and> P i \<and> (\<forall>j < n. P j \<longrightarrow> j = i)"
  then have "set (filter P [0..<n]) = {i}" by auto
  then show "filter P [0..<n] = [i]"
    by (intro sorted_distinct_set_unique) (simp_all add: sorted_filter [where f = "\<lambda>x. x", simplified])
qed

lemma held_alone:
  "held_at (entries_by_key key es matched) k = [i] \<longleftrightarrow> alone key es matched i \<and> key (es ! i) = k"
  unfolding held_entries filter_upt_single alone_def by auto

definition matching :: "match_state \<Rightarrow> bool" where
  "matching st \<longleftrightarrow>
     MatchedBefore st = fst ` set (Matches st) \<and> MatchedAfter st = snd ` set (Matches st) \<and>
     distinct (map fst (Matches st)) \<and> distinct (map snd (Matches st))"

lemma update_unmatched: "i \<notin> fst ` set m \<Longrightarrow> AList.update i j m = m @ [(i, j)]"
  by (induction m) auto

lemma match_key_cases:
  "match_key b a k st = st \<and> \<not> (\<exists>i j. held_at b k = [i] \<and> held_at a k = [j]) \<or>
   (\<exists>i j. held_at b k = [i] \<and> held_at a k = [j] \<and>
      match_key b a k st =
        \<lparr> Matches = AList.update i j (Matches st), MatchedBefore = insert i (MatchedBefore st),
          MatchedAfter = insert j (MatchedAfter st) \<rparr>)"
  unfolding match_key_def by (cases "held_at b k"; cases "held_at a k") (auto split: list.splits)

lemma match_keys:
  assumes "distinct ks" "matching st"
    "\<And>k i. k \<in> set ks \<Longrightarrow> held_at b k = [i] \<Longrightarrow> i \<notin> MatchedBefore st"
    "\<And>k j. k \<in> set ks \<Longrightarrow> held_at a k = [j] \<Longrightarrow> j \<notin> MatchedAfter st"
    "\<And>k k' i. held_at b k = [i] \<Longrightarrow> held_at b k' = [i] \<Longrightarrow> k = k'"
    "\<And>k k' j. held_at a k = [j] \<Longrightarrow> held_at a k' = [j] \<Longrightarrow> k = k'"
  shows "matching (fold (match_key b a) ks st) \<and>
    set (Matches (fold (match_key b a) ks st)) =
      set (Matches st) \<union> {(i, j). \<exists>k \<in> set ks. held_at b k = [i] \<and> held_at a k = [j]}"
  using assms(1-4)
proof (induction ks arbitrary: st)
  case (Cons k ks)
  from match_key_cases [of b a k st] show ?case
  proof (elim disjE exE conjE)
    assume none: "match_key b a k st = st" "\<not> (\<exists>i j. held_at b k = [i] \<and> held_at a k = [j])"
    have "{(i, j). \<exists>k \<in> set (k # ks). held_at b k = [i] \<and> held_at a k = [j]} =
        {(i, j). \<exists>k \<in> set ks. held_at b k = [i] \<and> held_at a k = [j]}" using none(2) by auto
    moreover have "matching (fold (match_key b a) ks st) \<and> set (Matches (fold (match_key b a) ks st)) =
        set (Matches st) \<union> {(i, j). \<exists>k \<in> set ks. held_at b k = [i] \<and> held_at a k = [j]}"
      using Cons.prems by (intro Cons.IH) auto
    ultimately show ?case unfolding fold.simps none(1) comp_def by simp
  next
    fix i j assume held: "held_at b k = [i]" "held_at a k = [j]"
      and m: "match_key b a k st = \<lparr> Matches = AList.update i j (Matches st), MatchedBefore = insert i (MatchedBefore st),
          MatchedAfter = insert j (MatchedAfter st) \<rparr>"
    have fresh: "i \<notin> fst ` set (Matches st)" "j \<notin> snd ` set (Matches st)"
      using Cons.prems(2) Cons.prems(3) [of k i] Cons.prems(4) [of k j] held by (simp_all add: matching_def)
    let ?s = "match_key b a k st"
    have s: "Matches ?s = Matches st @ [(i, j)]" "MatchedBefore ?s = insert i (MatchedBefore st)"
      "MatchedAfter ?s = insert j (MatchedAfter st)" using m update_unmatched [OF fresh(1)] by simp_all
    have "matching ?s" using Cons.prems(2) fresh s by (simp add: matching_def)
    moreover have "i' \<notin> MatchedBefore ?s" if "k' \<in> set ks" "held_at b k' = [i']" for k' i'
      using that Cons.prems(1,3) held(1) assms(5) s(2) by (metis distinct.simps(2) insertE list.set_intros(2))
    moreover have "j' \<notin> MatchedAfter ?s" if "k' \<in> set ks" "held_at a k' = [j']" for k' j'
      using that Cons.prems(1,4) held(2) assms(6) s(3) by (metis distinct.simps(2) insertE list.set_intros(2))
    ultimately have "matching (fold (match_key b a) ks ?s) \<and> set (Matches (fold (match_key b a) ks ?s)) =
        set (Matches ?s) \<union> {(i, j). \<exists>k \<in> set ks. held_at b k = [i] \<and> held_at a k = [j]}"
      using Cons.IH [of ?s] Cons.prems(1) by simp
    then show ?case using s(1) held by auto
  qed
qed simp

text \<open>A pass matches the entries whose key no other unmatched entry of their side has.\<close>

lemma matchUnique_spec:
  assumes "\<forall>ks. mset (KeyOrder env ks) = mset ks" "matching st"
  shows "matching (matchUnique env before after key st) \<and>
    set (Matches (matchUnique env before after key st)) =
      set (Matches st) \<union> {(i, j). alone key before (MatchedBefore st) i \<and> alone key after (MatchedAfter st) j \<and>
        key (before ! i) = key (after ! j)}"
proof -
  let ?b = "entries_by_key key before (MatchedBefore st)" and ?a = "entries_by_key key after (MatchedAfter st)"
  have keys: "distinct (map fst ?b)" unfolding entries_by_key_fold by (rule keys_put [THEN conjunct1]) simp
  have order: "distinct (KeyOrder env (map fst ?b))" "set (KeyOrder env (map fst ?b)) = set (map fst ?b)"
    using assms(1) keys by (metis mset_eq_imp_distinct_iff, metis mset_eq_setD)
  have "k \<in> set (map fst ?b)" if "held_at ?b k = [i]" for k i
    using that by (auto simp: held_at_def split: option.splits dest!: map_of_SomeD intro: rev_image_eqI)
  then have sets: "{(i, j). \<exists>k \<in> set (KeyOrder env (map fst ?b)). held_at ?b k = [i] \<and> held_at ?a k = [j]} =
      {(i, j). alone key before (MatchedBefore st) i \<and> alone key after (MatchedAfter st) j \<and> key (before ! i) = key (after ! j)}"
    unfolding order(2) by (auto simp: held_alone)
  show ?thesis
    unfolding matchUnique_def Let_def sets [symmetric]
    by (rule match_keys [OF order(1) assms(2)]) (auto simp: held_alone alone_def)
qed

lemma matching_none: "matching no_matches"
  by (simp add: matching_def no_matches_def)

lemma tree_matching:
  assumes "\<forall>ks. mset (KeyOrder env ks) = mset ks"
  shows "matching (tree_matches env opts before after)"
  unfolding tree_matches_def Let_def
  using matchUnique_spec [OF assms] matching_none by auto

lemma tree_matches_agree:
  assumes "\<forall>ks. mset (KeyOrder env ks) = mset ks" "(i, j) \<in> set (Matches (tree_matches env opts before after))"
  shows "i < length before \<and> j < length after \<and>
    (EUuid (before ! i) = EUuid (after ! j) \<or> ESymbol (before ! i) = ESymbol (after ! j) \<or>
     (DMoves opts \<or> DRenames opts) \<and> EHash (before ! i) = EHash (after ! j))"
proof -
  let ?s1 = "matchUnique env before after EUuid no_matches"
  let ?s2 = "matchUnique env before after ESymbol ?s1"
  have m: "matching ?s1" "matching ?s2" using matchUnique_spec [OF assms(1)] matching_none by blast+
  show ?thesis
    using assms(2) matchUnique_spec [OF assms(1) m(2), of before after EHash] matchUnique_spec [OF assms(1) m(1), of before after ESymbol]
      matchUnique_spec [OF assms(1) matching_none, of before after EUuid]
    by (auto simp: tree_matches_def Let_def alone_def no_matches_def split: if_splits)
qed

text \<open>The order in which a map is ranged over does not show in what is matched.\<close>

lemma matchUnique_order:
  assumes "\<forall>ks. mset (KeyOrder e1 ks) = mset ks" "\<forall>ks. mset (KeyOrder e2 ks) = mset ks" "matching s1" "matching s2"
    "set (Matches s1) = set (Matches s2)"
  shows "set (Matches (matchUnique e1 before after key s1)) = set (Matches (matchUnique e2 before after key s2))"
  using matchUnique_spec [OF assms(1,3), of before after key] matchUnique_spec [OF assms(2,4), of before after key] assms(3-5)
  by (simp add: matching_def)

lemma tree_matches_order:
  assumes "\<forall>ks. mset (KeyOrder e1 ks) = mset ks" "\<forall>ks. mset (KeyOrder e2 ks) = mset ks"
  shows "set (Matches (tree_matches e1 opts before after)) = set (Matches (tree_matches e2 opts before after))"
proof -
  let ?p = "\<lambda>e. matchUnique e before after ESymbol (matchUnique e before after EUuid no_matches)"
  note s1 = matchUnique_spec [OF assms(1), THEN conjunct1] and s2 = matchUnique_spec [OF assms(2), THEN conjunct1]
  have two: "set (Matches (?p e1)) = set (Matches (?p e2))"
    by (intro matchUnique_order [OF assms] s1 s2 matching_none refl)
  have "set (Matches (matchUnique e1 before after EHash (?p e1))) = set (Matches (matchUnique e2 before after EHash (?p e2)))"
    by (intro matchUnique_order [OF assms] s1 s2 matching_none two)
  with two show ?thesis by (simp add: tree_matches_def Let_def)
qed

subsection \<open>The whole diff\<close>

lemma mset_concat_perm: "mset xs = mset ys \<Longrightarrow> mset (concat (map f xs)) = mset (concat (map f ys))"
proof -
  have "mset (concat (map f zs)) = sum_mset (image_mset (\<lambda>x. mset (f x)) (mset zs))" for zs
    by (induction zs) simp_all
  then show "mset xs = mset ys \<Longrightarrow> mset (concat (map f xs)) = mset (concat (map f ys))" by simp
qed

lemma mset_concat_cong: "(\<And>x. x \<in> set xs \<Longrightarrow> mset (f x) = mset (g x)) \<Longrightarrow> mset (concat (map f xs)) = mset (concat (map g xs))"
  by (induction xs) simp_all

lemma sound_kinds: "mset cs = mset (Changes r) \<Longrightarrow> sound_result r \<Longrightarrow> sound_result (r\<lparr> Changes := cs \<rparr>)"
proof -
  assume m: "mset cs = mset (Changes r)" and s: "sound_result r"
  have "mset (kinds_in cs) = mset (kinds_in (Changes r))"
    unfolding kinds_in_def by (rule mset_concat_perm [OF m])
  then have "count_list (kinds_in cs) k = count_list (kinds_in (Changes r)) k" for k by (metis count_mset)
  with s mset_eq_setD [OF m] show ?thesis by (simp add: sound_result_def summary_of_def)
qed

lemma matched_pairs:
  assumes "matching st" "\<forall>is. mset (MatchOrder env is) = mset is"
  shows "mset (map (\<lambda>i. (i, the (map_of (Matches st) i))) (MatchOrder env (map fst (Matches st)))) = mset (Matches st)"
proof -
  have "mset (map (\<lambda>i. (i, the (map_of (Matches st) i))) (MatchOrder env (map fst (Matches st)))) =
      mset (map (\<lambda>i. (i, the (map_of (Matches st) i))) (map fst (Matches st)))"
    using assms(2) by (metis mset_map)
  also have "map (\<lambda>i. (i, the (map_of (Matches st) i))) (map fst (Matches st)) = Matches st"
    using assms(1) by (auto simp: matching_def intro!: map_idI)
  finally show ?thesis .
qed

text \<open>The changes of the matched pairs, each pair's relocation before the diff of its nodes.\<close>

definition pair_changes :: "diff_env \<Rightarrow> diff_options \<Rightarrow> diff_entry \<Rightarrow> diff_entry \<Rightarrow> diff_change list" where
  "pair_changes env opts b a =
     Changes (relocation env opts b a no_result) @
     (case node_diff env opts False (ENode b) (ENode a) of Inl _ \<Rightarrow> [] | Inr d \<Rightarrow> Changes d)"

lemma relocation_changes: "Changes (relocation env opts b a r) = Changes r @ Changes (relocation env opts b a no_result)"
  by (simp add: relocation_def Let_def Changes_Add)

lemma sound_relocation: "sound_result r \<Longrightarrow> sound_result (relocation env opts b a r)"
  by (simp add: relocation_def Let_def)

lemma diff_matches_sound:
  assumes "\<And>i j. (i, j) \<in> set ms \<Longrightarrow> concrete (ENode (before ! i)) \<and> concrete (ENode (after ! j))" "sound_result r"
  shows "\<exists>d. diff_matches env opts before after ms r = Inr d \<and> sound_result d \<and>
    Changes d = Changes r @ concat (map (\<lambda>(i, j). pair_changes env opts (before ! i) (after ! j)) ms)"
  using assms
proof (induction ms arbitrary: r)
  case (Cons m ms)
  obtain i j where m: "m = (i, j)" by (cases m)
  have "concrete (ENode (before ! i))" "concrete (ENode (after ! j))" using Cons.prems(1) m by auto
  then obtain d where d: "node_diff env opts False (ENode (before ! i)) (ENode (after ! j)) = Inr d" "sound_result d"
    using node_diff_sound by (metis returns_sound_def)
  let ?r = "merge_result d (relocation env opts (before ! i) (after ! j) r)"
  have "sound_result ?r" using Cons.prems(2) by (simp add: sound_relocation)
  moreover have "Changes ?r = Changes r @ pair_changes env opts (before ! i) (after ! j)"
    using d by (simp add: Changes_merge pair_changes_def relocation_changes [of env opts _ _ r])
  ultimately show ?case using Cons.IH [of ?r] Cons.prems(1) d(1) by (auto simp: m Let_def)
qed simp

lemma tree_changes:
  assumes "\<forall>ks. mset (KeyOrder env ks) = mset ks" "\<forall>is. mset (MatchOrder env is) = mset is"
    "bs = flattenDiffEntries env (coalesced before)" "as = flattenDiffEntries env (coalesced after)"
    "st = tree_matches env opts bs as"
  shows "\<exists>r. DiffTree env before after opts = Inr r \<and> sound_result r \<and> sorted (map change_order (Changes r)) \<and>
    mset (Changes r) =
      mset (concat (map (\<lambda>(i, j). pair_changes env opts (bs ! i) (as ! j)) (Matches st))) +
      mset (map (gone_entry env) (unmatched bs (MatchedBefore st))) + mset (map (new_entry env) (unmatched as (MatchedAfter st)))"
proof -
  define ms where "ms = map (\<lambda>i. (i, the (map_of (Matches st) i))) (MatchOrder env (map fst (Matches st)))"
  have matching: "matching st" unfolding assms(5) by (rule tree_matching [OF assms(1)])
  have ms: "mset ms = mset (Matches st)" unfolding ms_def by (rule matched_pairs [OF matching assms(2)])
  have concrete: "concrete (ENode (bs ! i)) \<and> concrete (ENode (as ! j))" if "(i, j) \<in> set ms" for i j
  proof -
    have "(i, j) \<in> set (Matches st)" using that ms by (metis mset_eq_setD)
    then have "i < length bs" "j < length as" using tree_matches_agree [OF assms(1)] assms(5) by blast+
    then show ?thesis using entries_concrete nth_mem assms(3,4) by metis
  qed
  obtain d where d: "diff_matches env opts bs as ms no_result = Inr d" "sound_result d"
    "Changes d = concat (map (\<lambda>(i, j). pair_changes env opts (bs ! i) (as ! j)) ms)"
    using diff_matches_sound [of ms bs as no_result env opts] concrete by auto
  let ?r = "fold result_Add (map (new_entry env) (unmatched as (MatchedAfter st)))
      (fold result_Add (map (gone_entry env) (unmatched bs (MatchedBefore st))) d)"
  have kinds: "filter (\<lambda>c. CKind c \<noteq> NoChange) (map (gone_entry env) xs) = map (gone_entry env) xs"
    "filter (\<lambda>c. CKind c \<noteq> NoChange) (map (new_entry env) xs) = map (new_entry env) xs" for xs
    by (simp_all add: filter_id_conv gone_entry_def new_entry_def)
  have r: "DiffTree env before after opts = Inr (?r\<lparr> Changes := sort_key change_order (Changes ?r) \<rparr>)"
    unfolding DiffTree_def Let_def assms(3) [symmetric] assms(4) [symmetric] assms(5) [symmetric] ms_def [symmetric] d(1) by simp
  have "sound_result (?r\<lparr> Changes := sort_key change_order (Changes ?r) \<rparr>)"
    using d(2) by (intro sound_kinds) simp_all
  moreover have "mset (Changes d) = mset (concat (map (\<lambda>(i, j). pair_changes env opts (bs ! i) (as ! j)) (Matches st)))"
    unfolding d(3) by (rule mset_concat_perm [OF ms])
  ultimately show ?thesis unfolding r by (simp add: Changes_fold kinds)
qed



subsection \<open>A document against itself\<close>

lemma nonempty_distinct_alone:
  "distinct (map key es) \<Longrightarrow> \<forall>e \<in> set es. key e \<noteq> [] \<Longrightarrow> alone key es {} i \<longleftrightarrow> i < length es"
  by (auto simp: alone_def nth_eq_iff_index_eq distinct_conv_nth)

lemma alone_none: "{..<length es} \<subseteq> M \<Longrightarrow> \<not> alone key es M i"
  by (auto simp: alone_def)

lemma self_matches:
  assumes "\<forall>ks. mset (KeyOrder env ks) = mset ks" "distinct (map EUuid es)" "\<forall>e \<in> set es. EUuid e \<noteq> []"
  shows "set (Matches (tree_matches env opts es es)) = {(i, i) | i. i < length es}"
proof -
  let ?s1 = "matchUnique env es es EUuid no_matches"
  let ?s2 = "matchUnique env es es ESymbol ?s1"
  have m: "matching ?s1" "matching ?s2" using matchUnique_spec [OF assms(1)] matching_none by blast+
  have s1: "set (Matches ?s1) = {(i, i) | i. i < length es}"
  proof -
    have "EUuid (es ! i) = EUuid (es ! j) \<longleftrightarrow> i = j" if "i < length es" "j < length es" for i j
      using nth_eq_iff_index_eq [OF assms(2)] that by simp
    then have "{(i, j). i < length es \<and> j < length es \<and> EUuid (es ! i) = EUuid (es ! j)} = {(i, i) | i. i < length es}" by auto
    then show ?thesis using matchUnique_spec [OF assms(1) matching_none, of es es EUuid]
      by (simp add: no_matches_def nonempty_distinct_alone [OF assms(2,3)])
  qed
  have all: "MatchedBefore s = {..<length es}" if "set (Matches s) = {(i, i) | i. i < length es}" "matching s" for s
  proof -
    have "fst ` {(i, i) | i. i < length es} = {..<length es}" by (auto simp: image_iff)
    then show ?thesis using that by (simp add: matching_def)
  qed
  have s2: "set (Matches ?s2) = {(i, i) | i. i < length es}"
    using matchUnique_spec [OF assms(1) m(1), of es es ESymbol] s1 all [OF s1 m(1)] by (simp add: alone_none)
  then show ?thesis
    using matchUnique_spec [OF assms(1) m(2), of es es EHash] all [OF s2 m(2)] by (simp add: tree_matches_def Let_def alone_none)
qed

lemma node_diff_self: "node_diff env opts w n n = Inr no_result"
  by (subst node_diff.simps) simp

text \<open>a document whose nodes have unique ids of their own differs in nothing from itself.\<close>

theorem DiffTree_self:
  assumes "\<forall>ks. mset (KeyOrder env ks) = mset ks" "\<forall>is. mset (MatchOrder env is) = mset is"
    "distinct (map EUuid (flattenDiffEntries env (coalesced x)))" "\<forall>e \<in> set (flattenDiffEntries env (coalesced x)). EUuid e \<noteq> []"
  shows "DiffTree env x x opts = Inr no_result"
proof -
  let ?es = "flattenDiffEntries env (coalesced x)"
  let ?st = "tree_matches env opts ?es ?es"
  have ms: "set (Matches ?st) = {(i, i) | i. i < length ?es}" by (rule self_matches [OF assms(1,3,4)])
  then have none: "unmatched ?es (MatchedBefore ?st) = []" "unmatched ?es (MatchedAfter ?st) = []"
    using tree_matching [OF assms(1), of opts ?es ?es] by (simp_all add: matching_def unmatched_def filter_empty_conv image_iff)
  have "pair_changes env opts e e = []" for e
    by (simp add: pair_changes_def relocation_def node_diff_self)
  then have "concat (map (\<lambda>(i, j). pair_changes env opts (?es ! i) (?es ! j)) (Matches ?st)) = []"
    using ms by (auto simp: concat_eq_Nil_conv)
  moreover obtain r where r: "DiffTree env x x opts = Inr r" "sound_result r" "mset (Changes r) =
      mset (concat (map (\<lambda>(i, j). pair_changes env opts (?es ! i) (?es ! j)) (Matches ?st))) +
      mset (map (gone_entry env) (unmatched ?es (MatchedBefore ?st))) + mset (map (new_entry env) (unmatched ?es (MatchedAfter ?st)))"
    using tree_changes [OF assms(1,2) refl refl refl] by blast
  ultimately have "Changes r = []" using none by (simp only: list.simps(8) mset.simps(1) add_0_right) simp
  then show ?thesis using r(1) sound_eq [OF r(2) sound_no_result] by simp
qed

theorem DiffTree_self_witness:
  "DiffTree plain_env (Some empty_uir) (Some empty_uir) DefaultTreeDiffOptions = Inr no_result"
  by (rule DiffTree_self)
    (simp_all add: plain_env_def coalesced_def Coalesce_def flattenDiffEntries_def uir_children_def empty_uir_def)

text \<open>Without them it may: of two equal functions, none is matched, and each is reported as gone and as new.\<close>

lemma DiffTree_twins:
  assumes "\<forall>ks. mset (KeyOrder env ks) = mset ks" "\<forall>is. mset (MatchOrder env is) = mset is"
    "x = empty_uir\<lparr> Functions := [m, m] \<rparr>"
  shows "\<exists>r. DiffTree env (Some x) (Some x) opts = Inr r \<and> length (Changes r) = 4"
proof -
  let ?e = "entry_of env [] (NMethod m)"
  have es: "flattenDiffEntries env (coalesced (Some x)) = [?e, ?e]"
    by (simp add: assms(3) flattenDiffEntries_def coalesced_def Coalesce_def uir_children_def empty_uir_def flattenNode.simps GetChildren_def)
  let ?st = "tree_matches env opts [?e, ?e] [?e, ?e]"
  have twins: "\<not> alone key [?e, ?e] {} i" for key i
    by (auto simp: alone_def less_Suc_eq nth_Cons split: nat.splits intro!: exI [of _ "1 - i"])
  have none: "Matches (matchUnique env [?e, ?e] [?e, ?e] key s) = []" "matching (matchUnique env [?e, ?e] [?e, ?e] key s)"
    if "Matches s = []" "matching s" for key s
  proof -
    have "set (Matches (matchUnique env [?e, ?e] [?e, ?e] key s)) = {}"
      using matchUnique_spec [OF assms(1) that(2)] that twins by (simp add: matching_def)
    then show "Matches (matchUnique env [?e, ?e] [?e, ?e] key s) = []" by simp
    show "matching (matchUnique env [?e, ?e] [?e, ?e] key s)" using matchUnique_spec [OF assms(1) that(2)] by blast
  qed
  have start: "Matches no_matches = []" by (simp add: no_matches_def)
  have st: "Matches ?st = []" "matching ?st"
    using none start matching_none by (simp_all add: tree_matches_def Let_def)
  obtain r where r: "DiffTree env (Some x) (Some x) opts = Inr r" "mset (Changes r) =
      mset (concat (map (\<lambda>(i, j). pair_changes env opts ([?e, ?e] ! i) ([?e, ?e] ! j)) (Matches ?st))) +
      mset (map (gone_entry env) (unmatched [?e, ?e] (MatchedBefore ?st))) + mset (map (new_entry env) (unmatched [?e, ?e] (MatchedAfter ?st)))"
    using tree_changes [OF assms(1,2) es [symmetric] es [symmetric] refl] by blast
  have "size (mset (Changes r)) = 4" unfolding r(2) using st by (simp add: matching_def unmatched_def)
  with r(1) show ?thesis by simp
qed

subsection \<open>The order of maps does not show\<close>

text \<open>An environment that ranges over maps in another order.\<close>

definition reorder :: "(gostring list \<Rightarrow> gostring list) \<Rightarrow> (nat list \<Rightarrow> nat list) \<Rightarrow> diff_env \<Rightarrow> diff_env" where
  "reorder ko mo env = env\<lparr> KeyOrder := ko, MatchOrder := mo \<rparr>"

lemma reorder_simps [simp]:
  "Sha (reorder ko mo env) = Sha env" "Unicode (reorder ko mo env) = Unicode env"
  "NewSHA1 (reorder ko mo env) = NewSHA1 env" "UuidString (reorder ko mo env) = UuidString env"
  "Myers (reorder ko mo env) = Myers env" "KeyOrder (reorder ko mo env) = ko" "MatchOrder (reorder ko mo env) = mo"
  by (simp_all add: reorder_def)

lemma reorder_nodes [simp]:
  "node_hash (reorder ko mo env) = node_hash env" "node_symbol (reorder ko mo env) = node_symbol env"
  "node_uuid (reorder ko mo env) = node_uuid env" "stmt_hash (reorder ko mo env) = stmt_hash env"
  "block_hash (reorder ko mo env) = block_hash env" "newDiffNodeRef (reorder ko mo env) = newDiffNodeRef env"
  by (simp_all add: fun_eq_iff node_hash_def node_symbol_def node_uuid_def stmt_hash_def block_hash_def newDiffNodeRef_def
      split: option.split)

lemma reorder_more [simp]:
  "changedLayer (reorder ko mo env) = changedLayer env" "addModifiedIfDifferent (reorder ko mo env) = addModifiedIfDifferent env"
  "reorderedColumns (reorder ko mo env) = reorderedColumns env" "entry_of (reorder ko mo env) = entry_of env"
  "relocation (reorder ko mo env) = relocation env" "gone_entry (reorder ko mo env) = gone_entry env"
  "new_entry (reorder ko mo env) = new_entry env"
  by (simp_all add: fun_eq_iff changedLayer_def layer_hashes_def addModifiedIfDifferent_def reorderedColumns_def column_moved_def
      common_positions_def entry_of_def relocation_def gone_entry_def new_entry_def Let_def cong: option.case_cong if_cong)

lemma reorder_identity [simp]: "diffIdentity (reorder ko mo env) n = diffIdentity env n"
proof (induction env n rule: diffIdentity.induct)
  case (1 env n)
  then show ?case
    by (subst (1 2) diffIdentity.simps) (auto cong: add_list_cong)
qed

lemma reorder_flatten [simp]: "flattenNode (reorder ko mo env) p n = flattenNode env p n"
proof (induction env p n rule: flattenNode.induct)
  case (1 env p n)
  then show ?case by (subst (1 2) flattenNode.simps) (auto intro!: arg_cong [of _ _ concat])
qed

lemma reorder_statements:
  assumes "\<forall>ks. mset (KeyOrder env ks) = mset ks" "\<forall>ks. mset (ko ks) = mset ks"
  shows "mset (Changes (diffStatements (reorder ko mo env) path b a)) = mset (Changes (diffStatements env path b a))"
proof -
  let ?ha = "\<lambda>i. stmt_hash env (b ! i)" and ?hb = "\<lambda>i. stmt_hash env (a ! i)"
  define rs where "rs = Myers env (length b) (length a) (\<lambda>i j. ?ha i = ?hb j)"
  define moved where "moved = (\<lambda>e. moved_pairs e (fold (put_position ?ha) (dels rs) []) (fold (put_position ?hb) (inss rs) []))"
  have o: "\<forall>ks. mset (KeyOrder (reorder ko mo env) ks) = mset ks" using assms(2) by simp
  have set: "set (moved (reorder ko mo env)) = set (moved env)"
    unfolding moved_def by (rule set_eqI) (simp only: split_paired_all moved_mem [OF o] moved_mem [OF assms(1)])
  have d: "distinct (moved (reorder ko mo env))" "distinct (moved env)"
    unfolding moved_def using moved_distinct(1) [OF o] moved_distinct(1) [OF assms(1)] by (simp_all only: distinct_map)
  have changes: "Changes (diffStatements e path b a) =
      filter (\<lambda>c. CKind c \<noteq> NoChange) (map (moved_change path) (moved e) @
        concat (map (range_changes path (fst ` set (moved e)) (snd ` set (moved e))) rs))"
    if "e = env \<or> e = reorder ko mo env" for e
    using that unfolding diffStatements_def moved_def rs_def
    by (elim disjE) (simp_all only: reorder_simps reorder_nodes Let_def index_ranges prod.case Changes_fold Changes_none append_Nil)
  show ?thesis
    unfolding changes [OF disjI1 [OF refl]] changes [OF disjI2 [OF refl]] set
    using d set by (simp add: set_eq_iff_mset_eq_distinct)
qed

lemma reorder_blocks:
  assumes "\<forall>ks. mset (KeyOrder env ks) = mset ks" "\<forall>ks. mset (ko ks) = mset ks"
  shows "mset (Changes (diffBlocks (reorder ko mo env) path b a)) = mset (Changes (diffBlocks env path b a))"
proof -
  have sound: "sound_result (diffStatements e path x y)" for e x y
    by (simp add: diffStatements_def Let_def split: prod.split)
  show ?thesis
    using reorder_statements [OF assms]
    by (auto simp: diffBlocks_def Changes_merge sound split: option.splits)
qed

text \<open>Two diffs that returned, or panicked, alike up to the order of their changes.\<close>

fun same_changes :: "diffed \<Rightarrow> diffed \<Rightarrow> bool" where
  "same_changes (Inr r) (Inr s) \<longleftrightarrow> sound_result r \<and> sound_result s \<and> mset (Changes r) = mset (Changes s)"
| "same_changes (Inl p) (Inl q) \<longleftrightarrow> p = q"
| "same_changes _ _ \<longleftrightarrow> False"

lemma same_modified:
  "sound_result r \<Longrightarrow> sound_result s \<Longrightarrow> mset (Changes r) = mset (Changes s) \<Longrightarrow>
     same_changes (addModifiedIfDifferent env b a detail r) (addModifiedIfDifferent env b a detail s)"
  by (cases "changedLayer env b a") (simp_all add: addModifiedIfDifferent_def Changes_Add)

lemma all_members_off: "all_members env False rec parts = Inr no_result"
proof -
  have "merge_members (\<lambda>(path, b, a). members env False rec path b a) parts r = Inr r" for r
    by (induction parts arbitrary: r) (auto simp: members_def merge_result_def)
  then show ?thesis by (simp add: all_members_def)
qed

lemma reorder_contents:
  assumes "\<forall>ks. mset (KeyOrder env ks) = mset ks" "\<forall>ks. mset (ko ks) = mset ks"
    "concrete b" "concrete a" "GetType b = GetType a"
  shows "same_changes (contents (reorder ko mo env) opts False f b a) (contents env opts False g b a)"
proof -
  note blocks = reorder_blocks [OF assms(1,2)]
  consider x where "b = NMethod x" | x where "b = NTable x" | "\<forall>m. b \<noteq> NMethod m" "\<forall>t. b \<noteq> NTable t" by blast
  then show ?thesis
  proof cases
    case 1
    then obtain y where a: "a = NMethod y" using concrete_type [OF assms(3-5)] by (cases a) auto
    show ?thesis unfolding 1 a contents_def Let_def
      by (simp add: method_diff_def Let_def) (simp add: same_modified blocks Changes_merge)
  next
    case 2
    then obtain y where a: "a = NTable y" using concrete_type [OF assms(3-5)] by (cases a) auto
    show ?thesis unfolding 2 a contents_def Let_def
      by (simp add: table_diff_def all_members_off Let_def) (simp add: same_modified blocks Changes_merge)
  next
    case 3
    show ?thesis unfolding contents_parts [OF assms(3-5) 3] by (simp add: all_members_off same_modified)
  qed
qed

lemma reorder_node_diff:
  assumes "\<forall>ks. mset (KeyOrder env ks) = mset ks" "\<forall>ks. mset (ko ks) = mset ks" "concrete b" "concrete a"
  shows "same_changes (node_diff (reorder ko mo env) opts False b a) (node_diff env opts False b a)"
proof -
  have merge: "same_changes c d \<Longrightarrow> same_changes (and_then c (\<lambda>d. Inr (merge_result d no_result))) (and_then d (\<lambda>d. Inr (merge_result d no_result)))"
    for c d by (cases c; cases d) (auto simp: Changes_merge)
  show ?thesis
    by (subst (1 2) node_diff.simps) (simp add: merge reorder_contents [OF assms])
qed

text \<open>C24: the order in which maps are ranged over shows in a diff of two documents only in the order of changes that
  agree in kind, path and detail.\<close>

theorem DiffTree_order:
  assumes "\<forall>ks. mset (KeyOrder env ks) = mset ks" "\<forall>is. mset (MatchOrder env is) = mset is"
    "\<forall>ks. mset (ko ks) = mset ks" "\<forall>is. mset (mo is) = mset is"
  shows "\<exists>r s. DiffTree env before after opts = Inr r \<and> DiffTree (env\<lparr> KeyOrder := ko, MatchOrder := mo \<rparr>) before after opts = Inr s \<and>
    Summary r = Summary s \<and> mset (Changes r) = mset (Changes s) \<and> map change_order (Changes r) = map change_order (Changes s)"
proof -
  let ?e = "reorder ko mo env"
  let ?bs = "flattenDiffEntries env (coalesced before)" and ?as = "flattenDiffEntries env (coalesced after)"
  have o: "\<forall>ks. mset (KeyOrder ?e ks) = mset ks" "\<forall>is. mset (MatchOrder ?e is) = mset is" using assms(3,4) by simp_all
  have flat: "flattenDiffEntries ?e x = flattenDiffEntries env x" for x
    by (simp add: flattenDiffEntries_def cong: map_cong)
  let ?s = "tree_matches env opts ?bs ?as" and ?t = "tree_matches ?e opts ?bs ?as"
  have m: "matching ?s" "matching ?t" by (rule tree_matching [OF assms(1)], rule tree_matching [OF o(1)])
  have set: "set (Matches ?t) = set (Matches ?s)" by (rule tree_matches_order [OF o(1) assms(1)])
  then have perm: "mset (Matches ?t) = mset (Matches ?s)"
    using m by (simp add: matching_def set_eq_iff_mset_eq_distinct distinct_map)
  have pairs: "mset (pair_changes ?e opts (?bs ! i) (?as ! j)) = mset (pair_changes env opts (?bs ! i) (?as ! j))"
    if "(i, j) \<in> set (Matches ?s)" for i j
  proof -
    have "i < length ?bs" "j < length ?as" using tree_matches_agree [OF assms(1) that] by blast+
    then have "concrete (ENode (?bs ! i))" "concrete (ENode (?as ! j))" using entries_concrete nth_mem by metis+
    then show ?thesis using reorder_node_diff [OF assms(1,3), of "ENode (?bs ! i)" "ENode (?as ! j)" mo opts]
      by (cases "node_diff ?e opts False (ENode (?bs ! i)) (ENode (?as ! j))";
          cases "node_diff env opts False (ENode (?bs ! i)) (ENode (?as ! j))") (simp_all add: pair_changes_def)
  qed
  have "mset (concat (map (\<lambda>(i, j). pair_changes ?e opts (?bs ! i) (?as ! j)) (Matches ?t))) =
      mset (concat (map (\<lambda>(i, j). pair_changes ?e opts (?bs ! i) (?as ! j)) (Matches ?s)))"
    by (rule mset_concat_perm [OF perm])
  also have "\<dots> = mset (concat (map (\<lambda>(i, j). pair_changes env opts (?bs ! i) (?as ! j)) (Matches ?s)))"
  proof (rule mset_concat_cong)
    fix m assume "m \<in> set (Matches ?s)"
    then show "mset (case m of (i, j) \<Rightarrow> pair_changes ?e opts (?bs ! i) (?as ! j)) =
        mset (case m of (i, j) \<Rightarrow> pair_changes env opts (?bs ! i) (?as ! j))"
      using pairs [of "fst m" "snd m"] by (simp add: split_beta)
  qed
  finally have same: "mset (concat (map (\<lambda>(i, j). pair_changes ?e opts (?bs ! i) (?as ! j)) (Matches ?t))) =
      mset (concat (map (\<lambda>(i, j). pair_changes env opts (?bs ! i) (?as ! j)) (Matches ?s)))" .
  obtain r where r: "DiffTree env before after opts = Inr r" "sound_result r" "sorted (map change_order (Changes r))" "mset (Changes r) =
      mset (concat (map (\<lambda>(i, j). pair_changes env opts (?bs ! i) (?as ! j)) (Matches ?s))) +
      mset (map (gone_entry env) (unmatched ?bs (MatchedBefore ?s))) + mset (map (new_entry env) (unmatched ?as (MatchedAfter ?s)))"
    using tree_changes [OF assms(1,2) refl refl refl] by blast
  obtain s where s: "DiffTree ?e before after opts = Inr s" "sound_result s" "sorted (map change_order (Changes s))" "mset (Changes s) =
      mset (concat (map (\<lambda>(i, j). pair_changes ?e opts (?bs ! i) (?as ! j)) (Matches ?t))) +
      mset (map (gone_entry env) (unmatched ?bs (MatchedBefore ?t))) + mset (map (new_entry env) (unmatched ?as (MatchedAfter ?t)))"
    using tree_changes [OF o flat [symmetric] flat [symmetric] refl, of before after opts] by (auto simp only: reorder_more)
  have eq: "mset (Changes r) = mset (Changes s)"
    unfolding r(4) s(4) same using m set by (simp add: matching_def)
  have "mset (map change_order (Changes r)) = mset (map change_order (Changes s))" using eq by simp
  from properties_for_sort [OF this r(3)] have "map change_order (Changes r) = map change_order (Changes s)"
    using properties_for_sort [OF refl s(3)] by simp
  moreover have "Summary r = Summary s"
  proof -
    have "mset (kinds_in (Changes r)) = mset (kinds_in (Changes s))" unfolding kinds_in_def by (rule mset_concat_perm [OF eq])
    then have "summary_of (kinds_in (Changes r)) = summary_of (kinds_in (Changes s))"
      by (simp add: summary_of_def flip: count_mset)
    then show ?thesis using r(2) s(2) by (simp add: sound_result_def)
  qed
  ultimately show ?thesis using r(1) s(1) eq unfolding reorder_def by blast
qed

theorem DiffTree_order_witness:
  "\<exists>r s. DiffTree plain_env None (Some empty_uir) DefaultTreeDiffOptions = Inr r \<and>
    DiffTree (plain_env\<lparr> KeyOrder := rev, MatchOrder := rev \<rparr>) None (Some empty_uir) DefaultTreeDiffOptions = Inr s \<and>
    Summary r = Summary s \<and> mset (Changes r) = mset (Changes s) \<and> map change_order (Changes r) = map change_order (Changes s)"
  by (rule DiffTree_order) (simp_all add: plain_env_def)

end
