(* ===== verification/LRU_Cache.thy ===== *)
theory LRU_Cache
  imports Go_Prelude
begin

text \<open>
  The least-recently-used map of \<open>query/lru.go\<close>, over a \<open>container/list\<close> of elements a second map points into,
  which \<open>query/index_cache.go\<close> reads through. The list is kept as the identities of its elements
  and a store of their values; a panic is an error value. The lock makes the operations atomic, so a concurrent use
  is some sequence of them.
\<close>

subsection \<open>The map\<close>

record ('k, 'v) lru =
  capacity :: int
  order :: "nat list"
  store :: "nat \<rightharpoonup> 'k \<times> 'v"
  entries :: "'k \<rightharpoonup> nat"
  fresh :: nat

datatype lru_panic = NilElement

definition newLRU :: "int \<Rightarrow> ('k, 'v) lru" where
  "newLRU n = \<lparr> capacity = n, order = [], store = Map.empty, entries = Map.empty, fresh = 0 \<rparr>"

text \<open>\<open>list.MoveToFront\<close>, which does nothing for an element that is not in the list.\<close>

definition move_to_front :: "nat \<Rightarrow> nat list \<Rightarrow> nat list" where
  "move_to_front e es = (if e \<in> set es then e # remove1 e es else es)"

definition lru_get :: "'k \<Rightarrow> ('k, 'v) lru \<Rightarrow> (lru_panic, 'v option \<times> ('k, 'v) lru) outcome" where
  "lru_get k c =
     (case entries c k of
        None \<Rightarrow> Inr (None, c)
      | Some e \<Rightarrow>
          (case store c e of
             None \<Rightarrow> Inl NilElement
           | Some (_, v) \<Rightarrow> Inr (Some v, c\<lparr> order := move_to_front e (order c) \<rparr>)))"

text \<open>The loop that drops the oldest elements until the list is within capacity.\<close>

function evict :: "('k, 'v) lru \<Rightarrow> (lru_panic, ('k, 'v) lru) outcome" where
  "evict c =
     (if int (length (order c)) \<le> capacity c then Inr c
      else if order c = [] then Inl NilElement
      else
        (case store c (last (order c)) of
           None \<Rightarrow> Inl NilElement
         | Some (k, _) \<Rightarrow> evict (c\<lparr> order := butlast (order c), entries := (entries c)(k := None) \<rparr>)))"
  by pat_completeness auto

termination by (relation "measure (\<lambda>c. length (order c))") auto

declare evict.simps [simp del]

definition lru_put :: "'k \<Rightarrow> 'v \<Rightarrow> ('k, 'v) lru \<Rightarrow> (lru_panic, ('k, 'v) lru) outcome" where
  "lru_put k v c =
     (if capacity c = 0 then Inr c
      else
        (case entries c k of
           Some e \<Rightarrow>
             (case store c e of
                None \<Rightarrow> Inl NilElement
              | Some (k', _) \<Rightarrow> Inr (c\<lparr> store := (store c)(e \<mapsto> (k', v)), order := move_to_front e (order c) \<rparr>))
         | None \<Rightarrow>
             evict (c\<lparr> entries := (entries c)(k \<mapsto> fresh c), store := (store c)(fresh c \<mapsto> (k, v)),
                      order := fresh c # order c, fresh := Suc (fresh c) \<rparr>)))"

subsection \<open>What the map holds\<close>

definition items :: "('k, 'v) lru \<Rightarrow> ('k \<times> 'v) list" where
  "items c = map (\<lambda>e. the (store c e)) (order c)"

text \<open>The list and the map agree; \<open>full\<close> elements over capacity are allowed while evicting.\<close>

definition linked :: "('k, 'v) lru \<Rightarrow> bool" where
  "linked c \<longleftrightarrow>
     distinct (order c) \<and> (\<forall>e \<in> set (order c). e < fresh c \<and> store c e \<noteq> None) \<and>
     (\<forall>k e. entries c k = Some e \<longleftrightarrow> e \<in> set (order c) \<and> (\<exists>v. store c e = Some (k, v)))"

definition lru_inv :: "('k, 'v) lru \<Rightarrow> bool" where
  "lru_inv c \<longleftrightarrow> linked c \<and> 0 \<le> capacity c \<and> int (length (order c)) \<le> capacity c"

definition bring_front :: "'k \<Rightarrow> ('k \<times> 'v) list \<Rightarrow> ('k \<times> 'v) list" where
  "bring_front k xs = (case map_of xs k of None \<Rightarrow> xs | Some v \<Rightarrow> (k, v) # filter (\<lambda>p. fst p \<noteq> k) xs)"

definition put_front :: "nat \<Rightarrow> 'k \<Rightarrow> 'v \<Rightarrow> ('k \<times> 'v) list \<Rightarrow> ('k \<times> 'v) list" where
  "put_front n k v xs = take n ((k, v) # filter (\<lambda>p. fst p \<noteq> k) xs)"

lemma newLRU_inv: "0 \<le> n \<Longrightarrow> lru_inv (newLRU n) \<and> items (newLRU n) = []"
  by (simp add: lru_inv_def linked_def newLRU_def items_def)

lemma linked_iff: "linked c \<Longrightarrow> entries c k = Some e \<longleftrightarrow> e \<in> set (order c) \<and> (\<exists>v. store c e = Some (k, v))"
  unfolding linked_def by blast

lemma linked_key:
  "linked c \<Longrightarrow> e \<in> set (order c) \<Longrightarrow> (entries c k = Some e) = (fst (the (store c e)) = k)"
  by (force simp: linked_def)

lemma items_lookup: "linked c \<Longrightarrow> map_of (items c) k = map_option (\<lambda>e. snd (the (store c e))) (entries c k)"
proof -
  assume l: "linked c"
  have "map_of (map (\<lambda>e. the (store c e)) es) k =
      map_option (\<lambda>e. snd (the (store c e))) (case entries c k of Some e \<Rightarrow> if e \<in> set es then Some e else None | None \<Rightarrow> None)"
    if "set es \<subseteq> set (order c)" for es
    using that
  proof (induction es)
    case (Cons e es)
    then show ?case using linked_key [OF l, of e k] by (cases "the (store c e)") (auto split: option.splits)
  qed (simp split: option.split)
  moreover have "(case entries c k of Some e \<Rightarrow> if e \<in> set (order c) then Some e else None | None \<Rightarrow> None) = entries c k"
    using linked_iff [OF l, of k] by (cases "entries c k") auto
  ultimately show ?thesis by (simp add: items_def)
qed

lemma linked_remove:
  assumes "linked c" "entries c k = Some e"
  shows "map (\<lambda>e. the (store c e)) (remove1 e (order c)) = filter (\<lambda>p. fst p \<noteq> k) (items c)"
proof -
  have d: "distinct (order c)" "e \<in> set (order c)" using assms by (auto simp: linked_def)
  have "filter (\<lambda>p. fst p \<noteq> k) (items c) = map (\<lambda>e. the (store c e)) (filter (\<lambda>x. fst (the (store c x)) \<noteq> k) (order c))"
    by (simp add: items_def filter_map comp_def)
  also have "filter (\<lambda>x. fst (the (store c x)) \<noteq> k) (order c) = filter (\<lambda>x. x \<noteq> e) (order c)"
  proof (rule filter_cong)
    fix x assume "x \<in> set (order c)"
    then show "(fst (the (store c x)) \<noteq> k) = (x \<noteq> e)" using linked_key [OF assms(1), of x k] assms(2) by auto
  qed simp
  also have "\<dots> = remove1 e (order c)" using d by (simp add: distinct_remove1_removeAll removeAll_filter_not_eq eq_commute)
  finally show ?thesis by simp
qed

lemma filter_absent: "linked c \<Longrightarrow> entries c k = None \<Longrightarrow> filter (\<lambda>p. fst p \<noteq> k) (items c) = items c"
  using linked_key [of c _ k] by (auto simp: items_def filter_id_conv)

lemma lru_get_refines:
  assumes "lru_inv c"
  shows "\<exists>c'. lru_get k c = Inr (map_of (items c) k, c') \<and> lru_inv c' \<and> capacity c' = capacity c \<and> items c' = bring_front k (items c)"
proof (cases "entries c k")
  case None
  then show ?thesis using assms items_lookup [of c k] by (simp add: lru_get_def lru_inv_def bring_front_def)
next
  case (Some e)
  have l: "linked c" using assms by (simp add: lru_inv_def)
  then have e: "e \<in> set (order c)" "\<exists>v. store c e = Some (k, v)" using Some by (auto simp: linked_def)
  then obtain v where v: "store c e = Some (k, v)" by blast
  let ?c = "c\<lparr> order := e # remove1 e (order c) \<rparr>"
  have set: "set (e # remove1 e (order c)) = set (order c)" "distinct (e # remove1 e (order c))"
    "length (e # remove1 e (order c)) = length (order c)"
    using e(1) l length_pos_if_in_set [OF e(1)] by (auto simp: linked_def length_remove1)
  have "linked ?c" using l set(1,2) unfolding linked_def by simp
  moreover have "items ?c = (k, v) # filter (\<lambda>p. fst p \<noteq> k) (items c)"
    using linked_remove [OF l Some] v by (simp add: items_def)
  ultimately show ?thesis
    using assms set(3) v Some e(1) items_lookup [OF l, of k]
    by (simp add: lru_get_def move_to_front_def lru_inv_def bring_front_def)
qed

lemma evict_one: "linked c \<Longrightarrow> 0 < capacity c \<Longrightarrow> int (length (order c)) = capacity c + 1 \<Longrightarrow>
    \<exists>c'. evict c = Inr c' \<and> lru_inv c' \<and> capacity c' = capacity c \<and> items c' = butlast (items c)"
proof -
  assume l: "linked c" and cap: "0 < capacity c" "int (length (order c)) = capacity c + 1"
  have ne: "order c \<noteq> []" using cap by auto
  then obtain es e where es: "order c = es @ [e]" by (cases "order c" rule: rev_cases) auto
  then obtain k v where v: "store c e = Some (k, v)" using l by (fastforce simp: linked_def)
  let ?c = "c\<lparr> order := es, entries := (entries c)(k := None) \<rparr>"
  have k: "entries c k = Some e" using linked_key [OF l, of e k] es v by simp
  have "linked ?c"
    unfolding linked_def
  proof (intro conjI allI ballI)
    show "distinct (order ?c)" using l es by (simp add: linked_def)
    fix x assume "x \<in> set (order ?c)"
    then show "x < fresh ?c" "store ?c x \<noteq> None" using l es by (auto simp: linked_def)
  next
    fix k' x
    show "(entries ?c k' = Some x) = (x \<in> set (order ?c) \<and> (\<exists>v. store ?c x = Some (k', v)))"
    proof (cases "k' = k")
      case True
      have "x = e" if "x \<in> set (order c)" "\<exists>v. store c x = Some (k, v)"
        using l k that unfolding linked_def by (metis option.inject)
      then show ?thesis using True l es by (auto simp: linked_def)
    next
      case False
      then show ?thesis using l es v by (auto simp: linked_def)
    qed
  qed
  then have "lru_inv ?c" using cap es by (simp add: lru_inv_def)
  moreover have "evict c = evict ?c" using cap ne es v by (subst evict.simps) simp
  moreover have "evict ?c = Inr ?c" using cap es by (subst evict.simps) simp
  ultimately show ?thesis using es by (simp add: items_def)
qed

lemma lru_put_refines:
  assumes "lru_inv c"
  shows "\<exists>c'. lru_put k v c = Inr c' \<and> lru_inv c' \<and> capacity c' = capacity c \<and> items c' = put_front (nat (capacity c)) k v (items c)"
proof -
  have l: "linked c" and cap: "0 \<le> capacity c" "int (length (order c)) \<le> capacity c" using assms by (simp_all add: lru_inv_def)
  show ?thesis
  proof (cases "capacity c = 0")
    case True
    then show ?thesis using assms cap by (simp add: lru_put_def put_front_def items_def)
  next
    case cap0: False
    show ?thesis
    proof (cases "entries c k")
      case (Some e)
      then have e: "e \<in> set (order c)" "\<exists>v. store c e = Some (k, v)" using l by (auto simp: linked_def)
      then obtain w where w: "store c e = Some (k, w)" by blast
      let ?c = "c\<lparr> store := (store c)(e \<mapsto> (k, v)), order := e # remove1 e (order c) \<rparr>"
      have set: "set (e # remove1 e (order c)) = set (order c)" "distinct (e # remove1 e (order c))"
        "length (e # remove1 e (order c)) = length (order c)"
        using e(1) l length_pos_if_in_set [OF e(1)] by (auto simp: linked_def length_remove1)
      have "linked ?c" unfolding linked_def
      proof (intro conjI allI ballI)
        show "distinct (order ?c)" using set(2) by simp
        fix x assume "x \<in> set (order ?c)"
        then show "x < fresh ?c" "store ?c x \<noteq> None" using l set(1) by (auto simp: linked_def)
      next
        fix k' x
        show "(entries ?c k' = Some x) = (x \<in> set (order ?c) \<and> (\<exists>v. store ?c x = Some (k', v)))"
          using l set(1) e(1) w by (cases "x = e") (auto simp: linked_def)
      qed
      moreover have "items ?c = (k, v) # filter (\<lambda>p. fst p \<noteq> k) (items c)"
      proof -
        have "e \<notin> set (remove1 e (order c))" using l by (simp add: linked_def)
        then have "map (\<lambda>x. the (((store c)(e \<mapsto> (k, v))) x)) (remove1 e (order c)) = map (\<lambda>x. the (store c x)) (remove1 e (order c))"
          by (intro map_cong) auto
        then show ?thesis using linked_remove [OF l Some] by (simp add: items_def)
      qed
      moreover have "length (items ?c) \<le> nat (capacity c)" using cap set(3) by (simp add: items_def)
      ultimately show ?thesis
        using assms cap set(3) w Some e(1) cap0 by (simp add: lru_put_def move_to_front_def lru_inv_def put_front_def)
    next
      case None
      let ?e = "fresh c"
      let ?c = "c\<lparr> entries := (entries c)(k \<mapsto> ?e), store := (store c)(?e \<mapsto> (k, v)), order := ?e # order c, fresh := Suc ?e \<rparr>"
      have new: "?e \<notin> set (order c)" using l by (auto simp: linked_def)
      have link: "linked ?c" unfolding linked_def
      proof (intro conjI allI ballI)
        show "distinct (order ?c)" using l new by (simp add: linked_def)
        fix x assume "x \<in> set (order ?c)"
        then show "x < fresh ?c" "store ?c x \<noteq> None" using l by (auto simp: linked_def less_Suc_eq)
      next
        fix k' x
        show "(entries ?c k' = Some x) = (x \<in> set (order ?c) \<and> (\<exists>v. store ?c x = Some (k', v)))"
          using linked_iff [OF l, of k x] linked_iff [OF l, of k' x] None new by (cases "x = ?e"; cases "k' = k") auto
      qed
      have it: "items ?c = (k, v) # items c" using new by (auto simp: items_def)
      have put: "lru_put k v c = evict ?c" using cap0 None by (simp add: lru_put_def)
      have front: "put_front (nat (capacity c)) k v (items c) = take (nat (capacity c)) ((k, v) # items c)"
        using filter_absent [OF l None] by (simp add: put_front_def)
      have len: "length (items c) = length (order c)" by (simp add: items_def)
      show ?thesis
      proof (cases "int (length (order ?c)) \<le> capacity c")
        case True
        then have "evict ?c = Inr ?c" by (subst evict.simps) simp
        then show ?thesis using True link it put front len cap by (simp add: lru_inv_def)
      next
        case False
        then have full: "int (length (order ?c)) = capacity ?c + 1" using cap by simp
        from evict_one [OF link _ full] cap cap0 obtain c' where
          c': "evict ?c = Inr c'" "lru_inv c'" "capacity c' = capacity c" "items c' = butlast (items ?c)" by auto
        have "nat (capacity c) = length (order c)" using full by simp
        then have "butlast (items ?c) = take (nat (capacity c)) ((k, v) # items c)"
          using full len unfolding it butlast_conv_take by simp
        then show ?thesis using c' put front by simp
      qed
    qed
  qed
qed

subsection \<open>The most recently used\<close>

datatype ('k, 'v) lru_op = Get 'k | Put 'k 'v

fun apply_lru_op :: "('k, 'v) lru_op \<Rightarrow> ('k, 'v) lru \<Rightarrow> (lru_panic, ('k, 'v) lru) outcome" where
  "apply_lru_op (Get k) c = and_then (lru_get k c) (\<lambda>(_, c). Inr c)"
| "apply_lru_op (Put k v) c = lru_put k v c"

fun run_lru_ops :: "('k, 'v) lru_op list \<Rightarrow> ('k, 'v) lru \<Rightarrow> (lru_panic, ('k, 'v) lru) outcome" where
  "run_lru_ops [] c = Inr c"
| "run_lru_ops (x # xs) c = and_then (apply_lru_op x c) (run_lru_ops xs)"

text \<open>Every pair put, the most recently put or found first, without a bound: a get counts when it finds its key among
  the first \<open>n\<close>.\<close>

fun recency_step :: "nat \<Rightarrow> ('k, 'v) lru_op \<Rightarrow> ('k \<times> 'v) list \<Rightarrow> ('k \<times> 'v) list" where
  "recency_step n (Get k) xs = (if k \<in> fst ` set (take n xs) then bring_front k xs else xs)"
| "recency_step n (Put k v) xs = (k, v) # filter (\<lambda>p. fst p \<noteq> k) xs"

definition recency :: "nat \<Rightarrow> ('k, 'v) lru_op list \<Rightarrow> ('k \<times> 'v) list" where
  "recency n ops = fold (recency_step n) ops []"

lemma recency_distinct: "distinct (map fst (recency n ops))"
proof -
  have "distinct (map fst xs) \<Longrightarrow> distinct (map fst (recency_step n x xs))" for x and xs :: "('a \<times> 'b) list"
    by (cases x) (auto simp: bring_front_def distinct_map_filter split: option.split)
  then have "distinct (map fst xs) \<Longrightarrow> distinct (map fst (fold (recency_step n) ops xs))" for xs :: "('a \<times> 'b) list"
    by (induction ops arbitrary: xs) simp_all
  then show ?thesis by (simp add: recency_def)
qed

lemma take_filter_front:
  "distinct (map fst xs) \<Longrightarrow> take n (x # filter (\<lambda>p. fst p \<noteq> k) (take n xs)) = take n (x # filter (\<lambda>p. fst p \<noteq> k) xs)"
proof (cases n)
  case (Suc m)
  assume d: "distinct (map fst xs)"
  have "take m (filter (\<lambda>p. fst p \<noteq> k) (take (Suc m) xs)) = take m (filter (\<lambda>p. fst p \<noteq> k) xs)" for m
    using d
  proof (induction xs arbitrary: m)
    case (Cons p xs)
    show ?case
    proof (cases "fst p = k")
      case True
      have "fst q \<noteq> k" if "q \<in> set xs" for q using Cons.prems True that by (metis distinct.simps(2) image_eqI list.simps(9) set_map)
      then have "filter (\<lambda>p. fst p \<noteq> k) ys = ys" if "set ys \<subseteq> set xs" for ys
        using that by (auto simp: filter_id_conv)
      with True show ?thesis using set_take_subset [of m xs] by (simp add: take_take)
    next
      case False
      then show ?thesis using Cons by (cases m) simp_all
    qed
  qed simp
  with Suc show ?thesis by simp
qed simp

lemma map_of_take: "distinct (map fst xs) \<Longrightarrow> k \<in> fst ` set (take n xs) \<Longrightarrow> map_of (take n xs) k = map_of xs k"
proof -
  assume d: "distinct (map fst xs)" and k: "k \<in> fst ` set (take n xs)"
  then obtain v where v: "(k, v) \<in> set (take n xs)" by auto
  moreover have "distinct (map fst (take n xs))" using d by (simp add: take_map [symmetric])
  moreover have "(k, v) \<in> set xs" using v in_set_takeD by metis
  ultimately show ?thesis using d by simp
qed

lemma run_lru_ops_recency:
  assumes "lru_inv c" "items c = take n xs" "distinct (map fst xs)" "capacity c = int n"
  shows "\<exists>c'. run_lru_ops ops c = Inr c' \<and> lru_inv c' \<and> items c' = take n (fold (recency_step n) ops xs)"
  using assms
proof (induction ops arbitrary: c xs)
  case (Cons x ops)
  have "\<exists>c'. apply_lru_op x c = Inr c' \<and> lru_inv c' \<and> items c' = take n (recency_step n x xs) \<and> capacity c' = int n"
  proof (cases x)
    case (Get k)
    obtain c' where c': "lru_get k c = Inr (map_of (items c) k, c')" "lru_inv c'" "capacity c' = capacity c" "items c' = bring_front k (items c)"
      using lru_get_refines [OF Cons.prems(1)] by blast
    have "bring_front k (take n xs) = take n (recency_step n (Get k) xs)"
    proof (cases "k \<in> fst ` set (take n xs)")
      case True
      then obtain v where v: "map_of (take n xs) k = Some v" by (metis (no_types) map_of_eq_None_iff not_None_eq)
      then have "map_of xs k = Some v" using map_of_take [OF Cons.prems(3) True] by simp
      moreover have "length ((k, v) # filter (\<lambda>p. fst p \<noteq> k) (take n xs)) \<le> n"
      proof -
        have "length (filter (\<lambda>p. fst p \<noteq> k) (take n xs)) < length (take n xs)"
        proof -
          obtain p where "p \<in> set (take n xs)" "fst p = k" using True by auto
          then show ?thesis using length_filter_less [of p "take n xs" "\<lambda>p. fst p \<noteq> k"] by simp
        qed
        then show ?thesis by simp
      qed
      ultimately show ?thesis using True v take_filter_front [OF Cons.prems(3), of n "(k, v)" k] by (simp add: bring_front_def)
    next
      case False
      then have "map_of (take n xs) k = None" by (simp add: map_of_eq_None_iff)
      with False show ?thesis by (simp add: bring_front_def)
    qed
    then show ?thesis using c' Cons.prems(2,4) Get by simp
  next
    case (Put k v)
    then show ?thesis using lru_put_refines [OF Cons.prems(1), of k v] Cons.prems(2-4) take_filter_front [OF Cons.prems(3)]
      by (auto simp: put_front_def)
  qed
  then obtain c' where c': "apply_lru_op x c = Inr c'" "lru_inv c'" "items c' = take n (recency_step n x xs)" "capacity c' = int n" by blast
  have "distinct (map fst (recency_step n x xs))"
    using Cons.prems(3) by (cases x) (auto simp: bring_front_def distinct_map_filter split: option.split)
  then show ?case using Cons.IH [OF c'(2,3) _ c'(4)] c'(1) by simp
qed simp

text \<open>C28: whatever is got and put, the map never panics and holds the pairs most recently put or found, at most
  as many as its capacity.\<close>

theorem lru_recency:
  "\<exists>c. run_lru_ops ops (newLRU (int n)) = Inr c \<and> lru_inv c \<and> items c = take n (recency n ops)"
  for ops :: "('k, 'v) lru_op list"
proof -
  have new: "lru_inv (newLRU (int n) :: ('k, 'v) lru)" "items (newLRU (int n) :: ('k, 'v) lru) = take n []"
    "capacity (newLRU (int n) :: ('k, 'v) lru) = int n"
    using newLRU_inv [of "int n"] by (auto simp: newLRU_def)
  show ?thesis unfolding recency_def by (rule run_lru_ops_recency [OF new(1,2) _ new(3)]) simp
qed

subsection \<open>What a client relies on\<close>

text \<open>What a client of a bounded map relies on: a get answers what is held and changes no answer, a put may only drop
  other answers.\<close>

locale bounded_map =
  fixes get :: "'k \<Rightarrow> 'c \<Rightarrow> ('p, 'v option \<times> 'c) outcome"
    and put :: "'k \<Rightarrow> 'v \<Rightarrow> 'c \<Rightarrow> ('p, 'c) outcome"
    and valid :: "'c \<Rightarrow> bool"
    and held :: "'c \<Rightarrow> 'k \<rightharpoonup> 'v"
  assumes get_held: "valid c \<Longrightarrow> \<exists>c'. get k c = Inr (held c k, c') \<and> valid c' \<and> held c' = held c"
    and put_held: "valid c \<Longrightarrow> \<exists>c'. put k v c = Inr c' \<and> valid c' \<and> held c' \<subseteq>\<^sub>m (held c)(k \<mapsto> v)"

context bounded_map
begin

lemma put_only:
  assumes "valid c"
  shows "\<exists>c'. put k v c = Inr c' \<and> valid c' \<and> (\<forall>j w. held c' j = Some w \<longrightarrow> j = k \<and> w = v \<or> j \<noteq> k \<and> held c j = Some w)"
proof -
  obtain c' where c': "put k v c = Inr c'" "valid c'" "held c' \<subseteq>\<^sub>m (held c)(k \<mapsto> v)" using put_held [OF assms] by blast
  have "j = k \<and> w = v \<or> j \<noteq> k \<and> held c j = Some w" if "held c' j = Some w" for j w
  proof -
    have "((held c)(k \<mapsto> v)) j = Some w" using c'(3) that unfolding map_le_def by (metis domI)
    then show ?thesis by (cases "j = k") auto
  qed
  then show ?thesis using c'(1,2) by blast
qed

end

definition lru_held :: "('k, 'v) lru \<Rightarrow> 'k \<rightharpoonup> 'v" where
  "lru_held c = map_of (items c)"

lemma map_of_filter_neq: "map_of (filter (\<lambda>p. fst p \<noteq> k) xs) = (map_of xs)(k := None)"
  by (induction xs) auto

lemma map_of_bring_front: "map_of (bring_front k xs) = map_of xs"
proof (cases "map_of xs k")
  case (Some v)
  then show ?thesis unfolding bring_front_def by (simp add: map_of_filter_neq fun_upd_idem)
qed (simp add: bring_front_def)

lemma map_of_take_le: "map_of (take n xs) \<subseteq>\<^sub>m map_of xs"
proof -
  have "map_of ys k = Some v \<Longrightarrow> map_of (ys @ zs) k = Some v" for ys zs :: "('a \<times> 'b) list" and k v
    by (simp add: map_add_Some_iff)
  from this [of "take n xs" _ _ "drop n xs"] have "map_of (take n xs) k = Some v \<Longrightarrow> map_of xs k = Some v" for k v
    by (simp only: append_take_drop_id)
  then show ?thesis by (auto simp: map_le_def dom_def)
qed

interpretation lru_map: bounded_map lru_get lru_put lru_inv lru_held
proof unfold_locales
  fix c :: "('k, 'v) lru" and k
  assume "lru_inv c"
  from lru_get_refines [OF this, of k] obtain c' where
    c': "lru_get k c = Inr (map_of (items c) k, c')" "lru_inv c'" "items c' = bring_front k (items c)" by blast
  have "lru_held c' = lru_held c" unfolding lru_held_def c'(3) by (rule map_of_bring_front)
  with c'(1,2) show "\<exists>c'. lru_get k c = Inr (lru_held c k, c') \<and> lru_inv c' \<and> lru_held c' = lru_held c"
    unfolding lru_held_def by blast
next
  fix c :: "('k, 'v) lru" and k v
  assume "lru_inv c"
  from lru_put_refines [OF this, of k v] obtain c' where
    c': "lru_put k v c = Inr c'" "lru_inv c'" "items c' = put_front (nat (capacity c)) k v (items c)" by blast
  have le: "map_of (take n xs) \<subseteq>\<^sub>m map_of xs" for n and xs :: "('k \<times> 'v) list"
    by (rule map_of_take_le)
  have "map_of ((k, v) # filter (\<lambda>p. fst p \<noteq> k) (items c)) = (lru_held c)(k \<mapsto> v)"
    by (simp add: map_of_filter_neq lru_held_def)
  then have "lru_held c' \<subseteq>\<^sub>m (lru_held c)(k \<mapsto> v)"
    using le [of "nat (capacity c)" "(k, v) # filter (\<lambda>p. fst p \<noteq> k) (items c)"] c'(3)
    by (simp only: lru_held_def put_front_def)
  then show "\<exists>c'. lru_put k v c = Inr c' \<and> lru_inv c' \<and> lru_held c' \<subseteq>\<^sub>m (lru_held c)(k \<mapsto> v)" using c' by blast
qed

end
