(* ===== verification/Symbol_Facts.thy ===== *)
theory Symbol_Facts
  imports Go_Prelude "HOL-Library.Word"
begin

text \<open>
  The symbol handles a pipeline has seen (\<open>symbolFacts\<close> of \<open>query/index_cache.go\<close> and \<open>handlesOf\<close> of
  \<open>query/module_index_handles.go\<close>): two maps that stay inverse to each other, and the lookup that reads only the ids
  they lack. The database lookup is an argument; the errors carry what the messages name.
\<close>

datatype facts_error =
  HandleMoved gostring "64 word" "64 word"
| HandleTaken "64 word" gostring gostring
| LookupFailed gostring

record 'r symbol_facts =
  KnownRows :: "gostring \<rightharpoonup> 'r"
  KnownNames :: "gostring \<rightharpoonup> gostring"
  ById :: "gostring \<rightharpoonup> 64 word"
  ByHandle :: "64 word \<rightharpoonup> gostring"

definition newSymbolFacts :: "'r symbol_facts" where
  "newSymbolFacts = \<lparr> KnownRows = Map.empty, KnownNames = Map.empty, ById = Map.empty, ByHandle = Map.empty \<rparr>"

text \<open>A failing operation keeps what it recorded before, so every operation returns the facts beside its error.\<close>

type_synonym 'r facts_action = "'r symbol_facts \<Rightarrow> facts_error option \<times> 'r symbol_facts"

definition differs :: "'b option \<Rightarrow> 'b \<Rightarrow> bool" where
  "differs known x \<longleftrightarrow> (case known of None \<Rightarrow> False | Some y \<Rightarrow> y \<noteq> x)"

definition addHandle :: "gostring \<Rightarrow> 64 word \<Rightarrow> 'r facts_action" where
  "addHandle i h f =
     (if differs (ById f i) h then (Some (HandleMoved i h (the (ById f i))), f)
      else if differs (ByHandle f h) i then (Some (HandleTaken h i (the (ByHandle f h))), f)
      else (None, f\<lparr> ById := (ById f)(i \<mapsto> h), ByHandle := (ByHandle f)(h \<mapsto> i) \<rparr>))"

text \<open>\<open>keepHandles\<close> over a map's entries in the order it is ranged over.\<close>

fun keepHandles :: "(gostring \<times> 64 word) list \<Rightarrow> 'r facts_action" where
  "keepHandles [] f = (None, f)"
| "keepHandles ((i, h) # ps) f =
     (case addHandle i h f of
        (Some e, f') \<Rightarrow> (Some e, f')
      | (None, f') \<Rightarrow> keepHandles ps f')"

fun keepRows :: "('r \<Rightarrow> gostring) \<Rightarrow> ('r \<Rightarrow> 64 word) \<Rightarrow> 'r list \<Rightarrow> 'r facts_action" where
  "keepRows ident handle [] f = (None, f)"
| "keepRows ident handle (r # rs) f =
     (case addHandle (ident r) (handle r) f of
        (Some e, f') \<Rightarrow> (Some e, f')
      | (None, f') \<Rightarrow> keepRows ident handle rs (f'\<lparr> KnownRows := (KnownRows f')(ident r \<mapsto> r) \<rparr>))"

definition keepName :: "gostring \<Rightarrow> gostring \<Rightarrow> 'r symbol_facts \<Rightarrow> 'r symbol_facts" where
  "keepName i name f = f\<lparr> KnownNames := (KnownNames f)(i \<mapsto> name) \<rparr>"

text \<open>\<open>slices.Sort\<close> and \<open>slices.Compact\<close> over \<open>int64\<close>.\<close>

definition compact_sort :: "64 word list \<Rightarrow> 64 word list" where
  "compact_sort hs = remdups_adj (sort_key sint hs)"

definition handlesOf :: "(gostring list \<Rightarrow> (facts_error, (gostring \<times> 64 word) list) outcome) \<Rightarrow> gostring list
    \<Rightarrow> 'r symbol_facts \<Rightarrow> (facts_error, 64 word list) outcome \<times> 'r symbol_facts" where
  "handlesOf SymbolHandles ids f =
     (let known = List.map_filter (ById f) ids;
          missing = filter (\<lambda>i. ById f i = None) ids
      in (case SymbolHandles (remdups_adj (sort missing)) of
            Inl e \<Rightarrow> (Inl e, f)
          | Inr loaded \<Rightarrow>
              (case keepHandles loaded f of
                 (Some e, f') \<Rightarrow> (Inl e, f')
               | (None, f') \<Rightarrow> (Inr (compact_sort (known @ map snd loaded)), f'))))"

subsection \<open>One handle for one id\<close>

definition paired :: "'r symbol_facts \<Rightarrow> (gostring \<times> 64 word) set" where
  "paired f = {(i, h). ById f i = Some h}"

definition inverse_maps :: "'r symbol_facts \<Rightarrow> bool" where
  "inverse_maps f \<longleftrightarrow> (\<forall>i h. ById f i = Some h \<longleftrightarrow> ByHandle f h = Some i)"

definition one_to_one :: "('a \<times> 'b) set \<Rightarrow> bool" where
  "one_to_one R \<longleftrightarrow> (\<forall>(a, b) \<in> R. \<forall>(c, d) \<in> R. a = c \<longleftrightarrow> b = d)"

lemma one_to_oneD: "one_to_one R \<Longrightarrow> (a, b) \<in> R \<Longrightarrow> (c, d) \<in> R \<Longrightarrow> a = c \<longleftrightarrow> b = d"
  unfolding one_to_one_def by blast

lemma one_to_one_subset: "one_to_one R \<Longrightarrow> S \<subseteq> R \<Longrightarrow> one_to_one S"
  unfolding one_to_one_def by blast

lemma inverse_one_to_one: "inverse_maps f \<Longrightarrow> one_to_one (paired f)"
  by (auto simp: inverse_maps_def one_to_one_def paired_def) (metis option.inject)+

lemma inverseD: "inverse_maps f \<Longrightarrow> ById f i = Some h \<Longrightarrow> ByHandle f h = Some i"
  by (simp add: inverse_maps_def)

lemma addHandle_ok:
  assumes "inverse_maps f"
  shows "fst (addHandle i h f) = None \<longleftrightarrow> one_to_one (insert (i, h) (paired f))"
proof
  assume "fst (addHandle i h f) = None"
  then have "ById f i = None \<or> ById f i = Some h" "ByHandle f h = None \<or> ByHandle f h = Some i"
    by (auto simp: addHandle_def differs_def split: if_splits option.splits)
  then show "one_to_one (insert (i, h) (paired f))"
    using inverse_one_to_one [OF assms] inverseD [OF assms] by (auto simp: one_to_one_def paired_def)
next
  assume one: "one_to_one (insert (i, h) (paired f))"
  have "\<not> differs (ById f i) h" using one_to_oneD [OF one, of i h i] by (auto simp: differs_def paired_def split: option.splits)
  moreover have "\<not> differs (ByHandle f h) i"
    using one_to_oneD [OF one, of i h _ h] assms by (auto simp: differs_def paired_def inverse_maps_def split: option.splits)
  ultimately show "fst (addHandle i h f) = None" by (simp add: addHandle_def)
qed

lemma addHandle_keeps:
  assumes "inverse_maps f"
  shows "inverse_maps (snd (addHandle i h f))"
    and "fst (addHandle i h f) = None \<Longrightarrow> paired (snd (addHandle i h f)) = insert (i, h) (paired f)"
proof -
  show "inverse_maps (snd (addHandle i h f))"
  proof (cases "fst (addHandle i h f) = None")
    case True
    have "one_to_one (insert (i, h) (paired f))" using True addHandle_ok [OF assms] by simp
    then show ?thesis
      using True assms
      by (auto simp: addHandle_def inverse_maps_def one_to_one_def paired_def split: if_splits)
  next
    case False
    then show ?thesis using assms by (auto simp: addHandle_def split: if_splits)
  qed
  assume "fst (addHandle i h f) = None"
  then show "paired (snd (addHandle i h f)) = insert (i, h) (paired f)"
    by (auto simp: addHandle_def paired_def differs_def split: if_splits option.splits)
qed

text \<open>C29: the two maps stay inverse to each other whatever is added, also when adding fails; adding succeeds exactly
  when the old and new pairs together give every id one handle and every handle one id, whatever order they come in,
  and then records exactly them.\<close>

theorem keepHandles_one_to_one:
  "inverse_maps f \<Longrightarrow>
     inverse_maps (snd (keepHandles ps f)) \<and>
     (fst (keepHandles ps f) = None \<longleftrightarrow> one_to_one (paired f \<union> set ps)) \<and>
     (fst (keepHandles ps f) = None \<longrightarrow> paired (snd (keepHandles ps f)) = paired f \<union> set ps)"
proof (induction ps arbitrary: f)
  case Nil
  then show ?case by (simp add: inverse_one_to_one)
next
  case (Cons p ps)
  obtain i h where p: "p = (i, h)" by fastforce
  obtain r f' where step: "addHandle i h f = (r, f')" by fastforce
  have inv: "inverse_maps f'" using addHandle_keeps(1) [OF Cons.prems, of i h] step by simp
  show ?case
  proof (cases r)
    case None
    then have "paired f' = insert (i, h) (paired f)" using addHandle_keeps(2) [OF Cons.prems, of i h] step by simp
    then show ?thesis using Cons.IH [OF inv] None step p by simp
  next
    case (Some e)
    then have "\<not> one_to_one (insert (i, h) (paired f))" using addHandle_ok [OF Cons.prems, of i h] step by simp
    then have "\<not> one_to_one (paired f \<union> set (p # ps))" using one_to_one_subset p by (metis Un_iff insertE insertI1 list.set_intros(1) subsetI)
    then show ?thesis using Some step p inv by simp
  qed
qed

theorem keepHandles_one_to_one_witness:
  "inverse_maps (newSymbolFacts :: unit symbol_facts) \<and>
   (fst (keepHandles [(''a'', 1), (''b'', 1)] (newSymbolFacts :: unit symbol_facts)) = None
      \<longleftrightarrow> one_to_one (paired (newSymbolFacts :: unit symbol_facts) \<union> set [(''a'', 1), (''b'', 1)]))"
  using keepHandles_one_to_one [of "newSymbolFacts :: unit symbol_facts" "[(''a'', 1), (''b'', 1)]"]
  by (simp add: inverse_maps_def newSymbolFacts_def)

subsection \<open>The handles of ids\<close>

text \<open>The facts hold a part of a registry that gives every id at most one handle and no handle to two ids; the lookup
  of \<open>storage.SymbolHandles\<close> returns the handle of each id asked about, and an unknown id is an error.\<close>

definition looks_up :: "(gostring \<rightharpoonup> 64 word) \<Rightarrow> (gostring list \<Rightarrow> (facts_error, (gostring \<times> 64 word) list) outcome) \<Rightarrow> bool" where
  "looks_up R lookup \<longleftrightarrow>
     (\<forall>ids loaded. lookup ids = Inr loaded \<longrightarrow> set ids \<subseteq> dom R \<and> set loaded = {(i, h). i \<in> set ids \<and> R i = Some h})"

definition agree :: "(gostring \<rightharpoonup> 64 word) \<Rightarrow> 'r symbol_facts \<Rightarrow> bool" where
  "agree R f \<longleftrightarrow> inverse_maps f \<and> ById f \<subseteq>\<^sub>m R"

lemma le_Some: "m \<subseteq>\<^sub>m R \<Longrightarrow> m i = Some h \<Longrightarrow> R i = Some h"
  unfolding map_le_def by (metis domI)

lemma strict_remdups_adj: "sorted xs \<Longrightarrow> sorted_wrt (<) (remdups_adj xs)" for xs :: "'a::linorder list"
  by (induction xs rule: remdups_adj.induct) (auto simp: order.strict_iff_order)

lemma compact_sort_strict: "sorted_wrt (<) (map sint (compact_sort xs))"
  using strict_remdups_adj [of "map sint (sort_key sint xs)"]
  by (simp add: compact_sort_def remdups_adj_map_injective [OF inj_signed])

lemma compact_sort_cong: "set xs = set ys \<Longrightarrow> compact_sort xs = compact_sort ys"
proof -
  assume "set xs = set ys"
  then have "set (map sint (compact_sort xs)) = set (map sint (compact_sort ys))" by (simp add: compact_sort_def)
  then have "map sint (compact_sort xs) = map sint (compact_sort ys)"
    by (intro strict_sorted_equal compact_sort_strict)
  then show ?thesis using inj_signed by (metis inj_map_eq_map)
qed

lemma set_map_filter_Some: "set (List.map_filter m xs) = {h. \<exists>i \<in> set xs. m i = Some h}"
  by (induction xs) (auto simp: List.map_filter_simps split: option.split)

lemma agree_new: "agree R newSymbolFacts"
  by (simp add: agree_def inverse_maps_def newSymbolFacts_def)

lemma keepHandles_agree:
  assumes "agree R f" "inj_on R (dom R)" "\<And>i h. (i, h) \<in> set ps \<Longrightarrow> R i = Some h"
  shows "fst (keepHandles ps f) = None \<and> agree R (snd (keepHandles ps f))"
  using assms(1,3)
proof (induction ps arbitrary: f)
  case (Cons p ps)
  obtain i h where p: "p = (i, h)" by fastforce
  then have R: "R i = Some h" using Cons.prems(2) by simp
  have inv: "inverse_maps f" and le: "ById f \<subseteq>\<^sub>m R" using Cons.prems(1) by (simp_all add: agree_def)
  have 1: "\<not> differs (ById f i) h" using R le by (auto simp: differs_def map_le_def dom_def split: option.split)
  have 2: "\<not> differs (ByHandle f h) i"
  proof (cases "ByHandle f h")
    case (Some j)
    then have "ById f j = Some h" using inv by (simp add: inverse_maps_def)
    then have "R j = Some h" by (rule le_Some [OF le])
    then show ?thesis using Some R assms(2) by (auto simp: differs_def inj_on_def dom_def)
  qed (simp add: differs_def)
  have ok: "fst (addHandle i h f) = None" using 1 2 by (simp add: addHandle_def)
  obtain f' where f': "addHandle i h f = (None, f')" using ok by (cases "addHandle i h f") simp
  have "ById f' = (ById f)(i \<mapsto> h)" using f' 1 2 by (auto simp: addHandle_def)
  then have "ById f' \<subseteq>\<^sub>m R" using le R by (auto simp: map_le_def)
  then have "agree R f'" using addHandle_keeps(1) [OF inv, of i h] f' by (simp add: agree_def)
  then show ?case using Cons.IH Cons.prems(2) f' p by simp
qed simp

lemma handlesOf_right:
  assumes f: "agree R f" and inj: "inj_on R (dom R)" and lk: "looks_up R lookup"
  shows "case handlesOf lookup ids f of
      (Inl e, f') \<Rightarrow> (\<exists>asked. lookup asked = Inl e) \<and> f' = f
    | (Inr hs, f') \<Rightarrow> agree R f' \<and> set ids \<subseteq> dom R \<and> hs = compact_sort (map (the \<circ> R) ids)"
proof -
  let ?missing = "filter (\<lambda>i. ById f i = None) ids"
  let ?asked = "remdups_adj (sort ?missing)"
  show ?thesis
  proof (cases "lookup ?asked")
    case (Inl e)
    then show ?thesis by (auto simp: handlesOf_def Let_def)
  next
    case (Inr loaded)
    have L: "set ?asked \<subseteq> dom R" "set loaded = {(i, h). i \<in> set ?asked \<and> R i = Some h}"
      using lk Inr unfolding looks_up_def by blast+
    then have pairs: "R i = Some h" if "(i, h) \<in> set loaded" for i h using that by auto
    obtain f' where f': "keepHandles loaded f = (None, f')" "agree R f'"
      using keepHandles_agree [OF f inj, of loaded] pairs by (cases "keepHandles loaded f") auto
    let ?all = "List.map_filter (ById f) ids @ map snd loaded"
    have "ById f \<subseteq>\<^sub>m R" using f by (simp add: agree_def)
    note le = le_Some [OF this]
    have known: "\<exists>h. R i = Some h \<and> h \<in> set ?all" if "i \<in> set ids" for i
    proof (cases "ById f i")
      case None
      then have "i \<in> set ?asked" using that by simp
      then obtain h where "R i = Some h" "(i, h) \<in> set loaded" using L by blast
      then show ?thesis by (auto intro: image_eqI [where x = "(i, h)"])
    next
      case (Some h)
      then show ?thesis using le that by (auto simp: set_map_filter_Some)
    qed
    have sound: "\<exists>i \<in> set ids. R i = Some h" if "h \<in> set ?all" for h
      using that le L(2) by (auto simp: set_map_filter_Some)
    have dom: "set ids \<subseteq> dom R" using known by blast
    have "set ?all = the ` R ` set ids"
    proof (intro set_eqI iffI)
      fix h assume "h \<in> set ?all"
      then obtain i where "i \<in> set ids" "R i = Some h" using sound by blast
      then show "h \<in> the ` R ` set ids" by (intro image_eqI [where x = "R i"] image_eqI [where x = i]) simp_all
    next
      fix h assume "h \<in> the ` R ` set ids"
      then obtain i where i: "i \<in> set ids" "h = the (R i)" by blast
      obtain g where "R i = Some g" "g \<in> set ?all" using known [OF i(1)] by blast
      then show "h \<in> set ?all" using i(2) by simp
    qed
    then have "compact_sort ?all = compact_sort (map (the \<circ> R) ids)" by (intro compact_sort_cong) (simp add: image_image)
    then show ?thesis using Inr f' dom by (simp add: handlesOf_def Let_def compact_sort_def)
  qed
qed

end
