(* ===== verification/Index_Cache.thy ===== *)
theory Index_Cache
  imports LRU_Cache Symbol_Facts Go_Numbers
begin

text \<open>
  What one query pipeline keeps between queries (\<open>indexCache\<close> of \<open>query/index_cache.go\<close>, \<open>definedBy\<close>): the
  generation a token of the database's heads decides, the facts of the snapshots asked about, and the handles of the
  symbols seen. What \<open>storage\<close> reads from the database is an argument, one result per read, which may fail. The
  pointers to a snapshot's facts are addresses of a store, since a query keeps them after the map drops them. The decoded
  documents and build headers, which other files fill, are left out. Queries
  run one after the other; the locks make each step atomic.
\<close>

subsection \<open>What is read from the database\<close>

type_synonym uuid = gostring

record location_head =
  HeadRoot :: uuid
  HeadLocation :: uuid
  HeadSnapshot :: uuid
  HeadVersion :: "64 word"

record module_primary =
  PrimaryRoot :: uuid
  PrimaryLocation :: uuid

record registrations =
  RegLayout :: "gostring option"
  RegPrunes :: "64 word"
  RegKinds :: "64 word"
  RegRoots :: "64 word"
  RegLocations :: "64 word"

record cache_token =
  TokHeads :: gostring
  TokLayout :: gostring
  TokPrunes :: "64 word"
  TokKinds :: "64 word"
  TokRoots :: "64 word"
  TokLocations :: "64 word"

datatype cache_error =
  ReadFailed gostring
| NoLayout
| FactsError facts_error
| UnknownModule "32 word"
| CachePanic

text \<open>A scope selection that depends only on the registrations and heads.\<close>

record selection_key =
  KeyRoot :: gostring
  KeySnapshot :: gostring
  KeyAllHeads :: bool

record ('k, 'd, 's) index_db =
  DbHeads :: "(cache_error, location_head list) outcome"
  DbPrimaries :: "(cache_error, module_primary list) outcome"
  DbRegistrations :: "(cache_error, registrations) outcome"
  DbKinds :: "(cache_error, 'k) outcome"
  DbActive :: "uuid \<Rightarrow> (cache_error, (uuid \<times> 'd) list) outcome"
  DbDefined :: "uuid \<Rightarrow> 64 word list \<Rightarrow> (cache_error, 64 word list) outcome"
  DbHandles :: "gostring list \<Rightarrow> (facts_error, (gostring \<times> 64 word) list) outcome"
  DbModules :: "(cache_error, (32 word \<times> gostring) list) outcome"
  DbSelect :: "selection_key \<Rightarrow> (cache_error, 's) outcome"

subsection \<open>The cache token\<close>

definition newline :: char where
  "newline = CHR 0x0A"

definition head_fields :: "location_head \<Rightarrow> gostring list" where
  "head_fields h = [HeadLocation h, HeadSnapshot h, itoa (sint (HeadVersion h))]"

definition primary_fields :: "module_primary \<Rightarrow> gostring list" where
  "primary_fields p = [PrimaryRoot p, ''>'', PrimaryLocation p]"

definition token_line :: "gostring list \<Rightarrow> gostring" where
  "token_line words = join_with '' '' words @ [newline]"

definition readCacheToken :: "('k, 'd, 's) index_db \<Rightarrow> (cache_error, cache_token) outcome" where
  "readCacheToken db =
     and_then (DbHeads db) (\<lambda>heads.
     and_then (DbPrimaries db) (\<lambda>primaries.
     and_then (DbRegistrations db) (\<lambda>counts.
       (case RegLayout counts of
          None \<Rightarrow> Inl NoLayout
        | Some layout \<Rightarrow>
            Inr \<lparr> TokHeads = concat (map (token_line \<circ> head_fields) heads) @ concat (map (token_line \<circ> primary_fields) primaries),
                  TokLayout = layout, TokPrunes = RegPrunes counts, TokKinds = RegKinds counts,
                  TokRoots = RegRoots counts, TokLocations = RegLocations counts \<rparr>))))"

subsection \<open>What a snapshot's queries keep\<close>

record 'd snapshot_facts =
  FactDocuments :: "uuid \<rightharpoonup> 'd"
  FactDefined :: "64 word \<rightharpoonup> bool"

record ('k, 's) generation =
  GenToken :: cache_token
  GenKinds :: 'k
  GenSelections :: "selection_key \<rightharpoonup> 's"

record ('k, 'd, 's) index_cache =
  Generation :: "('k, 's) generation option"
  Symbols :: "unit symbol_facts"
  Modules :: "32 word \<rightharpoonup> gostring"
  Snapshots :: "(uuid, nat) lru"
  Facts :: "nat \<rightharpoonup> 'd snapshot_facts"
  NextFacts :: nat

type_synonym ('k, 'd, 's, 'a) cache_action = "('k, 'd, 's) index_cache \<Rightarrow> (cache_error, 'a) outcome \<times> ('k, 'd, 's) index_cache"

definition then_do :: "('k, 'd, 's, 'a) cache_action \<Rightarrow> ('a \<Rightarrow> ('k, 'd, 's, 'b) cache_action) \<Rightarrow> ('k, 'd, 's, 'b) cache_action" where
  "then_do m f c = (case m c of (Inl e, c') \<Rightarrow> (Inl e, c') | (Inr a, c') \<Rightarrow> f a c')"

definition snapshotCacheSize :: int where
  "snapshotCacheSize = 256"

text \<open>\<open>reset\<close> leaves the generation, and the facts that queries still point at.\<close>

definition reset :: "('k, 'd, 's) index_cache \<Rightarrow> ('k, 'd, 's) index_cache" where
  "reset c = c\<lparr> Symbols := newSymbolFacts, Modules := Map.empty, Snapshots := newLRU snapshotCacheSize \<rparr>"

definition newIndexCache :: "('k, 'd, 's) index_cache" where
  "newIndexCache = reset \<lparr> Generation = None, Symbols = newSymbolFacts, Modules = Map.empty, Snapshots = newLRU 0, Facts = Map.empty, NextFacts = 0 \<rparr>"

definition renew :: "('k, 'd, 's) index_db \<Rightarrow> cache_token \<Rightarrow> ('k, 'd, 's, ('k, 's) generation) cache_action" where
  "renew db token c =
     (case DbKinds db of
        Inl e \<Rightarrow> (Inl e, c)
      | Inr kinds \<Rightarrow>
          let g = \<lparr> GenToken = token, GenKinds = kinds, GenSelections = Map.empty \<rparr>;
              c' = (case Generation c of
                      None \<Rightarrow> c
                    | Some kept \<Rightarrow>
                        if TokLayout (GenToken kept) \<noteq> TokLayout token \<or> TokPrunes (GenToken kept) \<noteq> TokPrunes token
                        then reset c else c)
          in (Inr g, c'\<lparr> Generation := Some g \<rparr>))"

definition current_generation :: "('k, 'd, 's) index_db \<Rightarrow> ('k, 'd, 's, ('k, 's) generation) cache_action" where
  "current_generation db c =
     (case readCacheToken db of
        Inl e \<Rightarrow> (Inl e, c)
      | Inr token \<Rightarrow>
          (case Generation c of
             None \<Rightarrow> renew db token c
           | Some kept \<Rightarrow> if GenToken kept = token then (Inr kept, c) else renew db token c))"

definition documents_of :: "(uuid \<times> 'd) list \<Rightarrow> uuid \<rightharpoonup> 'd" where
  "documents_of rows = fold (\<lambda>(sid, d) m. m(sid \<mapsto> d)) rows Map.empty"

definition snapshot :: "('k, 'd, 's) index_db \<Rightarrow> uuid \<Rightarrow> ('k, 'd, 's, nat) cache_action" where
  "snapshot db sid c =
     (case lru_get sid (Snapshots c) of
        Inl _ \<Rightarrow> (Inl CachePanic, c)
      | Inr (Some facts, l) \<Rightarrow> (Inr facts, c\<lparr> Snapshots := l \<rparr>)
      | Inr (None, l) \<Rightarrow>
          (case DbActive db sid of
             Inl e \<Rightarrow> (Inl e, c\<lparr> Snapshots := l \<rparr>)
           | Inr rows \<Rightarrow>
               let facts = NextFacts c in
               (case lru_put sid facts l of
                  Inl _ \<Rightarrow> (Inl CachePanic, c)
                | Inr l' \<Rightarrow>
                    (Inr facts,
                     c\<lparr> Snapshots := l', NextFacts := Suc facts,
                        Facts := (Facts c)(facts \<mapsto> \<lparr> FactDocuments = documents_of rows, FactDefined = Map.empty \<rparr>) \<rparr>))))"

text \<open>\<open>definedBy\<close> asks the database only for the handles the snapshot's facts have not seen.\<close>

definition mark :: "bool \<Rightarrow> 64 word list \<Rightarrow> (64 word \<rightharpoonup> bool) \<Rightarrow> (64 word \<rightharpoonup> bool)" where
  "mark b hs m = fold (\<lambda>h m. m(h \<mapsto> b)) hs m"

definition definedBy :: "('k, 'd, 's) index_db \<Rightarrow> uuid \<Rightarrow> nat \<Rightarrow> 64 word list \<Rightarrow> ('k, 'd, 's, 64 word set) cache_action" where
  "definedBy db sid facts handles c =
     (case Facts c facts of
        None \<Rightarrow> (Inl CachePanic, c)
      | Some f \<Rightarrow>
          let unknown = filter (\<lambda>h. FactDefined f h = None) handles in
          (case (if unknown = [] then Inr [] else DbDefined db sid unknown) of
             Inl e \<Rightarrow> (Inl e, c)
           | Inr found \<Rightarrow>
               let m = mark True found (mark False unknown (FactDefined f)) in
               (Inr (set (filter (\<lambda>h. m h = Some True) handles)), c\<lparr> Facts := (Facts c)(facts \<mapsto> f\<lparr> FactDefined := m \<rparr>) \<rparr>)))"

definition documents :: "nat \<Rightarrow> ('k, 'd, 's, uuid \<rightharpoonup> 'd) cache_action" where
  "documents facts c = (case Facts c facts of None \<Rightarrow> (Inl CachePanic, c) | Some f \<Rightarrow> (Inr (FactDocuments f), c))"

text \<open>A module's key is looked up again on a miss, since numbers are only ever added.\<close>

definition moduleKey :: "('k, 'd, 's) index_db \<Rightarrow> 32 word \<Rightarrow> ('k, 'd, 's, gostring) cache_action" where
  "moduleKey db n c =
     (case Modules c n of
        Some key \<Rightarrow> (Inr key, c)
      | None \<Rightarrow>
          (case DbModules db of
             Inl e \<Rightarrow> (Inl e, c)
           | Inr rows \<Rightarrow>
               let m = fold (\<lambda>(number, key) m. m(number \<mapsto> key)) rows (Modules c) in
               (case m n of None \<Rightarrow> Inl (UnknownModule n) | Some key \<Rightarrow> Inr key, c\<lparr> Modules := m \<rparr>)))"

definition handles_of :: "('k, 'd, 's) index_db \<Rightarrow> gostring list \<Rightarrow> ('k, 'd, 's, 64 word list) cache_action" where
  "handles_of db ids c =
     (case handlesOf (DbHandles db) ids (Symbols c) of
        (Inl e, f) \<Rightarrow> (Inl (FactsError e), c\<lparr> Symbols := f \<rparr>)
      | (Inr hs, f) \<Rightarrow> (Inr hs, c\<lparr> Symbols := f \<rparr>))"

text \<open>The scopes a query selects, kept by the generation it validated.\<close>

definition selection :: "('k, 'd, 's) index_db \<Rightarrow> selection_key \<Rightarrow> ('k, 'd, 's, 's) cache_action" where
  "selection db key c =
     (case Generation c of
        None \<Rightarrow> (Inl CachePanic, c)
      | Some g \<Rightarrow>
          (case GenSelections g key of
             Some s \<Rightarrow> (Inr s, c)
           | None \<Rightarrow>
               (case DbSelect db key of
                  Inl e \<Rightarrow> (Inl e, c)
                | Inr s \<Rightarrow> (Inr s, c\<lparr> Generation := Some (g\<lparr> GenSelections := (GenSelections g)(key \<mapsto> s) \<rparr>) \<rparr>))))"

subsection \<open>Queries\<close>

text \<open>A query validates the generation once, then asks for what it needs.\<close>

datatype request =
  AskDocuments uuid
| AskDefined uuid "64 word list"
| AskHandles "gostring list"
| AskModule "32 word"
| AskScopes selection_key

datatype ('d, 's) answer =
  Documents "uuid \<rightharpoonup> 'd"
| Defined "64 word set"
| Handles "64 word list"
| Module gostring
| Scopes 's

fun serve :: "('k, 'd, 's) index_db \<Rightarrow> request \<Rightarrow> ('k, 'd, 's, ('d, 's) answer) cache_action" where
  "serve db (AskDocuments sid) =
     then_do (snapshot db sid) (\<lambda>facts. then_do (documents facts) (\<lambda>ds c. (Inr (Documents ds), c)))"
| "serve db (AskDefined sid hs) =
     then_do (snapshot db sid) (\<lambda>facts. then_do (definedBy db sid facts hs) (\<lambda>ds c. (Inr (Defined ds), c)))"
| "serve db (AskHandles ids) = then_do (handles_of db ids) (\<lambda>hs c. (Inr (Handles hs), c))"
| "serve db (AskModule n) = then_do (moduleKey db n) (\<lambda>key c. (Inr (Module key), c))"
| "serve db (AskScopes key) = then_do (selection db key) (\<lambda>s c. (Inr (Scopes s), c))"

fun serve_all :: "('k, 'd, 's) index_db \<Rightarrow> request list \<Rightarrow> ('k, 'd, 's, ('d, 's) answer list) cache_action" where
  "serve_all db [] c = (Inr [], c)"
| "serve_all db (r # rs) c = then_do (serve db r) (\<lambda>a. then_do (serve_all db rs) (\<lambda>as c. (Inr (a # as), c))) c"

definition run_query :: "('k, 'd, 's) index_db \<Rightarrow> request list \<Rightarrow> ('k, 'd, 's, ('d, 's) answer list) cache_action" where
  "run_query db rs = then_do (current_generation db) (\<lambda>_. serve_all db rs)"

fun run_queries :: "(('k, 'd, 's) index_db \<times> request list) list \<Rightarrow> ('k, 'd, 's) index_cache \<Rightarrow> (cache_error, ('d, 's) answer list) outcome list" where
  "run_queries [] c = []"
| "run_queries ((db, rs) # qs) c = (case run_query db rs c of (r, c') \<Rightarrow> r # run_queries qs c')"

subsection \<open>The token\<close>

text \<open>A UUID's text has hexadecimal digits and dashes only.\<close>

definition uuid_text :: "gostring \<Rightarrow> bool" where
  "uuid_text s \<longleftrightarrow> s \<noteq> [] \<and> set s \<subseteq> set ''0123456789abcdef-''"

definition uuid_rows :: "('k, 'd, 's) index_db \<Rightarrow> bool" where
  "uuid_rows db \<longleftrightarrow>
     (\<forall>heads. DbHeads db = Inr heads \<longrightarrow> (\<forall>h \<in> set heads. uuid_text (HeadLocation h) \<and> uuid_text (HeadSnapshot h))) \<and>
     (\<forall>ps. DbPrimaries db = Inr ps \<longrightarrow> (\<forall>p \<in> set ps. uuid_text (PrimaryRoot p) \<and> uuid_text (PrimaryLocation p)))"

lemma uuid_text_chars: "uuid_text s \<Longrightarrow> CHR '' '' \<notin> set s \<and> newline \<notin> set s \<and> s \<noteq> ''>''"
  by (auto simp: uuid_text_def newline_def)

lemma itoa_chars: "c \<in> set (itoa i) \<Longrightarrow> c = CHR ''-'' \<or> is_digit c"
  using digits_digit by (auto simp: itoa_def split: if_splits)

lemma lines_inject:
  "concat (map (\<lambda>l. l @ [newline]) ls) = concat (map (\<lambda>l. l @ [newline]) ls') \<Longrightarrow>
     \<forall>l \<in> set ls. newline \<notin> set l \<Longrightarrow> \<forall>l \<in> set ls'. newline \<notin> set l \<Longrightarrow> ls = ls'"
proof (induction ls arbitrary: ls')
  case (Cons l ls)
  show ?case
  proof (cases ls')
    case (Cons l' rest)
    have eq: "split_on newline (l @ newline # concat (map (\<lambda>l. l @ [newline]) ls)) =
        split_on newline (l' @ newline # concat (map (\<lambda>l. l @ [newline]) rest))"
      using Cons.prems(1) Cons by simp
    have "l = l'" using eq Cons.prems(2,3) Cons by (simp add: split_on_append)
    then show ?thesis using Cons.IH [of rest] Cons.prems Cons by simp
  qed (use Cons.prems(1) in simp)
qed (simp add: concat_eq_Nil_conv)

lemma token_line_words:
  assumes "\<forall>w \<in> set ws. CHR '' '' \<notin> set w" "ws \<noteq> []"
  shows "split_on CHR '' '' (join_with '' '' ws) = ws"
  using split_join [OF assms(2)] assms(1) by blast

lemma join_newline: "\<forall>w \<in> set ws. newline \<notin> set w \<Longrightarrow> newline \<notin> set (join_with '' '' ws)"
  by (induction ws rule: induct_list012) (auto simp: newline_def)

lemma token_lines_inject:
  assumes "concat (map token_line rs) = concat (map token_line rs')"
    and "\<forall>ws \<in> set rs \<union> set rs'. ws \<noteq> [] \<and> (\<forall>w \<in> set ws. CHR '' '' \<notin> set w \<and> newline \<notin> set w)"
  shows "rs = rs'"
proof -
  have "concat (map (\<lambda>l. l @ [newline]) (map (join_with '' '') rs)) = concat (map (\<lambda>l. l @ [newline]) (map (join_with '' '') rs'))"
    using assms(1) by (simp add: comp_def token_line_def [abs_def])
  then have "map (join_with '' '') rs = map (join_with '' '') rs'"
    by (rule lines_inject) (use assms(2) join_newline in auto)
  then have "map (split_on CHR '' '' \<circ> join_with '' '') rs = map (split_on CHR '' '' \<circ> join_with '' '') rs'"
    by (metis map_map)
  moreover have "map (split_on CHR '' '' \<circ> join_with '' '') xs = xs" if "set xs \<subseteq> set rs \<union> set rs'" for xs
    using that assms(2) by (intro map_idI) (auto intro!: token_line_words)
  ultimately show ?thesis by simp
qed

lemma itoa_plain: "CHR '' '' \<notin> set (itoa i)" "newline \<notin> set (itoa i)"
  by (auto simp: newline_def is_digit_def byte_def dest: itoa_chars)

lemma newline_not_gt: "newline \<noteq> CHR ''>''"
  by (simp add: newline_def)

lemma fields_plain:
  "uuid_text (HeadLocation h) \<Longrightarrow> uuid_text (HeadSnapshot h) \<Longrightarrow> w \<in> set (head_fields h) \<Longrightarrow> CHR '' '' \<notin> set w \<and> newline \<notin> set w"
  "uuid_text (PrimaryRoot p) \<Longrightarrow> uuid_text (PrimaryLocation p) \<Longrightarrow> w \<in> set (primary_fields p) \<Longrightarrow> CHR '' '' \<notin> set w \<and> newline \<notin> set w"
   apply (simp add: head_fields_def)
   apply (elim disjE; simp add: uuid_text_chars itoa_plain)
  apply (simp add: primary_fields_def)
  apply (elim disjE; simp add: uuid_text_chars newline_not_gt)
  done

lemma map_determines:
  assumes "map f xs = map f ys" "\<And>a b. f a = f b \<Longrightarrow> g a = g b"
  shows "map g xs = map g ys"
  using assms(1)
proof (induction xs arbitrary: ys)
  case (Cons x xs)
  then obtain y ys' where y: "ys = y # ys'" "f x = f y" "map f xs = map f ys'" by (cases ys) auto
  show ?case unfolding y(1) list.map using assms(2) [OF y(2)] Cons.IH [OF y(3)] by simp
qed simp

lemma mixed_inject:
  assumes "map f xs @ map g ys = map f xs' @ map g ys'" "\<forall>x \<in> set xs \<union> set xs'. \<forall>y \<in> set ys \<union> set ys'. f x \<noteq> g y"
  shows "map f xs = map f xs' \<and> map g ys = map g ys'"
proof -
  have "length xs = length xs'"
  proof (rule linorder_cases [of "length xs" "length xs'"])
    assume l: "length xs < length xs'"
    have "(map f xs @ map g ys) ! length xs = (map f xs' @ map g ys') ! length xs" using assms(1) by simp
    moreover have "length xs < length (map f xs @ map g ys)" using l assms(1) by (metis le_trans length_append length_map not_less le_add1)
    ultimately have "g (ys ! 0) = f (xs' ! length xs)" "ys \<noteq> []" using l by (auto simp: nth_append)
    then show ?thesis using assms(2) l by (metis UnCI length_greater_0_conv nth_mem)
  next
    assume l: "length xs' < length xs"
    have "(map f xs @ map g ys) ! length xs' = (map f xs' @ map g ys') ! length xs'" using assms(1) by simp
    moreover have "length xs' < length (map f xs' @ map g ys')" using l assms(1) by (metis le_trans length_append length_map not_less le_add1)
    ultimately have "g (ys' ! 0) = f (xs ! length xs')" "ys' \<noteq> []" using l by (auto simp: nth_append)
    then show ?thesis using assms(2) l by (metis UnCI length_greater_0_conv nth_mem)
  qed simp
  then show ?thesis using assms(1) by simp
qed

text \<open>the token tells the database's heads, primaries and registrations apart: two databases with the same token have
  the same locations at the same snapshots and versions, the same primary locations, and the same layout and counts.\<close>

theorem token_determines:
  assumes "readCacheToken db = Inr t" "readCacheToken db' = Inr t" "uuid_rows db" "uuid_rows db'"
  shows "\<exists>heads heads' ps n n'.
      DbHeads db = Inr heads \<and> DbHeads db' = Inr heads' \<and>
      map (\<lambda>h. (HeadLocation h, HeadSnapshot h, HeadVersion h)) heads = map (\<lambda>h. (HeadLocation h, HeadSnapshot h, HeadVersion h)) heads' \<and>
      DbPrimaries db = Inr ps \<and> DbPrimaries db' = Inr ps \<and>
      DbRegistrations db = Inr n \<and> DbRegistrations db' = Inr n' \<and> n = n' \<and> RegLayout n = Some (TokLayout t)"
proof -
  obtain heads ps n where db: "DbHeads db = Inr heads" "DbPrimaries db = Inr ps" "DbRegistrations db = Inr n" "RegLayout n = Some (TokLayout t)"
    "TokHeads t = concat (map (token_line \<circ> head_fields) heads) @ concat (map (token_line \<circ> primary_fields) ps)"
    "TokPrunes t = RegPrunes n" "TokKinds t = RegKinds n" "TokRoots t = RegRoots n" "TokLocations t = RegLocations n"
    using assms(1) by (auto simp: readCacheToken_def outcome_simps split: option.splits)
  obtain heads' ps' n' where db': "DbHeads db' = Inr heads'" "DbPrimaries db' = Inr ps'" "DbRegistrations db' = Inr n'" "RegLayout n' = Some (TokLayout t)"
    "TokHeads t = concat (map (token_line \<circ> head_fields) heads') @ concat (map (token_line \<circ> primary_fields) ps')"
    "TokPrunes t = RegPrunes n'" "TokKinds t = RegKinds n'" "TokRoots t = RegRoots n'" "TokLocations t = RegLocations n'"
    using assms(2) by (auto simp: readCacheToken_def outcome_simps split: option.splits)
  have u: "\<forall>h \<in> set heads \<union> set heads'. uuid_text (HeadLocation h) \<and> uuid_text (HeadSnapshot h)"
    "\<forall>p \<in> set ps \<union> set ps'. uuid_text (PrimaryRoot p) \<and> uuid_text (PrimaryLocation p)"
    using assms(3,4) db(1,2) db'(1,2) by (auto simp: uuid_rows_def)
  have "concat (map token_line (map head_fields heads @ map primary_fields ps)) = concat (map token_line (map head_fields heads' @ map primary_fields ps'))"
    using db(5) db'(5) by simp
  then have "map head_fields heads @ map primary_fields ps = map head_fields heads' @ map primary_fields ps'"
  proof (rule token_lines_inject)
    show "\<forall>ws \<in> set (map head_fields heads @ map primary_fields ps) \<union> set (map head_fields heads' @ map primary_fields ps').
        ws \<noteq> [] \<and> (\<forall>w \<in> set ws. CHR '' '' \<notin> set w \<and> newline \<notin> set w)"
    proof (intro ballI)
      fix ws assume "ws \<in> set (map head_fields heads @ map primary_fields ps) \<union> set (map head_fields heads' @ map primary_fields ps')"
      then consider h where "h \<in> set heads \<union> set heads'" "ws = head_fields h" | p where "p \<in> set ps \<union> set ps'" "ws = primary_fields p"
        by auto
      then show "ws \<noteq> [] \<and> (\<forall>w \<in> set ws. CHR '' '' \<notin> set w \<and> newline \<notin> set w)"
      proof cases
        case 1
        then show ?thesis using fields_plain(1) [of h] u(1) by (simp add: head_fields_def [of h])
      next
        case 2
        then show ?thesis using fields_plain(2) [of p] u(2) by (simp add: primary_fields_def [of p])
      qed
    qed
  qed
  then have eq: "map head_fields heads = map head_fields heads' \<and> map primary_fields ps = map primary_fields ps'"
    by (rule mixed_inject) (use u uuid_text_chars in \<open>auto simp: head_fields_def primary_fields_def\<close>)
  have "head_fields h = head_fields h' \<Longrightarrow> (HeadLocation h, HeadSnapshot h, HeadVersion h) = (HeadLocation h', HeadSnapshot h', HeadVersion h')" for h h'
    by (auto simp: head_fields_def intro: signed_word_eqI)
  then have "map (\<lambda>h. (HeadLocation h, HeadSnapshot h, HeadVersion h)) heads = map (\<lambda>h. (HeadLocation h, HeadSnapshot h, HeadVersion h)) heads'"
    by (rule map_determines [OF conjunct1 [OF eq]])
  moreover have "inj primary_fields" by (auto simp: inj_def primary_fields_def)
  then have "ps = ps'" using eq by (simp add: inj_map_eq_map)
  ultimately show ?thesis using db db' by auto
qed

definition sample_db :: "(unit, nat, nat) index_db" where
  "sample_db = \<lparr>
     DbHeads = Inr [\<lparr> HeadRoot = ''a0'', HeadLocation = ''b0'', HeadSnapshot = ''c0'', HeadVersion = 3 \<rparr>],
     DbPrimaries = Inr [\<lparr> PrimaryRoot = ''a0'', PrimaryLocation = ''b0'' \<rparr>],
     DbRegistrations = Inr \<lparr> RegLayout = Some ''h64a'', RegPrunes = 0, RegKinds = 1, RegRoots = 1, RegLocations = 1 \<rparr>,
     DbKinds = Inr (), DbActive = (\<lambda>_. Inr [(''d0'', 1)]), DbDefined = (\<lambda>_ hs. Inr (filter (\<lambda>h. h = 3) hs)),
     DbHandles = (\<lambda>ids. if set ids \<subseteq> {''s''} then Inr (map (\<lambda>i. (i, 7)) ids) else Inl (LookupFailed ''symbols'')),
     DbModules = Inr [(1, ''m'')], DbSelect = (\<lambda>_. Inr 9) \<rparr>"

lemma sample_token: "\<exists>t. readCacheToken sample_db = Inr t"
  by (simp add: sample_db_def readCacheToken_def)

theorem token_determines_witness: "\<exists>heads. DbHeads sample_db = Inr heads \<and> uuid_rows sample_db"
proof -
  obtain t where t: "readCacheToken sample_db = Inr t" using sample_token by blast
  have rows: "uuid_rows sample_db" by (simp add: uuid_rows_def uuid_text_def sample_db_def)
  show ?thesis using token_determines [OF t t rows rows] rows by blast
qed

subsection \<open>Answers of a cached pipeline\<close>

text \<open>What is published while the handle layout stays and nothing is pruned never changes; what a scope selects stays
  while the token does.\<close>

record 'd published =
  PubDocuments :: "uuid \<Rightarrow> uuid \<rightharpoonup> 'd"
  PubDefined :: "uuid \<Rightarrow> 64 word set"
  PubHandles :: "gostring \<rightharpoonup> 64 word"
  PubModules :: "32 word \<rightharpoonup> gostring"

type_synonym 'd history = "gostring \<times> 64 word \<Rightarrow> 'd published"
type_synonym 's choices = "cache_token \<Rightarrow> selection_key \<Rightarrow> 's"

definition era :: "cache_token \<Rightarrow> gostring \<times> 64 word" where
  "era t = (TokLayout t, TokPrunes t)"

definition faithful :: "'d history \<Rightarrow> 's choices \<Rightarrow> cache_token \<Rightarrow> ('k, 'd, 's) index_db \<Rightarrow> bool" where
  "faithful P S t db \<longleftrightarrow>
     (\<forall>i rows. DbActive db i = Inr rows \<longrightarrow> documents_of rows = PubDocuments (P (era t)) i) \<and>
     (\<forall>i hs found. DbDefined db i hs = Inr found \<longrightarrow> set found = set hs \<inter> PubDefined (P (era t)) i) \<and>
     inj_on (PubHandles (P (era t))) (dom (PubHandles (P (era t)))) \<and> looks_up (PubHandles (P (era t))) (DbHandles db) \<and>
     (\<forall>rows. DbModules db = Inr rows \<longrightarrow> (\<forall>(n, key) \<in> set rows. PubModules (P (era t)) n = Some key)) \<and>
     (\<forall>key s. DbSelect db key = Inr s \<longrightarrow> s = S t key)"

fun right_answer :: "'d published \<Rightarrow> (selection_key \<Rightarrow> 's) \<Rightarrow> request \<Rightarrow> ('d, 's) answer" where
  "right_answer p S (AskDocuments i) = Documents (PubDocuments p i)"
| "right_answer p S (AskDefined i hs) = Defined (set hs \<inter> PubDefined p i)"
| "right_answer p S (AskHandles ids) = Handles (compact_sort (map (the \<circ> PubHandles p) ids))"
| "right_answer p S (AskModule n) = Module (the (PubModules p n))"
| "right_answer p S (AskScopes key) = Scopes (S key)"

text \<open>An error of a read of the database, or a number the registry lacks.\<close>

definition read_error :: "('k, 'd, 's) index_db \<Rightarrow> cache_error \<Rightarrow> bool" where
  "read_error db e \<longleftrightarrow>
     readCacheToken db = Inl e \<or> DbKinds db = Inl e \<or> (\<exists>i. DbActive db i = Inl e) \<or> (\<exists>i hs. DbDefined db i hs = Inl e) \<or>
     (\<exists>ids x. DbHandles db ids = Inl x \<and> e = FactsError x) \<or> DbModules db = Inl e \<or> (\<exists>key. DbSelect db key = Inl e) \<or>
     (\<exists>n rows. DbModules db = Inr rows \<and> n \<notin> fst ` set rows \<and> e = UnknownModule n)"

definition fact_ok :: "'d published \<Rightarrow> ('k, 'd, 's) index_cache \<Rightarrow> uuid \<Rightarrow> nat \<Rightarrow> bool" where
  "fact_ok p c i r \<longleftrightarrow>
     r < NextFacts c \<and>
     (\<exists>f. Facts c r = Some f \<and> FactDocuments f = PubDocuments p i \<and> (\<forall>h b. FactDefined f h = Some b \<longrightarrow> b = (h \<in> PubDefined p i)))"

definition store_ok :: "'d published \<Rightarrow> ('k, 'd, 's) index_cache \<Rightarrow> bool" where
  "store_ok p c \<longleftrightarrow>
     lru_inv (Snapshots c) \<and> (\<forall>i r. lru_held (Snapshots c) i = Some r \<longrightarrow> fact_ok p c i r) \<and>
     (\<forall>i j r. lru_held (Snapshots c) i = Some r \<longrightarrow> lru_held (Snapshots c) j = Some r \<longrightarrow> i = j) \<and>
     agree (PubHandles p) (Symbols c) \<and> (\<forall>n key. Modules c n = Some key \<longrightarrow> PubModules p n = Some key)"

definition cache_ok :: "'d history \<Rightarrow> 's choices \<Rightarrow> ('k, 'd, 's) index_cache \<Rightarrow> bool" where
  "cache_ok P S c \<longleftrightarrow>
     (case Generation c of
        None \<Rightarrow> \<forall>p. store_ok p c
      | Some g \<Rightarrow> store_ok (P (era (GenToken g))) c \<and> (\<forall>key s. GenSelections g key = Some s \<longrightarrow> s = S (GenToken g) key))"

text \<open>A cache within a query whose token is \<open>t\<close>.\<close>

definition within :: "'d history \<Rightarrow> 's choices \<Rightarrow> cache_token \<Rightarrow> ('k, 'd, 's) index_cache \<Rightarrow> bool" where
  "within P S t c \<longleftrightarrow> cache_ok P S c \<and> (\<exists>g. Generation c = Some g \<and> GenToken g = t)"

definition does :: "(('k, 'd, 's) index_cache \<Rightarrow> bool) \<Rightarrow> (cache_error \<Rightarrow> bool) \<Rightarrow> ('k, 'd, 's, 'a) cache_action
    \<Rightarrow> (('k, 'd, 's) index_cache \<Rightarrow> bool) \<Rightarrow> ('a \<Rightarrow> ('k, 'd, 's) index_cache \<Rightarrow> bool) \<Rightarrow> bool" where
  "does I E m J Q \<longleftrightarrow> (\<forall>c. I c \<longrightarrow> (case m c of (Inl e, c') \<Rightarrow> J c' \<and> E e | (Inr a, c') \<Rightarrow> J c' \<and> Q a c'))"

lemma doesD: "does I E m J Q \<Longrightarrow> I c \<Longrightarrow> case m c of (Inl e, c') \<Rightarrow> J c' \<and> E e | (Inr a, c') \<Rightarrow> J c' \<and> Q a c'"
  by (simp add: does_def)

lemma does_then:
  assumes "does I E m J Q" "\<And>a. does (\<lambda>c. J c \<and> Q a c) E (f a) J R"
  shows "does I E (then_do m f) J R"
  unfolding does_def
proof (intro allI impI)
  fix c assume "I c"
  obtain r c' where r: "m c = (r, c')" by fastforce
  show "case then_do m f c of (Inl e, c') \<Rightarrow> J c' \<and> E e | (Inr a, c') \<Rightarrow> J c' \<and> R a c'"
  proof (cases r)
    case (Inl e)
    then show ?thesis using assms(1) \<open>I c\<close> r unfolding does_def by (fastforce simp: then_do_def)
  next
    case (Inr a)
    then have "J c' \<and> Q a c'" using assms(1) \<open>I c\<close> r unfolding does_def by fastforce
    then show ?thesis using assms(2) [of a] r Inr unfolding does_def by (simp add: then_do_def)
  qed
qed

lemma does_return: "(\<And>c. I c \<Longrightarrow> J c \<and> Q a c) \<Longrightarrow> does I E (\<lambda>c. (Inr a, c)) J Q"
  by (simp add: does_def)

lemma fold_upd: "fold (\<lambda>(k, v) m. m(k \<mapsto> v)) ps m = m ++ map_of (rev ps)"
proof (induction ps arbitrary: m)
  case (Cons p ps)
  have "fold (\<lambda>(k, v) m. m(k \<mapsto> v)) (p # ps) m = fold (\<lambda>(k, v) m. m(k \<mapsto> v)) ps (m(fst p \<mapsto> snd p))"
    by (simp only: fold.simps comp_apply split_beta)
  also have "\<dots> = m(fst p \<mapsto> snd p) ++ map_of (rev ps)" by (rule Cons.IH)
  also have "\<dots> = m ++ map_of (rev (p # ps))"
    by (rule ext) (auto simp: map_add_def map_of_append split: option.split)
  finally show ?case .
qed simp

lemma fold_upd_Some:
  "fold (\<lambda>(k, v) m. m(k \<mapsto> v)) ps m k = Some v \<Longrightarrow> (k, v) \<in> set ps \<or> k \<notin> fst ` set ps \<and> m k = Some v"
  unfolding fold_upd by (auto simp: map_add_Some_iff map_of_eq_None_iff dest: map_of_SomeD)

lemma fold_upd_dom: "k \<in> fst ` set ps \<Longrightarrow> \<exists>v. fold (\<lambda>(k, v) m. m(k \<mapsto> v)) ps m k = Some v"
  unfolding fold_upd by (auto simp: map_add_def split: option.split) (metis (no_types) map_of_eq_None_iff set_rev fst_conv image_eqI not_None_eq)

lemma mark_apply: "mark b hs m h = (if h \<in> set hs then Some b else m h)"
  unfolding mark_def by (induction hs arbitrary: m) auto

lemma within_iff:
  "within P S t c \<longleftrightarrow>
     store_ok (P (era t)) c \<and> (\<exists>g. Generation c = Some g \<and> GenToken g = t \<and> (\<forall>key s. GenSelections g key = Some s \<longrightarrow> s = S t key))"
  by (auto simp: within_def cache_ok_def)

lemma snapshot_does:
  fixes db :: "('k, 'd, 's) index_db"
  assumes "faithful P S t db"
  shows "does (within P S t) (read_error db) (snapshot db i) (within P S t)
      (\<lambda>r c. fact_ok (P (era t)) c i r \<and> (\<forall>j. lru_held (Snapshots c) j = Some r \<longrightarrow> j = i))"
  unfolding does_def
proof (intro allI impI)
  fix c :: "('k, 'd, 's) index_cache"
  let ?p = "P (era t)"
  assume w: "within P S t c"
  then have st: "store_ok ?p c" by (simp add: within_iff)
  obtain l where l: "lru_get i (Snapshots c) = Inr (lru_held (Snapshots c) i, l)" "lru_inv l" "lru_held l = lru_held (Snapshots c)"
    using lru_map.get_held [of "Snapshots c" i] st by (auto simp: store_ok_def)
  have st': "store_ok ?p (c\<lparr> Snapshots := l \<rparr>)" using st l by (simp add: store_ok_def fact_ok_def)
  show "case snapshot db i c of (Inl e, c') \<Rightarrow> within P S t c' \<and> read_error db e
      | (Inr r, c') \<Rightarrow> within P S t c' \<and> fact_ok ?p c' i r \<and> (\<forall>j. lru_held (Snapshots c') j = Some r \<longrightarrow> j = i)"
  proof (cases "lru_held (Snapshots c) i")
    case (Some r)
    let ?c = "c\<lparr> Snapshots := l \<rparr>"
    have step: "snapshot db i c = (Inr r, ?c)" using l(1) Some by (simp add: snapshot_def)
    have held: "lru_held (Snapshots ?c) i = Some r" using l(3) Some by simp
    have "within P S t ?c" using st' w by (simp add: within_iff)
    moreover have "fact_ok ?p ?c i r" "\<forall>j. lru_held (Snapshots ?c) j = Some r \<longrightarrow> j = i"
      using st' held unfolding store_ok_def by blast+
    ultimately show ?thesis unfolding step by simp
  next
    case None
    show ?thesis
    proof (cases "DbActive db i")
      case (Inl e)
      then have "read_error db e" by (auto simp: read_error_def)
      moreover have "within P S t (c\<lparr> Snapshots := l \<rparr>)" using st' w by (simp add: within_iff)
      ultimately show ?thesis using l(1) None Inl by (simp add: snapshot_def)
    next
      case (Inr rows)
      obtain l' where l': "lru_put i (NextFacts c) l = Inr l'" "lru_inv l'"
        "\<forall>j r. lru_held l' j = Some r \<longrightarrow> j = i \<and> r = NextFacts c \<or> j \<noteq> i \<and> lru_held l j = Some r"
        using lru_map.put_only [OF l(2), of i "NextFacts c"] by blast
      let ?c = "c\<lparr> Snapshots := l', NextFacts := Suc (NextFacts c),
          Facts := (Facts c)(NextFacts c \<mapsto> \<lparr> FactDocuments = documents_of rows, FactDefined = Map.empty \<rparr>) \<rparr>"
      have old: "lru_held l j = Some r \<Longrightarrow> fact_ok ?p c j r \<and> r < NextFacts c" for j r
        using st l(3) by (auto simp: store_ok_def fact_ok_def)
      have new: "fact_ok ?p ?c i (NextFacts c)" using assms Inr by (simp add: fact_ok_def faithful_def)
      have keep: "fact_ok ?p c j r \<Longrightarrow> fact_ok ?p ?c j r" for j r by (auto simp: fact_ok_def)
      have "store_ok ?p ?c"
        unfolding store_ok_def
      proof (intro conjI allI impI)
        fix j r assume "lru_held (Snapshots ?c) j = Some r"
        then consider "j = i" "r = NextFacts c" | "lru_held l j = Some r" using l'(3) by auto
        then show "fact_ok ?p ?c j r"
        proof cases
          case 1
          then show ?thesis using new by (simp only:)
        next
          case 2
          show ?thesis by (rule keep) (rule conjunct1 [OF old [OF 2]])
        qed
      next
        fix j j' r assume "lru_held (Snapshots ?c) j = Some r" "lru_held (Snapshots ?c) j' = Some r"
        then show "j = j'" using l'(3) old st l(3) by (simp add: store_ok_def) (metis less_irrefl)
      qed (use st l'(2) in \<open>simp_all add: store_ok_def\<close>)
      moreover have "\<forall>j. lru_held (Snapshots ?c) j = Some (NextFacts c) \<longrightarrow> j = i"
        using l'(3) old by auto
      moreover have "snapshot db i c = (Inr (NextFacts c), ?c)" using l(1) l'(1) None Inr by (simp add: snapshot_def Let_def)
      moreover have "Generation ?c = Generation c" by simp
      ultimately show ?thesis using w new within_iff [of P S t ?c] within_iff [of P S t c] by (simp only: prod.case sum.case)
    qed
  qed
qed

lemma documents_does:
  "does (\<lambda>c. within P S t c \<and> fact_ok (P (era t)) c i r \<and> (\<forall>j. lru_held (Snapshots c) j = Some r \<longrightarrow> j = i)) E (documents r) (within P S t)
     (\<lambda>ds c. ds = PubDocuments (P (era t)) i)"
  by (auto simp: does_def documents_def fact_ok_def split: option.splits)

lemma definedBy_does:
  fixes db :: "('k, 'd, 's) index_db"
  assumes "faithful P S t db"
  shows "does (\<lambda>c. within P S t c \<and> fact_ok (P (era t)) c i r \<and> (\<forall>j. lru_held (Snapshots c) j = Some r \<longrightarrow> j = i)) (read_error db)
      (definedBy db i r hs) (within P S t) (\<lambda>ds c. ds = set hs \<inter> PubDefined (P (era t)) i)"
  unfolding does_def
proof (intro allI impI)
  fix c :: "('k, 'd, 's) index_cache"
  let ?D = "PubDefined (P (era t)) i"
  assume c: "within P S t c \<and> fact_ok (P (era t)) c i r \<and> (\<forall>j. lru_held (Snapshots c) j = Some r \<longrightarrow> j = i)"
  then obtain f where f: "Facts c r = Some f" "FactDocuments f = PubDocuments (P (era t)) i" "\<And>h b. FactDefined f h = Some b \<Longrightarrow> b = (h \<in> ?D)"
    by (auto simp: fact_ok_def)
  let ?unknown = "filter (\<lambda>h. FactDefined f h = None) hs"
  let ?asked = "if ?unknown = [] then Inr [] else DbDefined db i ?unknown"
  show "case definedBy db i r hs c of (Inl e, c') \<Rightarrow> within P S t c' \<and> read_error db e
      | (Inr ds, c') \<Rightarrow> within P S t c' \<and> ds = set hs \<inter> ?D"
  proof (cases ?asked)
    case (Inl e)
    then have "read_error db e" by (auto simp: read_error_def split: if_splits)
    then show ?thesis using c f(1) Inl by (simp add: definedBy_def Let_def)
  next
    case (Inr found)
    have found: "set found = set ?unknown \<inter> ?D"
    proof (cases "?unknown = []")
      case True
      then show ?thesis using Inr by simp
    next
      case False
      then show ?thesis using Inr assms unfolding faithful_def by simp
    qed
    let ?m = "mark True found (mark False ?unknown (FactDefined f))"
    have m: "?m h = Some b \<Longrightarrow> b = (h \<in> ?D)" for h b
      using found f(3) by (auto simp: mark_apply split: if_splits)
    have known: "?m h \<noteq> None" if "h \<in> set hs" for h using that by (cases "FactDefined f h") (auto simp: mark_apply)
    have ds: "set (filter (\<lambda>h. ?m h = Some True) hs) = set hs \<inter> ?D" using m known by fastforce
    let ?c = "c\<lparr> Facts := (Facts c)(r \<mapsto> f\<lparr> FactDefined := ?m \<rparr>) \<rparr>"
    have keep: "fact_ok (P (era t)) ?c j r'" if "fact_ok (P (era t)) c j r'" "r' = r \<longrightarrow> j = i" for j r'
      using that f(2) m by (auto simp: fact_ok_def)
    have "store_ok (P (era t)) c" using c by (simp add: within_iff)
    then have "store_ok (P (era t)) ?c" using keep c by (simp add: store_ok_def)
    then have "within P S t ?c" using c by (simp add: within_iff)
    then show ?thesis using f(1) Inr ds by (simp add: definedBy_def Let_def)
  qed
qed

lemma moduleKey_does:
  fixes db :: "('k, 'd, 's) index_db"
  assumes "faithful P S t db"
  shows "does (within P S t) (read_error db) (moduleKey db n) (within P S t) (\<lambda>key c. PubModules (P (era t)) n = Some key)"
  unfolding does_def
proof (intro allI impI)
  fix c :: "('k, 'd, 's) index_cache"
  assume w: "within P S t c"
  then have st: "store_ok (P (era t)) c" by (simp add: within_iff)
  show "case moduleKey db n c of (Inl e, c') \<Rightarrow> within P S t c' \<and> read_error db e
      | (Inr key, c') \<Rightarrow> within P S t c' \<and> PubModules (P (era t)) n = Some key"
  proof (cases "Modules c n")
    case (Some key)
    then show ?thesis using w st by (simp add: moduleKey_def store_ok_def)
  next
    case None
    show ?thesis
    proof (cases "DbModules db")
      case (Inl e)
      then have "read_error db e" by (simp add: read_error_def)
      then show ?thesis using w None Inl by (simp add: moduleKey_def)
    next
      case (Inr rows)
      let ?m = "fold (\<lambda>(number, key) m. m(number \<mapsto> key)) rows (Modules c)"
      have rows: "(j, key) \<in> set rows \<Longrightarrow> PubModules (P (era t)) j = Some key" for j key
        using assms Inr unfolding faithful_def by blast
      have m: "PubModules (P (era t)) j = Some key" if "?m j = Some key" for j key
        using fold_upd_Some [OF that] rows st unfolding store_ok_def by blast
      have w': "within P S t (c\<lparr> Modules := ?m \<rparr>)"
        using w st m by (simp add: within_iff store_ok_def fact_ok_def)
      show ?thesis
      proof (cases "?m n")
        case absent: None
        then have "n \<notin> fst ` set rows" using fold_upd_dom [of n rows "Modules c"] by auto
        then have "read_error db (UnknownModule n)" using Inr unfolding read_error_def by blast
        then show ?thesis using w' None Inr absent by (simp add: moduleKey_def Let_def)
      next
        case (Some key)
        then show ?thesis using w' m None Inr by (simp add: moduleKey_def Let_def)
      qed
    qed
  qed
qed

lemma handles_of_does:
  fixes db :: "('k, 'd, 's) index_db"
  assumes "faithful P S t db"
  shows "does (within P S t) (read_error db) (handles_of db ids) (within P S t)
      (\<lambda>hs c. hs = compact_sort (map (the \<circ> PubHandles (P (era t))) ids))"
  unfolding does_def
proof (intro allI impI)
  fix c :: "('k, 'd, 's) index_cache"
  assume w: "within P S t c"
  then have "agree (PubHandles (P (era t))) (Symbols c)" by (simp add: within_iff store_ok_def)
  moreover have "inj_on (PubHandles (P (era t))) (dom (PubHandles (P (era t))))" "looks_up (PubHandles (P (era t))) (DbHandles db)"
    using assms unfolding faithful_def by blast+
  ultimately have right: "case handlesOf (DbHandles db) ids (Symbols c) of
      (Inl e, f') \<Rightarrow> (\<exists>asked. DbHandles db asked = Inl e) \<and> f' = Symbols c
    | (Inr hs, f') \<Rightarrow> agree (PubHandles (P (era t))) f' \<and> set ids \<subseteq> dom (PubHandles (P (era t))) \<and> hs = compact_sort (map (the \<circ> PubHandles (P (era t))) ids)"
    by (rule handlesOf_right)
  obtain r f where r: "handlesOf (DbHandles db) ids (Symbols c) = (r, f)" by fastforce
  have keep: "within P S t (c\<lparr> Symbols := f \<rparr>)" if "agree (PubHandles (P (era t))) f"
    using w that by (simp add: within_iff store_ok_def fact_ok_def)
  show "case handles_of db ids c of (Inl e, c') \<Rightarrow> within P S t c' \<and> read_error db e
      | (Inr hs, c') \<Rightarrow> within P S t c' \<and> hs = compact_sort (map (the \<circ> PubHandles (P (era t))) ids)"
  proof (cases r)
    case (Inl e)
    then have "\<exists>asked. DbHandles db asked = Inl e" "f = Symbols c" using right r by simp_all
    then have "read_error db (FactsError e)" "c\<lparr> Symbols := f \<rparr> = c" unfolding read_error_def by auto
    then show ?thesis using r Inl w by (simp add: handles_of_def)
  next
    case (Inr hs)
    then show ?thesis using r right keep by (simp add: handles_of_def)
  qed
qed

lemma selection_does:
  fixes db :: "('k, 'd, 's) index_db"
  assumes "faithful P S t db"
  shows "does (within P S t) (read_error db) (selection db key) (within P S t) (\<lambda>s c. s = S t key)"
  unfolding does_def
proof (intro allI impI)
  fix c :: "('k, 'd, 's) index_cache"
  assume w: "within P S t c"
  then obtain g where g: "Generation c = Some g" "GenToken g = t" "\<And>key s. GenSelections g key = Some s \<Longrightarrow> s = S t key"
    by (auto simp: within_iff)
  show "case selection db key c of (Inl e, c') \<Rightarrow> within P S t c' \<and> read_error db e | (Inr s, c') \<Rightarrow> within P S t c' \<and> s = S t key"
  proof (cases "GenSelections g key")
    case (Some s)
    then show ?thesis using w g(1) g(3) [OF Some] by (simp add: selection_def)
  next
    case None
    show ?thesis
    proof (cases "DbSelect db key")
      case (Inl e)
      then have "read_error db e" unfolding read_error_def by blast
      then show ?thesis using w g(1) None Inl by (simp add: selection_def)
    next
      case (Inr s)
      then have s: "s = S t key" using assms unfolding faithful_def by blast
      let ?g = "g\<lparr> GenSelections := (GenSelections g)(key \<mapsto> s) \<rparr>"
      have "store_ok (P (era t)) (c\<lparr> Generation := Some ?g \<rparr>)" using w by (simp add: within_iff store_ok_def fact_ok_def)
      moreover have "\<forall>k x. GenSelections ?g k = Some x \<longrightarrow> x = S t k" using g(3) s by auto
      ultimately have "within P S t (c\<lparr> Generation := Some ?g \<rparr>)" using g(2) by (simp add: within_iff)
      then show ?thesis using g(1) None Inr s by (simp add: selection_def)
    qed
  qed
qed

lemma serve_does:
  fixes db :: "('k, 'd, 's) index_db"
  assumes "faithful P S t db"
  shows "does (within P S t) (read_error db) (serve db r) (within P S t) (\<lambda>a c. a = right_answer (P (era t)) (S t) r)"
proof (cases r)
  case (AskDocuments i)
  show ?thesis unfolding AskDocuments serve.simps
    by (rule does_then [OF snapshot_does [OF assms]], rule does_then [OF documents_does], rule does_return) simp
next
  case (AskDefined i hs)
  show ?thesis unfolding AskDefined serve.simps
    by (rule does_then [OF snapshot_does [OF assms]], rule does_then [OF definedBy_does [OF assms]], rule does_return) simp
next
  case (AskHandles ids)
  show ?thesis unfolding AskHandles serve.simps
    by (rule does_then [OF handles_of_does [OF assms]], rule does_return) simp
next
  case (AskModule n)
  show ?thesis unfolding AskModule serve.simps
    by (rule does_then [OF moduleKey_does [OF assms]], rule does_return) simp
next
  case (AskScopes key)
  show ?thesis unfolding AskScopes serve.simps
    by (rule does_then [OF selection_does [OF assms]], rule does_return) simp
qed

lemma does_entry: "does I E m J Q \<Longrightarrow> (\<And>c. I' c \<Longrightarrow> I c) \<Longrightarrow> does I' E m J Q"
  by (simp add: does_def)

lemma serve_all_does:
  fixes db :: "('k, 'd, 's) index_db"
  assumes "faithful P S t db"
  shows "does (within P S t) (read_error db) (serve_all db rs) (within P S t) (\<lambda>as c. as = map (right_answer (P (era t)) (S t)) rs)"
proof (induction rs)
  case Nil
  then show ?case by (simp add: does_def)
next
  case (Cons r rs)
  have "does (within P S t) (read_error db) (then_do (serve db r) (\<lambda>a. then_do (serve_all db rs) (\<lambda>as c. (Inr (a # as), c))))
      (within P S t) (\<lambda>as c. as = map (right_answer (P (era t)) (S t)) (r # rs))"
  proof (rule does_then [OF serve_does [OF assms]])
    fix a
    show "does (\<lambda>c. within P S t c \<and> a = right_answer (P (era t)) (S t) r) (read_error db)
        (then_do (serve_all db rs) (\<lambda>as c. (Inr (a # as), c))) (within P S t) (\<lambda>as c. as = map (right_answer (P (era t)) (S t)) (r # rs))"
    proof (cases "a = right_answer (P (era t)) (S t) r")
      case True
      show ?thesis
        by (rule does_entry [where I = "within P S t"], rule does_then [OF Cons.IH], rule does_return) (use True in simp_all)
    qed (simp add: does_def)
  qed
  moreover have "serve_all db (r # rs) = then_do (serve db r) (\<lambda>a. then_do (serve_all db rs) (\<lambda>as c. (Inr (a # as), c)))"
    by (rule ext) (rule serve_all.simps)
  ultimately show ?case by (simp only:)
qed

lemma store_ok_reset: "store_ok p (reset c)"
proof -
  have "lru_inv (newLRU snapshotCacheSize :: (uuid, nat) lru) \<and> items (newLRU snapshotCacheSize :: (uuid, nat) lru) = []"
    by (rule newLRU_inv) (simp add: snapshotCacheSize_def)
  then show ?thesis by (simp add: store_ok_def reset_def lru_held_def agree_new)
qed

lemma store_ok_generation: "store_ok p c \<Longrightarrow> store_ok p (c\<lparr> Generation := g \<rparr>)"
  by (simp add: store_ok_def fact_ok_def)

lemma renew_ok:
  assumes c: "cache_ok P S c" and t: "readCacheToken db = Inr t"
  shows "case renew db t c of (Inl e, c') \<Rightarrow> cache_ok P S c' \<and> read_error db e | (Inr g, c') \<Rightarrow> within P S t c'"
proof (cases "DbKinds db")
  case (Inl e)
  then have "read_error db e" by (simp add: read_error_def)
  then show ?thesis using c Inl by (simp add: renew_def)
next
  case (Inr kinds)
  let ?g = "\<lparr> GenToken = t, GenKinds = kinds, GenSelections = Map.empty \<rparr>"
  let ?c = "case Generation c of None \<Rightarrow> c
      | Some kept \<Rightarrow> if TokLayout (GenToken kept) \<noteq> TokLayout t \<or> TokPrunes (GenToken kept) \<noteq> TokPrunes t then reset c else c"
  have "store_ok (P (era t)) ?c"
  proof (cases "Generation c")
    case None
    then show ?thesis using c by (simp add: cache_ok_def)
  next
    case (Some kept)
    then have "store_ok (P (era (GenToken kept))) c" using c by (simp add: cache_ok_def)
    then show ?thesis using Some store_ok_reset [of "P (era t)" c]
      by (cases "era (GenToken kept) = era t") (simp_all add: era_def)
  qed
  then have "within P S t (?c\<lparr> Generation := Some ?g \<rparr>)" by (simp add: within_iff store_ok_generation)
  then show ?thesis using Inr by (simp add: renew_def Let_def)
qed

lemma current_ok:
  assumes c: "cache_ok P S c"
  shows "case current_generation db c of
      (Inl e, c') \<Rightarrow> cache_ok P S c' \<and> read_error db e
    | (Inr g, c') \<Rightarrow> (\<exists>t. readCacheToken db = Inr t \<and> within P S t c')"
proof (cases "readCacheToken db")
  case (Inl e)
  then have "read_error db e" by (simp add: read_error_def)
  then show ?thesis using c Inl by (simp add: current_generation_def)
next
  case (Inr t)
  note renewed = renew_ok [OF c Inr]
  have "current_generation db c = renew db t c \<Longrightarrow> ?thesis" using renewed Inr by (auto split: prod.split sum.split)
  moreover have "current_generation db c \<noteq> renew db t c \<Longrightarrow> \<exists>g. Generation c = Some g \<and> GenToken g = t \<and> current_generation db c = (Inr g, c)"
    using Inr by (auto simp: current_generation_def split: option.splits if_splits)
  ultimately show ?thesis using c Inr by (cases "current_generation db c = renew db t c") (auto simp: within_def)
qed

lemma run_query_ok:
  assumes c: "cache_ok P S c" and f: "\<And>t. readCacheToken db = Inr t \<Longrightarrow> faithful P S t db"
  shows "case run_query db rs c of
      (Inl e, c') \<Rightarrow> cache_ok P S c' \<and> read_error db e
    | (Inr as, c') \<Rightarrow> cache_ok P S c' \<and> (\<exists>t. readCacheToken db = Inr t \<and> as = map (right_answer (P (era t)) (S t)) rs)"
proof -
  obtain r c1 where r: "current_generation db c = (r, c1)" by fastforce
  show ?thesis
  proof (cases r)
    case (Inl e)
    then show ?thesis using current_ok [OF c, of db] r by (simp add: run_query_def then_do_def)
  next
    case (Inr g)
    then obtain t where t: "readCacheToken db = Inr t" "within P S t c1" using current_ok [OF c, of db] r by auto
    have "case serve_all db rs c1 of (Inl e, c') \<Rightarrow> within P S t c' \<and> read_error db e
        | (Inr as, c') \<Rightarrow> within P S t c' \<and> as = map (right_answer (P (era t)) (S t)) rs"
      by (rule doesD [OF serve_all_does [OF f [OF t(1)]] t(2)])
    moreover have query: "run_query db rs c = serve_all db rs c1" using r Inr by (simp add: run_query_def then_do_def)
    moreover obtain x c2 where "serve_all db rs c1 = (x, c2)" by fastforce
    ultimately show ?thesis using t(1) by (cases x) (simp_all add: within_def)
  qed
qed

lemma run_queries_ok:
  assumes "cache_ok P S c" "\<forall>(db, rs) \<in> set qs. \<forall>t. readCacheToken db = Inr t \<longrightarrow> faithful P S t db"
  shows "list_all2 (\<lambda>(db, rs) r.
      case r of Inl e \<Rightarrow> read_error db e
      | Inr as \<Rightarrow> \<exists>t. readCacheToken db = Inr t \<and> as = map (right_answer (P (era t)) (S t)) rs) qs (run_queries qs c)"
  using assms
proof (induction qs arbitrary: c)
  case (Cons q qs)
  obtain db rs where q: "q = (db, rs)" by fastforce
  have f: "faithful P S t db" if "readCacheToken db = Inr t" for t using Cons.prems(2) q that by auto
  obtain r c1 where r: "run_query db rs c = (r, c1)" by fastforce
  have rest: "\<forall>(db, rs) \<in> set qs. \<forall>t. readCacheToken db = Inr t \<longrightarrow> faithful P S t db" using Cons.prems(2) by simp
  have ok: "cache_ok P S c1" using run_query_ok [OF Cons.prems(1) f, of rs] r
    by (cases r) auto
  show ?case using Cons.IH [OF ok rest] run_query_ok [OF Cons.prems(1) f, of rs] q r by (cases r) auto
qed simp

lemma newIndexCache_ok: "cache_ok P S (newIndexCache :: ('k, 'd, 's) index_cache)"
proof -
  have "Generation (newIndexCache :: ('k, 'd, 's) index_cache) = None" by (simp add: newIndexCache_def reset_def)
  moreover have "\<forall>p. store_ok p (newIndexCache :: ('k, 'd, 's) index_cache)" unfolding newIndexCache_def by (intro allI store_ok_reset)
  ultimately show ?thesis by (simp add: cache_ok_def)
qed

text \<open>C27: a pipeline answers every query as the database of that query does: whatever was asked before and whichever
  reads fail, each query either fails with an error of its own reads or answers every request with what its token's
  heads select and its layout and prune epoch publish. The hypothesis is that what is published under one layout and
  prune epoch, and what one token selects, are always read the same.\<close>

theorem cached_queries:
  assumes "\<forall>(db, rs) \<in> set qs. \<forall>t. readCacheToken db = Inr t \<longrightarrow> faithful P S t db"
  shows "list_all2 (\<lambda>(db, rs) r.
      case r of Inl e \<Rightarrow> read_error db e
      | Inr as \<Rightarrow> \<exists>t. readCacheToken db = Inr t \<and> as = map (right_answer (P (era t)) (S t)) rs) qs (run_queries qs newIndexCache)"
  by (rule run_queries_ok [OF newIndexCache_ok assms])

definition sample_published :: "nat published" where
  "sample_published = \<lparr> PubDocuments = (\<lambda>_. [''d0'' \<mapsto> 1]), PubDefined = (\<lambda>_. {3}), PubHandles = [''s'' \<mapsto> 7], PubModules = [1 \<mapsto> ''m''] \<rparr>"

lemma sample_faithful: "faithful (\<lambda>_. sample_published) (\<lambda>_ _. 9) t sample_db"
  by (auto simp: faithful_def sample_published_def sample_db_def documents_of_def looks_up_def split: if_splits)

theorem cached_queries_witness:
  "list_all2 (\<lambda>(db, rs) r.
      case r of Inl e \<Rightarrow> read_error db e
      | Inr as \<Rightarrow> \<exists>t. readCacheToken db = Inr t \<and> as = map (right_answer sample_published (\<lambda>_. 9)) rs)
     [(sample_db, [AskDefined ''c0'' [3, 4], AskDocuments ''c0'']), (sample_db, [AskModule 1, AskHandles [''s'']])]
     (run_queries [(sample_db, [AskDefined ''c0'' [3, 4], AskDocuments ''c0'']), (sample_db, [AskModule 1, AskHandles [''s'']])] newIndexCache)"
  by (rule cached_queries [where P = "\<lambda>_. sample_published" and S = "\<lambda>_ _. 9"]) (simp add: sample_faithful)

end
