(* ===== verification/Go_Utf8.thy ===== *)
theory Go_Utf8
  imports Go_Quote
begin

text \<open>
  \<open>utf8.ValidString\<close>: the strings whose runes determine them. A string is cut at its ASCII bytes and at the end of a
  valid part without touching its runes.
\<close>

definition bad_chunk :: "nat \<times> gostring \<Rightarrow> bool" where
  "bad_chunk p \<longleftrightarrow> fst p = rune_error \<and> length (snd p) = 1"

definition ValidString :: "gostring \<Rightarrow> bool" where
  "ValidString s \<longleftrightarrow> list_all (\<lambda>p. \<not> bad_chunk p) (runes s)"

lemma ValidString_Nil [simp]: "ValidString []"
  by (simp add: ValidString_def)

lemma ValidString_inject:
  assumes "ValidString s" "ValidString t" "map fst (runes s) = map fst (runes t)"
  shows "s = t"
proof -
  have spell: "x = concat (map (encode_rune \<circ> fst) (runes x))" if "ValidString x" for x
  proof -
    have "snd p = encode_rune (fst p)" if "p \<in> set (runes x)" for p
    proof -
      have "valid_chunk p" "\<not> bad_chunk p" using that runes_valid [of x] \<open>ValidString x\<close> by (auto simp: ValidString_def list_all_iff)
      then show ?thesis by (auto simp: valid_chunk_def bad_chunk_def)
    qed
    then have "map snd (runes x) = map (encode_rune \<circ> fst) (runes x)" by simp
    then show ?thesis using concat_runes [of x] by metis
  qed
  have "map (encode_rune \<circ> fst) (runes s) = map (encode_rune \<circ> fst) (runes t)" using assms(3) by (metis map_map)
  then show ?thesis using spell [OF assms(1)] spell [OF assms(2)] by simp
qed

lemma ascii_not_second: "byte d < 128 \<Longrightarrow> \<not> second_ok c d"
  by (auto simp: second_ok_def second_range_def cont_def split: if_splits)

lemma ascii_not_cont: "byte d < 128 \<Longrightarrow> \<not> cont 128 191 d"
  by (simp add: cont_def)

lemma decode_rune_ascii: "byte c < 128 \<Longrightarrow> decode_rune (a # s @ c # t) = decode_rune (a # s)"
proof (cases s)
  case (Cons d s1)
  assume "byte c < 128"
  then show ?thesis
    by (cases s1; cases "tl s1") (auto simp: Cons Let_def ascii_not_second ascii_not_cont split: list.splits)
qed (simp add: Let_def ascii_not_second split: list.split)

lemma decode_rune_good: "decode_rune (a # s) \<noteq> (rune_error, 1) \<Longrightarrow> decode_rune (a # s @ t) = decode_rune (a # s)"
  by (cases s; cases "tl s"; cases "tl (tl s)") (auto simp: Let_def split: if_splits)

lemma decode_rune_bad: "bad_chunk (fst (decode_rune (a # s)), take (snd (decode_rune (a # s))) (a # s)) \<longleftrightarrow> decode_rune (a # s) = (rune_error, 1)"
  using decode_rune_width [of "a # s"] by (cases "decode_rune (a # s)") (auto simp: bad_chunk_def)

lemma runes_Cons:
  "runes (a # s) = (fst (decode_rune (a # s)), take (snd (decode_rune (a # s))) (a # s)) # runes (drop (snd (decode_rune (a # s))) (a # s))"
  by (subst runes.simps) simp

lemma runes_ascii [simp]: "byte c < 128 \<Longrightarrow> runes (c # t) = (byte c, [c]) # runes t"
  by (simp add: runes_Cons Let_def)

lemma runes_cut_ascii: "byte c < 128 \<Longrightarrow> runes (s @ c # t) = runes s @ (byte c, [c]) # runes t"
proof (induction s rule: runes.induct)
  case (1 s)
  show ?case
  proof (cases s)
    case (Cons a u)
    let ?n = "snd (decode_rune (a # u))"
    have n: "?n \<le> length (a # u)" using decode_rune_width [of "a # u"] by simp
    have d: "decode_rune (a # u @ c # t) = decode_rune (a # u)" by (rule decode_rune_ascii [OF 1(2)])
    have "runes (s @ c # t) = (fst (decode_rune (a # u)), take ?n (a # u @ c # t)) # runes (drop ?n (a # u @ c # t))"
      unfolding Cons append_Cons by (subst runes_Cons) (simp only: d)
    also have "take ?n (a # u @ c # t) = take ?n (a # u)" using n take_append [of ?n "a # u" "c # t"] by simp
    also have "drop ?n (a # u @ c # t) = drop ?n (a # u) @ c # t" using n drop_append [of ?n "a # u" "c # t"] by simp
    also have "runes (drop ?n (a # u) @ c # t) = runes (drop ?n (a # u)) @ (byte c, [c]) # runes t"
      using 1(1) [of] 1(2) Cons by simp
    finally show ?thesis unfolding Cons by (subst runes_Cons) simp
  qed (simp add: 1(2))
qed

lemma runes_cut_valid: "ValidString s \<Longrightarrow> runes (s @ t) = runes s @ runes t"
proof (induction s rule: runes.induct)
  case (1 s)
  show ?case
  proof (cases s)
    case (Cons a u)
    let ?n = "snd (decode_rune (a # u))"
    have n: "?n \<le> length (a # u)" using decode_rune_width [of "a # u"] by simp
    have valid: "decode_rune (a # u) \<noteq> (rune_error, 1)" "ValidString (drop ?n (a # u))"
      using 1(2) unfolding Cons ValidString_def runes_Cons list.pred_inject decode_rune_bad by auto
    have d: "decode_rune (a # u @ t) = decode_rune (a # u)" by (rule decode_rune_good [OF valid(1)])
    have "runes (s @ t) = (fst (decode_rune (a # u)), take ?n (a # u @ t)) # runes (drop ?n (a # u @ t))"
      unfolding Cons append_Cons by (subst runes_Cons) (simp only: d)
    also have "take ?n (a # u @ t) = take ?n (a # u)" using n take_append [of ?n "a # u" t] by simp
    also have "drop ?n (a # u @ t) = drop ?n (a # u) @ t" using n drop_append [of ?n "a # u" t] by simp
    also have "runes (drop ?n (a # u) @ t) = runes (drop ?n (a # u)) @ runes t" using 1(1) valid(2) Cons by simp
    finally show ?thesis unfolding Cons by (subst runes_Cons) simp
  qed simp
qed

lemma ValidString_append: "ValidString s \<Longrightarrow> ValidString (s @ t) = ValidString t"
  by (simp add: ValidString_def runes_cut_valid)

lemma ascii_good: "byte c < 128 \<Longrightarrow> \<not> bad_chunk (byte c, [c])"
  by (simp add: bad_chunk_def rune_error_def)

lemma ValidString_cut: "byte c < 128 \<Longrightarrow> ValidString (s @ c # t) \<longleftrightarrow> ValidString s \<and> ValidString t"
  by (simp add: ValidString_def runes_cut_ascii ascii_good)

lemma ValidString_ascii: "byte c < 128 \<Longrightarrow> ValidString (c # t) = ValidString t"
  using ValidString_cut [of c "[]" t] by simp

lemma ValidString_join:
  "byte c < 128 \<Longrightarrow> ValidString (join_with [c] ps) \<longleftrightarrow> (\<forall>p \<in> set ps. ValidString p)"
  by (induction ps rule: induct_list012) (auto simp: ValidString_cut)

lemma ValidString_split: "byte c < 128 \<Longrightarrow> (\<forall>p \<in> set (split_on c s). ValidString p) = ValidString s"
  by (metis ValidString_join join_split)

end
