(* ===== verification/Selector_Glob.thy ===== *)
theory Selector_Glob
  imports Go_Utf8
begin

text \<open>
  Typed selectors and their globs (\<open>query/selector_glob.go\<close>): splitting a selector at its colons, quoting a literal,
  compiling a glob to one anchored expression per path segment, and matching it. An expression is the list of what the
  source writes to it; \<open>regexp.MustCompile\<close> decodes its bytes as UTF-8 and panics when they are not, and matches runes.
\<close>

datatype selector_error =
  FollowsQuote
| DanglingEscape
| PartlyQuoted
| Unterminated
| InvalidSelector gostring
| GlobKind
| DotSegment
| NotEntityField
| GlobLength
| EmptySegment
| PartlyStarred
| DanglingGlob
| RegexpPanic

subsection \<open>The parts of a selector\<close>

record selector_part =
  PartText :: gostring
  PartQuoted :: bool

record split_state =
  SplitParts :: "selector_part list"
  SplitPart :: gostring
  SplitQuoted :: bool
  SplitClosed :: bool
  SplitOpened :: bool

definition split_part :: "split_state \<Rightarrow> selector_part" where
  "split_part s = \<lparr> PartText = SplitPart s, PartQuoted = SplitOpened s \<rparr>"

definition write_part :: "gostring \<Rightarrow> split_state \<Rightarrow> split_state" where
  "write_part t s = s\<lparr> SplitPart := SplitPart s @ t \<rparr>"

text \<open>The loop over the bytes; an escape takes the byte after it along.\<close>

fun split_loop :: "bool \<Rightarrow> gostring \<Rightarrow> split_state \<Rightarrow> (selector_error, split_state) outcome" where
  "split_loop partial [] s = Inr s"
| "split_loop partial (c # cs) s =
     (if c = CHR '':'' \<and> \<not> SplitQuoted s then
        split_loop partial cs (s\<lparr> SplitParts := SplitParts s @ [split_part s], SplitPart := [], SplitClosed := False, SplitOpened := False \<rparr>)
      else if SplitClosed s then Inl FollowsQuote
      else if c = CHR 0x5C then
        (case cs of
           [] \<Rightarrow> if partial then Inr s else Inl DanglingEscape
         | d # ds \<Rightarrow> split_loop partial ds (write_part [c, d] s))
      else if c = CHR 0x22 \<and> SplitQuoted s then split_loop partial cs (s\<lparr> SplitQuoted := False, SplitClosed := True \<rparr>)
      else if c = CHR 0x22 \<and> SplitPart s = [] then split_loop partial cs (s\<lparr> SplitQuoted := True, SplitOpened := True \<rparr>)
      else if c = CHR 0x22 then Inl PartlyQuoted
      else split_loop partial cs (write_part [c] s))"

definition splitSelector :: "gostring \<Rightarrow> bool \<Rightarrow> (selector_error, selector_part list) outcome" where
  "splitSelector v partial =
     and_then (split_loop partial v
       \<lparr> SplitParts = [], SplitPart = [], SplitQuoted = False, SplitClosed = False, SplitOpened = False \<rparr>) (\<lambda>s.
       if SplitQuoted s \<and> \<not> partial then Inl Unterminated else Inr (SplitParts s @ [split_part s]))"

definition selectorParts :: "gostring \<Rightarrow> (selector_error, gostring list) outcome" where
  "selectorParts v = and_then (splitSelector v False) (\<lambda>ps. Inr (map PartText ps))"

subsection \<open>Quoting a literal\<close>

definition plain_char :: "char \<Rightarrow> bool" where
  "plain_char c \<longleftrightarrow>
     65 \<le> byte c \<and> byte c \<le> 90 \<or> 97 \<le> byte c \<and> byte c \<le> 122 \<or> 48 \<le> byte c \<and> byte c \<le> 57 \<or> c \<in> set ''_./@#$!-''"

definition plainSelectorValue :: "gostring \<Rightarrow> bool" where
  "plainSelectorValue s \<longleftrightarrow> s \<noteq> [] \<and> list_all plain_char s"

definition escape_char :: "char \<Rightarrow> gostring" where
  "escape_char c = (if c \<in> {CHR 0x5C, CHR 0x22, CHR ''*'', CHR ''?''} then [CHR 0x5C, c] else [c])"

definition globEscaper :: "gostring \<Rightarrow> gostring" where
  "globEscaper s = concat (map escape_char s)"

definition QuoteSelectorValue :: "gostring \<Rightarrow> gostring" where
  "QuoteSelectorValue s = (if plainSelectorValue s then s else CHR 0x22 # globEscaper s @ [CHR 0x22])"

text \<open>The text a glob without a wildcard matches.\<close>

fun globLiteral :: "gostring \<Rightarrow> gostring \<times> bool" where
  "globLiteral [] = ([], True)"
| "globLiteral (c # cs) =
     (if c = CHR ''*'' \<or> c = CHR ''?'' then ([], False)
      else if c = CHR 0x5C then
        (case cs of
           [] \<Rightarrow> ([c], True)
         | d # ds \<Rightarrow> (case globLiteral ds of (s, found) \<Rightarrow> if found then (d # s, True) else ([], False)))
      else (case globLiteral cs of (s, found) \<Rightarrow> if found then (c # s, True) else ([], False)))"

subsection \<open>Globs\<close>

text \<open>What the source writes to an expression: a quoted byte, \<open>[^/]\<close> or \<open>[^/]*\<close>.\<close>

datatype glob_atom = Byte char | AnyOne | AnyMany

fun compile_part :: "gostring \<Rightarrow> (selector_error, glob_atom list) outcome" where
  "compile_part [] = Inr []"
| "compile_part (c # cs) =
     (if c = CHR ''*'' then
        (if cs \<noteq> [] \<and> hd cs = CHR ''*'' then Inl PartlyStarred else and_then (compile_part cs) (\<lambda>as. Inr (AnyMany # as)))
      else if c = CHR ''?'' then and_then (compile_part cs) (\<lambda>as. Inr (AnyOne # as))
      else if c = CHR 0x5C then
        (case cs of [] \<Rightarrow> Inl DanglingGlob | d # ds \<Rightarrow> and_then (compile_part ds) (\<lambda>as. Inr (Byte d # as)))
      else and_then (compile_part cs) (\<lambda>as. Inr (Byte c # as)))"

text \<open>The compiled expression: runes and classes.\<close>

datatype regex_atom = Rune nat | NotSlash | NotSlashes

fun lit_bytes :: "glob_atom list \<Rightarrow> gostring" where
  "lit_bytes (Byte c # as) = c # lit_bytes as"
| "lit_bytes as = []"

fun after_bytes :: "glob_atom list \<Rightarrow> glob_atom list" where
  "after_bytes (Byte c # as) = after_bytes as"
| "after_bytes as = as"

lemma after_bytes_length [simp]: "length (after_bytes as) \<le> length as"
  by (induction as rule: after_bytes.induct) auto

function must_compile :: "glob_atom list \<Rightarrow> regex_atom list option" where
  "must_compile [] = Some []"
| "must_compile (AnyOne # as) = map_option (\<lambda>r. NotSlash # r) (must_compile as)"
| "must_compile (AnyMany # as) = map_option (\<lambda>r. NotSlashes # r) (must_compile as)"
| "must_compile (Byte c # as) =
     (if ValidString (c # lit_bytes as)
      then map_option (\<lambda>r. map (Rune \<circ> fst) (runes (c # lit_bytes as)) @ r) (must_compile (after_bytes as))
      else None)"
  by pat_completeness auto

termination by (relation "measure length") (auto simp: le_imp_less_Suc)

fun regex_match :: "regex_atom list \<Rightarrow> nat list \<Rightarrow> bool" where
  "regex_match [] xs \<longleftrightarrow> xs = []"
| "regex_match (Rune r # as) xs \<longleftrightarrow> (case xs of [] \<Rightarrow> False | x # xs \<Rightarrow> x = r \<and> regex_match as xs)"
| "regex_match (NotSlash # as) xs \<longleftrightarrow> (case xs of [] \<Rightarrow> False | x # xs \<Rightarrow> x \<noteq> 47 \<and> regex_match as xs)"
| "regex_match (NotSlashes # as) xs \<longleftrightarrow>
     regex_match as xs \<or> (case xs of [] \<Rightarrow> False | x # xs \<Rightarrow> x \<noteq> 47 \<and> regex_match (NotSlashes # as) xs)"

definition MatchString :: "regex_atom list \<Rightarrow> gostring \<Rightarrow> bool" where
  "MatchString r s = regex_match r (map fst (runes s))"

text \<open>A segment is an expression with the text it was compiled from, or \<open>None\<close> for \<open>**\<close>.\<close>

type_synonym glob_segment = "(glob_atom list \<times> regex_atom list) option"
type_synonym selector_glob = "glob_segment list"

definition maximumSelectorPattern :: nat where
  "maximumSelectorPattern = 512"

definition compile_segment :: "bool \<Rightarrow> gostring \<Rightarrow> (selector_error, glob_segment) outcome" where
  "compile_segment allowEmpty part =
     (if part = [] \<and> \<not> allowEmpty then Inl EmptySegment
      else if part = ''**'' then Inr None
      else and_then (compile_part part) (\<lambda>as.
        case must_compile as of None \<Rightarrow> Inl RegexpPanic | Some r \<Rightarrow> Inr (Some (as, r))))"

fun compile_segments :: "bool \<Rightarrow> gostring list \<Rightarrow> (selector_error, selector_glob) outcome" where
  "compile_segments allowEmpty [] = Inr []"
| "compile_segments allowEmpty (p # ps) =
     and_then (compile_segment allowEmpty p) (\<lambda>g. and_then (compile_segments allowEmpty ps) (\<lambda>gs. Inr (g # gs)))"

definition compileGlob :: "gostring \<Rightarrow> bool \<Rightarrow> (selector_error, selector_glob) outcome" where
  "compileGlob pattern allowEmpty =
     (if \<not> allowEmpty \<and> pattern = [] \<or> maximumSelectorPattern < length pattern then Inl GlobLength
      else compile_segments allowEmpty (split_on CHR ''/'' pattern))"

definition compileSelectorGlob :: "gostring \<Rightarrow> (selector_error, selector_glob) outcome" where
  "compileSelectorGlob pattern = compileGlob pattern False"

text \<open>The memoised walk. A state that is entered and not yet answered reads false, so one map holds both of the
  source's.\<close>

type_synonym glob_memo = "nat \<times> nat \<Rightarrow> bool option"

function glob_walk :: "selector_glob \<Rightarrow> gostring list \<Rightarrow> nat \<Rightarrow> nat \<Rightarrow> glob_memo \<Rightarrow> bool \<times> glob_memo" where
  "glob_walk segs parts p q memo =
     (case memo (p, q) of
        Some b \<Rightarrow> (b, memo)
      | None \<Rightarrow>
          let memo = memo((p, q) \<mapsto> False);
              (b, memo) =
                (if length segs \<le> p then (q = length parts, memo)
                 else case segs ! p of
                   None \<Rightarrow>
                     (case glob_walk segs parts (Suc p) q memo of
                        (True, memo) \<Rightarrow> (True, memo)
                      | (False, memo) \<Rightarrow> if q < length parts then glob_walk segs parts p (Suc q) memo else (False, memo))
                 | Some (_, r) \<Rightarrow>
                     if q < length parts \<and> MatchString r (parts ! q) then glob_walk segs parts (Suc p) (Suc q) memo else (False, memo))
          in (b, memo((p, q) \<mapsto> b)))"
  by pat_completeness auto

termination
  by (relation "measure (\<lambda>(segs, parts, p, q, memo). (length segs - p) + (length parts - q))") auto

declare glob_walk.simps [simp del]

definition is_dot :: "glob_segment \<Rightarrow> bool" where
  "is_dot g \<longleftrightarrow> (case g of None \<Rightarrow> False | Some (as, _) \<Rightarrow> as = [Byte CHR ''.''])"

definition matches :: "selector_glob \<Rightarrow> gostring \<Rightarrow> bool" where
  "matches glob v =
     (if v = ''.'' then glob = [None] \<or> length glob = 1 \<and> is_dot (hd glob)
      else fst (glob_walk glob (split_on CHR ''/'' v) 0 0 Map.empty))"

subsection \<open>Parsing a selector\<close>

record selector =
  NameOnly :: bool
  Kind :: gostring
  Pattern :: gostring
  ModulePattern :: gostring
  SymbolKind :: gostring
  Owner :: gostring

definition new_selector :: "gostring \<Rightarrow> gostring \<Rightarrow> selector" where
  "new_selector kind pattern =
     \<lparr> NameOnly = False, Kind = kind, Pattern = pattern, ModulePattern = [], SymbolKind = [], Owner = [] \<rparr>"

definition selector_of_parts :: "gostring \<Rightarrow> gostring list \<Rightarrow> (selector_error, selector) outcome" where
  "selector_of_parts v parts =
     (if length parts < 2 \<or> 3 < length parts \<or> parts ! 1 = [] then Inl (InvalidSelector v)
      else
        let s = new_selector (parts ! 0) (parts ! 1) in
        if Kind s = ''kind'' then
          (case globLiteral (parts ! 1) of (name, literal) \<Rightarrow>
             if \<not> literal then Inl GlobKind
             else
               let s = s\<lparr> SymbolKind := name, Pattern := ''*'' \<rparr> in
               if length parts = 3 then
                 if parts ! 2 = [] then Inl (InvalidSelector v) else Inr (s\<lparr> Pattern := parts ! 2 \<rparr>)
               else Inr s)
        else if length parts = 3 then
          if Kind s \<noteq> ''pkg'' \<or> parts ! 2 = [] then Inl (InvalidSelector v)
          else
            let s = s\<lparr> ModulePattern := parts ! 1, Pattern := parts ! 2 \<rparr> in
            if Pattern s \<noteq> ''.'' \<and> ''.'' \<in> set (split_on CHR ''/'' (Pattern s)) then Inl DotSegment else Inr s
        else Inr s)"

definition expand_dots :: "gostring \<Rightarrow> gostring" where
  "expand_dots p = (if has_suffix p ''/...'' then trim_suffix p ''...'' @ ''**'' else p)"

definition check_pattern :: "gostring \<Rightarrow> (selector_error, unit) outcome" where
  "check_pattern p = (if p = [] then Inr () else and_then (compileSelectorGlob p) (\<lambda>_. Inr ()))"

definition parseSelector :: "gostring \<Rightarrow> (selector_error, selector) outcome" where
  "parseSelector v =
     and_then (selectorParts v) (\<lambda>parts.
     and_then (selector_of_parts v parts) (\<lambda>s.
       let s = s\<lparr> Pattern := expand_dots (Pattern s) \<rparr> in
       and_then (check_pattern (Pattern s)) (\<lambda>_.
         let s = s\<lparr> ModulePattern := expand_dots (ModulePattern s) \<rparr> in
         and_then (check_pattern (ModulePattern s)) (\<lambda>_. Inr s))))"

definition parseEntityField :: "gostring \<Rightarrow> (selector_error, selector) outcome" where
  "parseEntityField v =
     and_then (selectorParts v) (\<lambda>parts.
       if length parts \<noteq> 2 \<or> parts ! 0 = [] \<or> parts ! 1 = [] then Inl NotEntityField
       else
         and_then (compileSelectorGlob (parts ! 0)) (\<lambda>_.
         and_then (compileSelectorGlob (parts ! 1)) (\<lambda>_.
           Inr (new_selector ''field'' (parts ! 1)\<lparr> Owner := parts ! 0 \<rparr>))))"

lemma parseSelector_shape:
  assumes "parseSelector v = Inr s"
  shows "Owner s = []" "\<not> NameOnly s" "ModulePattern s \<noteq> [] \<Longrightarrow> Kind s = ''pkg''"
    "\<exists>g. compileSelectorGlob (Pattern s) = Inr g" "ModulePattern s \<noteq> [] \<Longrightarrow> \<exists>g. compileSelectorGlob (ModulePattern s) = Inr g"
proof -
  obtain parts s0 where s0: "selector_of_parts v parts = Inr s0"
    "s = s0\<lparr> Pattern := expand_dots (Pattern s0), ModulePattern := expand_dots (ModulePattern s0) \<rparr>"
    "check_pattern (Pattern s) = Inr ()" "check_pattern (ModulePattern s) = Inr ()"
    using assms by (auto simp: parseSelector_def outcome_simps Let_def)
  have shape: "Owner s0 = [] \<and> \<not> NameOnly s0 \<and> (ModulePattern s0 \<noteq> [] \<longrightarrow> Kind s0 = ''pkg'') \<and> Pattern s0 \<noteq> []"
    using s0(1) by (auto simp: selector_of_parts_def new_selector_def Let_def split: if_splits prod.splits)
  have nil: "expand_dots p = [] \<longleftrightarrow> p = []" for p by (auto simp: expand_dots_def has_suffix_iff)
  show "Owner s = []" "\<not> NameOnly s" "ModulePattern s \<noteq> [] \<Longrightarrow> Kind s = ''pkg''" using shape nil s0(2) by auto
  have "Pattern s \<noteq> []" using shape nil s0(2) by simp
  then show "\<exists>g. compileSelectorGlob (Pattern s) = Inr g" using s0(3) by (auto simp: check_pattern_def outcome_simps)
  show "\<exists>g. compileSelectorGlob (ModulePattern s) = Inr g" if "ModulePattern s \<noteq> []"
    using s0(4) that by (auto simp: check_pattern_def outcome_simps)
qed

subsection \<open>The matcher and its specification\<close>

text \<open>Segments against segments: \<open>**\<close> stands for any number of them.\<close>

fun path_match :: "selector_glob \<Rightarrow> gostring list \<Rightarrow> bool" where
  "path_match [] ps \<longleftrightarrow> ps = []"
| "path_match (None # gs) ps \<longleftrightarrow> path_match gs ps \<or> (case ps of [] \<Rightarrow> False | p # ps \<Rightarrow> path_match (None # gs) ps)"
| "path_match (Some r # gs) ps \<longleftrightarrow> (case ps of [] \<Rightarrow> False | p # ps \<Rightarrow> MatchString (snd r) p \<and> path_match gs ps)"

definition right_at :: "selector_glob \<Rightarrow> gostring list \<Rightarrow> nat \<Rightarrow> nat \<Rightarrow> bool" where
  "right_at segs parts p q = path_match (drop p segs) (drop q parts)"

definition memo_right :: "selector_glob \<Rightarrow> gostring list \<Rightarrow> nat \<Rightarrow> nat \<Rightarrow> glob_memo \<Rightarrow> bool" where
  "memo_right segs parts p q memo \<longleftrightarrow> (\<forall>i j b. p \<le> i \<longrightarrow> q \<le> j \<longrightarrow> memo (i, j) = Some b \<longrightarrow> b = right_at segs parts i j)"

lemma right_at_end: "length segs \<le> p \<Longrightarrow> q \<le> length parts \<Longrightarrow> right_at segs parts p q \<longleftrightarrow> q = length parts"
  by (auto simp: right_at_def)

lemma right_at_star:
  "p < length segs \<Longrightarrow> segs ! p = None \<Longrightarrow>
     right_at segs parts p q \<longleftrightarrow> right_at segs parts (Suc p) q \<or> q < length parts \<and> right_at segs parts p (Suc q)"
  unfolding right_at_def by (cases "q < length parts") (auto simp: Cons_nth_drop_Suc [symmetric])

lemma right_at_part:
  "p < length segs \<Longrightarrow> segs ! p = Some (as, r) \<Longrightarrow>
     right_at segs parts p q \<longleftrightarrow> q < length parts \<and> MatchString r (parts ! q) \<and> right_at segs parts (Suc p) (Suc q)"
  unfolding right_at_def by (cases "q < length parts") (auto simp: Cons_nth_drop_Suc [symmetric])

definition walk_right :: "selector_glob \<Rightarrow> gostring list \<Rightarrow> nat \<Rightarrow> nat \<Rightarrow> glob_memo \<Rightarrow> bool \<times> glob_memo \<Rightarrow> bool" where
  "walk_right segs parts p q memo r \<longleftrightarrow>
     fst r = right_at segs parts p q \<and> memo_right segs parts p q (snd r) \<and>
     (\<forall>i j. \<not> (p \<le> i \<and> q \<le> j) \<longrightarrow> snd r (i, j) = memo (i, j))"

lemma memo_rightD: "memo_right segs parts p q m \<Longrightarrow> p \<le> i \<Longrightarrow> q \<le> j \<Longrightarrow> m (i, j) = Some b \<Longrightarrow> b = right_at segs parts i j"
  by (simp add: memo_right_def)

text \<open>What a walk leaves when every state after it is right.\<close>

lemma walk_right_leave:
  assumes "b = right_at segs parts p q"
    and "\<And>i j b. p \<le> i \<Longrightarrow> q \<le> j \<Longrightarrow> (i, j) \<noteq> (p, q) \<Longrightarrow> m (i, j) = Some b \<Longrightarrow> b = right_at segs parts i j"
    and "\<And>i j. \<not> (p \<le> i \<and> q \<le> j) \<Longrightarrow> m (i, j) = memo (i, j)"
  shows "walk_right segs parts p q memo (b, m((p, q) \<mapsto> b))"
  using assms by (auto simp: walk_right_def memo_right_def)

lemma glob_walk_star:
  assumes "memo (p, q) = None" "p < length segs" "segs ! p = None" "glob_walk segs parts (Suc p) q (memo((p, q) \<mapsto> False)) = (b, m)"
  shows "glob_walk segs parts p q memo =
    (if b then (True, m((p, q) \<mapsto> True))
     else if q < length parts then (fst (glob_walk segs parts p (Suc q) m), (snd (glob_walk segs parts p (Suc q) m))((p, q) \<mapsto> fst (glob_walk segs parts p (Suc q) m)))
     else (False, m((p, q) \<mapsto> False)))"
  using assms by (subst glob_walk.simps) (simp add: Let_def split_beta del: fun_upd_apply split: bool.split)

lemma glob_walk_right:
  "memo_right segs parts p q memo \<Longrightarrow> q \<le> length parts \<Longrightarrow> walk_right segs parts p q memo (glob_walk segs parts p q memo)"
proof (induction segs parts p q memo rule: glob_walk.induct)
  case (1 segs parts p q memo)
  let ?memo = "memo((p, q) \<mapsto> False)"
  note right = memo_rightD [OF 1(4)]
  have entered: "?memo (i, j) = Some b \<Longrightarrow> b = right_at segs parts i j" if "p \<le> i" "q \<le> j" "(i, j) \<noteq> (p, q)" for i j b
    using right [of i j b] that by (auto split: if_splits)
  show ?case
  proof (cases "memo (p, q)")
    case (Some b)
    then have "glob_walk segs parts p q memo = (b, memo)" by (subst glob_walk.simps) simp
    then show ?thesis using 1(4) right [OF _ _ Some] by (simp add: walk_right_def)
  next
    case None
    consider (stop) "length segs \<le> p" | (star) "p < length segs" "segs ! p = None"
      | (part) as r where "p < length segs" "segs ! p = Some (as, r)" by (cases "segs ! p") force+
    then show ?thesis
    proof cases
      case stop
      then have "glob_walk segs parts p q memo = (q = length parts, ?memo((p, q) \<mapsto> q = length parts))"
        using None by (subst glob_walk.simps) simp
      moreover have "walk_right segs parts p q memo (q = length parts, ?memo((p, q) \<mapsto> q = length parts))"
      proof (rule walk_right_leave)
        show "(q = length parts) = right_at segs parts p q" using right_at_end [OF stop 1(5)] by simp
      qed (erule entered, assumption+, auto)
      ultimately show ?thesis by (simp only:)
    next
      case star
      let ?w1 = "glob_walk segs parts (Suc p) q ?memo"
      have m: "memo_right segs parts (Suc p) q ?memo" using entered by (auto simp: memo_right_def)
      have w1: "walk_right segs parts (Suc p) q ?memo ?w1" by (rule 1(1) [OF None refl _ star(2) m 1(5)]) (use star(1) in simp)
      obtain b1 m1 where r1: "?w1 = (b1, m1)" by fastforce
      have b1: "b1 = right_at segs parts (Suc p) q" using w1 r1 by (simp add: walk_right_def)
      have m1: "m1 (i, j) = Some b \<Longrightarrow> b = right_at segs parts i j" if "p \<le> i" "q \<le> j" "(i, j) \<noteq> (p, q)" for i j b
        using w1 r1 entered [OF that, of b] that memo_rightD [of segs parts "Suc p" q m1 i j b] unfolding walk_right_def
        by (cases "Suc p \<le> i") auto
      have f1: "m1 (i, j) = memo (i, j)" if "\<not> (p \<le> i \<and> q \<le> j)" for i j
        using w1 r1 that unfolding walk_right_def by auto
      show ?thesis
      proof (cases "b1 \<or> length parts \<le> q")
        case True
        then have "glob_walk segs parts p q memo = (b1, m1((p, q) \<mapsto> b1))"
          unfolding glob_walk_star [OF None star r1] by (cases b1) (simp_all del: fun_upd_apply)
        moreover have "b1 = right_at segs parts p q" using True b1 right_at_star [OF star, of parts q] by auto
        ultimately show ?thesis by (simp only:) (rule walk_right_leave, simp, erule m1, assumption+, rule f1)
      next
        case False
        let ?w2 = "glob_walk segs parts p (Suc q) m1"
        have m: "memo_right segs parts p (Suc q) m1" using m1 by (auto simp: memo_right_def)
        have w2: "walk_right segs parts p (Suc q) m1 ?w2"
          by (rule 1(2) [OF None refl _ star(2) r1 [symmetric]]) (use star(1) False m in auto)
        obtain b2 m2 where r2: "?w2 = (b2, m2)" by fastforce
        have "glob_walk segs parts p q memo = (b2, m2((p, q) \<mapsto> b2))"
          unfolding glob_walk_star [OF None star r1] r2 using False by (simp del: fun_upd_apply)
        moreover have "b2 = right_at segs parts p q"
          using w2 r2 False b1 right_at_star [OF star, of parts q] by (simp add: walk_right_def)
        moreover have "m2 (i, j) = Some b \<Longrightarrow> b = right_at segs parts i j" if "p \<le> i" "q \<le> j" "(i, j) \<noteq> (p, q)" for i j b
          using w2 r2 m1 [OF that, of b] that memo_rightD [of segs parts p "Suc q" m2 i j b] unfolding walk_right_def
          by (cases "Suc q \<le> j") auto
        moreover have "m2 (i, j) = memo (i, j)" if "\<not> (p \<le> i \<and> q \<le> j)" for i j
          using w2 r2 f1 [OF that] that unfolding walk_right_def by auto
        ultimately show ?thesis by (simp only:) (rule walk_right_leave, simp_all)
      qed
    next
      case part
      show ?thesis
      proof (cases "q < length parts \<and> MatchString r (parts ! q)")
        case False
        then have "glob_walk segs parts p q memo = (False, ?memo((p, q) \<mapsto> False))"
          using None part by (subst glob_walk.simps) auto
        moreover have "walk_right segs parts p q memo (False, ?memo((p, q) \<mapsto> False))"
        proof (rule walk_right_leave)
          show "False = right_at segs parts p q" using right_at_part [OF part, of parts q] False by blast
        qed (erule entered, assumption+, auto)
        ultimately show ?thesis by (simp only:)
      next
        case True
        let ?w = "glob_walk segs parts (Suc p) (Suc q) ?memo"
        have m: "memo_right segs parts (Suc p) (Suc q) ?memo" using entered by (auto simp: memo_right_def)
        have w: "walk_right segs parts (Suc p) (Suc q) ?memo ?w"
          by (rule 1(3) [OF None refl _ part(2) refl True m]) (use part(1) True in auto)
        obtain b m2 where r: "?w = (b, m2)" by fastforce
        have "glob_walk segs parts p q memo = (b, m2((p, q) \<mapsto> b))"
          using None part True r by (subst glob_walk.simps) (simp add: Let_def del: fun_upd_apply)
        moreover have "b = right_at segs parts p q"
          using w r True right_at_part [OF part, of parts q] by (simp add: walk_right_def)
        moreover have "m2 (i, j) = Some b \<Longrightarrow> b = right_at segs parts i j" if "p \<le> i" "q \<le> j" "(i, j) \<noteq> (p, q)" for i j b
          using w r entered [OF that, of b] that memo_rightD [of segs parts "Suc p" "Suc q" m2 i j b] unfolding walk_right_def
          by (cases "Suc p \<le> i \<and> Suc q \<le> j") auto
        moreover have "m2 (i, j) = memo (i, j)" if "\<not> (p \<le> i \<and> q \<le> j)" for i j
          using w r that unfolding walk_right_def by auto
        ultimately show ?thesis by (simp only:) (rule walk_right_leave, simp_all)
      qed
    qed
  qed
qed

lemma matches_path_lemma:
  "matches glob v =
     (if v = ''.'' then glob = [None] \<or> length glob = 1 \<and> is_dot (hd glob) else path_match glob (split_on CHR ''/'' v))"
proof -
  have "walk_right glob (split_on CHR ''/'' v) 0 0 Map.empty (glob_walk glob (split_on CHR ''/'' v) 0 0 Map.empty)"
    by (rule glob_walk_right) (simp_all add: memo_right_def)
  then show ?thesis by (simp add: matches_def walk_right_def right_at_def)
qed

subsection \<open>Quoted literals\<close>

definition spelled :: "gostring \<Rightarrow> gostring" where
  "spelled l = (if plainSelectorValue l then l else globEscaper l)"

lemma plain_not_special: "plain_char c \<Longrightarrow> c \<notin> {CHR '':'', CHR 0x5C, CHR 0x22, CHR ''*'', CHR ''?''}"
  by (auto simp: plain_char_def byte_def)

lemma split_plain:
  "list_all plain_char l \<Longrightarrow> \<not> SplitQuoted s \<Longrightarrow> \<not> SplitClosed s \<Longrightarrow>
     split_loop partial (l @ rest) s = split_loop partial rest (write_part l s)"
proof (induction l arbitrary: s)
  case (Cons c l)
  have "c \<noteq> CHR '':''" "c \<noteq> CHR 0x5C" "c \<noteq> CHR 0x22" using plain_not_special [of c] Cons.prems(1) by auto
  then show ?case using Cons.IH [of "write_part [c] s"] Cons.prems by (simp add: write_part_def)
qed (simp add: write_part_def)

lemma split_escaped:
  "SplitQuoted s \<Longrightarrow> \<not> SplitClosed s \<Longrightarrow>
     split_loop partial (globEscaper l @ rest) s = split_loop partial rest (write_part (globEscaper l) s)"
proof (induction l arbitrary: s)
  case (Cons c l)
  then show ?case using Cons.IH [of "write_part (escape_char c) s"]
    by (simp add: write_part_def globEscaper_def escape_char_def)
qed (simp add: write_part_def globEscaper_def)

lemma split_quoted:
  assumes "SplitPart s = []" "\<not> SplitQuoted s" "\<not> SplitClosed s" "\<not> SplitOpened s"
  shows "split_loop partial (QuoteSelectorValue l @ rest) s =
    split_loop partial rest
      (s\<lparr> SplitPart := spelled l, SplitClosed := \<not> plainSelectorValue l, SplitOpened := \<not> plainSelectorValue l \<rparr>)"
proof (cases "plainSelectorValue l")
  case True
  have same: "s\<lparr> SplitPart := l, SplitClosed := False, SplitOpened := False \<rparr> = s\<lparr> SplitPart := l \<rparr>" using assms(3,4) by (cases s) simp
  have "split_loop partial (QuoteSelectorValue l @ rest) s = split_loop partial rest (s\<lparr> SplitPart := l \<rparr>)"
    using True split_plain [of l s partial rest] assms
    by (simp add: QuoteSelectorValue_def plainSelectorValue_def write_part_def)
  then show ?thesis using True by (simp only: spelled_def if_True not_True_eq_False same)
next
  case False
  let ?s = "s\<lparr> SplitQuoted := True, SplitOpened := True \<rparr>"
  have "split_loop partial (QuoteSelectorValue l @ rest) s = split_loop partial (globEscaper l @ CHR 0x22 # rest) ?s"
    using False assms by (simp add: QuoteSelectorValue_def)
  also have "\<dots> = split_loop partial (CHR 0x22 # rest) (write_part (globEscaper l) ?s)"
    using assms by (intro split_escaped) simp_all
  also have "split_loop partial (CHR 0x22 # rest) (write_part (globEscaper l) ?s) =
      split_loop partial rest (s\<lparr> SplitPart := globEscaper l, SplitQuoted := False, SplitClosed := True, SplitOpened := True \<rparr>)"
    using assms by (cases s) (simp add: write_part_def)
  also have "s\<lparr> SplitPart := globEscaper l, SplitQuoted := False, SplitClosed := True, SplitOpened := True \<rparr> =
      s\<lparr> SplitPart := globEscaper l, SplitClosed := True, SplitOpened := True \<rparr>"
    using assms(2) by (cases s) simp
  finally show ?thesis using False by (simp only: spelled_def if_False not_False_eq_True)
qed

definition literal_part :: "gostring \<Rightarrow> selector_part" where
  "literal_part l = \<lparr> PartText = spelled l, PartQuoted = \<not> plainSelectorValue l \<rparr>"

lemma split_literals:
  assumes "ls \<noteq> []" "SplitPart s = []" "\<not> SplitQuoted s" "\<not> SplitClosed s" "\<not> SplitOpened s"
  shows "\<exists>t. split_loop False (join_with '':'' (map QuoteSelectorValue ls)) s = Inr t \<and> \<not> SplitQuoted t \<and>
    SplitParts t @ [split_part t] = SplitParts s @ map literal_part ls"
  using assms
proof (induction ls arbitrary: s rule: induct_list012)
  case (2 l)
  then show ?case using split_quoted [of s False l "[]"] by (simp add: split_part_def literal_part_def)
next
  case (3 l m ls)
  let ?s = "s\<lparr> SplitParts := SplitParts s @ [literal_part l], SplitPart := [], SplitClosed := False, SplitOpened := False \<rparr>"
  have "split_loop False (join_with '':'' (map QuoteSelectorValue (l # m # ls))) s =
      split_loop False (join_with '':'' (map QuoteSelectorValue (m # ls))) ?s"
    using split_quoted [OF 3(4-7), of False l "CHR '':'' # join_with '':'' (map QuoteSelectorValue (m # ls))"] 3(5)
    by (simp add: split_part_def literal_part_def)
  then show ?case using 3(2) [of ?s] 3(5) by simp
qed simp

lemma selectorParts_literals:
  "ls \<noteq> [] \<Longrightarrow> selectorParts (join_with '':'' (map QuoteSelectorValue ls)) = Inr (map spelled ls)"
  using split_literals [of ls "\<lparr> SplitParts = [], SplitPart = [], SplitQuoted = False, SplitClosed = False, SplitOpened = False \<rparr>"]
  by (auto simp: selectorParts_def splitSelector_def literal_part_def comp_def)

lemma globLiteral_spelled: "globLiteral (spelled l) = (l, True)"
proof (cases "plainSelectorValue l")
  case True
  then have "list_all plain_char l" by (simp add: plainSelectorValue_def)
  then have "globLiteral l = (l, True)"
  proof (induction l)
    case (Cons c l)
    then show ?case using plain_not_special [of c] by simp
  qed simp
  with True show ?thesis by (simp add: spelled_def)
next
  case False
  have "globLiteral (globEscaper l) = (l, True)" by (induction l) (auto simp: globEscaper_def escape_char_def)
  with False show ?thesis by (simp add: spelled_def)
qed

subsection \<open>What a quoted literal matches\<close>

lemma compile_literal:
  "compile_part (globEscaper p) = Inr (map Byte p)"
  "list_all plain_char p \<Longrightarrow> compile_part p = Inr (map Byte p)"
proof -
  show "compile_part (globEscaper p) = Inr (map Byte p)"
    by (induction p) (auto simp: globEscaper_def escape_char_def)
  show "list_all plain_char p \<Longrightarrow> compile_part p = Inr (map Byte p)"
  proof (induction p)
    case (Cons c p)
    then show ?case using plain_not_special [of c] by simp
  qed simp
qed

lemma lit_bytes_map [simp]: "lit_bytes (map Byte p) = p" "after_bytes (map Byte p) = []"
  by (induction p) auto

lemma must_compile_literal: "ValidString p \<Longrightarrow> must_compile (map Byte p) = Some (map (Rune \<circ> fst) (runes p))"
  by (cases p) auto

lemma regex_match_runes: "regex_match (map Rune rs) xs \<longleftrightarrow> xs = rs"
  by (induction rs arbitrary: xs) (auto split: list.split)

lemma MatchString_literal: "ValidString p \<Longrightarrow> ValidString v \<Longrightarrow> MatchString (map (Rune \<circ> fst) (runes p)) v \<longleftrightarrow> v = p"
  using regex_match_runes [of "map fst (runes p)" "map fst (runes v)"] ValidString_inject
  by (auto simp: MatchString_def comp_def)

definition literal_segment :: "gostring \<Rightarrow> glob_segment" where
  "literal_segment p = Some (map Byte p, map (Rune \<circ> fst) (runes p))"

lemma split_escaper: "split_on CHR ''/'' (globEscaper l) = map globEscaper (split_on CHR ''/'' l)"
proof (induction l)
  case (Cons c l)
  then show ?case by (auto simp: globEscaper_def escape_char_def split: list.splits)
qed (simp add: globEscaper_def)

lemma globEscaper_simps: "globEscaper p = [] \<longleftrightarrow> p = []" "globEscaper p \<noteq> ''**''"
  by (cases p; auto simp: globEscaper_def escape_char_def)+

lemma compile_segments_literal:
  assumes "\<And>p. p \<in> set ps \<Longrightarrow> ValidString p \<and> compile_part (t p) = Inr (map Byte p) \<and> t p \<noteq> [] \<and> t p \<noteq> ''**''"
  shows "compile_segments a (map t ps) = Inr (map literal_segment ps)"
  using assms by (induction ps) (simp_all add: compile_segment_def must_compile_literal literal_segment_def)

lemma path_match_literal:
  "\<forall>p \<in> set ps \<union> set qs. ValidString p \<Longrightarrow> path_match (map literal_segment ps) qs \<longleftrightarrow> qs = ps"
proof (induction ps arbitrary: qs)
  case (Cons p ps)
  then show ?case by (cases qs) (auto simp: literal_segment_def MatchString_literal)
qed auto

lemma set_join: "p \<in> set ps \<Longrightarrow> set p \<subseteq> set (join_with sep ps)"
  by (induction ps rule: induct_list012) auto

lemma compile_spelled:
  assumes "ValidString l" "[] \<notin> set (split_on CHR ''/'' l)" "length (spelled l) \<le> maximumSelectorPattern"
  shows "compileSelectorGlob (spelled l) = Inr (map literal_segment (split_on CHR ''/'' l))"
proof -
  have valid: "\<forall>p \<in> set (split_on CHR ''/'' l). ValidString p"
    using assms(1) ValidString_split [of "CHR ''/''" l] by (simp add: byte_def)
  have "l \<noteq> []" using assms(2) by auto
  then have ne: "spelled l \<noteq> []" by (simp add: spelled_def globEscaper_simps)
  have "compile_segments False (split_on CHR ''/'' (spelled l)) = Inr (map literal_segment (split_on CHR ''/'' l))"
  proof (cases "plainSelectorValue l")
    case True
    have "list_all plain_char p" "p \<noteq> ''**''" if "p \<in> set (split_on CHR ''/'' l)" for p
    proof -
      have "set p \<subseteq> set l" using set_join [OF that, of "''/''"] join_split [of "CHR ''/''" l] by simp
      then show "list_all plain_char p" using True by (auto simp: plainSelectorValue_def list_all_iff)
      then show "p \<noteq> ''**''" using plain_not_special [of "CHR ''*''"] by auto
    qed
    then show ?thesis
      using compile_segments_literal [of "split_on CHR ''/'' l" "\<lambda>p. p" False] valid assms(2) compile_literal(2) True
      by (auto simp: spelled_def)
  next
    case False
    then show ?thesis
      using compile_segments_literal [of "split_on CHR ''/'' l" globEscaper False] valid assms(2) compile_literal(1)
      by (auto simp: spelled_def split_escaper globEscaper_simps)
  qed
  then show ?thesis using assms(3) ne by (simp add: compileSelectorGlob_def compileGlob_def)
qed

lemma split_inject: "split_on c s = split_on c t \<Longrightarrow> s = t"
  by (metis join_split)



subsection \<open>Patterns that do not panic\<close>

text \<open>Every run of quoted bytes is valid UTF-8.\<close>

function runs_valid :: "glob_atom list \<Rightarrow> bool" where
  "runs_valid [] \<longleftrightarrow> True"
| "runs_valid (AnyOne # as) \<longleftrightarrow> runs_valid as"
| "runs_valid (AnyMany # as) \<longleftrightarrow> runs_valid as"
| "runs_valid (Byte c # as) \<longleftrightarrow> ValidString (c # lit_bytes as) \<and> runs_valid (after_bytes as)"
  by pat_completeness auto

termination by (relation "measure length") (auto simp: le_imp_less_Suc)

lemma must_compile_valid: "runs_valid as \<Longrightarrow> \<exists>r. must_compile as = Some r"
  by (induction as rule: runs_valid.induct) auto

lemma runs_valid_cut: "runs_valid as \<longleftrightarrow> ValidString (lit_bytes as) \<and> runs_valid (after_bytes as)"
  by (cases as rule: runs_valid.cases) auto

lemma compile_part_valid:
  "compile_part s = Inr as \<Longrightarrow> ValidString (u @ s) \<Longrightarrow> ValidString (u @ lit_bytes as) \<and> runs_valid (after_bytes as)"
proof (induction s arbitrary: u as rule: compile_part.induct)
  case 1
  then show ?case by simp
next
  case (2 c cs)
  have ascii: "byte (CHR ''*'') < 128" "byte (CHR ''?'') < 128" "byte (CHR 0x5C) < 128" by (simp_all add: byte_def)
  consider (star) "c = CHR ''*''" | (one) "c = CHR ''?''" | (esc) "c = CHR 0x5C" | (lit) "c \<notin> {CHR ''*'', CHR ''?'', CHR 0x5C}" by blast
  then show ?case
  proof cases
    case star
    then obtain bs where bs: "compile_part cs = Inr bs" "as = AnyMany # bs" "\<not> (cs \<noteq> [] \<and> hd cs = CHR ''*'')"
      using "2.prems"(1) by (auto simp: outcome_simps split: if_splits)
    have "ValidString u \<and> ValidString cs" using "2.prems"(2) star ValidString_cut [OF ascii(1), of u cs] by simp
    then show ?thesis using "2.IH"(1) [OF star bs(3) bs(1), of "[]"] bs(2) runs_valid_cut [of bs] by simp
  next
    case one
    then obtain bs where bs: "compile_part cs = Inr bs" "as = AnyOne # bs" using "2.prems"(1) by (auto simp: outcome_simps)
    have "ValidString u \<and> ValidString cs" using "2.prems"(2) one ValidString_cut [OF ascii(2), of u cs] by simp
    then show ?thesis using "2.IH"(2) [OF _ one bs(1), of "[]"] one bs(2) runs_valid_cut [of bs] by simp
  next
    case esc
    then obtain d ds bs where bs: "cs = d # ds" "compile_part ds = Inr bs" "as = Byte d # bs"
      using "2.prems"(1) by (auto simp: outcome_simps split: list.splits)
    have "ValidString u" "ValidString (d # ds)" using "2.prems"(2) esc bs(1) ValidString_cut [OF ascii(3), of u "d # ds"] by simp_all
    then have "ValidString ((u @ [d]) @ ds)" using ValidString_append [of u "d # ds"] by simp
    then show ?thesis using "2.IH"(3) [OF _ _ esc bs(1) bs(2), of "u @ [d]"] esc bs(3) by simp
  next
    case lit
    then obtain bs where bs: "compile_part cs = Inr bs" "as = Byte c # bs" using "2.prems"(1) by (auto simp: outcome_simps)
    then show ?thesis using "2.IH"(4) [OF _ _ _ bs(1), of "u @ [c]"] "2.prems"(2) lit by simp
  qed
qed

text \<open>C31: compiling the glob of a valid UTF-8 pattern never panics.\<close>

theorem compileGlob_safe: "ValidString pattern \<Longrightarrow> compileGlob pattern a \<noteq> Inl RegexpPanic"
proof -
  assume "ValidString pattern"
  then have parts: "\<forall>p \<in> set (split_on CHR ''/'' pattern). ValidString p"
    using ValidString_split [of "CHR ''/''" pattern] by (simp add: byte_def)
  have "compile_segment a p \<noteq> Inl RegexpPanic" if "ValidString p" for p
  proof (cases "compile_part p")
    case (Inl e)
    have "compile_part q \<noteq> Inl RegexpPanic" for q
      by (induction q rule: compile_part.induct) (auto simp: outcome_simps split: list.splits)
    then show ?thesis using Inl by (auto simp: compile_segment_def)
  next
    case (Inr as)
    then have "runs_valid as" using compile_part_valid [OF Inr, of "[]"] that runs_valid_cut [of as] by simp
    then obtain r where "must_compile as = Some r" using must_compile_valid by blast
    then show ?thesis using Inr by (simp add: compile_segment_def)
  qed
  then have "compile_segments a ps \<noteq> Inl RegexpPanic" if "\<forall>p \<in> set ps. ValidString p" for ps
    using that by (induction ps) (auto simp: outcome_simps)
  then show ?thesis using parts by (auto simp: compileGlob_def)
qed

theorem compileGlob_safe_witness: "compileGlob ''a/b*'' False \<noteq> Inl RegexpPanic"
  by (rule compileGlob_safe) (simp add: ValidString_ascii byte_def)

lemma compileGlob_panics: "compileSelectorGlob [CHR 0xFF] = Inl RegexpPanic"
  by (simp add: compileSelectorGlob_def compileGlob_def maximumSelectorPattern_def compile_segment_def ValidString_def runes_Cons
      Let_def byte_def bad_chunk_def rune_error_def)

subsection \<open>The memo\<close>

text \<open>C32: the memoised matcher decides what the segments mean: a value of one dot by the two patterns that name it, any
  other by matching its segments one by one, \<open>**\<close> standing for any number of them.\<close>

theorem matches_path:
  "matches glob v =
     (if v = ''.'' then glob = [None] \<or> length glob = 1 \<and> is_dot (hd glob) else path_match glob (split_on CHR ''/'' v))"
  by (rule matches_path_lemma)

end
