(* ===== verification/Selector_Ranges.thy ===== *)
theory Selector_Ranges
  imports Selector_Glob Symbol_Handle "HOL-Library.Multiset"
begin

text \<open>
  The handle ranges a selector reads (\<open>query/selector_ranges.go\<close>): a module's range, merging ranges, and the package
  filters. \<open>slices.SortedFunc\<close> is not stable, so the order it gives ranges of one low bound is an argument; \<open>High+1\<close>
  wraps.
\<close>

definition rangeBatch :: nat where
  "rangeBatch = 128"

definition moduleRange :: "64 word \<Rightarrow> (handle_error, handle_range) outcome" where
  "moduleRange m =
     and_then (PackageRange m 0) (\<lambda>first. and_then (PackageRange m MaxPackage) (\<lambda>last.
       Inr \<lparr> Low = Low first, High = High last \<rparr>))"

subsection \<open>Merging ranges\<close>

definition signed_max :: "64 word \<Rightarrow> 64 word \<Rightarrow> 64 word" where
  "signed_max a b = (if a <s b then b else a)"

definition merge_step :: "handle_range list \<Rightarrow> handle_range \<Rightarrow> handle_range list" where
  "merge_step merged next =
     (if merged \<noteq> [] \<and> Low next \<le>s High (last merged) + 1
      then butlast merged @ [(last merged)\<lparr> High := signed_max (High (last merged)) (High next) \<rparr>]
      else merged @ [next])"

definition mergeRanges :: "(handle_range list \<Rightarrow> handle_range list) \<Rightarrow> handle_range list \<Rightarrow> handle_range list" where
  "mergeRanges sort_by_low ranges = foldl merge_step [] (sort_by_low ranges)"

definition sorts_by_low :: "(handle_range list \<Rightarrow> handle_range list) \<Rightarrow> bool" where
  "sorts_by_low f \<longleftrightarrow> (\<forall>rs. mset (f rs) = mset rs \<and> sorted (map (sint \<circ> Low) (f rs)))"

definition covers :: "handle_range list \<Rightarrow> 64 word \<Rightarrow> bool" where
  "covers rs h \<longleftrightarrow> (\<exists>r \<in> set rs. Contains r h)"

text \<open>A gap, or a bound at the largest \<open>int64\<close>, after which nothing is merged.\<close>

definition apart :: "handle_range \<Rightarrow> handle_range \<Rightarrow> bool" where
  "apart a b \<longleftrightarrow> sint (High a) + 1 < sint (Low b) \<or> sint (High a) = 2 ^ 63 - 1"

fun all_apart :: "handle_range list \<Rightarrow> bool" where
  "all_apart (a # b # rs) \<longleftrightarrow> apart a b \<and> all_apart (b # rs)"
| "all_apart _ \<longleftrightarrow> True"

lemma sint_bounds: "- (2 ^ 63) \<le> sint (w :: 64 word)" "sint (w :: 64 word) < 2 ^ 63"
  using sint_ge [of w] sint_lt [of w] by simp_all

lemma sint_succ: "sint (w :: 64 word) \<noteq> 2 ^ 63 - 1 \<Longrightarrow> sint (w + 1) = sint w + 1"
proof -
  assume "sint w \<noteq> 2 ^ 63 - 1"
  then have "sint w + 1 < 2 ^ 63" "- (2 ^ 63) \<le> sint w + 1" using sint_bounds [of w] by linarith+
  then have "signed_take_bit 63 (sint w + 1) = sint w + 1" by (intro signed_take_bit_int_eq_self) simp_all
  then show ?thesis by (simp add: sint_word_ariths)
qed

lemma sint_wrap: "sint (w :: 64 word) = 2 ^ 63 - 1 \<Longrightarrow> sint (w + 1) = - (2 ^ 63)"
proof -
  assume w: "sint w = 2 ^ 63 - 1"
  have "sint (w + 1) = signed_take_bit 63 (2 ^ 63)" using w by (simp add: sint_word_ariths)
  then show ?thesis by (simp add: signed_take_bit_eq_take_bit_shift)
qed

lemma Contains_sint: "Contains r h \<longleftrightarrow> sint (Low r) \<le> sint h \<and> sint h \<le> sint (High r)"
  by (simp add: Contains_def word_sle_eq)

lemma sint_signed_max: "sint (signed_max a b) = max (sint a) (sint b)"
  by (simp add: signed_max_def word_sless_alt)

lemma all_apart_snoc: "all_apart (xs @ [a]) \<Longrightarrow> (xs @ [a] \<noteq> [] \<longrightarrow> apart a b) \<Longrightarrow> all_apart (xs @ [a, b])"
  by (induction xs rule: induct_list012) auto

lemma all_apart_last: "all_apart (xs @ [a]) \<Longrightarrow> Low a' = Low a \<Longrightarrow> all_apart (xs @ [a'])"
  by (induction xs rule: induct_list012) (auto simp: apart_def)

lemma merge_step_covers:
  assumes "\<forall>r \<in> set merged. sint (Low r) \<le> sint (Low next)"
  shows "covers (merge_step merged next) h \<longleftrightarrow> covers merged h \<or> Contains next h"
proof (cases "merged \<noteq> [] \<and> Low next \<le>s High (last merged) + 1")
  case True
  define l where "l = last merged"
  have m: "merged = butlast merged @ [l]" using True by (simp add: l_def)
  have low: "sint (Low l) \<le> sint (Low next)" using assms True by (simp add: l_def)
  have near: "sint (Low next) \<le> sint (High l) + 1 \<or> sint (Low next) \<le> sint (High l)"
  proof (cases "sint (High l) = 2 ^ 63 - 1")
    case True
    then show ?thesis using sint_bounds [of "Low next"] by simp
  next
    case False
    then show ?thesis using True sint_succ [OF False] by (simp add: l_def word_sle_eq)
  qed
  have "Contains (l\<lparr> High := signed_max (High l) (High next) \<rparr>) h \<longleftrightarrow> Contains l h \<or> Contains next h"
    unfolding Contains_sint using low near by (auto simp: sint_signed_max)
  moreover have "covers merged h \<longleftrightarrow> covers (butlast merged) h \<or> Contains l h"
    by (subst m) (auto simp: covers_def)
  ultimately show ?thesis using True by (auto simp: merge_step_def covers_def l_def)
next
  case False
  then show ?thesis by (auto simp: merge_step_def covers_def)
qed

lemma merge_step_apart:
  assumes "all_apart merged" "\<forall>r \<in> set merged. sint (Low r) \<le> sint (Low next)"
  shows "all_apart (merge_step merged next) \<and> (\<forall>r \<in> set (merge_step merged next). sint (Low r) \<le> sint (Low next))"
proof (cases "merged = []")
  case True
  then show ?thesis by (simp add: merge_step_def)
next
  case ne: False
  then obtain ms l where m: "merged = ms @ [l]" by (metis append_butlast_last_id)
  show ?thesis
  proof (cases "Low next \<le>s High l + 1")
    case True
    then show ?thesis using assms m all_apart_last [of ms l] by (simp add: merge_step_def)
  next
    case False
    have "apart l next"
    proof (cases "sint (High l) = 2 ^ 63 - 1")
      case other: False
      then show ?thesis using False sint_succ [OF other] by (simp add: apart_def word_sle_eq)
    qed (simp add: apart_def)
    then show ?thesis using False assms m all_apart_snoc [of ms l "next"] by (simp add: merge_step_def)
  qed
qed

lemma merge_loop:
  assumes "sorted (map (sint \<circ> Low) rs)" "all_apart merged" "\<forall>m \<in> set merged. \<forall>r \<in> set rs. sint (Low m) \<le> sint (Low r)"
  shows "all_apart (foldl merge_step merged rs) \<and> (covers (foldl merge_step merged rs) h \<longleftrightarrow> covers merged h \<or> covers rs h)"
  using assms
proof (induction rs arbitrary: merged)
  case Nil
  then show ?case by (simp add: covers_def)
next
  case (Cons r rs)
  have low: "\<forall>m \<in> set merged. sint (Low m) \<le> sint (Low r)" using Cons.prems(3) by simp
  note step = merge_step_apart [OF Cons.prems(2) low]
  have "\<forall>m \<in> set (merge_step merged r). \<forall>x \<in> set rs. sint (Low m) \<le> sint (Low x)"
    using step Cons.prems(1) by fastforce
  then show ?case using Cons.IH [of "merge_step merged r"] Cons.prems(1) step merge_step_covers [OF low, of h]
    by (auto simp: covers_def)
qed

lemma mergeRanges_covers:
  "sorts_by_low f \<Longrightarrow> covers (mergeRanges f rs) h \<longleftrightarrow> covers rs h"
proof -
  assume f: "sorts_by_low f"
  then have "set (f rs) = set rs" by (metis mset_eq_setD sorts_by_low_def)
  then show ?thesis using merge_loop [of "f rs" "[]" h] f by (simp add: sorts_by_low_def mergeRanges_def covers_def)
qed

text \<open>C33: merging keeps exactly the handles of the given ranges, also where a bound is the largest integer and its
  successor wraps, and leaves no two neighbours that overlap or touch but after such a bound.\<close>

theorem mergeRanges_exact:
  assumes "sorts_by_low f"
  shows "(covers (mergeRanges f rs) h \<longleftrightarrow> covers rs h) \<and> all_apart (mergeRanges f rs)"
  using merge_loop [of "f rs" "[]" h] assms mergeRanges_covers [OF assms] by (simp add: mergeRanges_def sorts_by_low_def)

lemma stable_sorts: "sorts_by_low (sort_key (sint \<circ> Low))"
  by (simp add: sorts_by_low_def)

theorem mergeRanges_exact_witness:
  "(covers (mergeRanges (sort_key (sint \<circ> Low)) [\<lparr> Low = 4, High = 9 \<rparr>, \<lparr> Low = 1, High = 3 \<rparr>]) 5
      \<longleftrightarrow> covers [\<lparr> Low = 4, High = 9 \<rparr>, \<lparr> Low = 1, High = 3 \<rparr>] 5) \<and>
   all_apart (mergeRanges (sort_key (sint \<circ> Low)) [\<lparr> Low = 4, High = 9 \<rparr>, \<lparr> Low = 1, High = 3 \<rparr>])"
  by (rule mergeRanges_exact [OF stable_sorts])

text \<open>Two ranges that overlap stay two when the first ends at the largest integer.\<close>

lemma mergeRanges_top:
  "merge_step [\<lparr> Low = 1, High = 0x7FFFFFFFFFFFFFFF \<rparr>] \<lparr> Low = 5, High = 9 \<rparr> =
     [\<lparr> Low = 1, High = 0x7FFFFFFFFFFFFFFF \<rparr>, \<lparr> Low = 5, High = 9 \<rparr>]"
  by (simp add: merge_step_def word_sle_eq)

subsection \<open>The range of a module\<close>

lemma uint_or_ones: "uint low = a * 2 ^ n \<Longrightarrow> n < 63 \<Longrightarrow> uint (low OR ones n) = a * 2 ^ n + (2 ^ n - 1)"
  using or_push_bit [of "2 ^ n - 1" n a] by (simp add: unsigned_or_eq uint_ones push_bit_eq_mult)

lemma moduleRange_exact:
  assumes f: "Pack f = Inr h" and r: "moduleRange m = Inr r"
  shows "Contains r h \<longleftrightarrow> FModule f = m"
proof -
  obtain a b where a: "pack (low_fields m 0 0 0) = Inr a" and b: "pack (low_fields m MaxPackage 0 0) = Inr b"
    and rl: "r = \<lparr> Low = a, High = b OR ones 36 \<rparr>"
    using r by (auto simp: moduleRange_def PackageRange_def outcome_simps layout_defs)
  have max: "uint MaxPackage = 2 ^ 16 - 1" by (simp add: MaxPackage_def layout_defs uint_ones)
  have ua: "uint a = uint m * 2 ^ 52" using a by (simp add: pack_Inr low_value)
  have ub: "uint b = (uint m * 2 ^ 16 + (2 ^ 16 - 1)) * 2 ^ 36" using b max by (simp add: pack_Inr low_value)
  have uc: "uint (b OR ones 36) = uint m * 2 ^ 52 + (2 ^ 52 - 1)" using uint_or_ones [OF ub] by simp
  have m: "uint m < 2 ^ 11" using a by (simp add: pack_Inr fits_def)
  have h: "fits f" "uint h = handle_value f" using f by (simp_all add: Pack_Inr)
  have "sint a = uint a" "sint (b OR ones 36) = uint (b OR ones 36)" "sint h = uint h"
    using sint_positive [of a] sint_positive [of "b OR ones 36"] sint_positive [of h] m ua uc handle_value_bounds [OF h(1)] h(2)
    by simp_all
  then have "Contains r h \<longleftrightarrow> uint m * 2 ^ 52 \<le> handle_value f \<and> handle_value f < (uint m + 1) * 2 ^ 52"
    using ua uc h(2) rl by (auto simp: Contains_sint)
  also have "\<dots> \<longleftrightarrow> handle_value f div 2 ^ 52 = uint m" by (rule div_block) simp
  also have "handle_value f div 2 ^ 52 = uint (FModule f)" by (rule handle_prefixes(4) [OF h(1)])
  finally show ?thesis by (simp add: word_uint_eq_iff)
qed

subsection \<open>The packages a selector can match\<close>

definition relativePackage :: "gostring \<Rightarrow> gostring \<Rightarrow> gostring \<times> bool" where
  "relativePackage path key =
     (if path = key then (''.'', True)
      else if has_prefix path (key @ ''/'') then (drop (length key + 1) path, True)
      else ([], False))"

definition special_char :: "char \<Rightarrow> bool" where
  "special_char c \<longleftrightarrow> c \<in> {CHR ''*'', CHR ''?'', CHR 0x5C}"

definition qualifiedPackageFilter :: "gostring \<Rightarrow> gostring \<Rightarrow> gostring \<Rightarrow> bool" where
  "qualifiedPackageFilter pattern path key =
     (let literal = takeWhile (\<lambda>c. \<not> special_char c) pattern;
          segments = join_with ''/'' (butlast (split_on CHR ''/'' literal))
      in segments = [] \<or> has_prefix path (segments @ ''/'') \<or> has_prefix segments (path @ ''.''))"

definition packageFilter :: "selector \<Rightarrow> selector_glob \<Rightarrow> gostring \<Rightarrow> gostring \<Rightarrow> bool" where
  "packageFilter s glob path key =
     (if ModulePattern s = [] then matches glob path
      else case relativePackage path key of (relative, inside) \<Rightarrow> inside \<and> matches glob relative)"

lemma compile_plain: "\<forall>c \<in> set p. \<not> special_char c \<Longrightarrow> compile_part p = Inr (map Byte p)"
  by (induction p) (auto simp: special_char_def)

lemma compile_segments_append:
  "compile_segments a (xs @ ys) = Inr g \<Longrightarrow> \<exists>g1 g2. compile_segments a xs = Inr g1 \<and> compile_segments a ys = Inr g2 \<and> g = g1 @ g2"
proof (induction xs arbitrary: g)
  case (Cons x xs)
  then obtain h g' where h: "compile_segment a x = Inr h" "compile_segments a (xs @ ys) = Inr g'" "g = h # g'"
    by (auto simp: outcome_simps)
  then show ?case using Cons.IH [OF h(2)] by (auto simp: outcome_simps)
qed simp

lemma compile_segments_length: "compile_segments a xs = Inr g \<Longrightarrow> length g = length xs"
  by (induction xs arbitrary: g) (auto simp: outcome_simps)

lemma compile_segments_plain:
  assumes "\<forall>p \<in> set ps. ValidString p \<and> (\<forall>c \<in> set p. \<not> special_char c)"
  shows "compile_segments False ps = Inr g \<Longrightarrow> g = map literal_segment ps"
  using assms
proof (induction ps arbitrary: g)
  case (Cons p ps)
  obtain h g' where h: "compile_segment False p = Inr h" "compile_segments False ps = Inr g'" "g = h # g'"
    using Cons.prems(1) by (auto simp: outcome_simps simp del: must_compile.simps)
  have p: "ValidString p" "\<forall>c \<in> set p. \<not> special_char c" using Cons.prems(2) by simp_all
  have "CHR ''*'' \<notin> set p" using p(2) by (auto simp: special_char_def)
  then have "p \<noteq> ''**''" by force
  then have "h = literal_segment p"
    using h(1) compile_plain [OF p(2)] must_compile_literal [OF p(1)]
    by (simp add: compile_segment_def literal_segment_def del: must_compile.simps split: if_splits)
  moreover have "g' = map literal_segment ps" using Cons.IH [OF h(2)] Cons.prems(2) by simp
  ultimately show ?case using h(3) by simp
qed simp

lemma path_match_literal_Cons:
  "path_match (literal_segment p # gs) qs \<longleftrightarrow>
     (case qs of [] \<Rightarrow> False | q # qs \<Rightarrow> MatchString (map (Rune \<circ> fst) (runes p)) q \<and> path_match gs qs)"
  by (simp add: literal_segment_def split: list.split)

lemma path_match_prefix:
  "\<forall>p \<in> set ps \<union> set qs. ValidString p \<Longrightarrow> path_match (map literal_segment ps @ g) qs \<Longrightarrow> \<exists>rest. qs = ps @ rest"
proof (induction ps arbitrary: qs)
  case (Cons p ps)
  obtain q qs' where q: "qs = q # qs'" using Cons.prems(2) by (cases qs) (auto simp: path_match_literal_Cons)
  then have "q = p" "path_match (map literal_segment ps @ g) qs'"
    using Cons.prems MatchString_literal [of p q] by (auto simp: path_match_literal_Cons)
  then show ?case using Cons.IH [of qs'] Cons.prems(1) q by auto
qed simp

lemma split_join_append: "\<forall>p \<in> set ps. c \<notin> set p \<Longrightarrow> ps \<noteq> [] \<Longrightarrow> split_on c (join_with [c] ps @ c # t) = ps @ split_on c t"
  by (induction ps rule: induct_list012) (auto simp: split_on_append)

lemma join_append: "ps \<noteq> [] \<Longrightarrow> rest \<noteq> [] \<Longrightarrow> join_with [c] (ps @ rest) = join_with [c] ps @ c # join_with [c] rest"
proof (induction ps rule: induct_list012)
  case (2 p)
  then show ?case by (cases rest) simp_all
qed simp_all

text \<open>The package of a matched qualified name passes the filter: it is a necessary condition.\<close>

lemma qualifiedPackageFilter_necessary:
  assumes g: "compileSelectorGlob pattern = Inr g" and valid: "ValidString pattern" "ValidString (path @ ''.'' @ name)"
    and match: "matches g (path @ ''.'' @ name)"
  shows "qualifiedPackageFilter pattern path key"
proof -
  let ?c = "CHR ''/''"
  define literal where "literal = takeWhile (\<lambda>c. \<not> special_char c) pattern"
  define segs where "segs = butlast (split_on ?c literal)"
  let ?key = "path @ ''.'' @ name"
  show ?thesis
  proof (cases "segs = []")
    case True
    then show ?thesis unfolding qualifiedPackageFilter_def literal_def [symmetric] segs_def [symmetric] Let_def by simp
  next
    case False
    obtain rest where rest: "pattern = literal @ rest" by (metis literal_def takeWhile_dropWhile_id)
    have lits: "split_on ?c literal = segs @ [last (split_on ?c literal)]" by (simp add: segs_def)
    have plain: "\<forall>p \<in> set segs. ?c \<notin> set p" using split_on_pieces [of ?c literal] lits by (metis Un_iff set_append)
    have lit: "literal = join_with [?c] segs @ ?c # last (split_on ?c literal)"
      using join_split [of ?c literal] join_append [OF False, of "[last (split_on ?c literal)]" ?c] lits by simp
    have pieces: "split_on ?c pattern = segs @ split_on ?c (last (split_on ?c literal) @ rest)"
      using split_join_append [OF plain False, of "last (split_on ?c literal) @ rest"] rest lit by (metis append.assoc append_Cons)
    have "\<forall>p \<in> set (split_on ?c pattern). ValidString p" using valid(1) ValidString_split [of ?c pattern] by (simp add: byte_def)
    then have segv: "\<forall>p \<in> set segs. ValidString p" using pieces by simp
    have "\<forall>c \<in> set literal. \<not> special_char c" by (auto simp: literal_def dest: set_takeWhileD)
    moreover have "\<forall>p \<in> set segs. set p \<subseteq> set literal" using set_join [of _ "split_on ?c literal" "[?c]"] join_split [of ?c literal] lits
      by (metis Un_iff set_append)
    ultimately have segp: "\<forall>p \<in> set segs. ValidString p \<and> (\<forall>c \<in> set p. \<not> special_char c)" using segv by blast
    have "compile_segments False (segs @ split_on ?c (last (split_on ?c literal) @ rest)) = Inr g"
      using g pieces by (auto simp: compileSelectorGlob_def compileGlob_def split: if_splits)
    then obtain g2 where g2: "g = map literal_segment segs @ g2" "compile_segments False (split_on ?c (last (split_on ?c literal) @ rest)) = Inr g2"
      using compile_segments_append compile_segments_plain [OF segp] by blast
    have len: "2 \<le> length g" using g2 compile_segments_length [OF g2(2)] False by (cases segs; cases g2) auto
    have "?key \<noteq> ''.''" using match len by (auto simp: matches_path_lemma)
    then have "path_match g (split_on ?c ?key)" using match by (simp add: matches_path_lemma)
    moreover have "\<forall>p \<in> set (split_on ?c ?key). ValidString p" using valid(2) ValidString_split [of ?c ?key] by (simp add: byte_def)
    ultimately obtain qs where qs: "split_on ?c ?key = segs @ qs" using path_match_prefix [of segs "split_on ?c ?key" g2] g2(1) segv by auto
    let ?s = "join_with [?c] segs"
    have key: "?key = ?s \<or> (\<exists>t. ?key = ?s @ ?c # t)"
    proof (cases "qs = []")
      case True
      then show ?thesis using join_split [of ?c ?key] qs by simp
    next
      case other: False
      have "?key = ?s @ ?c # join_with [?c] qs" using join_split [of ?c ?key] join_append [OF False other, of ?c] qs by simp
      then show ?thesis by blast
    qed
    have "has_prefix path (?s @ ''/'') \<or> has_prefix ?s (path @ ''.'')"
    proof (cases "?key = ?s")
      case True
      then have "?s = (path @ ''.'') @ name" by simp
      then show ?thesis by (metis has_prefix_append)
    next
      case False
      then obtain t where "path @ CHR ''.'' # name = ?s @ ?c # t" using key by auto
      then consider us where "path = ?s @ us" "us @ CHR ''.'' # name = ?c # t" | us where "path @ us = ?s" "CHR ''.'' # name = us @ ?c # t"
        by (auto simp: append_eq_append_conv2)
      then show ?thesis
      proof cases
        case 1
        then show ?thesis by (cases us) (auto simp: has_prefix_iff)
      next
        case 2
        then have "?s = path @ us" by simp
        then show ?thesis using 2(2) by (cases us) (auto simp: has_prefix_iff)
      qed
    qed
    then show ?thesis unfolding qualifiedPackageFilter_def literal_def [symmetric] segs_def [symmetric] Let_def by simp
  qed
qed

end
