(* ===== verification/Search_Name.thy ===== *)
theory Search_Name
  imports Go_Utf8
begin

text \<open>
  The search spelling of a symbol's name and the bound of a prefix search (\<open>storage/search_name.go\<close>). Lowering a rune
  gives a character of the alphabet for the ASCII letters and digits and for two more, the dotted capital i and the Kelvin sign.
\<close>

definition searchAlphabet :: gostring where
  "searchAlphabet = ''0123456789abcdefghijklmnopqrstuvwxyz''"

definition search_rune :: "nat \<Rightarrow> char option" where
  "search_rune r =
     (if 48 \<le> r \<and> r \<le> 57 \<or> 97 \<le> r \<and> r \<le> 122 then Some (char_of r)
      else if 65 \<le> r \<and> r \<le> 90 then Some (char_of (r + 32))
      else if r = 0x130 then Some CHR ''i''
      else if r = 0x212A then Some CHR ''k''
      else None)"

definition SearchName :: "gostring \<Rightarrow> gostring" where
  "SearchName name = List.map_filter (search_rune \<circ> fst) (runes name)"

datatype search_error = EmptyPrefix | OutsideAlphabet gostring nat

definition next_search_char :: "char \<Rightarrow> char" where
  "next_search_char c = searchAlphabet ! (the (index_of ((=) c) searchAlphabet) + 1)"

definition SearchPrefixUpperBound :: "gostring \<Rightarrow> (search_error, gostring \<times> bool) outcome" where
  "SearchPrefixUpperBound prefix =
     (if prefix = [] then Inl EmptyPrefix
      else case find (\<lambda>(r, _). r \<notin> byte ` set searchAlphabet) (runes prefix) of
        Some (r, _) \<Rightarrow> Inl (OutsideAlphabet prefix r)
      | None \<Rightarrow>
          (case dropWhile (\<lambda>c. c = CHR ''z'') (rev prefix) of
             [] \<Rightarrow> Inr ([], False)
           | c # cs \<Rightarrow> Inr (rev cs @ [next_search_char c], True)))"

subsection \<open>Search names\<close>

definition search_text :: "gostring \<Rightarrow> bool" where
  "search_text s \<longleftrightarrow> set s \<subseteq> set searchAlphabet"

lemma search_text_simps [simp]: "search_text []" "search_text (c # s) \<longleftrightarrow> c \<in> set searchAlphabet \<and> search_text s"
  "search_text (s @ t) \<longleftrightarrow> search_text s \<and> search_text t"
  by (auto simp: search_text_def)

lemma alphabet_codes: "searchAlphabet = map char_of ([48..<58] @ [97..<123 :: nat])"
  by code_simp

lemma alphabet_byte: "c \<in> set searchAlphabet \<longleftrightarrow> 48 \<le> byte c \<and> byte c \<le> 57 \<or> 97 \<le> byte c \<and> byte c \<le> 122"
proof -
  have "c = char_of n \<longleftrightarrow> byte c = n" if "n \<in> {48..<58} \<union> {97..<123}" for n :: nat
  proof -
    have "n < 256" using that by auto
    then show ?thesis using byte_char_of [of n] char_of_byte [of c] by metis
  qed
  then have "(\<exists>n \<in> {48..<58} \<union> {97..<123 :: nat}. c = char_of n) \<longleftrightarrow> (\<exists>n \<in> {48..<58} \<union> {97..<123 :: nat}. byte c = n)"
    by (rule bex_cong [OF refl])
  moreover have "c \<in> set searchAlphabet \<longleftrightarrow> (\<exists>n \<in> {48..<58} \<union> {97..<123 :: nat}. c = char_of n)"
    unfolding alphabet_codes by (simp only: set_map set_append set_upt image_iff)
  ultimately show ?thesis by auto
qed

lemma search_rune_alphabet: "search_rune r = Some c \<Longrightarrow> c \<in> set searchAlphabet"
  unfolding alphabet_byte by (auto simp: search_rune_def byte_char_of byte_def split: if_splits)

lemma SearchName_text: "search_text (SearchName name)"
  unfolding search_text_def SearchName_def by (auto simp: List.map_filter_def search_rune_alphabet)

lemma next_search_char_gap:
  assumes "c \<in> set searchAlphabet" "c \<noteq> CHR ''z''"
  shows "c < next_search_char c" "x \<in> set searchAlphabet \<Longrightarrow> x < next_search_char c \<Longrightarrow> x \<le> c"
proof -
  have all: "\<forall>c \<in> set searchAlphabet. c = CHR ''z'' \<or> c < next_search_char c \<and>
    (\<forall>x \<in> set searchAlphabet. \<not> x < next_search_char c \<or> x \<le> c)" by code_simp
  then show "c < next_search_char c" "x \<in> set searchAlphabet \<Longrightarrow> x < next_search_char c \<Longrightarrow> x \<le> c" using assms by blast+
qed

lemma alphabet_z: "c \<in> set searchAlphabet \<Longrightarrow> c \<le> CHR ''z''"
proof -
  have "\<forall>c \<in> set searchAlphabet. c \<le> CHR ''z''" by code_simp
  then show "c \<in> set searchAlphabet \<Longrightarrow> c \<le> CHR ''z''" by blast
qed

lemma above_zs: "search_text s \<Longrightarrow> replicate n CHR ''z'' \<le> s \<longleftrightarrow> has_prefix s (replicate n CHR ''z'')"
proof (induction n arbitrary: s)
  case (Suc n)
  then show ?case using alphabet_z by (cases s) fastforce+
qed simp

lemma prefix_interval:
  assumes c: "c \<in> set searchAlphabet" "c \<noteq> CHR ''z''" and s: "search_text s"
  shows "has_prefix s (q @ c # replicate n CHR ''z'') \<longleftrightarrow>
    q @ c # replicate n CHR ''z'' \<le> s \<and> s < q @ [next_search_char c]"
  using s
proof (induction q arbitrary: s)
  case Nil
  show ?case
  proof (cases s)
    case (Cons x t)
    have "x < next_search_char c \<longleftrightarrow> x \<le> c" if "x \<in> set searchAlphabet"
      using next_search_char_gap(1) [OF c] next_search_char_gap(2) [OF c, of x] that by auto
    then show ?thesis using Cons Nil above_zs [of t n] by auto
  qed simp
next
  case (Cons y q)
  then show ?case by (cases s) auto
qed

lemma alphabet_runes: "search_text s \<Longrightarrow> runes s = map (\<lambda>c. (byte c, [c])) s"
  by (induction s) (auto simp: alphabet_byte)

lemma chunk_of_ascii: "valid_chunk p \<Longrightarrow> fst p < 128 \<Longrightarrow> snd p = [char_of (fst p)]"
  by (auto simp: valid_chunk_def encode_rune_def rune_error_def)

lemma runes_in_alphabet:
  assumes "\<forall>(r, _) \<in> set (runes s). r \<in> byte ` set searchAlphabet"
  shows "search_text s"
proof -
  have "set (snd p) \<subseteq> set searchAlphabet" if p: "p \<in> set (runes s)" for p
  proof -
    obtain c where c: "c \<in> set searchAlphabet" "fst p = byte c" using assms p by fastforce
    then have "snd p = [c]" using chunk_of_ascii [of p] runes_valid [of s] p by (auto simp: alphabet_byte)
    then show ?thesis using c by simp
  qed
  then have "set (concat (map snd (runes s))) \<subseteq> set searchAlphabet" by auto
  then show ?thesis by (simp add: search_text_def concat_runes)
qed

lemma bound_search_text:
  assumes "SearchPrefixUpperBound p = Inr r"
  shows "search_text p" "p \<noteq> []"
proof -
  have none: "find (\<lambda>(r, _). r \<notin> byte ` set searchAlphabet) (runes p) = None" and "p \<noteq> []"
    using assms by (auto simp: SearchPrefixUpperBound_def split: if_splits option.splits)
  then show "p \<noteq> []" by simp
  show "search_text p" by (rule runes_in_alphabet) (use none in \<open>auto simp: find_None_iff split_beta\<close>)
qed

lemma search_text_accepted: "search_text p \<Longrightarrow> find (\<lambda>(r, _). r \<notin> byte ` set searchAlphabet) (runes p) = None"
  by (auto simp: alphabet_runes find_None_iff search_text_def)

lemma trailing_zs: "\<exists>n. rev p = replicate n CHR ''z'' @ dropWhile (\<lambda>c. c = CHR ''z'') (rev p)"
proof -
  have "takeWhile (\<lambda>c. c = CHR ''z'') (rev p) = replicate (length (takeWhile (\<lambda>c. c = CHR ''z'') (rev p))) CHR ''z''"
    by (rule replicate_eqI) (auto dest: set_takeWhileD)
  then show ?thesis by (metis takeWhile_dropWhile_id)
qed

text \<open>C35: the search names in the interval from a prefix up to its bound are exactly the names that start with the
  prefix, and a prefix of only z has all names from it on.\<close>

theorem SearchPrefixUpperBound_exact:
  assumes bound: "SearchPrefixUpperBound prefix = Inr (upper, bounded)" and s: "search_text s"
  shows "has_prefix s prefix \<longleftrightarrow> prefix \<le> s \<and> (\<not> bounded \<or> s < upper)"
proof -
  have p: "search_text prefix" "prefix \<noteq> []" using bound_search_text [OF bound] by simp_all
  obtain n where n: "rev prefix = replicate n CHR ''z'' @ dropWhile (\<lambda>c. c = CHR ''z'') (rev prefix)"
    using trailing_zs by blast
  show ?thesis
  proof (cases "dropWhile (\<lambda>c. c = CHR ''z'') (rev prefix)")
    case Nil
    then have "prefix = replicate n CHR ''z''" using n by (metis append_Nil2 rev_replicate rev_rev_ident)
    moreover have "\<not> bounded" using bound Nil p search_text_accepted [OF p(1)] by (simp add: SearchPrefixUpperBound_def)
    ultimately show ?thesis using above_zs [OF s] by simp
  next
    case (Cons c cs)
    have "prefix = rev (replicate n CHR ''z'' @ c # cs)" using n Cons by (metis rev_rev_ident)
    then have eq: "prefix = rev cs @ c # replicate n CHR ''z''" by simp
    have "c \<noteq> CHR ''z''" using Cons hd_dropWhile [of "\<lambda>c. c = CHR ''z''" "rev prefix"] by simp
    moreover have "upper = rev cs @ [next_search_char c]" "bounded"
      using bound Cons p search_text_accepted [OF p(1)] by (simp_all add: SearchPrefixUpperBound_def)
    ultimately show ?thesis using prefix_interval [of c s "rev cs" n] p(1) s eq by simp
  qed
qed

theorem SearchPrefixUpperBound_exact_witness:
  "SearchPrefixUpperBound ''a9zz'' = Inr (''aa'', True) \<and> search_text ''a9zzq'' \<and>
   (has_prefix ''a9zzq'' ''a9zz'' \<longleftrightarrow> ''a9zz'' \<le> ''a9zzq'' \<and> ''a9zzq'' < ''aa'')"
proof -
  have b: "SearchPrefixUpperBound ''a9zz'' = Inr (''aa'', True)" by code_simp
  have s: "search_text ''a9zzq''" unfolding search_text_def by code_simp
  show ?thesis using b s SearchPrefixUpperBound_exact [OF b s] by blast
qed

end
