(* ===== verification/Selector_Candidates.thy ===== *)
theory Selector_Candidates
  imports Selector_Ranges Search_Name Kind_Registry Symbol_Facts
begin

text \<open>
  How a selector finds its symbols (\<open>query/compact_selector.go\<close>, \<open>query/scope_predicate.go\<close>, the rest of
  \<open>query/selector_ranges.go\<close>): the roots it admits, the handle ranges it reads, the rows it keeps and the spelling it
  matches. The tables are an argument, each read whole or failing; the symbols seen are the state of \<open>Symbol_Facts\<close>.
  A symbol row
  keeps the columns read here. Selectors of kind \<open>module\<close> and \<open>package\<close>, which \<open>resolveTreeSelector\<close> answers, and
  reading the declarations of what matched are left out.
\<close>

datatype query_error =
  ReadError gostring
| GlobError selector_error
| KindError kind_error
| UnknownSelector gostring
| NoSelector
| HandleError handle_error
| FactError facts_error
| OwnerChain gostring
| OwnerUnread gostring gostring
| OwnersLoaded nat nat

record symbol_row =
  RowID :: gostring
  RowModule :: gostring
  RowPackage :: gostring
  RowKind :: gostring
  RowOwner :: "gostring option"
  RowName :: gostring
  RowSearch :: gostring
  RowHandle :: "64 word"

type_synonym 'a read = "(query_error, 'a) outcome"

record symbol_tables =
  ReadModules :: "(32 word \<times> gostring) list read"
  ReadPackages :: "(32 word \<times> 32 word \<times> gostring) list read"
  ReadSymbols :: "symbol_row list read"
  ReadKinds :: "kinds read"
  DefinedSymbols :: "nat \<Rightarrow> 64 word list \<Rightarrow> 64 word set read"

definition raised :: "('e \<Rightarrow> 'f) \<Rightarrow> ('e, 'a) outcome \<Rightarrow> ('f, 'a) outcome" where
  "raised f r = (case r of Inl e \<Rightarrow> Inl (f e) | Inr x \<Rightarrow> Inr x)"

lemma raised_Inr [outcome_simps]: "raised f r = Inr x \<longleftrightarrow> r = Inr x"
  by (simp add: raised_def split: sum.splits)

subsection \<open>Scope predicates\<close>

record scope_term =
  TermSelector :: selector
  TermGlob :: selector_glob
  TermModule :: selector_glob

type_synonym scope_predicate = "scope_term list"

record typed_modifier =
  Include :: bool
  ModSelector :: selector

record query_filter =
  FilterKind :: gostring
  FilterValue :: gostring

datatype expr = Expr
  (ExprKind: gostring) (ExprName: gostring) (ExprSelector: "selector option") (ExprModifiers: "typed_modifier list")
  (ExprRelation: gostring) (ExprDepth: int) (ExprFilters: "query_filter list") (ExprLeft: "expr option") (ExprRight: "expr option")

text \<open>The zero glob, of no segments, stands for a glob that was not compiled.\<close>

definition optional_glob :: "gostring \<Rightarrow> (selector_error, selector_glob) outcome" where
  "optional_glob pattern = (if pattern = [] then Inr [] else compileSelectorGlob pattern)"

definition compile_term :: "selector \<Rightarrow> scope_term read" where
  "compile_term s =
     and_then (raised GlobError (compileSelectorGlob (Pattern s))) (\<lambda>g.
     and_then (raised GlobError (optional_glob (ModulePattern s))) (\<lambda>m.
       Inr \<lparr> TermSelector = s, TermGlob = g, TermModule = m \<rparr>))"

fun compileScopePredicate :: "expr option \<Rightarrow> (scope_predicate \<times> bool) read" where
  "compileScopePredicate None = Inr ([], False)"
| "compileScopePredicate (Some (Expr kind _ sel _ _ _ _ left right)) =
     (if kind = ''selector'' \<and> sel = None then Inl NoSelector
      else if kind = ''selector'' \<and> Kind (the sel) \<in> {''mod'', ''pkg''} then
        and_then (compile_term (the sel)) (\<lambda>t. Inr ([t], True))
      else if kind = ''union'' then
        and_then (compileScopePredicate left) (\<lambda>(ls, scoped).
          if \<not> scoped then Inr ([], False)
          else and_then (compileScopePredicate right) (\<lambda>(rs, scoped).
            if \<not> scoped then Inr ([], False) else Inr (ls @ rs, True)))
      else Inr ([], False))"

definition term_admitsRoot :: "scope_term \<Rightarrow> gostring \<Rightarrow> bool" where
  "term_admitsRoot t root =
     (if Kind (TermSelector t) = ''mod'' then matches (TermGlob t) root
      else ModulePattern (TermSelector t) = [] \<or> matches (TermModule t) root)"

definition admitsRoot :: "scope_predicate \<Rightarrow> gostring \<Rightarrow> bool" where
  "admitsRoot p root = list_ex (\<lambda>t. term_admitsRoot t root) p"

definition admitsPackage :: "scope_predicate \<Rightarrow> gostring \<Rightarrow> gostring \<Rightarrow> bool" where
  "admitsPackage p path key =
     list_ex (\<lambda>t. term_admitsRoot t key \<and>
       (Kind (TermSelector t) = ''mod'' \<or> packageFilter (TermSelector t) (TermGlob t) path key)) p"

definition admits :: "scope_predicate \<Rightarrow> gostring \<Rightarrow> gostring \<Rightarrow> gostring \<Rightarrow> bool" where
  "admits p root key path \<longleftrightarrow> key = root \<and> admitsPackage p path key"

definition packagesOnly :: "scope_predicate \<Rightarrow> bool" where
  "packagesOnly p = list_all (\<lambda>t. Kind (TermSelector t) = ''pkg'') p"

subsection \<open>Compiled selectors and their filters\<close>

record compiled_selector =
  Sel :: selector
  Glob :: selector_glob
  ModuleGlob :: selector_glob
  OwnerGlob :: selector_glob
  Within :: "scope_predicate option"

definition compileSelector :: "selector \<Rightarrow> scope_predicate option \<Rightarrow> compiled_selector read" where
  "compileSelector s within =
     and_then (raised GlobError (compileSelectorGlob (Pattern s))) (\<lambda>g.
     and_then (raised GlobError (optional_glob (ModulePattern s))) (\<lambda>m.
     and_then (raised GlobError (optional_glob (Owner s))) (\<lambda>w.
       Inr \<lparr> Sel = s, Glob = g, ModuleGlob = m, OwnerGlob = w, Within = within \<rparr>)))"

definition symbolSelectors :: "gostring set" where
  "symbolSelectors = {''func'', ''method'', ''field'', ''struct'', ''type'', ''var'', ''kind''}"

definition selectorKinds :: "selector \<Rightarrow> kinds \<Rightarrow> gostring list read" where
  "selectorKinds s ks =
     (if Kind s = ''func'' then Inr (InCategory ks ''callable'')
      else if Kind s \<in> {''type'', ''struct''} then Inr (InCategory ks ''type'')
      else if Kind s \<in> {''method'', ''field'', ''var''} then Inr [Kind s]
      else if Kind s = ''kind'' then and_then (raised KindError (Lookup ks (SymbolKind s))) (\<lambda>k. Inr [KName k])
      else if Kind s \<in> {''pkg'', ''mod'', ''all'', ''path''} then Inr []
      else Inl (UnknownSelector (Kind s)))"

definition contains_any :: "gostring \<Rightarrow> gostring \<Rightarrow> bool" where
  "contains_any s chars = list_ex (\<lambda>c. c \<in> set chars) s"

definition plain_name :: "gostring \<Rightarrow> bool" where
  "plain_name p \<longleftrightarrow> \<not> contains_any p [CHR ''*'', CHR ''?'', CHR 0x5C, CHR ''.'', CHR ''/'']"

definition selectorFilter :: "selector \<Rightarrow> kinds \<Rightarrow> (symbol_row \<Rightarrow> bool) read" where
  "selectorFilter s ks =
     and_then (selectorKinds s ks) (\<lambda>names.
       if Kind s \<notin> symbolSelectors then Inr (\<lambda>_. True)
       else Inr (\<lambda>r. RowKind r \<in> set names \<and>
         (plain_name (Pattern s) \<longrightarrow> RowSearch r = SearchName (Pattern s) \<and> RowName r = Pattern s)))"

text \<open>\<open>register\<close> reads the registry again for a kind it lacks.\<close>

definition register_kind :: "symbol_tables \<Rightarrow> gostring \<Rightarrow> kinds \<Rightarrow> kinds read" where
  "register_kind db kind ks =
     (case Lookup ks kind of
        Inr _ \<Rightarrow> Inr ks
      | Inl _ \<Rightarrow> and_then (ReadKinds db) (\<lambda>ks. and_then (raised KindError (Lookup ks kind)) (\<lambda>_. Inr ks)))"

subsection \<open>The ranges to read\<close>

text \<open>The roots of the scopes are a list by position; an admitted root keeps its positions.\<close>

definition admitted :: "compiled_selector \<Rightarrow> gostring \<Rightarrow> bool" where
  "admitted c root \<longleftrightarrow>
     \<not> (ModulePattern (Sel c) \<noteq> [] \<and> \<not> matches (ModuleGlob c) root \<or>
        Kind (Sel c) = ''mod'' \<and> \<not> matches (Glob c) root \<or>
        (case Within c of None \<Rightarrow> False | Some p \<Rightarrow> \<not> admitsRoot p root))"

definition selectorScopes :: "gostring list \<Rightarrow> compiled_selector \<Rightarrow> gostring \<Rightarrow> nat list" where
  "selectorScopes roots c root = (if admitted c root then filter (\<lambda>i. roots ! i = root) [0..<length roots] else [])"

definition scope_keys :: "gostring list \<Rightarrow> compiled_selector \<Rightarrow> gostring list" where
  "scope_keys roots c = sort (remdups (filter (admitted c) roots))"

fun package_ranges :: "(gostring \<Rightarrow> gostring \<Rightarrow> bool) \<Rightarrow> (32 word \<rightharpoonup> gostring) \<Rightarrow> (32 word \<times> 32 word \<times> gostring) list
    \<Rightarrow> handle_range list read" where
  "package_ranges keep key [] = Inr []"
| "package_ranges keep key ((m, n, path) # ps) =
     (case key m of
        None \<Rightarrow> package_ranges keep key ps
      | Some k \<Rightarrow>
          if \<not> keep path k then package_ranges keep key ps
          else and_then (raised HandleError (PackageRange (scast m) (scast n))) (\<lambda>r.
               and_then (package_ranges keep key ps) (\<lambda>rs. Inr (r # rs))))"

definition packageRanges :: "symbol_tables \<Rightarrow> (32 word \<times> gostring) list \<Rightarrow> (gostring \<Rightarrow> gostring \<Rightarrow> bool)
    \<Rightarrow> handle_range list read" where
  "packageRanges db modules keep = and_then (ReadPackages db) (package_ranges keep (map_of (rev modules)))"

fun module_ranges :: "(32 word \<times> gostring) list \<Rightarrow> handle_range list read" where
  "module_ranges [] = Inr []"
| "module_ranges ((m, k) # ms) =
     and_then (raised HandleError (moduleRange (scast m))) (\<lambda>r. and_then (module_ranges ms) (\<lambda>rs. Inr (r # rs)))"

definition selectorRanges :: "symbol_tables \<Rightarrow> compiled_selector \<Rightarrow> gostring list \<Rightarrow> handle_range list read" where
  "selectorRanges db c roots =
     and_then (ReadModules db) (\<lambda>table.
       let modules = sort_key (sint \<circ> fst) (filter (\<lambda>(_, k). k \<in> set roots) table);
           s = Sel c
       in if modules = [] then Inr []
          else if Kind s = ''pkg'' then packageRanges db modules (packageFilter s (Glob c))
          else if \<not> NameOnly s \<and> Kind s \<noteq> ''mod'' \<and> Owner s = [] \<and> CHR ''/'' \<in> set (Pattern s) then
            packageRanges db modules (qualifiedPackageFilter (Pattern s))
          else case Within c of
            None \<Rightarrow> module_ranges modules
          | Some p \<Rightarrow> if packagesOnly p then packageRanges db modules (admitsPackage p) else module_ranges modules)"

text \<open>The ranges are read \<open>rangeBatch\<close> at a time.\<close>

function batches :: "'a list \<Rightarrow> 'a list list" where
  "batches xs = (if xs = [] then [] else take rangeBatch xs # batches (drop rangeBatch xs))"
  by pat_completeness auto

termination by (relation "measure length") (auto simp: rangeBatch_def)

declare batches.simps [simp del]

definition rangeClause :: "handle_range list \<Rightarrow> 64 word \<Rightarrow> bool" where
  "rangeClause ranges h = list_ex (\<lambda>r. Low r \<le>s h \<and> h \<le>s High r) ranges"

definition batch_rows :: "(symbol_row \<Rightarrow> bool) \<Rightarrow> symbol_row list \<Rightarrow> handle_range list \<Rightarrow> symbol_row list" where
  "batch_rows keep table ranges = filter (\<lambda>r. keep r \<and> rangeClause ranges (RowHandle r)) table"

subsection \<open>Operations on the symbols seen\<close>

type_synonym seen = "symbol_row symbol_facts"
type_synonym 'a seen_action = "seen \<Rightarrow> 'a read \<times> seen"

definition seen_then :: "'a seen_action \<Rightarrow> ('a \<Rightarrow> 'b seen_action) \<Rightarrow> 'b seen_action" where
  "seen_then m k f = (case m f of (Inl e, f') \<Rightarrow> (Inl e, f') | (Inr a, f') \<Rightarrow> k a f')"

definition seen_read :: "'a read \<Rightarrow> 'a seen_action" where
  "seen_read r f = (r, f)"

definition remember :: "symbol_row list \<Rightarrow> unit seen_action" where
  "remember rows f =
     (case keepRows RowID RowHandle rows f of (Some e, f') \<Rightarrow> (Inl (FactError e), f') | (None, f') \<Rightarrow> (Inr (), f'))"

definition seen_row :: "gostring \<Rightarrow> symbol_row option seen_action" where
  "seen_row i f = (Inr (KnownRows f i), f)"

definition table_row :: "symbol_row list \<Rightarrow> gostring \<Rightarrow> symbol_row option" where
  "table_row table i = find (\<lambda>r. RowID r = i) table"

definition load_owner :: "symbol_tables \<Rightarrow> gostring \<Rightarrow> gostring \<Rightarrow> symbol_row seen_action" where
  "load_owner db i w =
     seen_then (seen_row w) (\<lambda>known. case known of
       Some r \<Rightarrow> seen_read (Inr r)
     | None \<Rightarrow>
         seen_then (seen_read (and_then (ReadSymbols db) (\<lambda>table.
           case table_row table w of None \<Rightarrow> Inl (OwnerUnread w i) | Some r \<Rightarrow> Inr r))) (\<lambda>r.
         seen_then (remember [r]) (\<lambda>_. seen_read (Inr r))))"

fun owner_parts :: "symbol_tables \<Rightarrow> gostring \<Rightarrow> nat \<Rightarrow> gostring option \<Rightarrow> gostring list seen_action" where
  "owner_parts db i n None = seen_read (Inr [])"
| "owner_parts db i 0 (Some w) = seen_read (Inl (OwnerChain i))"
| "owner_parts db i (Suc n) (Some w) =
     seen_then (load_owner db i w) (\<lambda>r. seen_then (owner_parts db i n (RowOwner r)) (\<lambda>ps. seen_read (Inr (RowName r # ps))))"

definition keep_name :: "gostring \<Rightarrow> gostring \<Rightarrow> gostring seen_action" where
  "keep_name i n f = (Inr n, keepName i n f)"

definition ownerDepth :: nat where
  "ownerDepth = 32"

definition queryName :: "symbol_tables \<Rightarrow> symbol_row \<Rightarrow> gostring seen_action" where
  "queryName db r f =
     (case KnownNames f (RowID r) of
        Some n \<Rightarrow> (Inr n, f)
      | None \<Rightarrow>
          seen_then (remember [r]) (\<lambda>_.
            if RowKind r = ''package'' then keep_name (RowID r) (RowPackage r)
            else seen_then (owner_parts db (RowID r) ownerDepth (RowOwner r)) (\<lambda>owners.
              keep_name (RowID r) (RowPackage r @ ''.'' @ join_with ''.'' (rev (RowName r # owners))))) f)"

text \<open>The owners a level of rows lacks, level by level.\<close>

definition missing_owners :: "symbol_row list \<Rightarrow> seen \<Rightarrow> gostring list" where
  "missing_owners rows f = sort (remdups (filter (\<lambda>w. KnownRows f w = None) (List.map_filter RowOwner rows)))"

fun prefetchOwners :: "symbol_tables \<Rightarrow> nat \<Rightarrow> symbol_row list \<Rightarrow> unit seen_action" where
  "prefetchOwners db n [] f = (Inr (), f)"
| "prefetchOwners db 0 (r # rows) f = (Inl (OwnerChain (RowID r)), f)"
| "prefetchOwners db (Suc n) (r # rows) f =
     seen_then (remember (r # rows)) (\<lambda>_ f.
       let owners = missing_owners (r # rows) f in
       seen_then (seen_read (if owners = [] then Inr [] else ReadSymbols db)) (\<lambda>table.
         let found = filter (\<lambda>r. RowID r \<in> set owners) table in
         if length found \<noteq> length owners then seen_read (Inl (OwnersLoaded (length found) (length owners)))
         else prefetchOwners db n found) f) f"

subsection \<open>Candidates and matches\<close>

text \<open>The order in which the source ranges over the roots shows only in which of two failing reads is reported.\<close>

fun defined_at :: "symbol_tables \<Rightarrow> 64 word list \<Rightarrow> nat list \<Rightarrow> 64 word set read" where
  "defined_at db hs [] = Inr {}"
| "defined_at db hs (p # ps) =
     and_then (DefinedSymbols db p hs) (\<lambda>found. and_then (defined_at db hs ps) (\<lambda>rest. Inr (found \<union> rest)))"

fun defined_handles :: "symbol_tables \<Rightarrow> (gostring \<Rightarrow> nat list) \<Rightarrow> symbol_row list \<Rightarrow> gostring list \<Rightarrow> 64 word set read" where
  "defined_handles db scopes rows [] = Inr {}"
| "defined_handles db scopes rows (root # roots) =
     (let handles = map RowHandle (filter (\<lambda>r. RowModule r = root) rows) in
      and_then (if handles = [] then Inr {} else defined_at db handles (scopes root)) (\<lambda>found.
      and_then (defined_handles db scopes rows roots) (\<lambda>rest. Inr (found \<union> rest))))"

definition definedInRoot :: "symbol_tables \<Rightarrow> (gostring \<Rightarrow> nat list) \<Rightarrow> gostring list \<Rightarrow> symbol_row list \<Rightarrow> symbol_row list read" where
  "definedInRoot db scopes roots rows =
     and_then (defined_handles db scopes rows roots) (\<lambda>found. Inr (filter (\<lambda>r. RowHandle r \<in> found) rows))"

definition within_admits :: "compiled_selector \<Rightarrow> symbol_row \<Rightarrow> bool" where
  "within_admits c r = (case Within c of None \<Rightarrow> True | Some p \<Rightarrow> admitsPackage p (RowPackage r) (RowModule r))"

definition read_candidates :: "symbol_tables \<Rightarrow> (handle_range list \<Rightarrow> handle_range list) \<Rightarrow> gostring list \<Rightarrow> kinds
    \<Rightarrow> compiled_selector \<Rightarrow> symbol_row list read" where
  "read_candidates db sort_by_low keys ks c =
     and_then (selectorFilter (Sel c) ks) (\<lambda>keep.
       if keys = [] then Inr []
       else and_then (selectorRanges db c keys) (\<lambda>ranges.
         let ranges = mergeRanges sort_by_low ranges in
         and_then (if ranges = [] then Inr [] else ReadSymbols db) (\<lambda>table.
           Inr (filter (within_admits c) (concat (map (batch_rows keep table) (batches ranges)))))))"

definition selectorCandidates :: "symbol_tables \<Rightarrow> (handle_range list \<Rightarrow> handle_range list) \<Rightarrow> gostring list \<Rightarrow> kinds
    \<Rightarrow> compiled_selector \<Rightarrow> symbol_row list seen_action" where
  "selectorCandidates db sort_by_low roots ks c =
     (let keys = scope_keys roots c; s = Sel c in
      seen_then (seen_read (if Kind s = ''kind'' then register_kind db (SymbolKind s) ks else Inr ks)) (\<lambda>ks.
      seen_then (seen_read (read_candidates db sort_by_low keys ks c)) (\<lambda>rows.
      seen_then (remember rows) (\<lambda>_.
      seen_then (seen_read (definedInRoot db (selectorScopes roots c) keys rows)) (\<lambda>rows.
        let rows = sort_key RowID rows in
        seen_then (prefetchOwners db ownerDepth rows) (\<lambda>_. seen_read (Inr rows)))))))"

fun parents :: "char \<Rightarrow> gostring \<Rightarrow> nat \<Rightarrow> gostring \<Rightarrow> gostring list" where
  "parents sep stop 0 p = []"
| "parents sep stop (Suc n) p =
     (if p \<noteq> stop \<and> has_prefix p (stop @ [sep]) then
        (let parent = rev (drop 1 (dropWhile (\<lambda>c. c \<noteq> sep) (rev p))) in parent # parents sep stop n parent)
      else [])"

definition pathMatchesSymbol :: "selector_glob \<Rightarrow> gostring \<Rightarrow> gostring \<Rightarrow> gostring \<Rightarrow> gostring \<Rightarrow> bool" where
  "pathMatchesSymbol glob pattern key path name =
     list_ex (\<lambda>p. matches glob p \<or> has_suffix pattern ''/**'' \<and> trim_suffix pattern ''/**'' = p)
       ([key, path, name] @ parents CHR ''.'' path (length name) name @ parents CHR ''/'' key (length path) path)"

text \<open>The spelling a pattern is matched against, and whether the row lies inside.\<close>

definition selector_spelling :: "symbol_tables \<Rightarrow> selector \<Rightarrow> symbol_row \<Rightarrow> gostring seen_action" where
  "selector_spelling db s r =
     (if Kind s = ''mod'' then seen_read (Inr (RowModule r))
      else if Kind s = ''all'' then seen_read (Inr (RowName r))
      else if Kind s \<in> symbolSelectors then
        (if \<not> NameOnly s \<and> contains_any (Pattern s) ''./'' then
           seen_then (queryName db r) (\<lambda>name.
             seen_read (Inr (if CHR ''/'' \<notin> set (Pattern s) then trim_prefix name (RowPackage r @ ''.'') else name)))
         else seen_read (Inr (RowName r)))
      else seen_read (Inr (RowPackage r)))"

definition selectorKey :: "symbol_tables \<Rightarrow> compiled_selector \<Rightarrow> symbol_row \<Rightarrow> (gostring \<times> bool) seen_action" where
  "selectorKey db c r =
     (if Owner (Sel c) \<noteq> [] then
        (case RowOwner r of
           None \<Rightarrow> seen_read (Inr ([], False))
         | Some w \<Rightarrow>
             seen_then (seen_row w) (\<lambda>known. seen_read (case known of
               None \<Rightarrow> Inl (OwnerUnread w (RowID r))
             | Some wr \<Rightarrow> Inr (RowName r, matches (OwnerGlob c) (RowName wr)))))
      else
        seen_then (selector_spelling db (Sel c) r) (\<lambda>key. seen_read (Inr (
          if ModulePattern (Sel c) = [] then (key, True)
          else if \<not> matches (ModuleGlob c) (RowModule r) then ([], False)
          else relativePackage (RowPackage r) (RowModule r)))))"

definition selects :: "symbol_tables \<Rightarrow> compiled_selector \<Rightarrow> symbol_row \<Rightarrow> bool seen_action" where
  "selects db c r =
     (if Kind (Sel c) = ''path'' then
        seen_then (queryName db r) (\<lambda>name.
          seen_read (Inr (pathMatchesSymbol (Glob c) (Pattern (Sel c)) (RowModule r) (RowPackage r) name)))
      else seen_then (selectorKey db c r) (\<lambda>(key, inside). seen_read (Inr (inside \<and> matches (Glob c) key))))"

fun select_rows :: "symbol_tables \<Rightarrow> compiled_selector \<Rightarrow> symbol_row list \<Rightarrow> symbol_row list seen_action" where
  "select_rows db c [] = seen_read (Inr [])"
| "select_rows db c (r # rs) =
     seen_then (selects db c r) (\<lambda>selected. seen_then (select_rows db c rs) (\<lambda>rows.
       seen_read (Inr (if selected then r # rows else rows))))"

text \<open>The rows a selector matches, before their declarations are read.\<close>

definition matched_rows :: "symbol_tables \<Rightarrow> (handle_range list \<Rightarrow> handle_range list) \<Rightarrow> gostring list \<Rightarrow> kinds
    \<Rightarrow> selector \<Rightarrow> scope_predicate option \<Rightarrow> symbol_row list seen_action" where
  "matched_rows db sort_by_low roots ks s within =
     seen_then (seen_read (compileSelector s within)) (\<lambda>c.
       seen_then (selectorCandidates db sort_by_low roots ks c) (select_rows db c))"

end
