(* ===== verification/Selector_Facts.thy ===== *)
theory Selector_Facts
  imports Selector_Candidates
begin

text \<open>
  What a selector finds: the rows it denotes, over the tables alone, and the proof that the roots, ranges and filters
  drop none of them and that the symbols seen never change an answer.
\<close>

subsection \<open>What a selector denotes\<close>

fun owner_names :: "symbol_row list \<Rightarrow> nat \<Rightarrow> gostring option \<Rightarrow> gostring list option" where
  "owner_names table n None = Some []"
| "owner_names table 0 (Some w) = None"
| "owner_names table (Suc n) (Some w) =
     (case table_row table w of None \<Rightarrow> None | Some r \<Rightarrow> map_option ((#) (RowName r)) (owner_names table n (RowOwner r)))"

definition qualified_name :: "symbol_row list \<Rightarrow> symbol_row \<Rightarrow> gostring option" where
  "qualified_name table r =
     (if RowKind r = ''package'' then Some (RowPackage r)
      else map_option (\<lambda>ns. RowPackage r @ ''.'' @ join_with ''.'' (rev (RowName r # ns))) (owner_names table ownerDepth (RowOwner r)))"

definition spelling :: "symbol_row list \<Rightarrow> selector \<Rightarrow> symbol_row \<Rightarrow> gostring option" where
  "spelling table s r =
     (if Kind s = ''mod'' then Some (RowModule r)
      else if Kind s = ''all'' then Some (RowName r)
      else if Kind s \<notin> symbolSelectors then Some (RowPackage r)
      else if NameOnly s \<or> \<not> contains_any (Pattern s) ''./'' then Some (RowName r)
      else map_option (\<lambda>name. if CHR ''/'' \<notin> set (Pattern s) then trim_prefix name (RowPackage r @ ''.'') else name)
        (qualified_name table r))"

definition holds :: "('a \<Rightarrow> bool) \<Rightarrow> 'a option \<Rightarrow> bool" where
  "holds p x = (case x of None \<Rightarrow> False | Some a \<Rightarrow> p a)"

lemma holds_iff: "holds p x \<longleftrightarrow> (\<exists>a. x = Some a \<and> p a)"
  by (simp add: holds_def split: option.split)

definition selected :: "symbol_row list \<Rightarrow> compiled_selector \<Rightarrow> symbol_row \<Rightarrow> bool" where
  "selected table c r =
     (let s = Sel c in
      if Kind s = ''path'' then
        holds (pathMatchesSymbol (Glob c) (Pattern s) (RowModule r) (RowPackage r)) (qualified_name table r)
      else if Owner s \<noteq> [] then
        holds (\<lambda>w. holds (\<lambda>wr. matches (OwnerGlob c) (RowName wr) \<and> matches (Glob c) (RowName r)) (table_row table w)) (RowOwner r)
      else if ModulePattern s = [] then holds (matches (Glob c)) (spelling table s r)
      else holds (\<lambda>_. matches (ModuleGlob c) (RowModule r) \<and>
        (case relativePackage (RowPackage r) (RowModule r) of (relative, inside) \<Rightarrow> inside \<and> matches (Glob c) relative))
        (spelling table s r))"

definition in_own_root :: "gostring list \<Rightarrow> (nat \<Rightarrow> 64 word set) \<Rightarrow> symbol_row \<Rightarrow> bool" where
  "in_own_root roots known_in r = list_ex (\<lambda>p. roots ! p = RowModule r \<and> RowHandle r \<in> known_in p) [0..<length roots]"

definition denoted :: "symbol_row list \<Rightarrow> gostring list \<Rightarrow> (nat \<Rightarrow> 64 word set) \<Rightarrow> gostring list \<Rightarrow> compiled_selector
    \<Rightarrow> symbol_row \<Rightarrow> bool" where
  "denoted table roots known_in names c r \<longleftrightarrow>
     (Kind (Sel c) \<in> symbolSelectors \<longrightarrow> RowKind r \<in> set names) \<and>
     in_own_root roots known_in r \<and> within_admits c r \<and> selected table c r"

subsection \<open>Operations that keep what is seen true\<close>

definition seen_ok :: "symbol_row list \<Rightarrow> seen \<Rightarrow> bool" where
  "seen_ok table f \<longleftrightarrow>
     (\<forall>i r. KnownRows f i = Some r \<longrightarrow> table_row table i = Some r) \<and>
     (\<forall>i n. KnownNames f i = Some n \<longrightarrow> (\<exists>r. table_row table i = Some r \<and> qualified_name table r = Some n))"

definition keeps :: "symbol_row list \<Rightarrow> ('a \<Rightarrow> bool) \<Rightarrow> 'a seen_action \<Rightarrow> bool" where
  "keeps table P m \<longleftrightarrow> (\<forall>f a f'. seen_ok table f \<longrightarrow> m f = (Inr a, f') \<longrightarrow> seen_ok table f' \<and> P a)"

lemma keepsI: "(\<And>f a f'. seen_ok table f \<Longrightarrow> m f = (Inr a, f') \<Longrightarrow> seen_ok table f' \<and> P a) \<Longrightarrow> keeps table P m"
  unfolding keeps_def by blast

lemma keepsD: "keeps table P m \<Longrightarrow> seen_ok table f \<Longrightarrow> m f = (Inr a, f') \<Longrightarrow> seen_ok table f' \<and> P a"
  unfolding keeps_def by blast

lemma keeps_then: "keeps table P m \<Longrightarrow> (\<And>a. P a \<Longrightarrow> keeps table Q (k a)) \<Longrightarrow> keeps table Q (seen_then m k)"
proof (rule keepsI)
  fix f b f' assume m: "keeps table P m" and k: "\<And>a. P a \<Longrightarrow> keeps table Q (k a)"
    and f: "seen_ok table f" "seen_then m k f = (Inr b, f')"
  obtain a f1 where a: "m f = (Inr a, f1)" "k a f1 = (Inr b, f')"
    using f(2) by (auto simp: seen_then_def split: prod.splits sum.splits)
  show "seen_ok table f' \<and> Q b" using keepsD [OF m f(1) a(1)] keepsD [OF k _ a(2)] by blast
qed

lemma keeps_mono: "keeps table P m \<Longrightarrow> (\<And>a. P a \<Longrightarrow> Q a) \<Longrightarrow> keeps table Q m"
  unfolding keeps_def by blast

lemma keeps_read: "(\<And>a. r = Inr a \<Longrightarrow> P a) \<Longrightarrow> keeps table P (seen_read r)"
  unfolding keeps_def seen_read_def by auto

lemma keeps_seen_row: "keeps table (\<lambda>known. \<forall>r. known = Some r \<longrightarrow> table_row table i = Some r) (seen_row i)"
  unfolding keeps_def seen_row_def seen_ok_def by auto

lemma table_rowD: "table_row table i = Some r \<Longrightarrow> r \<in> set table \<and> RowID r = i"
  by (auto simp: table_row_def find_Some_iff)

lemma table_row_self: "distinct (map RowID table) \<Longrightarrow> r \<in> set table \<Longrightarrow> table_row table (RowID r) = Some r"
proof (induction table)
  case (Cons a table)
  then show ?case by (cases "r = a") (auto simp: table_row_def rev_image_eqI)
qed simp

lemma addHandle_maps: "addHandle i h f = (e, f') \<Longrightarrow> KnownRows f' = KnownRows f \<and> KnownNames f' = KnownNames f"
  by (auto simp: addHandle_def split: if_splits)

lemma keepRows_seen:
  assumes "distinct (map RowID table)"
  shows "set rows \<subseteq> set table \<Longrightarrow> seen_ok table f \<Longrightarrow> keepRows RowID RowHandle rows f = (e, f') \<Longrightarrow> seen_ok table f'"
proof (induction rows arbitrary: f)
  case (Cons r rows)
  obtain e1 f1 where f1: "addHandle (RowID r) (RowHandle r) f = (e1, f1)" by fastforce
  have "seen_ok table f1" using addHandle_maps [OF f1] Cons.prems(2) by (simp add: seen_ok_def)
  moreover from this have "seen_ok table (f1\<lparr> KnownRows := (KnownRows f1)(RowID r \<mapsto> r) \<rparr>)"
    using table_row_self [OF assms, of r] Cons.prems(1) by (auto simp: seen_ok_def)
  ultimately show ?case using Cons.IH Cons.prems f1 by (auto split: option.splits)
qed simp

lemma keeps_remember: "distinct (map RowID table) \<Longrightarrow> set rows \<subseteq> set table \<Longrightarrow> keeps table (\<lambda>_. True) (remember rows)"
  unfolding keeps_def remember_def using keepRows_seen by (fastforce split: prod.splits option.splits)

lemma keeps_keep_name:
  "table_row table i = Some r \<Longrightarrow> qualified_name table r = Some n \<Longrightarrow> keeps table (\<lambda>m. m = n) (keep_name i n)"
  unfolding keeps_def keep_name_def keepName_def seen_ok_def by auto

lemma keeps_load_owner:
  assumes "ReadSymbols db = Inr table" "distinct (map RowID table)"
  shows "keeps table (\<lambda>r. table_row table w = Some r) (load_owner db i w)"
  unfolding load_owner_def
proof (rule keeps_then [OF keeps_seen_row])
  fix known assume known: "\<forall>r. known = Some r \<longrightarrow> table_row table w = Some r"
  show "keeps table (\<lambda>r. table_row table w = Some r) (case known of Some r \<Rightarrow> seen_read (Inr r)
     | None \<Rightarrow> seen_then (seen_read (and_then (ReadSymbols db) (\<lambda>table.
           case table_row table w of None \<Rightarrow> Inl (OwnerUnread w i) | Some r \<Rightarrow> Inr r))) (\<lambda>r.
         seen_then (remember [r]) (\<lambda>_. seen_read (Inr r))))"
  proof (cases known)
    case None
    have "keeps table (\<lambda>r. table_row table w = Some r) (seen_read (and_then (ReadSymbols db) (\<lambda>table.
           case table_row table w of None \<Rightarrow> Inl (OwnerUnread w i) | Some r \<Rightarrow> Inr r)))"
      by (rule keeps_read) (use assms in \<open>auto split: option.splits\<close>)
    then show ?thesis unfolding None option.case
      by (rule keeps_then) (rule keeps_then [OF keeps_remember [OF assms(2)]], auto dest: table_rowD intro: keeps_read)
  next
    case (Some r)
    then show ?thesis using known by (auto intro: keeps_read)
  qed
qed

lemma keeps_owner_parts:
  assumes db: "ReadSymbols db = Inr table" "distinct (map RowID table)"
  shows "keeps table (\<lambda>ps. owner_names table n w = Some ps) (owner_parts db i n w)"
proof (induction n arbitrary: w)
  case 0
  then show ?case by (cases w) (auto intro: keeps_read)
next
  case (Suc n)
  show ?case
  proof (cases w)
    case (Some x)
    show ?thesis unfolding Some owner_parts.simps
      by (rule keeps_then [OF keeps_load_owner [OF db]], rule keeps_then [OF Suc], rule keeps_read) auto
  qed (auto intro: keeps_read)
qed

lemma keeps_queryName:
  assumes db: "ReadSymbols db = Inr table" "distinct (map RowID table)" and r: "r \<in> set table"
  shows "keeps table (\<lambda>n. qualified_name table r = Some n) (queryName db r)"
proof (rule keepsI)
  note row = table_row_self [OF db(2) r]
  fix f a f' assume f: "seen_ok table f" "queryName db r f = (Inr a, f')"
  show "seen_ok table f' \<and> qualified_name table r = Some a"
  proof (cases "KnownNames f (RowID r)")
    case None
    have "keeps table (\<lambda>n. qualified_name table r = Some n) (seen_then (remember [r]) (\<lambda>_.
            if RowKind r = ''package'' then keep_name (RowID r) (RowPackage r)
            else seen_then (owner_parts db (RowID r) ownerDepth (RowOwner r)) (\<lambda>owners.
              keep_name (RowID r) (RowPackage r @ ''.'' @ join_with ''.'' (rev (RowName r # owners))))))"
    proof (rule keeps_then [OF keeps_remember [OF db(2)]])
      show "keeps table (\<lambda>n. qualified_name table r = Some n) (if RowKind r = ''package'' then keep_name (RowID r) (RowPackage r)
            else seen_then (owner_parts db (RowID r) ownerDepth (RowOwner r)) (\<lambda>owners.
              keep_name (RowID r) (RowPackage r @ ''.'' @ join_with ''.'' (rev (RowName r # owners)))))"
      proof (cases "RowKind r = ''package''")
        case True
        then have q: "qualified_name table r = Some (RowPackage r)" by (simp add: qualified_name_def)
        show ?thesis using True keeps_mono [OF keeps_keep_name [OF row q]] q by simp
      next
        case False
        have "keeps table (\<lambda>n. qualified_name table r = Some n)
          (keep_name (RowID r) (RowPackage r @ ''.'' @ join_with ''.'' (rev (RowName r # owners))))"
          if "owner_names table ownerDepth (RowOwner r) = Some owners" for owners
        proof -
          have q: "qualified_name table r = Some (RowPackage r @ ''.'' @ join_with ''.'' (rev (RowName r # owners)))"
            using that False by (simp add: qualified_name_def)
          show ?thesis using keeps_mono [OF keeps_keep_name [OF row q]] q by simp
        qed
        then show ?thesis unfolding if_not_P [OF False] by (rule keeps_then [OF keeps_owner_parts [OF db]])
      qed
    qed (use r in simp)
    then show ?thesis using keepsD f None by (fastforce simp: queryName_def)
  next
    case (Some n)
    then have "a = n" "f' = f" using f(2) by (simp_all add: queryName_def)
    then show ?thesis using f(1) Some row unfolding seen_ok_def by (metis option.inject)
  qed
qed


lemma missing_owners_known: "w \<in> set (missing_owners rows f) \<Longrightarrow> KnownRows f w = None"
  by (simp add: missing_owners_def)

lemma keeps_prefetchOwners:
  assumes db: "ReadSymbols db = Inr table" "distinct (map RowID table)"
  shows "set rows \<subseteq> set table \<Longrightarrow> keeps table (\<lambda>_. True) (prefetchOwners db n rows)"
proof (induction n arbitrary: rows)
  case 0
  then show ?case by (cases rows) (auto intro: keepsI)
next
  case (Suc n)
  show ?case
  proof (cases rows)
    case (Cons r rs)
    let ?level = "\<lambda>owners table. let found = filter (\<lambda>r. RowID r \<in> set owners) table in
         if length found \<noteq> length owners then seen_read (Inl (OwnersLoaded (length found) (length owners)))
         else prefetchOwners db n found"
    have level: "keeps table (\<lambda>_. True) (?level owners rows')" if "set rows' \<subseteq> set table" for owners rows'
    proof -
      have "set (filter (\<lambda>r. RowID r \<in> set owners) rows') \<subseteq> set table" using that by auto
      from Suc.IH [OF this] show ?thesis by (auto simp: Let_def intro: keeps_read)
    qed
    have read: "keeps table (\<lambda>rows'. set rows' \<subseteq> set table) (seen_read (if owners = [] then Inr [] else ReadSymbols db))"
      for owners :: "gostring list"
      by (rule keeps_read) (use db in \<open>auto split: if_splits\<close>)
    have step: "keeps table (\<lambda>_. True) (seen_then (seen_read (if owners = [] then Inr [] else ReadSymbols db)) (?level owners))"
      for owners by (rule keeps_then [OF read level])
    have "keeps table (\<lambda>_. True) (\<lambda>f. seen_then (remember (r # rs)) (\<lambda>_ f.
       let owners = missing_owners (r # rs) f in
       seen_then (seen_read (if owners = [] then Inr [] else ReadSymbols db)) (?level owners) f) f)"
    proof (rule keeps_then [OF keeps_remember [OF db(2)]])
      show "set (r # rs) \<subseteq> set table" using Suc.prems Cons by simp
      show "keeps table (\<lambda>_. True) (\<lambda>f. let owners = missing_owners (r # rs) f in
       seen_then (seen_read (if owners = [] then Inr [] else ReadSymbols db)) (?level owners) f)"
        by (rule keepsI) (use keepsD [OF step] in \<open>simp only: Let_def\<close>)
    qed
    then show ?thesis unfolding Cons prefetchOwners.simps .
  qed (auto intro: keepsI)
qed

lemma keeps_selector_spelling:
  assumes db: "ReadSymbols db = Inr table" "distinct (map RowID table)" and r: "r \<in> set table"
  shows "keeps table (\<lambda>key. spelling table s r = Some key) (selector_spelling db s r)"
proof (cases "Kind s \<noteq> ''mod'' \<and> Kind s \<noteq> ''all'' \<and> Kind s \<in> symbolSelectors \<and> \<not> NameOnly s \<and> contains_any (Pattern s) ''./''")
  case True
  then have "selector_spelling db s r = seen_then (queryName db r) (\<lambda>name.
    seen_read (Inr (if CHR ''/'' \<notin> set (Pattern s) then trim_prefix name (RowPackage r @ ''.'') else name)))"
    by (simp add: selector_spelling_def)
  then show ?thesis using True
    by simp (rule keeps_then [OF keeps_queryName [OF assms]], rule keeps_read, auto simp: spelling_def)
next
  case False
  then show ?thesis by (auto simp: selector_spelling_def spelling_def intro!: keeps_read)
qed

lemma keeps_selects:
  assumes db: "ReadSymbols db = Inr table" "distinct (map RowID table)" and r: "r \<in> set table"
  shows "keeps table (\<lambda>b. b = selected table c r) (selects db c r)"
proof -
  consider (path) "Kind (Sel c) = ''path''" | (ownerless) "Kind (Sel c) \<noteq> ''path''" "Owner (Sel c) \<noteq> []" "RowOwner r = None"
    | (owned) w where "Kind (Sel c) \<noteq> ''path''" "Owner (Sel c) \<noteq> []" "RowOwner r = Some w"
    | (spelt) "Kind (Sel c) \<noteq> ''path''" "Owner (Sel c) = []" by fastforce
  then show ?thesis
  proof cases
    case path
    then show ?thesis
      by (simp add: selects_def)
        (rule keeps_then [OF keeps_queryName [OF assms]], rule keeps_read, auto simp: selected_def holds_iff Let_def)
  next
    case ownerless
    then show ?thesis
      by (intro keepsI) (auto simp: selects_def selectorKey_def seen_then_def seen_read_def selected_def holds_iff Let_def)
  next
    case owned
    show ?thesis
    proof (rule keepsI)
      fix f b f' assume f: "seen_ok table f" "selects db c r f = (Inr b, f')"
      then obtain wr where wr: "KnownRows f w = Some wr" "f' = f" "b = (matches (OwnerGlob c) (RowName wr) \<and> matches (Glob c) (RowName r))"
        using owned by (auto simp: selects_def selectorKey_def seen_then_def seen_read_def seen_row_def split: option.splits)
      moreover have "table_row table w = Some wr" using f(1) wr(1) by (simp add: seen_ok_def)
      ultimately show "seen_ok table f' \<and> b = selected table c r"
        using f(1) owned by (simp add: selected_def holds_def Let_def)
    qed
  next
    case spelt
    then have "selects db c r = seen_then (seen_then (selector_spelling db (Sel c) r) (\<lambda>key. seen_read (Inr (
          if ModulePattern (Sel c) = [] then (key, True)
          else if \<not> matches (ModuleGlob c) (RowModule r) then ([], False)
          else relativePackage (RowPackage r) (RowModule r))))) (\<lambda>(key, inside). seen_read (Inr (inside \<and> matches (Glob c) key)))"
      by (simp add: selects_def selectorKey_def)
    moreover have "keeps table (\<lambda>p. (case p of (key, inside) \<Rightarrow> inside \<and> matches (Glob c) key) = selected table c r)
       (seen_then (selector_spelling db (Sel c) r) (\<lambda>key. seen_read (Inr (
          if ModulePattern (Sel c) = [] then (key, True)
          else if \<not> matches (ModuleGlob c) (RowModule r) then ([], False)
          else relativePackage (RowPackage r) (RowModule r)))))"
      using spelt by (intro keeps_then [OF keeps_selector_spelling [OF assms]] keeps_read)
        (auto simp: selected_def holds_def Let_def split: if_splits)
    ultimately show ?thesis by (simp only:) (erule keeps_then, auto intro: keeps_read)
  qed
qed

lemma keeps_select_rows:
  assumes db: "ReadSymbols db = Inr table" "distinct (map RowID table)"
  shows "set rows \<subseteq> set table \<Longrightarrow> keeps table (\<lambda>kept. kept = filter (selected table c) rows) (select_rows db c rows)"
proof (induction rows)
  case Nil
  show ?case by (auto intro: keeps_read)
next
  case (Cons r rows)
  have r: "r \<in> set table" "set rows \<subseteq> set table" using Cons.prems by simp_all
  show ?case unfolding select_rows.simps
    by (rule keeps_then [OF keeps_selects [OF db r(1)]], rule keeps_then [OF Cons.IH [OF r(2)]], rule keeps_read) auto
qed


subsection \<open>What is read\<close>

lemma batches_Nil: "batches [] = []"
  by (subst batches.simps) simp

lemma concat_batches: "concat (batches xs) = xs"
proof (induction xs rule: batches.induct)
  case (1 xs)
  then show ?case by (subst batches.simps) simp
qed

lemma rangeClause_covers: "rangeClause rs h \<longleftrightarrow> covers rs h"
  by (simp add: rangeClause_def covers_def Contains_def list_ex_iff)

lemma batched_rows:
  "set (concat (map (batch_rows keep table) (batches rs))) = {r \<in> set table. keep r \<and> covers rs (RowHandle r)}"
proof -
  have "set (concat (map (batch_rows keep table) bs)) = {r \<in> set table. keep r \<and> covers (concat bs) (RowHandle r)}" for bs
    by (induction bs) (auto simp: batch_rows_def rangeClause_covers covers_def)
  then show ?thesis by (simp add: concat_batches)
qed

lemma read_candidates_exact:
  assumes run: "read_candidates db sort_by_low keys ks c = Inr rows" and sort: "sorts_by_low sort_by_low"
    and db: "ReadSymbols db = Inr table"
  obtains keep ranges where "selectorFilter (Sel c) ks = Inr keep"
    "keys \<noteq> [] \<longrightarrow> selectorRanges db c keys = Inr ranges"
    "set rows = {r \<in> set table. keys \<noteq> [] \<and> keep r \<and> covers ranges (RowHandle r) \<and> within_admits c r}"
proof -
  obtain keep where keep: "selectorFilter (Sel c) ks = Inr keep" using run by (auto simp: read_candidates_def outcome_simps)
  show thesis
  proof (cases "keys = []")
    case True
    then show thesis using that [OF keep, of "[]"] run keep by (simp add: read_candidates_def)
  next
    case False
    obtain ranges where ranges: "selectorRanges db c keys = Inr ranges"
      using run keep False by (auto simp: read_candidates_def outcome_simps)
    have "rows = filter (within_admits c) (concat (map (batch_rows keep table) (batches (mergeRanges sort_by_low ranges))))"
    proof (cases "mergeRanges sort_by_low ranges = []")
      case True
      then show ?thesis using run keep False ranges by (simp add: read_candidates_def batches_Nil)
    next
      case other: False
      then show ?thesis using run keep False ranges db by (simp add: read_candidates_def Let_def)
    qed
    then have "set rows = {r \<in> set table. keep r \<and> covers ranges (RowHandle r) \<and> within_admits c r}"
      using batched_rows [of keep table "mergeRanges sort_by_low ranges"] mergeRanges_covers [OF sort] by auto
    then show thesis using that [OF keep, of ranges] ranges False by simp
  qed
qed

lemma defined_at_exact:
  assumes "\<And>p hs s. DefinedSymbols db p hs = Inr s \<Longrightarrow> s = set hs \<inter> known_in p"
  shows "defined_at db hs ps = Inr s \<Longrightarrow> s = set hs \<inter> (\<Union>p \<in> set ps. known_in p)"
proof (induction ps arbitrary: s)
  case (Cons p ps)
  then obtain a b where ab: "DefinedSymbols db p hs = Inr a" "defined_at db hs ps = Inr b" "s = a \<union> b"
    by (auto simp: outcome_simps)
  show ?case using assms [OF ab(1)] Cons.IH [OF ab(2)] ab(3) by auto
qed simp

lemma defined_handles_exact:
  assumes "\<And>p hs s. DefinedSymbols db p hs = Inr s \<Longrightarrow> s = set hs \<inter> known_in p"
  shows "defined_handles db scopes rows roots = Inr s \<Longrightarrow>
    s = {RowHandle r | r. r \<in> set rows \<and> RowModule r \<in> set roots \<and> (\<exists>p \<in> set (scopes (RowModule r)). RowHandle r \<in> known_in p)}"
proof (induction roots arbitrary: s)
  case (Cons root roots)
  let ?hs = "map RowHandle (filter (\<lambda>r. RowModule r = root) rows)"
  obtain a b where ab: "(if ?hs = [] then Inr {} else defined_at db ?hs (scopes root)) = Inr a"
    "defined_handles db scopes rows roots = Inr b" "s = a \<union> b"
    using Cons.prems by (auto simp: outcome_simps Let_def)
  have "a = set ?hs \<inter> (\<Union>p \<in> set (scopes root). known_in p)"
    using ab(1) defined_at_exact [OF assms, where hs = ?hs and ps = "scopes root" and s = a] by (cases "?hs = []") auto
  then have "a = {RowHandle r | r. r \<in> set rows \<and> RowModule r = root \<and> (\<exists>p \<in> set (scopes root). RowHandle r \<in> known_in p)}"
    by auto
  then show ?case using Cons.IH [OF ab(2)] ab(3) by auto
qed simp

lemma definedInRoot_exact:
  assumes law: "\<And>p hs s. DefinedSymbols db p hs = Inr s \<Longrightarrow> s = set hs \<inter> known_in p"
    and one: "inj_on RowHandle (set rows)" and run: "definedInRoot db scopes roots rows = Inr kept"
  shows "set kept = {r \<in> set rows. RowModule r \<in> set roots \<and> (\<exists>p \<in> set (scopes (RowModule r)). RowHandle r \<in> known_in p)}"
proof -
  obtain s where s: "defined_handles db scopes rows roots = Inr s" "kept = filter (\<lambda>r. RowHandle r \<in> s) rows"
    using run by (auto simp: definedInRoot_def outcome_simps)
  have "RowHandle r \<in> s \<longleftrightarrow> RowModule r \<in> set roots \<and> (\<exists>p \<in> set (scopes (RowModule r)). RowHandle r \<in> known_in p)"
    if r: "r \<in> set rows" for r
  proof -
    have "r' = r" if "r' \<in> set rows" "RowHandle r = RowHandle r'" for r' using one r that by (simp add: inj_on_def)
    then have "RowHandle r \<in> {RowHandle r | r. r \<in> set rows \<and> RowModule r \<in> set roots \<and> (\<exists>p \<in> set (scopes (RowModule r)). RowHandle r \<in> known_in p)} \<longleftrightarrow>
      RowModule r \<in> set roots \<and> (\<exists>p \<in> set (scopes (RowModule r)). RowHandle r \<in> known_in p)" using r by blast
    moreover have "s = {RowHandle r | r. r \<in> set rows \<and> RowModule r \<in> set roots \<and> (\<exists>p \<in> set (scopes (RowModule r)). RowHandle r \<in> known_in p)}"
      by (rule defined_handles_exact [OF law s(1)])
    ultimately show ?thesis by simp
  qed
  then show ?thesis using s(2) by auto
qed

lemma scope_positions:
  "RowModule r \<in> set (scope_keys roots c) \<and> (\<exists>p \<in> set (selectorScopes roots c (RowModule r)). RowHandle r \<in> known_in p) \<longleftrightarrow>
   admitted c (RowModule r) \<and> in_own_root roots known_in r"
proof -
  have "roots ! p = RowModule r \<Longrightarrow> p < length roots \<Longrightarrow> RowModule r \<in> set roots" for p by (metis nth_mem)
  then show ?thesis by (auto simp: scope_keys_def selectorScopes_def in_own_root_def list_ex_iff)
qed


subsection \<open>The ranges miss no row that is selected\<close>

definition registered :: "(32 word \<times> gostring) list \<Rightarrow> (32 word \<times> 32 word \<times> gostring) list \<Rightarrow> symbol_row \<Rightarrow> bool" where
  "registered modules packages r \<longleftrightarrow>
     (\<exists>m n fs. (m, RowModule r) \<in> set modules \<and> (m, n, RowPackage r) \<in> set packages \<and>
       Pack fs = Inr (RowHandle r) \<and> FModule fs = scast m \<and> FPackage fs = scast n)"

definition sound_tables :: "symbol_tables \<Rightarrow> symbol_row list \<Rightarrow> (32 word \<times> gostring) list \<Rightarrow> (32 word \<times> 32 word \<times> gostring) list
    \<Rightarrow> (nat \<Rightarrow> 64 word set) \<Rightarrow> bool" where
  "sound_tables db table modules packages known_in \<longleftrightarrow>
     ReadModules db = Inr modules \<and> ReadPackages db = Inr packages \<and> ReadSymbols db = Inr table \<and>
     distinct (map RowID table) \<and> distinct (map RowHandle table) \<and> distinct (map fst modules) \<and>
     (\<forall>p hs s. DefinedSymbols db p hs = Inr s \<longrightarrow> s = set hs \<inter> known_in p) \<and>
     (\<forall>r \<in> set table. registered modules packages r \<and> ValidString (RowPackage r) \<and> ValidString (RowName r) \<and>
        RowSearch r = SearchName (RowName r))"

text \<open>What parsing gives: a module pattern only with \<open>pkg\<close>, an owner only with \<open>field\<close>.\<close>

definition well_shaped :: "selector \<Rightarrow> bool" where
  "well_shaped s \<longleftrightarrow> ValidString (Pattern s) \<and> (ModulePattern s \<noteq> [] \<longrightarrow> Kind s = ''pkg'') \<and>
     (Owner s \<noteq> [] \<longrightarrow> Kind s = ''field'')"

text \<open>The rows the package filter of a qualified pattern is not made for: what a \<open>path\<close> or \<open>all\<close> selector matches, and
  packages, which have no name below their path.\<close>

definition narrowed :: "selector \<Rightarrow> symbol_row \<Rightarrow> bool" where
  "narrowed s r \<longleftrightarrow> CHR ''/'' \<in> set (Pattern s) \<and> \<not> NameOnly s \<and> Owner s = [] \<and>
     (Kind s \<in> {''path'', ''all''} \<or> Kind s \<in> symbolSelectors \<and> RowKind r = ''package'')"

lemma package_ranges_cover:
  assumes "Pack fs = Inr h" "FModule fs = scast m" "FPackage fs = scast n" "key m = Some k" "keep path k"
  shows "package_ranges keep key ps = Inr rs \<Longrightarrow> (m, n, path) \<in> set ps \<Longrightarrow> covers rs h"
proof (induction ps arbitrary: rs)
  case (Cons p ps)
  obtain m' n' path' where p: "p = (m', n', path')" by (cases p) auto
  show ?case
  proof (cases "p = (m, n, path)")
    case True
    then obtain r rs' where r: "PackageRange (scast m) (scast n) = Inr r" "rs = r # rs'"
      using Cons.prems(1) assms(4,5) by (auto simp: outcome_simps)
    have "Contains r h" using PackageRange_exact [OF assms(1) r(1)] assms(2,3) by simp
    then show ?thesis using r(2) by (simp add: covers_def)
  next
    case False
    then have mem: "(m, n, path) \<in> set ps" using Cons.prems(2) by simp
    have "\<exists>rs'. package_ranges keep key ps = Inr rs' \<and> set rs' \<subseteq> set rs"
      using Cons.prems(1) p by (auto simp: outcome_simps split: option.splits if_splits)
    then obtain rs' where "package_ranges keep key ps = Inr rs'" "set rs' \<subseteq> set rs" by blast
    then show ?thesis using Cons.IH mem by (auto simp: covers_def)
  qed
qed simp

lemma module_ranges_cover:
  assumes "Pack fs = Inr h" "FModule fs = scast m"
  shows "module_ranges ms = Inr rs \<Longrightarrow> (m, k) \<in> set ms \<Longrightarrow> covers rs h"
proof (induction ms arbitrary: rs)
  case (Cons p ms)
  obtain m' k' where p: "p = (m', k')" by (cases p) auto
  obtain r rs' where r: "moduleRange (scast m') = Inr r" "module_ranges ms = Inr rs'" "rs = r # rs'"
    using Cons.prems(1) p by (auto simp: outcome_simps)
  show ?case
  proof (cases "p = (m, k)")
    case True
    then have "Contains r h" using moduleRange_exact [OF assms(1) r(1)] assms(2) p by simp
    then show ?thesis using r(3) by (simp add: covers_def)
  next
    case False
    then show ?thesis using Cons.IH [OF r(2)] Cons.prems(2) r(3) by (auto simp: covers_def)
  qed
qed simp

lemma selectorRanges_cover:
  assumes db: "sound_tables db table modules packages known_in" and r: "r \<in> set table" "RowModule r \<in> set keys"
    and run: "selectorRanges db c keys = Inr ranges"
    and pkg: "Kind (Sel c) = ''pkg'' \<Longrightarrow> packageFilter (Sel c) (Glob c) (RowPackage r) (RowModule r)"
    and slashed: "\<not> NameOnly (Sel c) \<Longrightarrow> Kind (Sel c) \<noteq> ''pkg'' \<Longrightarrow> Kind (Sel c) \<noteq> ''mod'' \<Longrightarrow> Owner (Sel c) = [] \<Longrightarrow>
      CHR ''/'' \<in> set (Pattern (Sel c)) \<Longrightarrow> qualifiedPackageFilter (Pattern (Sel c)) (RowPackage r) (RowModule r)"
    and within: "within_admits c r"
  shows "covers ranges (RowHandle r)"
proof -
  let ?ms = "sort_key (sint \<circ> fst) (filter (\<lambda>(_, k). k \<in> set keys) modules)"
  obtain m n fs where reg: "(m, RowModule r) \<in> set modules" "(m, n, RowPackage r) \<in> set packages"
    "Pack fs = Inr (RowHandle r)" "FModule fs = scast m" "FPackage fs = scast n"
    using db r(1) by (auto simp: sound_tables_def registered_def)
  have mem: "(m, RowModule r) \<in> set ?ms" using reg(1) r(2) by simp
  have "inj_on fst (set modules)" using db by (simp add: sound_tables_def distinct_map)
  then have "inj_on fst (set ?ms)" by (rule inj_on_subset) auto
  moreover have "distinct ?ms" using db by (simp add: sound_tables_def distinct_map)
  ultimately have "distinct (map fst (rev ?ms))" by (simp add: distinct_map)
  then have key: "map_of (rev ?ms) m = Some (RowModule r)" using mem by (intro map_of_is_SomeI) auto
  have tables: "ReadModules db = Inr modules" "ReadPackages db = Inr packages" using db by (simp_all add: sound_tables_def)
  have packages: "covers ranges (RowHandle r)"
    if "packageRanges db ?ms keep = Inr ranges" "keep (RowPackage r) (RowModule r)" for keep
    by (rule package_ranges_cover [OF reg(3-5), of "map_of (rev ?ms)" "RowModule r" keep "RowPackage r"])
      (use that tables key reg(2) in \<open>simp_all add: packageRanges_def\<close>)
  have modules: "covers ranges (RowHandle r)" if "module_ranges ?ms = Inr ranges"
    by (rule module_ranges_cover [OF reg(3,4) that mem])
  have ne: "?ms \<noteq> []" using mem by (metis empty_iff empty_set)
  then have go: "(if Kind (Sel c) = ''pkg'' then packageRanges db ?ms (packageFilter (Sel c) (Glob c))
          else if \<not> NameOnly (Sel c) \<and> Kind (Sel c) \<noteq> ''mod'' \<and> Owner (Sel c) = [] \<and> CHR ''/'' \<in> set (Pattern (Sel c)) then
            packageRanges db ?ms (qualifiedPackageFilter (Pattern (Sel c)))
          else case Within c of
            None \<Rightarrow> module_ranges ?ms
          | Some p \<Rightarrow> if packagesOnly p then packageRanges db ?ms (admitsPackage p) else module_ranges ?ms) = Inr ranges"
    using run tables by (simp only: selectorRanges_def Let_def and_then.simps if_False)
  show ?thesis
  proof (cases "Kind (Sel c) = ''pkg''")
    case True
    then show ?thesis using go packages [of "packageFilter (Sel c) (Glob c)"] pkg by simp
  next
    case other: False
    show ?thesis
    proof (cases "\<not> NameOnly (Sel c) \<and> Kind (Sel c) \<noteq> ''mod'' \<and> Owner (Sel c) = [] \<and> CHR ''/'' \<in> set (Pattern (Sel c))")
      case True
      then show ?thesis using go other packages [of "qualifiedPackageFilter (Pattern (Sel c))"] slashed by simp
    next
      case False
      show ?thesis
      proof (cases "Within c")
        case None
        then show ?thesis using go other False modules by simp
      next
        case (Some p)
        then have "admitsPackage p (RowPackage r) (RowModule r)" using within by (simp add: within_admits_def)
        then show ?thesis using go other False Some modules packages [of "admitsPackage p"]
          unfolding if_not_P [OF other] if_not_P [OF False] by (simp split: if_splits)
      qed
    qed
  qed
qed

lemma within_root: "within_admits c r \<Longrightarrow> Within c = Some p \<Longrightarrow> admitsRoot p (RowModule r)"
  by (auto simp: within_admits_def admitsPackage_def admitsRoot_def list_ex_iff)

lemma plain_glob:
  assumes "compileSelectorGlob p = Inr g" "plain_name p" "ValidString p" "ValidString v" "matches g v"
  shows "v = p"
proof -
  have p: "CHR ''/'' \<notin> set p" "CHR ''.'' \<notin> set p" "\<forall>c \<in> set p. \<not> special_char c"
    using assms(2) by (auto simp: plain_name_def contains_any_def list_ex_iff special_char_def)
  have "compile_segments False [p] = Inr g"
    using assms(1) split_on_absent [OF p(1)] by (auto simp: compileSelectorGlob_def compileGlob_def split: if_splits)
  then have g: "g = [literal_segment p]" using compile_segments_plain [of "[p]" g] assms(3) p(3) by simp
  have "v \<noteq> ''.''"
  proof
    assume "v = ''.''"
    then have "map Byte p = [Byte CHR ''.'']" using assms(5) g by (auto simp: matches_def is_dot_def literal_segment_def)
    then show False using p(2) by auto
  qed
  then have "path_match g (split_on CHR ''/'' v)" using assms(5) by (simp add: matches_path_lemma)
  then have "split_on CHR ''/'' v = [p]"
    using path_match_literal [of "[p]" "split_on CHR ''/'' v"] g assms(3,4) ValidString_split [of "CHR ''/''" v] by (simp add: byte_def)
  then show ?thesis using join_split [of "CHR ''/''" v] by simp
qed


lemma owner_names_rows: "owner_names table n w = Some ns \<Longrightarrow> set ns \<subseteq> RowName ` set table"
proof (induction n arbitrary: w ns)
  case 0
  then show ?case by (cases w) auto
next
  case (Suc n)
  show ?case
  proof (cases w)
    case (Some x)
    then obtain r ms where r: "table_row table x = Some r" "owner_names table n (RowOwner r) = Some ms" "ns = RowName r # ms"
      using Suc.prems by (auto split: option.splits)
    then show ?thesis using Suc.IH [OF r(2)] table_rowD [OF r(1)] by auto
  qed (use Suc.prems in simp)
qed

lemma compileSelector_glob: "compileSelector s within = Inr c \<Longrightarrow> Sel c = s \<and> Within c = within \<and> compileSelectorGlob (Pattern s) = Inr (Glob c)"
  by (auto simp: compileSelector_def outcome_simps)

lemma selected_slashed:
  assumes db: "sound_tables db table modules packages known_in" and r: "r \<in> set table"
    and c: "compileSelector s within = Inr c" and shape: "well_shaped s"
    and kind: "Kind s \<in> symbolSelectors" "\<not> NameOnly s" "Owner s = []" "CHR ''/'' \<in> set (Pattern s)" "RowKind r \<noteq> ''package''"
    and sel: "selected table c r"
  shows "qualifiedPackageFilter (Pattern s) (RowPackage r) (RowModule r)"
proof -
  note comp = compileSelector_glob [OF c]
  have names: "Kind s \<noteq> ''path''" "Kind s \<noteq> ''pkg''" "Kind s \<noteq> ''mod''" "Kind s \<noteq> ''all''"
    using kind(1) by (auto simp: symbolSelectors_def)
  then have "ModulePattern s = []" using shape by (auto simp: well_shaped_def)
  then obtain n where n: "spelling table s r = Some n" "matches (Glob c) n"
    using sel comp names kind(3) by (auto simp: selected_def holds_iff Let_def)
  have "contains_any (Pattern s) ''./''" using kind(4) by (auto simp: contains_any_def list_ex_iff)
  then have "qualified_name table r = Some n" using n(1) names kind by (auto simp: spelling_def)
  then obtain ns where ns: "owner_names table ownerDepth (RowOwner r) = Some ns"
    "n = RowPackage r @ ''.'' @ join_with ''.'' (rev (RowName r # ns))"
    using kind(5) by (auto simp: qualified_name_def)
  have "\<forall>x \<in> set (RowName r # ns). ValidString x" using owner_names_rows [OF ns(1)] db r by (auto simp: sound_tables_def)
  then have "ValidString (join_with ''.'' (rev (RowName r # ns)))"
    using ValidString_join [of "CHR ''.''" "rev (RowName r # ns)"] by (simp add: byte_def)
  moreover have "ValidString (RowPackage r)" using db r by (simp add: sound_tables_def)
  ultimately have "ValidString n" using ns(2) ValidString_cut [of "CHR ''.''" "RowPackage r"] by (simp add: byte_def)
  then show ?thesis using qualifiedPackageFilter_necessary [of "Pattern s" "Glob c" "RowPackage r"] comp shape n(2) ns(2)
    by (simp add: well_shaped_def)
qed

lemma selected_plain:
  assumes db: "sound_tables db table modules packages known_in" and r: "r \<in> set table"
    and c: "compileSelector s within = Inr c" and shape: "well_shaped s"
    and kind: "Kind s \<in> symbolSelectors" "plain_name (Pattern s)" and sel: "selected table c r"
  shows "RowName r = Pattern s"
proof -
  note comp = compileSelector_glob [OF c]
  have names: "Kind s \<noteq> ''path''" "Kind s \<noteq> ''pkg''" "Kind s \<noteq> ''mod''" "Kind s \<noteq> ''all''"
    using kind(1) by (auto simp: symbolSelectors_def)
  then have "ModulePattern s = []" using shape by (auto simp: well_shaped_def)
  moreover have "\<not> contains_any (Pattern s) ''./''" using kind(2) by (auto simp: plain_name_def contains_any_def list_ex_iff)
  ultimately have "matches (Glob c) (RowName r)"
    using sel comp names kind(1) by (auto simp: selected_def holds_iff Let_def spelling_def split: if_splits)
  then show ?thesis using plain_glob comp kind(2) shape db r by (simp add: well_shaped_def sound_tables_def)
qed

lemma selected_admitted:
  assumes c: "compileSelector s within = Inr c" and shape: "well_shaped s" and within: "within_admits c r" and sel: "selected table c r"
  shows "admitted c (RowModule r)"
proof -
  note comp = compileSelector_glob [OF c]
  have "matches (ModuleGlob c) (RowModule r)" if "ModulePattern s \<noteq> []"
    using that shape sel comp by (auto simp: well_shaped_def selected_def holds_iff Let_def)
  moreover have "matches (Glob c) (RowModule r)" if "Kind s = ''mod''"
    using that shape sel comp by (auto simp: well_shaped_def selected_def holds_iff Let_def spelling_def)
  moreover have "admitsRoot p (RowModule r)" if "Within c = Some p" for p by (rule within_root [OF within that])
  ultimately show ?thesis using comp by (auto simp: admitted_def split: option.splits)
qed

lemma selected_packages:
  "compileSelector s within = Inr c \<Longrightarrow> well_shaped s \<Longrightarrow> Kind s = ''pkg'' \<Longrightarrow> selected table c r \<Longrightarrow>
    packageFilter s (Glob c) (RowPackage r) (RowModule r)"
  using compileSelector_glob [of s within c]
  by (auto simp: well_shaped_def selected_def holds_iff Let_def spelling_def packageFilter_def symbolSelectors_def split: if_splits)

lemma selectorFilter_names:
  assumes "selectorFilter s ks = Inr keep"
  obtains names where "selectorKinds s ks = Inr names"
    "\<And>r. keep r \<longleftrightarrow> Kind s \<notin> symbolSelectors \<or> RowKind r \<in> set names \<and>
       (plain_name (Pattern s) \<longrightarrow> RowSearch r = SearchName (Pattern s) \<and> RowName r = Pattern s)"
proof -
  obtain names where names: "selectorKinds s ks = Inr names" using assms by (auto simp: selectorFilter_def outcome_simps)
  show thesis by (rule that [OF names]) (use assms names in \<open>auto simp: selectorFilter_def split: if_splits\<close>)
qed

lemma selectorKinds_known:
  "selectorKinds s ks = Inr names \<Longrightarrow> Kind s \<in> symbolSelectors \<union> {''pkg'', ''mod'', ''all'', ''path''}"
  by (auto simp: selectorKinds_def symbolSelectors_def split: if_splits)

text \<open>What is read, kept and defined, of which the selected rows are those the selector denotes.\<close>

lemma candidates_denoted:
  assumes db: "sound_tables db table modules packages known_in" and sort: "sorts_by_low sort_by_low"
    and c: "compileSelector s within = Inr c" and shape: "well_shaped s"
    and read: "read_candidates db sort_by_low (scope_keys roots c) ks c = Inr rows"
    and root: "definedInRoot db (selectorScopes roots c) (scope_keys roots c) rows = Inr kept"
  obtains names where "selectorKinds s ks = Inr names" "set kept \<subseteq> set table"
    "\<And>r. r \<in> set kept \<Longrightarrow> selected table c r \<Longrightarrow> denoted table roots known_in names c r"
    "\<And>r. r \<in> set table \<Longrightarrow> \<not> narrowed s r \<Longrightarrow> denoted table roots known_in names c r \<Longrightarrow> r \<in> set kept"
proof -
  note comp = compileSelector_glob [OF c]
  have table: "ReadSymbols db = Inr table" "distinct (map RowHandle table)" using db by (simp_all add: sound_tables_def)
  obtain keep ranges where keep: "selectorFilter (Sel c) ks = Inr keep"
    and ranges: "scope_keys roots c \<noteq> [] \<longrightarrow> selectorRanges db c (scope_keys roots c) = Inr ranges"
    and rows: "set rows = {r \<in> set table. scope_keys roots c \<noteq> [] \<and> keep r \<and> covers ranges (RowHandle r) \<and> within_admits c r}"
    by (rule read_candidates_exact [OF read sort table(1)])
  obtain names where names: "selectorKinds s ks = Inr names"
    "\<And>r. keep r \<longleftrightarrow> Kind s \<notin> symbolSelectors \<or> RowKind r \<in> set names \<and>
       (plain_name (Pattern s) \<longrightarrow> RowSearch r = SearchName (Pattern s) \<and> RowName r = Pattern s)"
    using selectorFilter_names [of s ks keep] keep comp by metis
  have "inj_on RowHandle (set rows)" using table(2) rows by (auto simp: distinct_map intro: inj_on_subset)
  moreover have "\<And>p hs s. DefinedSymbols db p hs = Inr s \<Longrightarrow> s = set hs \<inter> known_in p" using db by (simp add: sound_tables_def)
  ultimately have "set kept = {r \<in> set rows. RowModule r \<in> set (scope_keys roots c) \<and>
      (\<exists>p \<in> set (selectorScopes roots c (RowModule r)). RowHandle r \<in> known_in p)}"
    by (intro definedInRoot_exact [OF _ _ root]) blast+
  then have kept: "set kept = {r \<in> set rows. admitted c (RowModule r) \<and> in_own_root roots known_in r}"
    unfolding scope_positions .
  show thesis
  proof (rule that [OF names(1)])
    show "set kept \<subseteq> set table" using kept rows by auto
    show "denoted table roots known_in names c r" if "r \<in> set kept" "selected table c r" for r
      using that kept rows names(2) comp by (auto simp: denoted_def)
    show "r \<in> set kept" if r: "r \<in> set table" "\<not> narrowed s r" "denoted table roots known_in names c r" for r
    proof -
      have den: "Kind s \<in> symbolSelectors \<longrightarrow> RowKind r \<in> set names" "in_own_root roots known_in r" "within_admits c r" "selected table c r"
        using r(3) comp by (simp_all add: denoted_def)
      have adm: "admitted c (RowModule r)" by (rule selected_admitted [OF c shape den(3,4)])
      then have key: "RowModule r \<in> set (scope_keys roots c)" using scope_positions [of r roots c known_in] den(2) by blast
      then have ne: "scope_keys roots c \<noteq> []" by auto
      have "keep r" using names(2) den(1) selected_plain [OF db r(1) c shape _ _ den(4)] db r(1) by (auto simp: sound_tables_def)
      moreover have "covers ranges (RowHandle r)"
      proof (rule selectorRanges_cover [OF db r(1) key])
        show "selectorRanges db c (scope_keys roots c) = Inr ranges" using ranges ne by simp
        show "packageFilter (Sel c) (Glob c) (RowPackage r) (RowModule r)" if "Kind (Sel c) = ''pkg''"
          using selected_packages [OF c shape _ den(4)] that comp by simp
        show "qualifiedPackageFilter (Pattern (Sel c)) (RowPackage r) (RowModule r)"
          if "\<not> NameOnly (Sel c)" "Kind (Sel c) \<noteq> ''pkg''" "Kind (Sel c) \<noteq> ''mod''" "Owner (Sel c) = []"
            "CHR ''/'' \<in> set (Pattern (Sel c))"
        proof -
          have "Kind s \<notin> {''path'', ''all''}" using that r(2) comp by (auto simp: narrowed_def)
          then have sym: "Kind s \<in> symbolSelectors" using selectorKinds_known [OF names(1)] that comp by auto
          then have "RowKind r \<noteq> ''package''" using that r(2) comp by (auto simp: narrowed_def)
          then show ?thesis using selected_slashed [OF db r(1) c shape sym] that comp den(4) by simp
        qed
        show "within_admits c r" by (rule den(3))
      qed
      ultimately show ?thesis using kept rows r(1) ne den adm by simp
    qed
  qed
qed


definition candidates_for :: "symbol_tables \<Rightarrow> symbol_row list \<Rightarrow> gostring list \<Rightarrow> (nat \<Rightarrow> 64 word set) \<Rightarrow> kinds \<Rightarrow> compiled_selector
    \<Rightarrow> symbol_row list \<Rightarrow> bool" where
  "candidates_for db table roots known_in ks c rows \<longleftrightarrow>
     set rows \<subseteq> set table \<and> sorted (map RowID rows) \<and>
     (\<exists>ks' names. (ks' = ks \<or> ReadKinds db = Inr ks') \<and> selectorKinds (Sel c) ks' = Inr names \<and>
        (\<forall>r \<in> set rows. selected table c r \<longrightarrow> denoted table roots known_in names c r) \<and>
        (\<forall>r \<in> set table. \<not> narrowed (Sel c) r \<longrightarrow> denoted table roots known_in names c r \<longrightarrow> r \<in> set rows))"

lemma register_kind_Inr: "register_kind db k ks = Inr ks' \<Longrightarrow> ks' = ks \<or> ReadKinds db = Inr ks'"
  by (auto simp: register_kind_def outcome_simps split: sum.splits)

lemma keeps_selectorCandidates:
  assumes db: "sound_tables db table modules packages known_in" and sort: "sorts_by_low sort_by_low"
    and c: "compileSelector s within = Inr c" and shape: "well_shaped s"
  shows "keeps table (candidates_for db table roots known_in ks c) (selectorCandidates db sort_by_low roots ks c)"
  unfolding selectorCandidates_def Let_def
proof (rule keeps_then)
  have table: "ReadSymbols db = Inr table" "distinct (map RowID table)" using db by (simp_all add: sound_tables_def)
  have cs: "Sel c = s" using compileSelector_glob [OF c] by simp
  show "keeps table (\<lambda>ks'. ks' = ks \<or> ReadKinds db = Inr ks')
    (seen_read (if Kind (Sel c) = ''kind'' then register_kind db (SymbolKind (Sel c)) ks else Inr ks))"
    by (rule keeps_read) (auto dest: register_kind_Inr split: if_splits)
  fix ks' assume ks: "ks' = ks \<or> ReadKinds db = Inr ks'"
  let ?keys = "scope_keys roots c"
  have step: "keeps table (candidates_for db table roots known_in ks c)
      (seen_then (remember rows) (\<lambda>_. seen_then (seen_read (definedInRoot db (selectorScopes roots c) ?keys rows)) (\<lambda>rows.
        seen_then (prefetchOwners db ownerDepth (sort_key RowID rows)) (\<lambda>_. seen_read (Inr (sort_key RowID rows))))))"
    if read: "read_candidates db sort_by_low ?keys ks' c = Inr rows" for rows
  proof (rule keeps_then [OF keeps_remember [OF table(2)]])
    show "set rows \<subseteq> set table" using read_candidates_exact [OF read sort table(1)] by auto
    show "keeps table (candidates_for db table roots known_in ks c)
      (seen_then (seen_read (definedInRoot db (selectorScopes roots c) ?keys rows)) (\<lambda>rows.
        seen_then (prefetchOwners db ownerDepth (sort_key RowID rows)) (\<lambda>_. seen_read (Inr (sort_key RowID rows)))))"
    proof (rule keeps_then [where P = "\<lambda>kept. definedInRoot db (selectorScopes roots c) ?keys rows = Inr kept"])
      fix kept assume "definedInRoot db (selectorScopes roots c) ?keys rows = Inr kept"
      from candidates_denoted [OF db sort c shape read this] obtain names where names: "selectorKinds s ks' = Inr names" "set kept \<subseteq> set table"
        "\<And>r. r \<in> set kept \<Longrightarrow> selected table c r \<Longrightarrow> denoted table roots known_in names c r"
        "\<And>r. r \<in> set table \<Longrightarrow> \<not> narrowed s r \<Longrightarrow> denoted table roots known_in names c r \<Longrightarrow> r \<in> set kept" by blast
      have "candidates_for db table roots known_in ks c (sort_key RowID kept)"
        unfolding candidates_for_def using names ks cs by auto
      then show "keeps table (candidates_for db table roots known_in ks c)
        (seen_then (prefetchOwners db ownerDepth (sort_key RowID kept)) (\<lambda>_. seen_read (Inr (sort_key RowID kept))))"
        using names(2) by (intro keeps_then [OF keeps_prefetchOwners [OF table]] keeps_read) auto
    qed (rule keeps_read)
  qed
  show "keeps table (candidates_for db table roots known_in ks c)
    (seen_then (seen_read (read_candidates db sort_by_low ?keys ks' c)) (\<lambda>rows. seen_then (remember rows) (\<lambda>_.
      seen_then (seen_read (definedInRoot db (selectorScopes roots c) ?keys rows)) (\<lambda>rows.
        seen_then (prefetchOwners db ownerDepth (sort_key RowID rows)) (\<lambda>_. seen_read (Inr (sort_key RowID rows)))))))"
    by (rule keeps_then [where P = "\<lambda>rows. read_candidates db sort_by_low ?keys ks' c = Inr rows", OF keeps_read step]) auto
qed

text \<open>C34: a selector returns, in the order of their ids, exactly the rows it denotes, however much of the handle space its
  ranges leave unread and whatever the pipeline has seen before, but for rows its package filter is not made for.\<close>

theorem matched_rows_exact:
  assumes db: "sound_tables db table modules packages known_in" and sort: "sorts_by_low sort_by_low"
    and shape: "well_shaped s" and f: "seen_ok table f"
    and run: "matched_rows db sort_by_low roots ks s within f = (Inr rows, f')"
  shows "seen_ok table f' \<and> sorted (map RowID rows) \<and>
    (\<exists>c ks' names. compileSelector s within = Inr c \<and> (ks' = ks \<or> ReadKinds db = Inr ks') \<and> selectorKinds s ks' = Inr names \<and>
       set rows \<subseteq> {r \<in> set table. denoted table roots known_in names c r} \<and>
       {r \<in> set table. denoted table roots known_in names c r \<and> \<not> narrowed s r} \<subseteq> set rows)"
proof -
  have table: "ReadSymbols db = Inr table" "distinct (map RowID table)" using db by (simp_all add: sound_tables_def)
  obtain c cs f1 where c: "compileSelector s within = Inr c"
    and cs: "selectorCandidates db sort_by_low roots ks c f = (Inr cs, f1)" and sel: "select_rows db c cs f1 = (Inr rows, f')"
    using run by (auto simp: matched_rows_def seen_then_def seen_read_def split: prod.splits sum.splits)
  have cand: "seen_ok table f1" "candidates_for db table roots known_in ks c cs"
    using keepsD [OF keeps_selectorCandidates [OF db sort c shape] f cs] by simp_all
  have "seen_ok table f' \<and> rows = filter (selected table c) cs"
    using keepsD [OF keeps_select_rows [OF table] cand(1) sel] cand(2) by (simp add: candidates_for_def)
  then have rows: "seen_ok table f'" "rows = filter (selected table c) cs" by simp_all
  obtain ks' names where names: "ks' = ks \<or> ReadKinds db = Inr ks'" "selectorKinds (Sel c) ks' = Inr names"
    "\<forall>r \<in> set cs. selected table c r \<longrightarrow> denoted table roots known_in names c r"
    "\<forall>r \<in> set table. \<not> narrowed (Sel c) r \<longrightarrow> denoted table roots known_in names c r \<longrightarrow> r \<in> set cs"
    using cand(2) unfolding candidates_for_def by blast
  have "sorted (map RowID cs)" using cand(2) by (simp add: candidates_for_def)
  then have "sorted (map RowID rows)" unfolding rows(2) by (rule sorted_filter)
  moreover have "set rows \<subseteq> {r \<in> set table. denoted table roots known_in names c r}"
    using rows(2) names(3) cand(2) by (auto simp: candidates_for_def)
  moreover have "{r \<in> set table. denoted table roots known_in names c r \<and> \<not> narrowed s r} \<subseteq> set rows"
    using rows(2) names(4) compileSelector_glob [OF c] by (auto simp: denoted_def)
  ultimately show ?thesis using rows(1) c names(1,2) compileSelector_glob [OF c] by blast
qed


definition sample_row :: "gostring \<Rightarrow> symbol_row" where
  "sample_row path = \<lparr> RowID = ''s1'', RowModule = ''m'', RowPackage = path, RowKind = ''method'', RowOwner = None, RowName = ''Run'',
     RowSearch = ''run'', RowHandle = 13512003620438016 \<rparr>"

definition sample_tables :: "gostring \<Rightarrow> symbol_tables" where
  "sample_tables path = \<lparr> ReadModules = Inr [(3, ''m'')], ReadPackages = Inr [(3, 17, path)], ReadSymbols = Inr [sample_row path],
     ReadKinds = Inl (ReadError ''closed''), DefinedSymbols = (\<lambda>_ hs. Inr (set hs \<inter> {13512003620438016})) \<rparr>"

subsection \<open>Concrete searches\<close>

definition sample_compiled :: "selector \<Rightarrow> selector_glob \<Rightarrow> compiled_selector" where
  "sample_compiled s g = \<lparr> Sel = s, Glob = g, ModuleGlob = [], OwnerGlob = [], Within = None \<rparr>"

definition method_glob :: selector_glob where
  "method_glob = map literal_segment [''m'', ''p.Run'']"

definition path_glob :: selector_glob where
  "path_glob = [literal_segment ''m'', None]"

lemma sample_globs:
  "compileSelectorGlob ''m/p.Run'' = Inr method_glob" "compileSelectorGlob ''m/**'' = Inr path_glob"
  by (simp_all add: compileSelectorGlob_def compileGlob_def compile_segment_def must_compile_literal literal_segment_def
      ValidString_ascii byte_def maximumSelectorPattern_def method_glob_def path_glob_def)

lemma sample_compile:
  "compileSelector (new_selector kind pattern) None = and_then (raised GlobError (compileSelectorGlob pattern)) (\<lambda>g.
     Inr (sample_compiled (new_selector kind pattern) g))"
  by (simp add: compileSelector_def new_selector_def optional_glob_def raised_def sample_compiled_def)

lemma sample_search:
  "compileSelectorGlob pattern = Inr g \<Longrightarrow>
   matched_rows db sort_by_low roots ks (new_selector kind pattern) None f =
     (let c = sample_compiled (new_selector kind pattern) g in
      seen_then (selectorCandidates db sort_by_low roots ks c) (select_rows db c) f)"
  by (simp add: matched_rows_def sample_compile seen_then_def [of "seen_read _"] seen_read_def raised_def Let_def)

lemma method_found:
  "fst (matched_rows (sample_tables ''m/p'') (sort_key (sint \<circ> Low)) [''m''] empty_kinds (new_selector ''method'' ''m/p.Run'') None
     newSymbolFacts) = Inr [sample_row ''m/p'']"
  unfolding sample_search [OF sample_globs(1)] by code_simp

text \<open>A \<open>path\<close> selector for a root package and all below it leaves out the symbols of the root package, which its
  pattern matches: no package filter names the package of the literal part itself.\<close>

lemma path_root_missed:
  "fst (matched_rows (sample_tables ''m'') (sort_key (sint \<circ> Low)) [''m''] empty_kinds (new_selector ''path'' ''m/**'') None
     newSymbolFacts) = Inr []"
  "denoted [sample_row ''m''] [''m''] (\<lambda>_. {13512003620438016}) [] (sample_compiled (new_selector ''path'' ''m/**'') path_glob) (sample_row ''m'')"
  unfolding sample_search [OF sample_globs(2)] by code_simp+

lemma sample_sound: "sound_tables (sample_tables ''m/p'') [sample_row ''m/p''] [(3, ''m'')] [(3, 17, ''m/p'')] (\<lambda>_. {13512003620438016})"
proof -
  have "RowSearch (sample_row ''m/p'') = SearchName (RowName (sample_row ''m/p''))" by code_simp
  moreover have "registered [(3, ''m'')] [(3, 17, ''m/p'')] (sample_row ''m/p'')"
    unfolding registered_def
    by (rule exI [of _ 3], rule exI [of _ 17], rule exI [of _ "low_fields 3 17 1 4"])
      (simp add: sample_row_def sample_low_packed)
  ultimately show ?thesis
    by (simp add: sound_tables_def sample_tables_def sample_row_def ValidString_ascii byte_def)
qed

theorem matched_rows_exact_witness:
  "\<exists>f'. matched_rows (sample_tables ''m/p'') (sort_key (sint \<circ> Low)) [''m''] empty_kinds (new_selector ''method'' ''m/p.Run'') None
      newSymbolFacts = (Inr [sample_row ''m/p''], f') \<and> seen_ok [sample_row ''m/p''] f'"
proof -
  obtain f' where f': "matched_rows (sample_tables ''m/p'') (sort_key (sint \<circ> Low)) [''m''] empty_kinds
      (new_selector ''method'' ''m/p.Run'') None newSymbolFacts = (Inr [sample_row ''m/p''], f')"
    using method_found by (metis prod.collapse)
  have "well_shaped (new_selector ''method'' ''m/p.Run'')"
    by (simp add: well_shaped_def new_selector_def ValidString_ascii byte_def)
  from matched_rows_exact [OF sample_sound stable_sorts this _ f'] show ?thesis using f'
    by (simp add: seen_ok_def newSymbolFacts_def)
qed

end
