(* ===== verification/Component_Search.thy ===== *)
theory Component_Search
  imports Go_Prelude
begin

text \<open>
  The strongly connected components of a dependency graph (\<open>indexer/graph_components.go\<close>). The depth of the search is
  bounded by fuel; the number of nodes is enough. The lemmas follow the invariants of a node's visit: the old stack stays
  below what it pushed, and what it pushed still links to a node further down.
\<close>

subsection \<open>The search\<close>

text \<open>The stack is kept last pushed first.\<close>

record search_state =
  VisitOrder :: nat
  VisitIndex :: "nat \<Rightarrow> nat"
  VisitLow :: "nat \<Rightarrow> nat"
  VisitStack :: "nat list"
  OnStack :: "nat \<Rightarrow> bool"
  Groups :: "nat list list"

definition start_search :: search_state where
  "start_search = \<lparr> VisitOrder = 0, VisitIndex = (\<lambda>_. 0), VisitLow = (\<lambda>_. 0), VisitStack = [], OnStack = (\<lambda>_. False), Groups = [] \<rparr>"

definition enter_node :: "nat \<Rightarrow> search_state \<Rightarrow> search_state" where
  "enter_node v s =
     s\<lparr> VisitOrder := Suc (VisitOrder s), VisitIndex := (VisitIndex s)(v := Suc (VisitOrder s)),
        VisitLow := (VisitLow s)(v := Suc (VisitOrder s)), VisitStack := v # VisitStack s, OnStack := (OnStack s)(v := True) \<rparr>"

definition lower :: "nat \<Rightarrow> nat \<Rightarrow> search_state \<Rightarrow> search_state" where
  "lower v l s = s\<lparr> VisitLow := (VisitLow s)(v := min (VisitLow s v) l) \<rparr>"

text \<open>Popping stops at the root of the group; the stack always holds it.\<close>

definition popped :: "nat \<Rightarrow> nat list \<Rightarrow> nat list" where
  "popped v stack = takeWhile (\<lambda>w. w \<noteq> v) stack @ [v]"

definition leave_node :: "nat \<Rightarrow> search_state \<Rightarrow> search_state" where
  "leave_node v s =
     (if VisitLow s v \<noteq> VisitIndex s v then s
      else
        let group = popped v (VisitStack s) in
        s\<lparr> VisitStack := drop (length group) (VisitStack s), OnStack := (\<lambda>w. OnStack s w \<and> w \<notin> set group),
           Groups := Groups s @ [group] \<rparr>)"

function visit_targets :: "(nat \<Rightarrow> nat list) \<Rightarrow> nat \<Rightarrow> nat \<Rightarrow> nat list \<Rightarrow> search_state \<Rightarrow> search_state option" where
  "visit_targets neighbors fuel v [] s = Some s"
| "visit_targets neighbors fuel v (t # ts) s =
     (if VisitIndex s t = 0 then
        (case fuel of
           0 \<Rightarrow> None
         | Suc n \<Rightarrow>
             (case visit_targets neighbors n t (neighbors t) (enter_node t s) of
                None \<Rightarrow> None
              | Some s' \<Rightarrow>
                  let s' = leave_node t s' in visit_targets neighbors fuel v ts (lower v (VisitLow s' t) s')))
      else if OnStack s t then visit_targets neighbors fuel v ts (lower v (VisitIndex s t) s)
      else visit_targets neighbors fuel v ts s)"
  by pat_completeness auto

termination by (relation "measures [\<lambda>(_, n, _, _, _). n, \<lambda>(_, _, _, ts, _). length ts]") auto

fun search_from :: "(nat \<Rightarrow> nat list) \<Rightarrow> nat \<Rightarrow> nat list \<Rightarrow> search_state \<Rightarrow> search_state option" where
  "search_from neighbors fuel [] s = Some s"
| "search_from neighbors fuel (v # vs) s =
     (if VisitIndex s v \<noteq> 0 then search_from neighbors fuel vs s
      else case visit_targets neighbors fuel v (neighbors v) (enter_node v s) of
        None \<Rightarrow> None
      | Some s' \<Rightarrow> search_from neighbors fuel vs (leave_node v s'))"

definition dependencyComponents :: "nat \<Rightarrow> (nat \<Rightarrow> nat list) \<Rightarrow> nat list list" where
  "dependencyComponents count neighbors =
     (case search_from neighbors count [0..<count] start_search of None \<Rightarrow> [] | Some s \<Rightarrow> Groups s)"

subsection \<open>The groups partition the nodes\<close>

definition visited :: "search_state \<Rightarrow> nat set" where
  "visited s = {v. VisitIndex s v \<noteq> 0}"

text \<open>\<open>L\<close> is a floor of the indexes on the stack, at which a root's own index stops its low link.\<close>

definition search_ok :: "nat \<Rightarrow> nat \<Rightarrow> search_state \<Rightarrow> bool" where
  "search_ok count L s \<longleftrightarrow>
     distinct (concat (Groups s) @ VisitStack s) \<and> set (concat (Groups s) @ VisitStack s) = visited s \<and>
     visited s \<subseteq> {0..<count} \<and> [] \<notin> set (Groups s) \<and> (\<forall>v. OnStack s v \<longleftrightarrow> v \<in> set (VisitStack s)) \<and>
     L \<le> Suc (VisitOrder s) \<and> (\<forall>w \<in> set (VisitStack s). L \<le> VisitIndex s w \<and> L \<le> VisitLow s w) \<and>
     (\<forall>w \<in> visited s. VisitLow s w \<le> VisitIndex s w)"

text \<open>What a visit leaves: more visited nodes with the indexes they had, and the old stack below what it pushed.\<close>

definition extends :: "search_state \<Rightarrow> search_state \<Rightarrow> bool" where
  "extends s s' \<longleftrightarrow> visited s \<subseteq> visited s' \<and> (\<exists>pushed. VisitStack s' = pushed @ VisitStack s) \<and>
     (\<forall>w \<in> visited s. VisitIndex s' w = VisitIndex s w)"

lemma extends_refl: "extends s s"
  by (simp add: extends_def)

lemma extends_trans: "extends a b \<Longrightarrow> extends b c \<Longrightarrow> extends a c"
  unfolding extends_def by (metis append.assoc subset_iff)

lemma lower_visited: "visited (lower v l s) = visited s" "extends s (lower v l s)"
  by (auto simp: lower_def visited_def extends_def)

lemma lower_ok: "search_ok count L s \<Longrightarrow> L \<le> l \<Longrightarrow> search_ok count L (lower v l s)"
  by (auto simp: lower_def search_ok_def visited_def intro: min.coboundedI1)

lemma unvisited_absent:
  assumes "search_ok count L s" "VisitIndex s v = 0"
  shows "v \<notin> set (VisitStack s)" "v \<notin> set (concat (Groups s))"
proof -
  have "v \<notin> set (concat (Groups s) @ VisitStack s)" using assms unfolding search_ok_def by (simp add: visited_def)
  then show "v \<notin> set (VisitStack s)" "v \<notin> set (concat (Groups s))" by simp_all
qed

lemma enter_visited: "visited (enter_node v s) = insert v (visited s)"
  by (auto simp: enter_node_def visited_def)

lemma enter_ok:
  assumes "search_ok count L s" "VisitIndex s v = 0" "v < count"
  shows "search_ok count L (enter_node v s)" "extends s (enter_node v s)"
proof -
  have "set (concat (Groups s) @ VisitStack s) = visited s" using assms(1) by (simp add: search_ok_def)
  then show "search_ok count L (enter_node v s)"
    using assms unvisited_absent [OF assms(1,2)] enter_visited [of v s]
    by (auto simp: search_ok_def enter_node_def)
  show "extends s (enter_node v s)" using assms(2) by (auto simp: enter_node_def visited_def extends_def)
qed

lemma popped_pushed: "v \<notin> set pushed \<Longrightarrow> popped v (pushed @ v # stack) = pushed @ [v]"
proof -
  assume "v \<notin> set pushed"
  then have "takeWhile (\<lambda>w. w \<noteq> v) (pushed @ v # stack) = pushed" by (induction pushed) auto
  then show ?thesis by (simp add: popped_def)
qed

lemma leave_node_pops:
  assumes "VisitLow s v = VisitIndex s v" "VisitStack s = pushed @ v # stack" "v \<notin> set pushed"
  shows "leave_node v s = s\<lparr> VisitStack := stack, OnStack := (\<lambda>w. OnStack s w \<and> w \<notin> set (pushed @ [v])), Groups := Groups s @ [pushed @ [v]] \<rparr>"
  using assms popped_pushed [OF assms(3), of stack] by (simp add: leave_node_def Let_def)

lemma leave_ok:
  assumes ok: "search_ok count L s" and stack: "VisitStack s = pushed @ v # stack"
  shows "search_ok count L (leave_node v s) \<and> visited (leave_node v s) = visited s \<and> (\<exists>p. VisitStack (leave_node v s) = p @ stack)"
proof (cases "VisitLow s v = VisitIndex s v")
  case True
  have v: "v \<notin> set pushed" using ok stack by (auto simp: search_ok_def)
  show ?thesis unfolding leave_node_pops [OF True stack v] using ok stack by (auto simp: search_ok_def visited_def)
qed (use assms in \<open>auto simp: leave_node_def\<close>)

lemma leave_fields: "VisitIndex (leave_node v s) = VisitIndex s" "VisitLow (leave_node v s) = VisitLow s"
  by (simp_all add: leave_node_def Let_def)

definition closed_neighbors :: "nat \<Rightarrow> (nat \<Rightarrow> nat list) \<Rightarrow> bool" where
  "closed_neighbors count neighbors \<longleftrightarrow> (\<forall>v < count. set (neighbors v) \<subseteq> {0..<count})"

lemma visit_node_ok:
  assumes ok: "search_ok count L s" "VisitIndex s t = 0" "t < count"
    and visit: "search_ok count L s1" "extends (enter_node t s) s1"
  shows "search_ok count L (leave_node t s1)" "extends s (leave_node t s1)" "t \<in> visited (leave_node t s1)"
    "L \<le> VisitLow (leave_node t s1) t"
proof -
  note e = enter_ok [OF ok]
  obtain pushed where p: "VisitStack s1 = pushed @ t # VisitStack s"
    using visit(2) by (auto simp: extends_def enter_node_def)
  note l = leave_ok [OF visit(1) p]
  have "t \<in> visited s1" using visit(2) enter_visited [of t s] by (auto simp: extends_def)
  then show "search_ok count L (leave_node t s1)" "t \<in> visited (leave_node t s1)" using l by simp_all
  show "extends s (leave_node t s1)"
    using l extends_trans [OF e(2) visit(2)] unfolding extends_def by (auto simp: leave_fields)
  show "L \<le> VisitLow (leave_node t s1) t" using visit(1) p by (simp add: search_ok_def leave_fields)
qed

lemma visit_targets_ok:
  "visit_targets neighbors fuel v ts s = Some s' \<Longrightarrow> closed_neighbors count neighbors \<Longrightarrow> search_ok count L s \<Longrightarrow> set ts \<subseteq> {0..<count} \<Longrightarrow>
    search_ok count L s' \<and> extends s s'"
proof (induction neighbors fuel v ts s arbitrary: s' rule: visit_targets.induct)
  case (2 neighbors fuel v t ts s)
  have t: "t < count" "set ts \<subseteq> {0..<count}" using "2.prems"(4) by simp_all
  show ?case
  proof (cases "VisitIndex s t = 0")
    case True
    then obtain n s1 where n: "fuel = Suc n" "visit_targets neighbors n t (neighbors t) (enter_node t s) = Some s1"
      using "2.prems"(1) by (auto split: nat.splits option.splits)
    let ?s2 = "leave_node t s1"
    have rest: "visit_targets neighbors fuel v ts (lower v (VisitLow ?s2 t) ?s2) = Some s'"
      using "2.prems"(1) True n by (simp add: Let_def)
    have "search_ok count L s1 \<and> extends (enter_node t s) s1"
      using "2.IH"(1) [OF True n(1) n(2) "2.prems"(2) enter_ok(1) [OF "2.prems"(3) True t(1)]] "2.prems"(2) t(1)
      by (simp add: closed_neighbors_def)
    then have two: "search_ok count L ?s2" "extends s ?s2" "L \<le> VisitLow ?s2 t"
      using visit_node_ok [OF "2.prems"(3) True t(1), of s1] by blast+
    have "search_ok count L s' \<and> extends (lower v (VisitLow ?s2 t) ?s2) s'"
      by (rule "2.IH"(2) [OF True n(1) n(2) refl rest "2.prems"(2) lower_ok [OF two(1,3)] t(2)])
    then show ?thesis using extends_trans [OF extends_trans [OF two(2) lower_visited(2)]] by blast
  next
    case seen: False
    show ?thesis
    proof (cases "OnStack s t")
      case True
      have step: "visit_targets neighbors fuel v ts (lower v (VisitIndex s t) s) = Some s'" using "2.prems"(1) seen True by simp
      have "L \<le> VisitIndex s t" using "2.prems"(3) True by (simp add: search_ok_def)
      from "2.IH"(3) [OF seen True step "2.prems"(2) lower_ok [OF "2.prems"(3) this] t(2)] show ?thesis
        using extends_trans [OF lower_visited(2)] by blast
    next
      case False
      have "visit_targets neighbors fuel v ts s = Some s'" using "2.prems"(1) seen False by simp
      from "2.IH"(4) [OF seen False this "2.prems"(2,3) t(2)] show ?thesis .
    qed
  qed
qed (simp add: extends_refl)

text \<open>Every visit entered takes one node out of those not visited yet, so their number bounds the depth.\<close>

definition unvisited :: "nat \<Rightarrow> search_state \<Rightarrow> nat" where
  "unvisited count s = card ({0..<count} - visited s)"

lemma unvisited_mono: "extends s s' \<Longrightarrow> unvisited count s' \<le> unvisited count s"
  unfolding unvisited_def by (rule card_mono) (auto simp: extends_def)

lemma unvisited_enter: "VisitIndex s v = 0 \<Longrightarrow> v < count \<Longrightarrow> Suc (unvisited count (enter_node v s)) = unvisited count s"
proof -
  assume a: "VisitIndex s v = 0" "v < count"
  have "{0..<count} - visited (enter_node v s) = {0..<count} - visited s - {v}" using enter_visited [of v s] by auto
  moreover have "v \<in> {0..<count} - visited s" using a by (simp add: visited_def)
  ultimately show ?thesis unfolding unvisited_def by (simp add: card_Suc_Diff1 del: card_Diff_insert)
qed

lemma visit_targets_total:
  "closed_neighbors count neighbors \<Longrightarrow> search_ok count 0 s \<Longrightarrow> set ts \<subseteq> {0..<count} \<Longrightarrow> unvisited count s \<le> fuel \<Longrightarrow>
    \<exists>s'. visit_targets neighbors fuel v ts s = Some s'"
proof (induction neighbors fuel v ts s rule: visit_targets.induct)
  case (2 neighbors fuel v t ts s)
  have t: "t < count" "set ts \<subseteq> {0..<count}" using "2.prems"(3) by simp_all
  show ?case
  proof (cases "VisitIndex s t = 0")
    case True
    note u = unvisited_enter [OF True t(1)]
    then obtain n where n: "fuel = Suc n" "unvisited count (enter_node t s) \<le> n" using "2.prems"(4) by (cases fuel) auto
    have nb: "set (neighbors t) \<subseteq> {0..<count}" using "2.prems"(1) t(1) by (simp add: closed_neighbors_def)
    note e = enter_ok(1) [OF "2.prems"(2) True t(1)]
    obtain s1 where s1: "visit_targets neighbors n t (neighbors t) (enter_node t s) = Some s1"
      using "2.IH"(1) [OF True n(1) "2.prems"(1) e nb n(2)] by blast
    let ?s2 = "leave_node t s1"
    have one: "search_ok count 0 s1" "extends (enter_node t s) s1" using visit_targets_ok [OF s1 "2.prems"(1) e nb] by blast+
    note two = visit_node_ok [OF "2.prems"(2) True t(1) one]
    have "unvisited count (lower v (VisitLow ?s2 t) ?s2) \<le> fuel"
      using unvisited_mono [OF extends_trans [OF two(2) lower_visited(2)], of count] "2.prems"(4) by (rule order_trans)
    then obtain s' where "visit_targets neighbors fuel v ts (lower v (VisitLow ?s2 t) ?s2) = Some s'"
      using "2.IH"(2) [OF True n(1) s1 refl "2.prems"(1) lower_ok [OF two(1,4)] t(2)] by blast
    then show ?thesis using True n(1) s1 by (simp add: Let_def)
  next
    case seen: False
    show ?thesis
    proof (cases "OnStack s t")
      case True
      have "unvisited count (lower v (VisitIndex s t) s) \<le> fuel" using "2.prems"(4) by (simp add: unvisited_def lower_visited)
      then show ?thesis using "2.IH"(3) [OF seen True "2.prems"(1) lower_ok [OF "2.prems"(2)] t(2)] seen True by simp
    next
      case False
      then show ?thesis using "2.IH"(4) [OF seen False "2.prems"(1,2) t(2) "2.prems"(4)] seen by simp
    qed
  qed
qed simp

text \<open>A visit from an empty stack empties it: the low link of its root is its index.\<close>

lemma root_visit:
  assumes ok: "search_ok count 0 s" "VisitIndex s v = 0" "v < count" "VisitStack s = []"
    and nb: "closed_neighbors count neighbors" and visit: "visit_targets neighbors fuel v (neighbors v) (enter_node v s) = Some s1"
  shows "search_ok count 0 (leave_node v s1) \<and> VisitStack (leave_node v s1) = [] \<and> visited s \<subseteq> visited (leave_node v s1) \<and>
    v \<in> visited (leave_node v s1)"
proof -
  let ?L = "Suc (VisitOrder s)"
  have nbv: "set (neighbors v) \<subseteq> {0..<count}" using nb ok(3) by (simp add: closed_neighbors_def)
  have "search_ok count ?L s" using ok(1,4) by (simp add: search_ok_def)
  from enter_ok(1) [OF this ok(2,3)] have e: "search_ok count ?L (enter_node v s)" .
  note r = visit_targets_ok [OF visit nb e nbv]
  obtain pushed where p: "VisitStack s1 = pushed @ [v]" using r ok(4) by (auto simp: extends_def enter_node_def)
  have "VisitIndex s1 v = ?L" using r enter_visited [of v s] by (simp add: extends_def enter_node_def)
  moreover have "?L \<le> VisitLow s1 v" using r p by (simp add: search_ok_def)
  moreover have "v \<in> visited s1" using r enter_visited [of v s] by (auto simp: extends_def)
  ultimately have low: "VisitLow s1 v = VisitIndex s1 v" using r by (auto simp: search_ok_def)
  have "v \<notin> set pushed" using r p by (auto simp: search_ok_def)
  from leave_node_pops [OF low _ this, of "[]"] have "VisitStack (leave_node v s1) = []" using p by simp
  moreover have one: "search_ok count 0 s1" using r by (simp add: search_ok_def)
  moreover have "extends (enter_node v s) s1" using r by simp
  ultimately show ?thesis using visit_node_ok [OF ok(1-3)] by (auto simp: extends_def)
qed

lemma search_from_ok:
  "closed_neighbors count neighbors \<Longrightarrow> search_ok count 0 s \<Longrightarrow> VisitStack s = [] \<Longrightarrow> set vs \<subseteq> {0..<count} \<Longrightarrow>
    \<exists>s'. search_from neighbors count vs s = Some s' \<and> search_ok count 0 s' \<and> VisitStack s' = [] \<and>
      visited s \<subseteq> visited s' \<and> set vs \<subseteq> visited s'"
proof (induction vs arbitrary: s)
  case (Cons v vs)
  have v: "v < count" "set vs \<subseteq> {0..<count}" using Cons.prems(4) by simp_all
  show ?case
  proof (cases "VisitIndex s v = 0")
    case True
    have nb: "set (neighbors v) \<subseteq> {0..<count}" using Cons.prems(1) v(1) by (simp add: closed_neighbors_def)
    note e = enter_ok(1) [OF Cons.prems(2) True v(1)]
    have "unvisited count (enter_node v s) \<le> count" unfolding unvisited_def by (rule order_trans [OF card_mono [of "{0..<count}"]]) auto
    then obtain s1 where s1: "visit_targets neighbors count v (neighbors v) (enter_node v s) = Some s1"
      using visit_targets_total [OF Cons.prems(1) e nb] by blast
    note r = root_visit [OF Cons.prems(2) True v(1) Cons.prems(3,1) s1]
    obtain s' where "search_from neighbors count vs (leave_node v s1) = Some s'" "search_ok count 0 s'" "VisitStack s' = []"
      "visited (leave_node v s1) \<subseteq> visited s'" "set vs \<subseteq> visited s'"
      using Cons.IH [OF Cons.prems(1) _ _ v(2), of "leave_node v s1"] r by blast
    then show ?thesis using r s1 True by auto
  next
    case False
    then show ?thesis using Cons.IH [OF Cons.prems(1-3) v(2)] by (auto simp: visited_def)
  qed
qed simp

subsection \<open>The groups are strongly connected\<close>

definition edges :: "(nat \<Rightarrow> nat list) \<Rightarrow> (nat \<times> nat) set" where
  "edges neighbors = {(a, b). b \<in> set (neighbors a)}"

text \<open>A component over what was grouped before: its nodes reach each other, and its edges stay in it or lead back.\<close>

definition component_over :: "(nat \<Rightarrow> nat list) \<Rightarrow> nat set \<Rightarrow> nat list \<Rightarrow> bool" where
  "component_over neighbors earlier g \<longleftrightarrow>
     (\<forall>a \<in> set g. \<forall>b \<in> set g. (a, b) \<in> (edges neighbors)\<^sup>*) \<and> (\<forall>a \<in> set g. set (neighbors a) \<subseteq> earlier \<union> set g)"

fun groups_ok :: "(nat \<Rightarrow> nat list) \<Rightarrow> nat set \<Rightarrow> nat list list \<Rightarrow> bool" where
  "groups_ok neighbors earlier [] \<longleftrightarrow> True"
| "groups_ok neighbors earlier (g # gs) \<longleftrightarrow> component_over neighbors earlier g \<and> groups_ok neighbors (earlier \<union> set g) gs"

lemma groups_ok_snoc:
  "groups_ok neighbors earlier (gs @ [g]) \<longleftrightarrow> groups_ok neighbors earlier gs \<and> component_over neighbors (earlier \<union> set (concat gs)) g"
  by (induction gs arbitrary: earlier) (auto simp: Un_assoc)

definition deep_ok :: "(nat \<Rightarrow> nat list) \<Rightarrow> search_state \<Rightarrow> bool" where
  "deep_ok neighbors s \<longleftrightarrow>
     groups_ok neighbors {} (Groups s) \<and> sorted_wrt (\<lambda>a b. VisitIndex s b < VisitIndex s a) (VisitStack s) \<and>
     (\<forall>w. VisitIndex s w \<le> VisitOrder s)"

definition link :: "(nat \<Rightarrow> nat list) \<Rightarrow> search_state \<Rightarrow> nat \<Rightarrow> bool" where
  "link neighbors s w \<longleftrightarrow> (\<exists>u \<in> set (VisitStack s). VisitIndex s u = VisitLow s w \<and> (w, u) \<in> (edges neighbors)\<^sup>*)"

definition explored :: "search_state \<Rightarrow> nat \<Rightarrow> nat \<Rightarrow> bool" where
  "explored s v x \<longleftrightarrow> x \<in> visited s \<and> (x \<in> set (VisitStack s) \<longrightarrow> VisitLow s v \<le> VisitIndex s x)"

definition waits :: "(nat \<Rightarrow> nat list) \<Rightarrow> search_state \<Rightarrow> nat \<Rightarrow> nat \<Rightarrow> bool" where
  "waits neighbors s v w \<longleftrightarrow>
     (v, w) \<in> (edges neighbors)\<^sup>* \<and> VisitLow s v \<le> VisitLow s w \<and> VisitLow s w < VisitIndex s w \<and> link neighbors s w \<and>
     (\<forall>x \<in> set (neighbors w). explored s v x)"

definition visited_by :: "(nat \<Rightarrow> nat list) \<Rightarrow> nat \<Rightarrow> nat set \<Rightarrow> search_state \<Rightarrow> search_state \<Rightarrow> bool" where
  "visited_by neighbors v ts s s' \<longleftrightarrow>
     (\<exists>pushed. VisitStack s' = pushed @ VisitStack s \<and> set pushed \<inter> visited s = {} \<and> (\<forall>w \<in> set pushed. waits neighbors s' v w)) \<and>
     (\<forall>w \<in> visited s. w \<noteq> v \<longrightarrow> VisitLow s' w = VisitLow s w) \<and> VisitLow s' v \<le> VisitLow s v \<and>
     link neighbors s' v \<and> (\<forall>x \<in> ts. explored s' v x)"

lemma link_extends:
  "link neighbors s w \<Longrightarrow> extends s s' \<Longrightarrow> set (VisitStack s) \<subseteq> visited s \<Longrightarrow> VisitLow s' w = VisitLow s w \<Longrightarrow> link neighbors s' w"
  unfolding link_def extends_def by (metis Un_iff set_append subsetD)

lemma explored_extends:
  assumes "explored s v x" "extends s s'" "VisitLow s' v \<le> VisitLow s v"
    "VisitStack s' = pushed @ VisitStack s" "set pushed \<inter> visited s = {}"
  shows "explored s' v x"
  using assms unfolding explored_def extends_def by fastforce

lemma visited_by_trans:
  assumes one: "visited_by neighbors v A s s1" "extends s s1" and two: "visited_by neighbors v B s1 s2" "extends s1 s2"
    and v: "v \<in> visited s" and stack: "set (VisitStack s1) \<subseteq> visited s1"
  shows "visited_by neighbors v (A \<union> B) s s2"
proof -
  obtain p1 where p1: "VisitStack s1 = p1 @ VisitStack s" "set p1 \<inter> visited s = {}" "\<forall>w \<in> set p1. waits neighbors s1 v w"
    using one(1) by (auto simp: visited_by_def)
  obtain p2 where p2: "VisitStack s2 = p2 @ VisitStack s1" "set p2 \<inter> visited s1 = {}" "\<forall>w \<in> set p2. waits neighbors s2 v w"
    using two(1) by (auto simp: visited_by_def)
  have low: "VisitLow s2 v \<le> VisitLow s1 v" "VisitLow s1 v \<le> VisitLow s v" using one(1) two(1) by (simp_all add: visited_by_def)
  have keep: "explored s1 v x \<Longrightarrow> explored s2 v x" for x by (rule explored_extends [OF _ two(2) low(1) p2(1,2)])
  have "waits neighbors s2 v w" if w: "w \<in> set p1" for w
  proof -
    have wv: "w \<in> visited s1" "w \<noteq> v" using w p1(1,2) stack v by auto
    then have lw: "VisitLow s2 w = VisitLow s1 w" using two(1) by (simp add: visited_by_def)
    moreover have "VisitIndex s2 w = VisitIndex s1 w" using two(2) wv(1) by (simp add: extends_def)
    moreover have "link neighbors s2 w"
      using p1(3) w link_extends [OF _ two(2) stack lw] by (simp add: waits_def)
    ultimately show ?thesis using p1(3) w low(1) keep by (auto simp: waits_def)
  qed
  moreover have "visited s \<subseteq> visited s1" using one(2) by (simp add: extends_def)
  ultimately have "VisitStack s2 = (p2 @ p1) @ VisitStack s \<and> set (p2 @ p1) \<inter> visited s = {} \<and> (\<forall>w \<in> set (p2 @ p1). waits neighbors s2 v w)"
    using p1 p2 by auto
  moreover have "\<forall>w \<in> visited s. w \<noteq> v \<longrightarrow> VisitLow s2 w = VisitLow s w"
    using one two(1) by (auto simp: visited_by_def extends_def)
  ultimately show ?thesis using low two(1) one(1) keep unfolding visited_by_def by (metis Un_iff order_trans)
qed

lemma search_stack: "search_ok count L s \<Longrightarrow> set (VisitStack s) \<subseteq> visited s"
  unfolding search_ok_def by (metis Un_upper2 set_append)

lemma enter_deep:
  assumes "search_ok count L s" "VisitIndex s t = 0" "deep_ok neighbors s"
  shows "deep_ok neighbors (enter_node t s)" "link neighbors (enter_node t s) t"
proof -
  have "t \<notin> set (VisitStack s)" by (rule unvisited_absent(1) [OF assms(1,2)])
  moreover have "\<forall>w. VisitIndex s w < Suc (VisitOrder s)" using assms(3) by (auto simp: deep_ok_def less_Suc_eq_le)
  moreover have "sorted_wrt (\<lambda>a b. VisitIndex s b < VisitIndex s a) (VisitStack s)" using assms(3) by (simp add: deep_ok_def)
  then have "t \<notin> set (VisitStack s) \<Longrightarrow>
    sorted_wrt (\<lambda>a b. ((VisitIndex s)(t := Suc (VisitOrder s))) b < ((VisitIndex s)(t := Suc (VisitOrder s))) a) (VisitStack s)"
    by (rule sorted_wrt_mono_rel [rotated]) auto
  ultimately show "deep_ok neighbors (enter_node t s)"
    using assms(3) by (auto simp: deep_ok_def enter_node_def le_Suc_eq)
  show "link neighbors (enter_node t s) t" by (auto simp: link_def enter_node_def)
qed

text \<open>What is popped is a component.\<close>

lemma popped_component:
  assumes ok: "search_ok count L s1" "deep_ok neighbors s1" and visit: "visited_by neighbors t (set (neighbors t)) s0 s1"
    and s0: "VisitStack s0 = t # stack" and root: "VisitLow s1 t = VisitIndex s1 t"
  obtains pushed where "VisitStack s1 = pushed @ t # stack" "component_over neighbors (set (concat (Groups s1))) (pushed @ [t])"
proof -
  obtain e where e: "VisitStack s1 = e @ t # stack" "\<forall>w \<in> set e. waits neighbors s1 t w"
    using visit s0 by (auto simp: visited_by_def)
  have sorted: "sorted_wrt (\<lambda>a b. VisitIndex s1 b < VisitIndex s1 a) (e @ t # stack)" using ok(2) e(1) by (simp add: deep_ok_def)
  have above: "u \<in> set (e @ [t])" if "u \<in> set (VisitStack s1)" "VisitIndex s1 t \<le> VisitIndex s1 u" for u
    using that sorted e(1) by (auto simp: sorted_wrt_append)
  have returns: "w \<in> set (e @ [t]) \<Longrightarrow> (w, t) \<in> (edges neighbors)\<^sup>*" for w
  proof (induction "VisitIndex s1 w" arbitrary: w rule: less_induct)
    case less
    show ?case
    proof (cases "w = t")
      case False
      then have w: "waits neighbors s1 t w" using less.prems e(2) by auto
      then obtain u where u: "u \<in> set (VisitStack s1)" "VisitIndex s1 u = VisitLow s1 w" "(w, u) \<in> (edges neighbors)\<^sup>*"
        by (auto simp: waits_def link_def)
      have "u \<in> set (e @ [t])" using above [OF u(1)] u(2) w root by (simp add: waits_def)
      then have "(u, t) \<in> (edges neighbors)\<^sup>*" using less.hyps [of u] u(2) w by (simp add: waits_def)
      then show ?thesis using u(3) by simp
    qed simp
  qed
  have forth: "w \<in> set (e @ [t]) \<Longrightarrow> (t, w) \<in> (edges neighbors)\<^sup>*" for w using e(2) by (auto simp: waits_def)
  have "set (neighbors w) \<subseteq> set (concat (Groups s1)) \<union> set (e @ [t])" if w: "w \<in> set (e @ [t])" for w
  proof
    fix x assume x: "x \<in> set (neighbors w)"
    have "explored s1 t x" using w x e(2) visit by (auto simp: waits_def visited_by_def)
    then have "x \<in> visited s1" "x \<in> set (VisitStack s1) \<longrightarrow> VisitIndex s1 t \<le> VisitIndex s1 x" using root by (simp_all add: explored_def)
    moreover have "visited s1 = set (concat (Groups s1) @ VisitStack s1)" using ok(1) by (simp add: search_ok_def)
    ultimately show "x \<in> set (concat (Groups s1)) \<union> set (e @ [t])" using above [of x] by auto
  qed
  then have "component_over neighbors (set (concat (Groups s1))) (e @ [t])"
    using returns forth unfolding component_over_def by (meson rtrancl_trans)
  then show thesis using that e(1) by blast
qed

lemma leave_deep:
  assumes ok: "search_ok count L s1" "deep_ok neighbors s1" and visit: "visited_by neighbors t (set (neighbors t)) s0 s1"
    and s0: "VisitStack s0 = t # stack"
  shows "deep_ok neighbors (leave_node t s1)"
proof (cases "VisitLow s1 t = VisitIndex s1 t")
  case True
  obtain pushed where p: "VisitStack s1 = pushed @ t # stack" "component_over neighbors (set (concat (Groups s1))) (pushed @ [t])"
    by (rule popped_component [OF ok visit s0 True])
  have "t \<notin> set pushed" using ok(1) p(1) by (auto simp: search_ok_def)
  from leave_node_pops [OF True p(1) this] show ?thesis
    using ok(2) p by (auto simp: deep_ok_def groups_ok_snoc sorted_wrt_append)
qed (use ok in \<open>simp add: leave_node_def\<close>)

lemma lower_deep: "deep_ok neighbors (lower v l s) = deep_ok neighbors s"
  by (simp add: deep_ok_def lower_def)

text \<open>One target, entered, seen on the stack, or grouped already.\<close>

lemma visited_new:
  assumes s: "search_ok count L s" "VisitIndex s t = 0" "t < count" "deep_ok neighbors s" "v \<in> set (VisitStack s)" "link neighbors s v"
    and t: "t \<in> set (neighbors v)" and s1: "search_ok count L s1" "deep_ok neighbors s1" "extends (enter_node t s) s1"
    and visit: "visited_by neighbors t (set (neighbors t)) (enter_node t s) s1"
  shows "visited_by neighbors v {t} s (lower v (VisitLow (leave_node t s1) t) (leave_node t s1))"
proof -
  let ?s2 = "leave_node t s1" let ?s3 = "lower v (VisitLow ?s2 t) ?s2"
  note e = enter_ok [OF s(1-3)]
  have ext: "extends s s1" by (rule extends_trans [OF e(2) s1(3)])
  have vs: "v \<in> visited s" using search_stack [OF s(1)] s(5) by blast
  have tv: "t \<noteq> v" "t \<notin> visited s" using s(2) vs by (auto simp: visited_def)
  have edge: "(v, t) \<in> (edges neighbors)\<^sup>*" using t by (auto simp: edges_def)
  have s0: "VisitStack (enter_node t s) = t # VisitStack s" by (simp add: enter_node_def)
  obtain p where p: "VisitStack s1 = p @ t # VisitStack s" "set p \<inter> visited (enter_node t s) = {}" "\<forall>w \<in> set p. waits neighbors s1 t w"
    using visit s0 by (auto simp: visited_by_def)
  have pv: "v \<notin> set p" "set p \<inter> visited s = {}" using p(2) vs enter_visited [of t s] by auto
  have low: "VisitLow s1 w = VisitLow s w" if "w \<in> visited s" for w
    using visit that tv enter_visited [of t s] by (auto simp: visited_by_def enter_node_def)
  have index: "VisitIndex s1 w = VisitIndex s w" if "w \<in> visited s" for w using ext that by (simp add: extends_def)
  have stack: "set (VisitStack s) \<subseteq> visited s" by (rule search_stack [OF s(1)])
  have t1: "t \<in> visited s1" using s1(3) enter_visited [of t s] by (auto simp: extends_def)
  have fields: "VisitLow ?s3 = (VisitLow s1)(v := min (VisitLow s1 v) (VisitLow s1 t))" "VisitIndex ?s3 = VisitIndex s1"
    "visited ?s3 = visited s1" "VisitStack ?s3 = VisitStack ?s2"
    by (simp_all add: lower_def leave_fields visited_def)
  obtain u where u: "u \<in> set (VisitStack s)" "VisitIndex s u = VisitLow s v" "(v, u) \<in> (edges neighbors)\<^sup>*"
    using s(6) by (auto simp: link_def)
  have ui: "VisitIndex s1 u = VisitLow s1 v" using u index low vs stack by auto
  show ?thesis
  proof (cases "VisitLow s1 t = VisitIndex s1 t")
    case True
    have "t \<notin> set p" using p(1) s1(1) by (auto simp: search_ok_def)
    from leave_node_pops [OF True p(1) this] have st: "VisitStack ?s3 = VisitStack s" using fields(4) by simp
    have "VisitIndex s1 v < VisitIndex s1 t" using s1(2) p(1) s(5) by (auto simp: deep_ok_def sorted_wrt_append)
    moreover have "v \<in> visited s1" using ext vs by (auto simp: extends_def)
    then have "VisitLow s1 v \<le> VisitIndex s1 v" using s1(1) by (simp add: search_ok_def)
    ultimately have min: "VisitLow ?s3 v = VisitLow s1 v" using True fields(1) by simp
    have "link neighbors ?s3 v" unfolding link_def using u ui min st fields(2) by auto
    moreover have "t \<notin> set (VisitStack s)" using tv(2) stack by blast
    ultimately show ?thesis using st low t1 fields min vs by (auto simp: visited_by_def explored_def)
  next
    case False
    then have s2: "?s2 = s1" by (simp add: leave_node_def)
    have tl: "VisitLow s1 t < VisitIndex s1 t" using False s1(1) t1 by (auto simp: search_ok_def le_less)
    have linkt: "link neighbors s1 t" using visit by (simp add: visited_by_def)
    have st: "VisitStack ?s3 = (p @ [t]) @ VisitStack s" using fields(4) s2 p(1) by simp
    have lv: "VisitLow ?s3 v = min (VisitLow s1 v) (VisitLow s1 t)" using fields(1) by simp
    have linkv: "link neighbors ?s3 v"
    proof (cases "VisitLow s1 v \<le> VisitLow s1 t")
      case True
      then show ?thesis unfolding link_def using u ui lv st fields(2) by auto
    next
      case other: False
      obtain x where "x \<in> set (VisitStack s1)" "VisitIndex s1 x = VisitLow s1 t" "(t, x) \<in> (edges neighbors)\<^sup>*"
        using linkt by (auto simp: link_def)
      then show ?thesis unfolding link_def using other lv fields(2,4) s2 edge by (auto intro!: bexI [of _ x] intro: rtrancl_trans)
    qed
    have explored: "explored ?s3 v x" if "explored s1 t x" for x
      using that lv fields s2 by (auto simp: explored_def min.coboundedI2)
    have links: "link neighbors ?s3 w" if "link neighbors s1 w" "w \<noteq> v" for w
      using that fields s2 by (auto simp: link_def)
    have "waits neighbors ?s3 v w" if w: "w \<in> set p" for w
      using p(3) w pv(1) lv fields explored links edge by (auto simp: waits_def min.coboundedI2 intro: rtrancl_trans)
    moreover have "waits neighbors ?s3 v t"
      using visit tl tv(1) lv fields explored links linkt edge by (auto simp: waits_def visited_by_def)
    moreover have "explored ?s3 v t" using t1 tl lv fields by (auto simp: explored_def min.coboundedI2)
    ultimately have "VisitStack ?s3 = (p @ [t]) @ VisitStack s \<and> set (p @ [t]) \<inter> visited s = {} \<and>
        (\<forall>w \<in> set (p @ [t]). waits neighbors ?s3 v w)" "\<forall>x \<in> {t}. explored ?s3 v x"
      using st pv(2) tv(2) by auto
    then show ?thesis unfolding visited_by_def using linkv low lv fields(1) vs by auto
  qed
qed

lemma visited_stacked:
  assumes s: "search_ok count L s" "v \<in> set (VisitStack s)" "link neighbors s v" and t: "t \<in> set (neighbors v)" "t \<in> set (VisitStack s)"
  shows "visited_by neighbors v {t} s (lower v (VisitIndex s t) s)"
proof -
  have "link neighbors (lower v (VisitIndex s t) s) v"
  proof (cases "VisitLow s v \<le> VisitIndex s t")
    case True
    then show ?thesis using s(3) by (auto simp: link_def lower_def min_def)
  next
    case False
    have "(v, t) \<in> (edges neighbors)\<^sup>*" using t(1) by (auto simp: edges_def)
    then show ?thesis using t(2) False by (auto simp: link_def lower_def min_def)
  qed
  moreover have "t \<in> visited s" using search_stack [OF s(1)] t(2) by blast
  ultimately show ?thesis by (auto simp: visited_by_def explored_def lower_def visited_def)
qed

lemma visited_grouped:
  assumes "search_ok count L s" "link neighbors s v" "t \<in> visited s" "\<not> OnStack s t"
  shows "visited_by neighbors v {t} s s"
  using assms by (auto simp: visited_by_def explored_def search_ok_def)

lemma visit_targets_deep:
  "visit_targets neighbors fuel v ts s = Some s' \<Longrightarrow> closed_neighbors count neighbors \<Longrightarrow> search_ok count L s \<Longrightarrow> set ts \<subseteq> {0..<count} \<Longrightarrow>
    deep_ok neighbors s \<Longrightarrow> v \<in> set (VisitStack s) \<Longrightarrow> link neighbors s v \<Longrightarrow> set ts \<subseteq> set (neighbors v) \<Longrightarrow>
    deep_ok neighbors s' \<and> visited_by neighbors v (set ts) s s'"
proof (induction neighbors fuel v ts s arbitrary: s' rule: visit_targets.induct)
  case (1 neighbors fuel v s)
  then show ?case by (auto simp: visited_by_def)
next
  case (2 neighbors fuel v t ts s)
  have t: "t < count" "set ts \<subseteq> {0..<count}" "t \<in> set (neighbors v)" "set ts \<subseteq> set (neighbors v)" using "2.prems"(4,8) by simp_all
  have vs: "v \<in> visited s" using search_stack [OF "2.prems"(3)] "2.prems"(6) by blast
  have tail: "deep_ok neighbors s' \<and> visited_by neighbors v (set (t # ts)) s s'"
    if "visited_by neighbors v {t} s s3" "extends s s3" "search_ok count L s3"
      "visit_targets neighbors fuel v ts s3 = Some s'"
      "deep_ok neighbors s' \<and> visited_by neighbors v (set ts) s3 s'" for s3
  proof -
    have "extends s3 s'" using visit_targets_ok [OF that(4) "2.prems"(2) that(3) t(2)] by blast
    then show ?thesis using visited_by_trans [OF that(1,2) _ _ vs search_stack [OF that(3)], of "set ts" s'] that(5) by simp
  qed
  have mid: "v \<in> set (VisitStack s3) \<and> link neighbors s3 v" if "visited_by neighbors v {t} s s3" for s3
    using that "2.prems"(6) by (auto simp: visited_by_def)
  show ?case
  proof (cases "VisitIndex s t = 0")
    case True
    then obtain n s1 where n: "fuel = Suc n" "visit_targets neighbors n t (neighbors t) (enter_node t s) = Some s1"
      using "2.prems"(1) by (auto split: nat.splits option.splits)
    let ?s2 = "leave_node t s1" let ?s3 = "lower v (VisitLow ?s2 t) ?s2"
    have rest: "visit_targets neighbors fuel v ts ?s3 = Some s'" using "2.prems"(1) True n by (simp add: Let_def)
    have nb: "set (neighbors t) \<subseteq> {0..<count}" using "2.prems"(2) t(1) by (simp add: closed_neighbors_def)
    note e = enter_ok(1) [OF "2.prems"(3) True t(1)] and d = enter_deep [OF "2.prems"(3) True "2.prems"(5)]
    have s1: "search_ok count L s1" "extends (enter_node t s) s1" using visit_targets_ok [OF n(2) "2.prems"(2) e nb] by simp_all
    have deep: "deep_ok neighbors s1" "visited_by neighbors t (set (neighbors t)) (enter_node t s) s1"
      using "2.IH"(1) [OF True n(1) n(2) "2.prems"(2) e nb d(1) _ d(2) order_refl] by (simp_all add: enter_node_def)
    note two = visit_node_ok [OF "2.prems"(3) True t(1) s1]
    have three: "visited_by neighbors v {t} s ?s3"
      by (rule visited_new [OF "2.prems"(3) True t(1) "2.prems"(5,6,7) t(3) s1(1) deep(1) s1(2) deep(2)])
    have "deep_ok neighbors ?s2" by (rule leave_deep [OF s1(1) deep]) (simp add: enter_node_def)
    then have "deep_ok neighbors s' \<and> visited_by neighbors v (set ts) ?s3 s'"
      using "2.IH"(2) [OF True n(1) n(2) refl rest "2.prems"(2) lower_ok [OF two(1,4)] t(2) _ _ _ t(4)] mid [OF three]
      by (simp add: lower_deep)
    then show ?thesis by (rule tail [OF three extends_trans [OF two(2) lower_visited(2)] lower_ok [OF two(1,4)] rest])
  next
    case seen: False
    show ?thesis
    proof (cases "OnStack s t")
      case True
      let ?s3 = "lower v (VisitIndex s t) s"
      have rest: "visit_targets neighbors fuel v ts ?s3 = Some s'" using "2.prems"(1) seen True by simp
      have ts: "t \<in> set (VisitStack s)" "L \<le> VisitIndex s t" using "2.prems"(3) True by (simp_all add: search_ok_def)
      note ok = lower_ok [OF "2.prems"(3) ts(2), of v]
      have three: "visited_by neighbors v {t} s ?s3" by (rule visited_stacked [OF "2.prems"(3,6,7) t(3) ts(1)])
      have "deep_ok neighbors s' \<and> visited_by neighbors v (set ts) ?s3 s'"
        using "2.IH"(3) [OF seen True rest "2.prems"(2) ok t(2) _ _ _ t(4)] mid [OF three] "2.prems"(5) by (simp add: lower_deep)
      then show ?thesis by (rule tail [OF three lower_visited(2) ok rest])
    next
      case False
      have rest: "visit_targets neighbors fuel v ts s = Some s'" using "2.prems"(1) seen False by simp
      have three: "visited_by neighbors v {t} s s"
        by (rule visited_grouped [OF "2.prems"(3,7) _ False]) (use seen in \<open>simp add: visited_def\<close>)
      from "2.IH"(4) [OF seen False rest "2.prems"(2,3) t(2) "2.prems"(5,6,7) t(4)] show ?thesis
        by (rule tail [OF three extends_refl "2.prems"(3) rest])
    qed
  qed
qed

lemma root_deep:
  assumes ok: "search_ok count 0 s" "VisitIndex s v = 0" "v < count" "deep_ok neighbors s"
    and nb: "closed_neighbors count neighbors" and visit: "visit_targets neighbors fuel v (neighbors v) (enter_node v s) = Some s1"
  shows "deep_ok neighbors (leave_node v s1)"
proof -
  have nbv: "set (neighbors v) \<subseteq> {0..<count}" using nb ok(3) by (simp add: closed_neighbors_def)
  note e = enter_ok(1) [OF ok(1-3)] and d = enter_deep [OF ok(1,2,4)]
  have "deep_ok neighbors s1 \<and> visited_by neighbors v (set (neighbors v)) (enter_node v s) s1"
    by (rule visit_targets_deep [OF visit nb e nbv d(1) _ d(2) order_refl]) (simp add: enter_node_def)
  moreover have "search_ok count 0 s1" using visit_targets_ok [OF visit nb e nbv] by simp
  ultimately show ?thesis using leave_deep [of count 0 s1 neighbors v "enter_node v s" "VisitStack s"] by (simp add: enter_node_def)
qed

lemma search_from_deep:
  "search_from neighbors fuel vs s = Some s' \<Longrightarrow> closed_neighbors count neighbors \<Longrightarrow> search_ok count 0 s \<Longrightarrow> VisitStack s = [] \<Longrightarrow>
    set vs \<subseteq> {0..<count} \<Longrightarrow> deep_ok neighbors s \<Longrightarrow> deep_ok neighbors s'"
proof (induction vs arbitrary: s)
  case (Cons v vs)
  have v: "v < count" "set vs \<subseteq> {0..<count}" using Cons.prems(5) by simp_all
  show ?case
  proof (cases "VisitIndex s v = 0")
    case True
    then obtain s1 where s1: "visit_targets neighbors fuel v (neighbors v) (enter_node v s) = Some s1"
      "search_from neighbors fuel vs (leave_node v s1) = Some s'"
      using Cons.prems(1) by (auto split: option.splits)
    have "search_ok count 0 (leave_node v s1) \<and> VisitStack (leave_node v s1) = []"
      using root_visit [OF Cons.prems(3) True v(1) Cons.prems(4,2) s1(1)] by simp
    then show ?thesis
      using Cons.IH [OF s1(2) Cons.prems(2) _ _ v(2) root_deep [OF Cons.prems(3) True v(1) Cons.prems(6,2) s1(1)]] by simp
  next
    case False
    then show ?thesis using Cons by simp
  qed
qed simp

subsection \<open>What the components are\<close>

text \<open>Whatever is reached from the groups up to some point is in them.\<close>

definition closed_under :: "(nat \<Rightarrow> nat list) \<Rightarrow> nat set \<Rightarrow> bool" where
  "closed_under neighbors A \<longleftrightarrow> (\<forall>a \<in> A. set (neighbors a) \<subseteq> A)"

lemma groups_ok_closed:
  "groups_ok neighbors earlier gs \<Longrightarrow> closed_under neighbors earlier \<Longrightarrow> closed_under neighbors (earlier \<union> set (concat (take k gs)))"
proof (induction gs arbitrary: earlier k)
  case (Cons g gs)
  show ?case
  proof (cases k)
    case (Suc j)
    have "closed_under neighbors (earlier \<union> set g)"
      using Cons.prems by (auto simp: closed_under_def component_over_def)
    then show ?thesis using Cons.IH [of "earlier \<union> set g" j] Cons.prems(1) Suc by (simp add: Un_assoc)
  qed (use Cons.prems in simp)
qed simp

lemma closed_reach: "(a, b) \<in> (edges neighbors)\<^sup>* \<Longrightarrow> closed_under neighbors A \<Longrightarrow> a \<in> A \<Longrightarrow> b \<in> A"
  by (induction rule: rtrancl_induct) (auto simp: closed_under_def edges_def)

lemma groups_ok_nth: "groups_ok neighbors earlier gs \<Longrightarrow> g \<in> set gs \<Longrightarrow> \<exists>before. component_over neighbors before g"
  by (induction gs arbitrary: earlier) auto

definition together :: "nat list list \<Rightarrow> nat \<Rightarrow> nat \<Rightarrow> bool" where
  "together groups a b = list_ex (\<lambda>g. a \<in> set g \<and> b \<in> set g) groups"

lemma concat_position:
  "distinct (concat gs) \<Longrightarrow> i < length gs \<Longrightarrow> j < length gs \<Longrightarrow> x \<in> set (gs ! i) \<Longrightarrow> x \<in> set (gs ! j) \<Longrightarrow> i = j"
proof (induction gs arbitrary: i j)
  case (Cons g gs)
  have "x \<notin> set g" if "k < length gs" "x \<in> set (gs ! k)" for k
    using Cons.prems(1) that by (auto simp del: nth_mem dest!: nth_mem [of k gs])
  then show ?case using Cons by (cases i; cases j) auto
qed simp

lemma together_exact:
  assumes gs: "groups_ok neighbors {} gs" "distinct (concat gs)" and a: "a \<in> set (concat gs)" "b \<in> set (concat gs)"
  shows "together gs a b \<longleftrightarrow> (a, b) \<in> (edges neighbors)\<^sup>* \<and> (b, a) \<in> (edges neighbors)\<^sup>*"
proof
  assume "together gs a b"
  then show "(a, b) \<in> (edges neighbors)\<^sup>* \<and> (b, a) \<in> (edges neighbors)\<^sup>*"
    using groups_ok_nth [OF gs(1)] by (fastforce simp: together_def list_ex_iff component_over_def)
next
  assume reach: "(a, b) \<in> (edges neighbors)\<^sup>* \<and> (b, a) \<in> (edges neighbors)\<^sup>*"
  have position: "x \<in> set (concat gs) \<Longrightarrow> \<exists>i < length gs. x \<in> set (gs ! i)" for x
    by (metis UN_E in_set_conv_nth set_concat)
  obtain i where i: "i < length gs" "a \<in> set (gs ! i)" using position [OF a(1)] by blast
  obtain j where j: "j < length gs" "b \<in> set (gs ! j)" using position [OF a(2)] by blast
  have closed: "closed_under neighbors (set (concat (take k gs)))" for k
    using groups_ok_closed [OF gs(1), of k] by (simp add: closed_under_def)
  have before: "n \<le> m" if "n < length gs" "m < length gs" "x \<in> set (gs ! n)" "y \<in> set (gs ! m)" "(y, x) \<in> (edges neighbors)\<^sup>*"
    for n m x y
  proof -
    have "y \<in> set (concat (take (Suc m) gs))" using that(2,4) by (auto simp: take_Suc_conv_app_nth)
    then have "x \<in> set (concat (take (Suc m) gs))" by (rule closed_reach [OF that(5) closed])
    then obtain g where "g \<in> set (take (Suc m) gs)" "x \<in> set g" by auto
    then have "\<exists>l \<le> m. x \<in> set (gs ! l)" using that(2) by (fastforce simp: set_conv_nth [of "take _ _"] less_Suc_eq_le)
    then obtain l where l: "l \<le> m" "x \<in> set (gs ! l)" by blast
    have "l = n" by (rule concat_position [OF gs(2) _ that(1) l(2) that(3)]) (use l(1) that(2) in simp)
    then show ?thesis using l(1) by simp
  qed
  have "i = j" using before [OF i(1) j(1) i(2) j(2)] before [OF j(1) i(1) j(2) i(2)] reach by simp
  then show "together gs a b" using i j by (auto simp: together_def list_ex_iff)
qed

lemma components_found:
  assumes "closed_neighbors count neighbors"
  obtains s where "dependencyComponents count neighbors = Groups s" "search_ok count 0 s" "VisitStack s = []"
    "visited s = {0..<count}" "deep_ok neighbors s"
proof -
  have ok: "search_ok count 0 start_search" by (simp add: search_ok_def start_search_def visited_def)
  obtain s where s: "search_from neighbors count [0..<count] start_search = Some s" "search_ok count 0 s" "VisitStack s = []"
    "set [0..<count] \<subseteq> visited s"
    using search_from_ok [OF assms ok, of "[0..<count]"] by (auto simp: start_search_def)
  have "deep_ok neighbors s"
    by (rule search_from_deep [OF s(1) assms ok]) (simp_all add: start_search_def deep_ok_def)
  moreover have "visited s = {0..<count}" using s(2,4) by (auto simp: search_ok_def)
  ultimately show thesis using that [of s] s by (simp add: dependencyComponents_def)
qed

lemma components_partition:
  "closed_neighbors count neighbors \<Longrightarrow> distinct (concat (dependencyComponents count neighbors)) \<and>
    set (concat (dependencyComponents count neighbors)) = {0..<count} \<and> [] \<notin> set (dependencyComponents count neighbors)"
  by (rule components_found) (auto simp: search_ok_def)

lemma components_groups: "closed_neighbors count neighbors \<Longrightarrow> groups_ok neighbors {} (dependencyComponents count neighbors)"
  by (rule components_found) (auto simp: deep_ok_def)

lemma dependencyComponents_spec:
  assumes nb: "closed_neighbors count neighbors"
  shows "distinct (concat (dependencyComponents count neighbors)) \<and>
    set (concat (dependencyComponents count neighbors)) = {0..<count} \<and> [] \<notin> set (dependencyComponents count neighbors) \<and>
    (\<forall>a < count. \<forall>b < count. together (dependencyComponents count neighbors) a b \<longleftrightarrow>
       (a, b) \<in> (edges neighbors)\<^sup>* \<and> (b, a) \<in> (edges neighbors)\<^sup>*) \<and>
    (\<forall>k. closed_under neighbors (set (concat (take k (dependencyComponents count neighbors)))))"
  using components_partition [OF nb] together_exact [OF components_groups [OF nb]]
    groups_ok_closed [OF components_groups [OF nb]] by (simp add: closed_under_def)

text \<open>C36: the search ends with every node in exactly one non-empty component; two nodes share a component exactly when each
  reaches the other; and an edge leads into its own component or one before it, so dependencies come first.\<close>

theorem dependencyComponents_exact:
  assumes nb: "closed_neighbors count neighbors"
  shows "distinct (concat (dependencyComponents count neighbors)) \<and>
    set (concat (dependencyComponents count neighbors)) = {0..<count} \<and> [] \<notin> set (dependencyComponents count neighbors) \<and>
    (\<forall>a < count. \<forall>b < count. together (dependencyComponents count neighbors) a b \<longleftrightarrow>
       (a, b) \<in> (edges neighbors)\<^sup>* \<and> (b, a) \<in> (edges neighbors)\<^sup>*) \<and>
    (\<forall>k. closed_under neighbors (set (concat (take k (dependencyComponents count neighbors)))))"
  by (rule dependencyComponents_spec [OF nb])

theorem dependencyComponents_exact_witness:
  "dependencyComponents 3 (\<lambda>v. if v = 0 then [1] else if v = 1 then [0] else []) = [[1, 0], [2]] \<and>
   \<not> ((0, 2) \<in> (edges (\<lambda>v. if v = 0 then [1] else if v = 1 then [0] else []))\<^sup>* \<and>
      (2, 0) \<in> (edges (\<lambda>v. if v = 0 then [1] else if v = 1 then [0] else []))\<^sup>*)"
proof -
  let ?nb = "\<lambda>v. if v = 0 then [1] else if v = 1 then [0] else [] :: nat list"
  have "closed_neighbors 3 ?nb" by (auto simp: closed_neighbors_def)
  from dependencyComponents_exact [OF this]
  have "\<forall>a < 3. \<forall>b < 3. together (dependencyComponents 3 ?nb) a b \<longleftrightarrow> (a, b) \<in> (edges ?nb)\<^sup>* \<and> (b, a) \<in> (edges ?nb)\<^sup>*" by blast
  then have "together (dependencyComponents 3 ?nb) 0 2 \<longleftrightarrow> (0, 2) \<in> (edges ?nb)\<^sup>* \<and> (2, 0) \<in> (edges ?nb)\<^sup>*" by simp
  moreover have "dependencyComponents 3 ?nb = [[1, 0], [2]]" by code_simp
  ultimately show ?thesis by (simp add: together_def)
qed

end
