(* ===== verification/Order_After.thy ===== *)
theory Order_After
  imports Component_Search
begin

text \<open>
  The order in which roots are indexed (\<open>indexer/sibling_order.go\<close>): after what they must follow, and where that leaves a
  choice after what they should follow.
\<close>

subsection \<open>Ordering\<close>

definition neighbor_positions :: "nat list \<Rightarrow> (nat \<Rightarrow> nat \<Rightarrow> bool) \<Rightarrow> nat \<Rightarrow> nat list" where
  "neighbor_positions nodes should p = filter (\<lambda>q. q \<noteq> p \<and> should (nodes ! p) (nodes ! q)) [0..<length nodes]"

definition leaves_component :: "nat list \<Rightarrow> (nat \<Rightarrow> nat \<Rightarrow> bool) \<Rightarrow> nat list \<Rightarrow> bool" where
  "leaves_component nodes should component = list_ex (\<lambda>p. list_ex (\<lambda>q. q \<notin> set component) (neighbor_positions nodes should p)) component"

definition sinkComponents :: "nat list \<Rightarrow> (nat \<Rightarrow> nat \<Rightarrow> bool) \<Rightarrow> nat set" where
  "sinkComponents nodes should =
     set (concat (map (map ((!) nodes)) (filter (\<lambda>c. \<not> leaves_component nodes should c)
       (dependencyComponents (length nodes) (neighbor_positions nodes should)))))"

definition follows :: "nat list \<Rightarrow> (nat \<Rightarrow> nat \<Rightarrow> bool) \<Rightarrow> nat \<Rightarrow> bool" where
  "follows remaining rule node = list_ex (\<lambda>other. other \<noteq> node \<and> rule node other) remaining"

definition order_next :: "(nat \<Rightarrow> nat \<Rightarrow> bool) \<Rightarrow> (nat \<Rightarrow> nat \<Rightarrow> bool) \<Rightarrow> nat list \<Rightarrow> nat option" where
  "order_next must should remaining =
     (case index_of (\<lambda>n. \<not> follows remaining must n \<and> \<not> follows remaining should n) remaining of
        Some i \<Rightarrow> Some i
      | None \<Rightarrow>
          (let sink = sinkComponents remaining should in
           case index_of (\<lambda>n. n \<in> sink \<and> \<not> follows remaining must n) remaining of
             Some i \<Rightarrow> Some i
           | None \<Rightarrow> index_of (\<lambda>n. \<not> follows remaining must n) remaining))"

datatype order_error = MustCyclic "nat list"

lemma order_next_bound: "order_next must should remaining = Some i \<Longrightarrow> i < length remaining \<and> \<not> follows remaining must (remaining ! i)"
  by (auto simp: order_next_def Let_def split: option.splits dest!: index_of_SomeD)

function order_loop :: "(nat \<Rightarrow> nat \<Rightarrow> bool) \<Rightarrow> (nat \<Rightarrow> nat \<Rightarrow> bool) \<Rightarrow> nat list \<Rightarrow> (order_error, nat list) outcome" where
  "order_loop must should remaining =
     (if remaining = [] then Inr []
      else case order_next must should remaining of
        None \<Rightarrow> Inl (MustCyclic remaining)
      | Some i \<Rightarrow> and_then (order_loop must should (delete_at i remaining)) (\<lambda>rest. Inr (remaining ! i # rest)))"
  by pat_completeness auto

termination by (relation "measure (\<lambda>(_, _, remaining). length remaining)") (use order_next_bound in fastforce)+

declare order_loop.simps [simp del]

definition orderAfter :: "nat \<Rightarrow> (nat \<Rightarrow> nat \<Rightarrow> bool) \<Rightarrow> (nat \<Rightarrow> nat \<Rightarrow> bool) \<Rightarrow> (order_error, nat list) outcome" where
  "orderAfter count must should = order_loop must should [0..<count]"

subsection \<open>The order\<close>

definition rule_on :: "nat set \<Rightarrow> (nat \<Rightarrow> nat \<Rightarrow> bool) \<Rightarrow> (nat \<times> nat) set" where
  "rule_on A rule = {(a, b). a \<in> A \<and> b \<in> A \<and> a \<noteq> b \<and> rule a b}"

text \<open>No node comes before one it follows.\<close>

definition ordered_by :: "(nat \<Rightarrow> nat \<Rightarrow> bool) \<Rightarrow> nat list \<Rightarrow> bool" where
  "ordered_by rule xs \<longleftrightarrow> sorted_wrt (\<lambda>a b. \<not> rule a b) xs"

lemma acyclic_rule_last:
  assumes "acyclic (rule_on A rule)" "xs \<noteq> []" "set xs \<subseteq> A" "finite A"
  obtains x where "x \<in> set xs" "\<not> follows xs rule x"
proof -
  have "finite (rule_on A rule)" by (rule finite_subset [of _ "A \<times> A"]) (use assms(4) in \<open>auto simp: rule_on_def\<close>)
  then have "wf ((rule_on A rule)\<inverse>)" using assms(1) by (rule finite_acyclic_wf_converse)
  then obtain x where x: "x \<in> set xs" "\<And>y. (y, x) \<in> (rule_on A rule)\<inverse> \<Longrightarrow> y \<notin> set xs"
    using wfE_min [of "(rule_on A rule)\<inverse>" "hd xs" "set xs"] assms(2) by (metis hd_in_set)
  then have "\<not> follows xs rule x" using assms(3) by (auto simp: follows_def list_ex_iff rule_on_def)
  then show thesis using that x(1) by blast
qed

lemma order_next_None: "order_next must should xs = None \<Longrightarrow> x \<in> set xs \<Longrightarrow> follows xs must x"
  by (auto simp: order_next_def Let_def index_of_None split: option.splits)

lemma order_next_free:
  assumes "x \<in> set xs" "\<not> follows xs must x" "\<not> follows xs should x" "order_next must should xs = Some i"
  shows "\<not> follows xs should (xs ! i)"
  using assms by (auto simp: order_next_def Let_def index_of_None split: option.splits dest!: index_of_SomeD)

lemma order_loop_result:
  "order_loop must should xs = Inr ys \<Longrightarrow> distinct xs \<Longrightarrow>
    distinct ys \<and> set ys = set xs \<and> ordered_by must ys \<and>
    (acyclic (rule_on (set xs) (\<lambda>a b. must a b \<or> should a b)) \<longrightarrow> ordered_by should ys)"
proof (induction xs arbitrary: ys rule: measure_induct_rule [of length])
  case (less xs)
  show ?case
  proof (cases "xs = []")
    case True
    then show ?thesis using less.prems by (simp add: order_loop.simps ordered_by_def)
  next
    case False
    then obtain i zs where i: "order_next must should xs = Some i" "order_loop must should (delete_at i xs) = Inr zs" "ys = xs ! i # zs"
      using less.prems(1) by (subst (asm) order_loop.simps) (auto simp: outcome_simps split: option.splits)
    note b = order_next_bound [OF i(1)]
    have d: "distinct (delete_at i xs)" "set (delete_at i xs) = set xs - {xs ! i}" "length (delete_at i xs) < length xs"
      using distinct_delete_at less.prems(2) set_delete_at_distinct [OF less.prems(2)] b by auto
    note ih = less.IH [OF d(3) i(2) d(1)]
    have x: "xs ! i \<in> set xs" using b by simp
    have must: "\<not> must (xs ! i) y" if "y \<in> set xs - {xs ! i}" for y
      using b that by (auto simp: follows_def list_ex_iff)
    have should: "\<not> should (xs ! i) y"
      if ac: "acyclic (rule_on (set xs) (\<lambda>a b. must a b \<or> should a b))" and y: "y \<in> set xs - {xs ! i}" for y
    proof -
      obtain z where "z \<in> set xs" "\<not> follows xs (\<lambda>a b. must a b \<or> should a b) z"
        using acyclic_rule_last [OF ac False] by auto
      then have "\<not> follows xs should (xs ! i)" by (intro order_next_free [OF _ _ _ i(1)]) (auto simp: follows_def list_ex_iff)
      then show ?thesis using y by (auto simp: follows_def list_ex_iff)
    qed
    have sub: "acyclic (rule_on (set zs) (\<lambda>a b. must a b \<or> should a b))"
      if "acyclic (rule_on (set xs) (\<lambda>a b. must a b \<or> should a b))"
      by (rule acyclic_subset [OF that]) (use ih d(2) in \<open>auto simp: rule_on_def\<close>)
    show ?thesis using ih d(2) x must should sub i(3) by (auto simp: ordered_by_def)
  qed
qed

lemma order_loop_total:
  "acyclic (rule_on (set xs) must) \<Longrightarrow> distinct xs \<Longrightarrow> \<exists>ys. order_loop must should xs = Inr ys"
proof (induction xs rule: measure_induct_rule [of length])
  case (less xs)
  show ?case
  proof (cases "xs = []")
    case False
    obtain x where "x \<in> set xs" "\<not> follows xs must x" using acyclic_rule_last [OF less.prems(1) False] by auto
    then obtain i where i: "order_next must should xs = Some i" using order_next_None by (cases "order_next must should xs") blast+
    note b = order_next_bound [OF i]
    have d: "distinct (delete_at i xs)" "set (delete_at i xs) = set xs - {xs ! i}" "length (delete_at i xs) < length xs"
      using distinct_delete_at less.prems(2) set_delete_at_distinct [OF less.prems(2)] b by auto
    have "acyclic (rule_on (set (delete_at i xs)) must)"
      by (rule acyclic_subset [OF less.prems(1)]) (use d(2) in \<open>auto simp: rule_on_def\<close>)
    then obtain ys where "order_loop must should (delete_at i xs) = Inr ys" using less.IH [OF d(3)] d(1) by blast
    then show ?thesis using False i by (subst order_loop.simps) simp
  qed (simp add: order_loop.simps)
qed

lemma ordered_acyclic: "distinct xs \<Longrightarrow> ordered_by rule xs \<Longrightarrow> acyclic (rule_on (set xs) rule)"
proof (induction xs)
  case (Cons x xs)
  have "rule_on (set (x # xs)) rule \<subseteq> insert_edges \<union> rule_on (set xs) rule"
    if "insert_edges = {(a, x) | a. a \<in> set xs}" for insert_edges
    using that Cons.prems by (auto simp: rule_on_def ordered_by_def)
  moreover have "acyclic ({(a, x) | a. a \<in> set xs} \<union> rule_on (set xs) rule)"
  proof (rule acyclicI, rule allI, rule notI)
    fix v assume v: "(v, v) \<in> ({(a, x) | a. a \<in> set xs} \<union> rule_on (set xs) rule)\<^sup>+"
    let ?R = "{(a, x) | a. a \<in> set xs} \<union> rule_on (set xs) rule"
    have no: "(x, b) \<notin> ?R\<^sup>+" for b using Cons.prems(1) by (auto simp: rule_on_def dest: tranclD)
    have "(a, b) \<in> ?R\<^sup>+ \<Longrightarrow> b = x \<or> (a, b) \<in> (rule_on (set xs) rule)\<^sup>+" for a b
    proof (induction rule: trancl_induct)
      case (step y z)
      then show ?case using no [of z] by (auto intro: trancl_into_trancl)
    qed auto
    from this [OF v] show False using no v Cons by (auto simp: acyclic_def ordered_by_def)
  qed
  ultimately show ?case by (auto intro: acyclic_subset)
qed (simp add: rule_on_def acyclic_def)

lemma order_result:
  "orderAfter count must should = Inr ys \<Longrightarrow> distinct ys \<and> set ys = {0..<count} \<and> ordered_by must ys \<and>
    (acyclic (rule_on {0..<count} (\<lambda>a b. must a b \<or> should a b)) \<longrightarrow> ordered_by should ys)"
  using order_loop_result [of must should "[0..<count]" ys] by (simp add: orderAfter_def)

lemma order_succeeds: "acyclic (rule_on {0..<count} must) \<Longrightarrow> \<exists>ys. orderAfter count must should = Inr ys"
  using order_loop_total [of "[0..<count]" must should] by (simp add: orderAfter_def)

text \<open>C37: the nodes are ordered after what they must follow whenever that is possible, and the call panics exactly when
  it is not; where nothing is cyclic they also come after what they should follow.\<close>

theorem orderAfter_exact:
  "(\<forall>ys. orderAfter count must should = Inr ys \<longrightarrow>
      distinct ys \<and> set ys = {0..<count} \<and> ordered_by must ys \<and>
      (acyclic (rule_on {0..<count} (\<lambda>a b. must a b \<or> should a b)) \<longrightarrow> ordered_by should ys)) \<and>
   ((\<exists>ys. orderAfter count must should = Inr ys) \<longleftrightarrow> acyclic (rule_on {0..<count} must))"
proof (intro conjI)
  show "\<forall>ys. orderAfter count must should = Inr ys \<longrightarrow>
      distinct ys \<and> set ys = {0..<count} \<and> ordered_by must ys \<and>
      (acyclic (rule_on {0..<count} (\<lambda>a b. must a b \<or> should a b)) \<longrightarrow> ordered_by should ys)"
    using order_result by blast
  show "(\<exists>ys. orderAfter count must should = Inr ys) \<longleftrightarrow> acyclic (rule_on {0..<count} must)"
  proof
    assume "\<exists>ys. orderAfter count must should = Inr ys"
    then obtain ys where "distinct ys" "set ys = {0..<count}" "ordered_by must ys" using order_result by blast
    then show "acyclic (rule_on {0..<count} must)" using ordered_acyclic [of ys must] by simp
  qed (rule order_succeeds)
qed

theorem orderAfter_exact_witness:
  "orderAfter 3 (\<lambda>a b. a = 0 \<and> b = 2) (\<lambda>a b. a = 2 \<and> b = 1) = Inr [1, 2, 0] \<and> ordered_by (\<lambda>a b. a = 0 \<and> b = 2) [1, 2, 0]"
proof -
  have r: "orderAfter 3 (\<lambda>a b. a = 0 \<and> b = 2) (\<lambda>a b. a = 2 \<and> b = 1) = Inr [1, 2, 0]" by code_simp
  then show ?thesis using orderAfter_exact [of 3 "\<lambda>a b. a = 0 \<and> b = 2" "\<lambda>a b. a = 2 \<and> b = 1"] by blast
qed


subsection \<open>Where a cycle is broken\<close>

lemma neighbor_positions_closed: "closed_neighbors (length nodes) (neighbor_positions nodes should)"
  by (auto simp: closed_neighbors_def neighbor_positions_def)

lemma position_edge:
  "distinct nodes \<Longrightarrow> p < length nodes \<Longrightarrow> (p, q) \<in> edges (neighbor_positions nodes should) \<longleftrightarrow>
     q < length nodes \<and> (nodes ! p, nodes ! q) \<in> rule_on (set nodes) should"
  by (auto simp: edges_def neighbor_positions_def rule_on_def nth_eq_iff_index_eq)

lemma position_reach:
  assumes "distinct nodes" "p < length nodes"
  shows "(p, q) \<in> (edges (neighbor_positions nodes should))\<^sup>* \<longleftrightarrow>
     q < length nodes \<and> (nodes ! p, nodes ! q) \<in> (rule_on (set nodes) should)\<^sup>*"
proof
  assume "(p, q) \<in> (edges (neighbor_positions nodes should))\<^sup>*"
  then show "q < length nodes \<and> (nodes ! p, nodes ! q) \<in> (rule_on (set nodes) should)\<^sup>*"
  proof (induction rule: rtrancl_induct)
    case (step q r)
    then show ?case using position_edge [OF assms(1), of q r should] by (auto intro: rtrancl_into_rtrancl)
  qed (use assms in simp)
next
  assume q: "q < length nodes \<and> (nodes ! p, nodes ! q) \<in> (rule_on (set nodes) should)\<^sup>*"
  have "(nodes ! p, b) \<in> (rule_on (set nodes) should)\<^sup>* \<Longrightarrow> \<forall>r < length nodes. nodes ! r = b \<longrightarrow> (p, r) \<in> (edges (neighbor_positions nodes should))\<^sup>*" for b
  proof (induction rule: rtrancl_induct)
    case base
    then show ?case using assms by (auto simp: nth_eq_iff_index_eq)
  next
    case (step b c)
    then obtain k where k: "k < length nodes" "nodes ! k = b" by (auto simp: rule_on_def in_set_conv_nth)
    then have pk: "(p, k) \<in> (edges (neighbor_positions nodes should))\<^sup>*" using step.IH by blast
    have "(k, r) \<in> edges (neighbor_positions nodes should)" if "r < length nodes" "nodes ! r = c" for r
      using position_edge [OF assms(1) k(1), of r should] step.hyps(2) k(2) that by simp
    then show ?case using rtrancl_into_rtrancl [OF pk] by blast
  qed
  then show "(p, q) \<in> (edges (neighbor_positions nodes should))\<^sup>*" using q by blast
qed

lemma sink_position:
  assumes "p < length nodes"
  shows "(\<exists>c \<in> set (dependencyComponents (length nodes) (neighbor_positions nodes should)). p \<in> set c \<and> \<not> leaves_component nodes should c) \<longleftrightarrow>
    (\<forall>q. (p, q) \<in> (edges (neighbor_positions nodes should))\<^sup>* \<longrightarrow> (q, p) \<in> (edges (neighbor_positions nodes should))\<^sup>*)"
    (is "?sink \<longleftrightarrow> ?mutual")
proof -
  let ?nb = "neighbor_positions nodes should" let ?cs = "dependencyComponents (length nodes) ?nb"
  note spec = dependencyComponents_spec [OF neighbor_positions_closed [of nodes should]]
  have nodes_all: "set (concat ?cs) = {0..<length nodes}" using spec by blast
  have shared: "together ?cs a b \<longleftrightarrow> (a, b) \<in> (edges ?nb)\<^sup>* \<and> (b, a) \<in> (edges ?nb)\<^sup>*" if "a < length nodes" "b < length nodes" for a b
    using spec that by blast
  have range: "q < length nodes" if "(a, q) \<in> (edges ?nb)\<^sup>*" "a < length nodes" for a q
    using that by (induction rule: rtrancl_induct) (auto simp: edges_def neighbor_positions_def)
  have member: "q \<in> set c" if c: "c \<in> set ?cs" "p \<in> set c" "together ?cs p q" for c q
  proof -
    obtain d where d: "d \<in> set ?cs" "p \<in> set d" "q \<in> set d" using c(3) by (auto simp: together_def list_ex_iff)
    have "c = d" using spec c(1,2) d(1,2) by (auto simp: distinct_concat_iff)
    then show ?thesis using d(3) by simp
  qed
  show ?thesis
  proof
    assume ?sink
    then obtain c where c: "c \<in> set ?cs" "p \<in> set c" "\<not> leaves_component nodes should c" by blast
    have "closed_under ?nb (set c)" using c(3) by (auto simp: leaves_component_def list_ex_iff closed_under_def)
    show ?mutual
    proof (intro allI impI)
      fix q assume q: "(p, q) \<in> (edges ?nb)\<^sup>*"
      have "q \<in> set c" by (rule closed_reach [OF q \<open>closed_under ?nb (set c)\<close> c(2)])
      then have "together ?cs p q" using c(1,2) by (auto simp: together_def list_ex_iff)
      then show "(q, p) \<in> (edges ?nb)\<^sup>*" using shared [OF assms range [OF q assms]] by blast
    qed
  next
    assume m: ?mutual
    have "p \<in> set (concat ?cs)" using spec assms by simp
    then obtain c where c: "c \<in> set ?cs" "p \<in> set c" by auto
    have "q \<in> set c" if a: "a \<in> set c" "q \<in> set (?nb a)" for a q
    proof -
      have "a \<in> set (concat ?cs)" using c(1) a(1) by auto
      then have al: "a < length nodes" using nodes_all by (simp del: set_concat)
      have "together ?cs p a" using c a(1) by (auto simp: together_def list_ex_iff)
      then have "(p, a) \<in> (edges ?nb)\<^sup>*" using shared [OF assms al] by simp
      then have "(p, q) \<in> (edges ?nb)\<^sup>*" using a(2) by (auto simp: edges_def intro: rtrancl_into_rtrancl)
      then have "together ?cs p q" using m shared [OF assms range [OF _ assms]] by blast
      then show ?thesis by (rule member [OF c])
    qed
    then show ?sink using c by (auto simp: leaves_component_def list_ex_iff)
  qed
qed



end
