(* ===== verification/Dependency_Graph.thy ===== *)
theory Dependency_Graph
  imports Order_After Go_Strings
begin

text \<open>
  The graph of modules that depend on each other through local directories (\<open>indexer/dependency_graph.go\<close>,
  \<open>siblingEdges\<close> and \<open>siblingOrder\<close> of \<open>indexer/sibling_order.go\<close>): its discovery, which adds a root for every directory a
  dependency names, its groups and their order. Resolving a path, reading a module and finding the siblings a module
  imports are arguments; a root and a dependency keep the fields read here.
  The discovery is bounded by fuel; \<open>discover_terminates\<close> gives a bound for a finite set of directories.
\<close>

text \<open>Why a dependency is not resolved: what reading the dependencies recorded, or the directory that could not be
  resolved and the error, from which the source formats a sentence.\<close>

datatype unresolved_reason =
  Recorded gostring
| DirectoryUnresolved gostring gostring

record dependency =
  DepLocalDir :: gostring
  DepUnresolved :: unresolved_reason

record graph_root =
  RootPath :: gostring
  RootDependencies :: "dependency list"

record local_graph =
  GraphRoots :: "graph_root list"
  ByPath :: "gostring \<rightharpoonup> nat"
  GraphGroups :: "nat list list"

datatype graph_error =
  RootUnread gostring gostring
| SiblingsUnread gostring
| OrderPanic order_error

subsection \<open>Discovery\<close>

definition index_paths :: "graph_root list \<Rightarrow> gostring \<rightharpoonup> nat" where
  "index_paths roots = fold (\<lambda>(i, r) m. m(RootPath r \<mapsto> i)) (enumerate 0 roots) Map.empty"

definition add_root :: "gostring \<Rightarrow> graph_root \<Rightarrow> local_graph \<Rightarrow> local_graph" where
  "add_root path r g = g\<lparr> ByPath := (ByPath g)(path \<mapsto> length (GraphRoots g)), GraphRoots := GraphRoots g @ [r] \<rparr>"

definition resolve_dependency :: "(gostring \<Rightarrow> (gostring, gostring) outcome) \<Rightarrow> (gostring \<Rightarrow> (graph_error, graph_root) outcome)
    \<Rightarrow> dependency \<Rightarrow> local_graph \<Rightarrow> (graph_error, dependency \<times> local_graph) outcome" where
  "resolve_dependency evalSymlinks localRoot d g =
     (if DepLocalDir d = [] then Inr (d, g)
      else case evalSymlinks (DepLocalDir d) of
        Inl e \<Rightarrow> Inr (d\<lparr> DepUnresolved := DirectoryUnresolved (DepLocalDir d) e \<rparr>, g)
      | Inr path \<Rightarrow>
          let d' = d\<lparr> DepLocalDir := path \<rparr> in
          if ByPath g path \<noteq> None then Inr (d', g)
          else and_then (localRoot path) (\<lambda>r. Inr (d', add_root path r g)))"

fun resolve_dependencies :: "(gostring \<Rightarrow> (gostring, gostring) outcome) \<Rightarrow> (gostring \<Rightarrow> (graph_error, graph_root) outcome)
    \<Rightarrow> dependency list \<Rightarrow> local_graph \<Rightarrow> (graph_error, dependency list \<times> local_graph) outcome" where
  "resolve_dependencies evalSymlinks localRoot [] g = Inr ([], g)"
| "resolve_dependencies evalSymlinks localRoot (d # ds) g =
     and_then (resolve_dependency evalSymlinks localRoot d g) (\<lambda>(d', g).
     and_then (resolve_dependencies evalSymlinks localRoot ds g) (\<lambda>(ds', g). Inr (d' # ds', g)))"

definition set_dependencies :: "nat \<Rightarrow> dependency list \<Rightarrow> local_graph \<Rightarrow> local_graph" where
  "set_dependencies i ds g = g\<lparr> GraphRoots := (GraphRoots g)[i := (GraphRoots g ! i)\<lparr> RootDependencies := ds \<rparr>] \<rparr>"

fun discover_from :: "(gostring \<Rightarrow> (gostring, gostring) outcome) \<Rightarrow> (gostring \<Rightarrow> (graph_error, graph_root) outcome)
    \<Rightarrow> nat \<Rightarrow> nat \<Rightarrow> local_graph \<Rightarrow> (graph_error, local_graph) outcome option" where
  "discover_from evalSymlinks localRoot fuel i g =
     (if length (GraphRoots g) \<le> i then Some (Inr g)
      else case fuel of
        0 \<Rightarrow> None
      | Suc n \<Rightarrow>
          (case resolve_dependencies evalSymlinks localRoot (RootDependencies (GraphRoots g ! i)) g of
             Inl e \<Rightarrow> Some (Inl e)
           | Inr (ds, g') \<Rightarrow> discover_from evalSymlinks localRoot n (Suc i) (set_dependencies i ds g')))"

declare discover_from.simps [simp del]

subsection \<open>Groups\<close>

definition dependencyTargets :: "local_graph \<Rightarrow> nat \<Rightarrow> nat list" where
  "dependencyTargets g node = List.map_filter (\<lambda>d. ByPath g (DepLocalDir d)) (RootDependencies (GraphRoots g ! node))"

definition graph_components :: "local_graph \<Rightarrow> nat list list" where
  "graph_components g = dependencyComponents (length (GraphRoots g)) (dependencyTargets g)"

definition cyclic_graph :: "local_graph \<Rightarrow> bool" where
  "cyclic_graph g =
     list_ex (\<lambda>group. 1 < length group \<or>
       list_ex (\<lambda>d. DepLocalDir d = RootPath (GraphRoots g ! hd group)) (RootDependencies (GraphRoots g ! hd group))) (GraphGroups g)"

text \<open>The other roots among the locations of the siblings each root imports, root by root.\<close>

definition sibling_targets :: "(gostring \<rightharpoonup> nat) \<Rightarrow> nat \<Rightarrow> gostring list \<Rightarrow> nat set" where
  "sibling_targets byLocation i locations = set (filter (\<lambda>t. t \<noteq> i) (List.map_filter byLocation locations))"

fun sibling_edges :: "(graph_root \<Rightarrow> (graph_error, gostring list) outcome) \<Rightarrow> (gostring \<rightharpoonup> nat) \<Rightarrow> nat \<Rightarrow> graph_root list
    \<Rightarrow> (graph_error, nat set list) outcome" where
  "sibling_edges locate byLocation i [] = Inr []"
| "sibling_edges locate byLocation i (r # rs) =
     and_then (locate r) (\<lambda>locations.
     and_then (sibling_edges locate byLocation (Suc i) rs) (\<lambda>es. Inr (sibling_targets byLocation i locations # es)))"

definition siblingEdges :: "graph_root list \<Rightarrow> (graph_root \<Rightarrow> (graph_error, gostring list) outcome) \<Rightarrow> (graph_error, nat set list) outcome" where
  "siblingEdges roots locate = sibling_edges locate (index_paths roots) 0 roots"

definition siblingOrder :: "graph_root list \<Rightarrow> (graph_root \<Rightarrow> (graph_error, gostring list) outcome) \<Rightarrow> bool \<Rightarrow> (graph_error, nat list) outcome" where
  "siblingOrder roots locate force =
     (let order = (\<lambda>should. case orderAfter (length roots) (\<lambda>_ _. False) should of Inl e \<Rightarrow> Inl (OrderPanic e) | Inr xs \<Rightarrow> Inr xs) in
      if force then order (\<lambda>_ _. False)
      else and_then (siblingEdges roots locate) (\<lambda>imported. order (\<lambda>node other. other \<in> imported ! node)))"

definition groupOf :: "nat list list \<Rightarrow> nat \<Rightarrow> nat" where
  "groupOf groups = fold (\<lambda>(i, members) m. fold (\<lambda>v m. m(v := i)) members m) (enumerate 0 groups) (\<lambda>_. 0)"

definition linked :: "nat list list \<Rightarrow> (nat \<Rightarrow> nat set) \<Rightarrow> nat \<Rightarrow> nat \<Rightarrow> bool" where
  "linked groups targets node other = list_ex (\<lambda>member. \<exists>t \<in> targets member. groupOf groups t = other) (groups ! node)"

definition orderSiblingsFirst :: "(graph_root \<Rightarrow> (graph_error, gostring list) outcome) \<Rightarrow> local_graph \<Rightarrow> (graph_error, local_graph) outcome" where
  "orderSiblingsFirst siblingLocations g =
     and_then (siblingEdges (GraphRoots g) siblingLocations) (\<lambda>imported.
       case orderAfter (length (GraphGroups g)) (linked (GraphGroups g) (set \<circ> dependencyTargets g)) (linked (GraphGroups g) ((!) imported)) of
         Inl e \<Rightarrow> Inl (OrderPanic e)
       | Inr order \<Rightarrow> Inr (g\<lparr> GraphGroups := map ((!) (GraphGroups g)) order \<rparr>))"

definition discoverLocalDependencyGraph :: "(gostring \<Rightarrow> (gostring, gostring) outcome) \<Rightarrow> (gostring \<Rightarrow> (graph_error, graph_root) outcome)
    \<Rightarrow> (graph_root \<Rightarrow> (graph_error, gostring list) outcome) \<Rightarrow> nat \<Rightarrow> graph_root list \<Rightarrow> (graph_error, local_graph) outcome option" where
  "discoverLocalDependencyGraph evalSymlinks localRoot siblingLocations fuel roots =
     map_option (\<lambda>found. and_then found (\<lambda>g.
         let g = g\<lparr> GraphGroups := graph_components g \<rparr> in
         if \<not> cyclic_graph g then Inr g else orderSiblingsFirst siblingLocations g))
       (discover_from evalSymlinks localRoot fuel 0 \<lparr> GraphRoots = roots, ByPath = index_paths roots, GraphGroups = [] \<rparr>)"

subsection \<open>Paths name roots\<close>

definition paths_ok :: "local_graph \<Rightarrow> bool" where
  "paths_ok g \<longleftrightarrow> (\<forall>p i. ByPath g p = Some i \<longrightarrow> i < length (GraphRoots g))"

lemma index_paths_bound: "index_paths roots p = Some i \<Longrightarrow> i < length roots"
proof -
  have "fold (\<lambda>(i, r) m. m(RootPath r \<mapsto> i)) (enumerate k rs) m p = Some i \<Longrightarrow>
      (\<And>q j. m q = Some j \<Longrightarrow> j < k) \<Longrightarrow> i < k + length rs" for k rs m
  proof (induction rs arbitrary: k m)
    case (Cons r rs)
    have "j < Suc k" if "(m(RootPath r \<mapsto> k)) q = Some j" for q j
      using that Cons.prems(2) [of q j] by (auto split: if_splits)
    then have "i < Suc k + length rs" using Cons.IH [of "Suc k" "m(RootPath r \<mapsto> k)"] Cons.prems(1) by simp
    then show ?case by simp
  qed auto
  from this [of 0 roots Map.empty] show "index_paths roots p = Some i \<Longrightarrow> i < length roots" by (simp add: index_paths_def)
qed

text \<open>Resolving a dependency only adds roots, one for each new path.\<close>

definition grows :: "gostring set \<Rightarrow> local_graph \<Rightarrow> local_graph \<Rightarrow> bool" where
  "grows paths g g' \<longleftrightarrow>
     length (GraphRoots g) \<le> length (GraphRoots g') \<and> (paths_ok g \<longrightarrow> paths_ok g') \<and> dom (ByPath g) \<subseteq> dom (ByPath g') \<and>
     (finite paths \<longrightarrow> length (GraphRoots g') + card (dom (ByPath g) \<inter> paths) \<le> length (GraphRoots g) + card (dom (ByPath g') \<inter> paths))"

lemma grows_refl: "grows paths g g"
  by (simp add: grows_def)

lemma grows_trans: "grows paths a b \<Longrightarrow> grows paths b c \<Longrightarrow> grows paths a c"
  by (auto simp: grows_def)

lemma grows_add: "ByPath g path = None \<Longrightarrow> path \<in> paths \<Longrightarrow> grows paths g (add_root path r g)"
proof -
  assume a: "ByPath g path = None" "path \<in> paths"
  have "card (dom (ByPath (add_root path r g)) \<inter> paths) = Suc (card (dom (ByPath g) \<inter> paths))" if "finite paths"
  proof -
    have "dom (ByPath (add_root path r g)) \<inter> paths = insert path (dom (ByPath g) \<inter> paths)" using a by (auto simp: add_root_def)
    then show ?thesis using a(1) that by (simp add: domIff)
  qed
  then show ?thesis by (auto simp: grows_def add_root_def paths_ok_def less_SucI)
qed

lemma resolve_dependency_grows:
  assumes "\<And>p q. evalSymlinks p = Inr q \<Longrightarrow> q \<in> paths"
  shows "resolve_dependency evalSymlinks localRoot d g = Inr (d', g') \<Longrightarrow> grows paths g g'"
  using assms grows_add [of g _ paths]
  by (auto simp: resolve_dependency_def outcome_simps Let_def grows_refl split: if_splits sum.splits)

lemma resolve_dependencies_grows:
  assumes "\<And>p q. evalSymlinks p = Inr q \<Longrightarrow> q \<in> paths"
  shows "resolve_dependencies evalSymlinks localRoot ds g = Inr (ds', g') \<Longrightarrow> grows paths g g'"
proof (induction ds arbitrary: g ds')
  case (Cons d ds)
  then show ?case using resolve_dependency_grows [OF assms] by (fastforce simp: outcome_simps intro: grows_trans)
qed (simp add: grows_refl)

lemma set_dependencies_grows: "grows paths g (set_dependencies i ds g)"
  by (auto simp: grows_def set_dependencies_def paths_ok_def)

lemma discover_grows:
  assumes eval: "\<And>p q. evalSymlinks p = Inr q \<Longrightarrow> q \<in> paths"
  shows "discover_from evalSymlinks localRoot fuel i g = Some (Inr g') \<Longrightarrow> grows paths g g'"
proof (induction fuel arbitrary: i g)
  case 0
  then show ?case by (subst (asm) discover_from.simps) (auto simp: grows_refl split: if_splits)
next
  case (Suc n)
  show ?case
  proof (cases "length (GraphRoots g) \<le> i")
    case True
    then show ?thesis using Suc.prems by (subst (asm) discover_from.simps) (simp add: grows_refl)
  next
    case False
    then obtain ds g1 where "resolve_dependencies evalSymlinks localRoot (RootDependencies (GraphRoots g ! i)) g = Inr (ds, g1)"
      "discover_from evalSymlinks localRoot n (Suc i) (set_dependencies i ds g1) = Some (Inr g')"
      using Suc.prems by (subst (asm) discover_from.simps) (auto split: sum.splits prod.splits)
    then show ?thesis using resolve_dependencies_grows [OF eval] Suc.IH set_dependencies_grows by (meson grows_trans)
  qed
qed

lemma room_left:
  "l' + c \<le> l + c' \<Longrightarrow> c \<le> p \<Longrightarrow> c' \<le> p \<Longrightarrow> l + (p - c) \<le> k \<Longrightarrow> l' + (p - c') \<le> (k :: nat)"
  by arith

text \<open>C40: when the directories that dependencies resolve to are finitely many, the discovery ends: one step for each given
  root and one for each such directory are enough.\<close>

theorem discover_terminates:
  assumes "finite paths" "\<And>p q. evalSymlinks p = Inr q \<Longrightarrow> q \<in> paths" "length roots + card paths \<le> fuel"
  shows "\<exists>result. discoverLocalDependencyGraph evalSymlinks localRoot siblingLocations fuel roots = Some result"
proof -
  have "\<exists>result. discover_from evalSymlinks localRoot fuel i g = Some result"
    if "length (GraphRoots g) + (card paths - card (dom (ByPath g) \<inter> paths)) \<le> fuel + i" for fuel i g
    using that
  proof (induction fuel arbitrary: i g)
    case 0
    then show ?case by (subst discover_from.simps) simp
  next
    case (Suc n)
    show ?case
    proof (cases "resolve_dependencies evalSymlinks localRoot (RootDependencies (GraphRoots g ! i)) g")
      case (Inl e)
      then show ?thesis by (subst discover_from.simps) simp
    next
      case (Inr p)
      obtain ds g1 where p: "p = (ds, g1)" by (cases p)
      have "grows paths g (set_dependencies i ds g1)"
        using Inr p resolve_dependencies_grows [OF assms(2)] set_dependencies_grows by (meson grows_trans)
      moreover have "card (dom (ByPath h) \<inter> paths) \<le> card paths" for h :: local_graph
        by (rule card_mono [OF assms(1)]) simp
      ultimately have "length (GraphRoots (set_dependencies i ds g1)) +
          (card paths - card (dom (ByPath (set_dependencies i ds g1)) \<inter> paths)) \<le> Suc n + i"
        using Suc.prems assms(1) unfolding grows_def by (blast intro: room_left)
      then show ?thesis using Suc.IH Inr p by (subst discover_from.simps) simp
    qed
  qed
  from this [of "\<lparr> GraphRoots = roots, ByPath = index_paths roots, GraphGroups = [] \<rparr>" fuel 0] show ?thesis
    using assms(3) by (auto simp: discoverLocalDependencyGraph_def)
qed


subsection \<open>The order of the groups\<close>

lemma targets_groups [simp]: "dependencyTargets (g\<lparr> GraphGroups := gs \<rparr>) = dependencyTargets g"
  by (simp add: dependencyTargets_def fun_eq_iff)

lemma targets_closed: "paths_ok g \<Longrightarrow> closed_neighbors (length (GraphRoots g)) (dependencyTargets g)"
  by (auto simp: closed_neighbors_def dependencyTargets_def paths_ok_def List.map_filter_def)

lemma groupOf_position:
  assumes "distinct (concat groups)" "i < length groups" "x \<in> set (groups ! i)"
  shows "groupOf groups x = i"
proof -
  have inner: "fold (\<lambda>v m. m(v := k)) vs m x = (if x \<in> set vs then k else m x)" for vs k and m :: "nat \<Rightarrow> nat"
    by (induction vs arbitrary: m) auto
  have absent: "x \<notin> set (concat gs) \<Longrightarrow> fold (\<lambda>(i, members) m. fold (\<lambda>v m. m(v := i)) members m) (enumerate k gs) m x = m x" for gs k m
    by (induction gs arbitrary: k m) (auto simp: inner)
  have "distinct (concat gs) \<Longrightarrow> i < length gs \<Longrightarrow> x \<in> set (gs ! i) \<Longrightarrow>
      fold (\<lambda>(i, members) m. fold (\<lambda>v m. m(v := i)) members m) (enumerate k gs) m x = k + i" for gs k m i
  proof (induction gs arbitrary: k m i)
    case (Cons g gs)
    show ?case
    proof (cases i)
      case 0
      then have "x \<notin> set (concat gs)" "x \<in> set g" using Cons.prems by auto
      then show ?thesis using 0 absent [of gs "Suc k"] inner [of k g m] by (simp del: fun_upd_apply)
    next
      case (Suc j)
      then show ?thesis using Cons.IH [of j "Suc k"] Cons.prems by simp
    qed
  qed simp
  from this [OF assms, of 0] show ?thesis by (simp add: groupOf_def)
qed

text \<open>The groups are components, so a group depends on earlier ones alone, and the order never has a cycle to break.\<close>

lemma linked_earlier:
  assumes gs: "groups_ok nb {} gs" "distinct (concat gs)" and i: "i < length gs" and link: "linked gs (set \<circ> nb) i j"
  shows "j \<le> i"
proof -
  obtain v t where v: "v \<in> set (gs ! i)" "t \<in> set (nb v)" "groupOf gs t = j" using link by (auto simp: linked_def list_ex_iff)
  have "closed_under nb (set (concat (take (Suc i) gs)))" using groups_ok_closed [OF gs(1), of "Suc i"] by (simp add: closed_under_def)
  moreover have "v \<in> set (concat (take (Suc i) gs))" using v(1) i by (auto simp: take_Suc_conv_app_nth)
  ultimately have "t \<in> set (concat (take (Suc i) gs))" using v(2) unfolding closed_under_def by blast
  then obtain g where g: "g \<in> set (take (Suc i) gs)" "t \<in> set g" by auto
  then obtain l where l: "l < length (take (Suc i) gs)" "take (Suc i) gs ! l = g" by (meson in_set_conv_nth)
  then have "groupOf gs t = l" using groupOf_position [OF gs(2), of l t] g(2) i by simp
  then show ?thesis using v(3) l(1) by simp
qed

lemma linked_acyclic:
  assumes "groups_ok nb {} gs" "distinct (concat gs)"
  shows "acyclic (rule_on {0..<length gs} (linked gs (set \<circ> nb)))"
proof (rule acyclic_subset)
  show "acyclic (less_than\<inverse>)" by (simp add: acyclic_converse wf_acyclic)
  show "rule_on {0..<length gs} (linked gs (set \<circ> nb)) \<subseteq> less_than\<inverse>"
    using linked_earlier [OF assms] by (fastforce simp: rule_on_def)
qed

definition follows_groups :: "(nat \<Rightarrow> nat list) \<Rightarrow> nat list list \<Rightarrow> bool" where
  "follows_groups nb groups \<longleftrightarrow> sorted_wrt (\<lambda>a b. \<forall>v \<in> set a. set (nb v) \<inter> set b = {}) groups"

definition components_of :: "nat \<Rightarrow> (nat \<Rightarrow> nat list) \<Rightarrow> nat list list \<Rightarrow> bool" where
  "components_of count nb groups \<longleftrightarrow>
     distinct (concat groups) \<and> set (concat groups) = {0..<count} \<and> [] \<notin> set groups \<and>
     (\<forall>a < count. \<forall>b < count. together groups a b \<longleftrightarrow> (a, b) \<in> (edges nb)\<^sup>* \<and> (b, a) \<in> (edges nb)\<^sup>*)"

lemma groups_follow:
  assumes "groups_ok nb {} gs" "distinct (concat gs)"
  shows "follows_groups nb gs"
  unfolding follows_groups_def sorted_wrt_iff_nth_less
proof (intro allI impI ballI)
  fix i j v assume ij: "i < j" "j < length gs" and v: "v \<in> set (gs ! i)"
  show "set (nb v) \<inter> set (gs ! j) = {}"
  proof (rule ccontr)
    assume "set (nb v) \<inter> set (gs ! j) \<noteq> {}"
    then obtain t where t: "t \<in> set (nb v)" "t \<in> set (gs ! j)" by blast
    then have "linked gs (set \<circ> nb) i j" using v groupOf_position [OF assms(2) ij(2) t(2)] by (auto simp: linked_def list_ex_iff)
    then show False using linked_earlier [OF assms, of i j] ij by simp
  qed
qed

lemma permuted_groups:
  assumes gs: "distinct (concat gs)" "[] \<notin> set gs" and order: "distinct order" "set order = {0..<length gs}"
  shows "distinct (concat (map ((!) gs) order)) \<and> set (map ((!) gs) order) = set gs"
proof
  show sets: "set (map ((!) gs) order) = set gs" using order(2) by (auto simp: in_set_conv_nth)
  have member: "\<exists>x. x \<in> set (gs ! i)" if "i < length gs" for i using gs(2) that by (metis last_in_set nth_mem)
  have inj: "inj_on ((!) gs) (set order)"
  proof (rule inj_onI)
    fix i j assume ij: "i \<in> set order" "j \<in> set order" "gs ! i = gs ! j"
    then obtain x where "x \<in> set (gs ! i)" "x \<in> set (gs ! j)" using member [of i] order(2) by auto
    then show "i = j" using concat_position [OF gs(1)] ij order(2) by simp
  qed
  show "distinct (concat (map ((!) gs) order))"
  proof (rule distinct_concat)
    show "distinct (map ((!) gs) order)" using inj order(1) by (simp add: distinct_map)
    show "distinct ys" if "ys \<in> set (map ((!) gs) order)" for ys using that sets gs(1) by (auto simp: distinct_concat_iff)
    show "set ys \<inter> set zs = {}" if "ys \<in> set (map ((!) gs) order)" "zs \<in> set (map ((!) gs) order)" "ys \<noteq> zs" for ys zs
      using that sets gs(1) by (auto simp: distinct_concat_iff)
  qed
qed

lemma ordered_follow:
  assumes gs: "distinct (concat gs)" and order: "distinct order" "set order = {0..<length gs}" "ordered_by (linked gs (set \<circ> nb)) order"
  shows "follows_groups nb (map ((!) gs) order)"
  unfolding follows_groups_def sorted_wrt_map
proof (rule sorted_wrt_mono_rel [OF _ order(3) [unfolded ordered_by_def]])
  fix i j assume ij: "i \<in> set order" "j \<in> set order" "\<not> linked gs (set \<circ> nb) i j"
  show "\<forall>v \<in> set (gs ! i). set (nb v) \<inter> set (gs ! j) = {}"
  proof (intro ballI equals0I)
    fix v t assume vt: "v \<in> set (gs ! i)" "t \<in> set (nb v) \<inter> set (gs ! j)"
    then have "groupOf gs t = j" using groupOf_position [OF gs, of j t] ij(2) order(2) by simp
    then show False using vt ij(3) by (auto simp: linked_def list_ex_iff)
  qed
qed

lemma together_set: "set gs = set hs \<Longrightarrow> together gs a b = together hs a b"
  by (simp add: together_def list_ex_iff)

lemma discovered_paths:
  "discover_from evalSymlinks localRoot fuel 0 \<lparr> GraphRoots = roots, ByPath = index_paths roots, GraphGroups = [] \<rparr> = Some (Inr g) \<Longrightarrow> paths_ok g"
  using discover_grows [of evalSymlinks UNIV localRoot fuel 0] index_paths_bound [of roots]
  by (fastforce simp: grows_def paths_ok_def)

lemma order_siblings:
  assumes g: "paths_ok g" "GraphGroups g = graph_components g"
  shows "(\<forall>g'. orderSiblingsFirst siblingLocations g = Inr g' \<longrightarrow> GraphRoots g' = GraphRoots g \<and> ByPath g' = ByPath g \<and>
      components_of (length (GraphRoots g)) (dependencyTargets g) (GraphGroups g') \<and> follows_groups (dependencyTargets g) (GraphGroups g'))"
    and "\<forall>e. orderSiblingsFirst siblingLocations g = Inl (OrderPanic e) \<longrightarrow> (\<exists>r. siblingLocations r = Inl (OrderPanic e))"
proof -
  let ?gs = "GraphGroups g" and ?nb = "dependencyTargets g" and ?n = "length (GraphRoots g)"
  have closed: "closed_neighbors ?n ?nb" by (rule targets_closed [OF g(1)])
  have ok: "groups_ok ?nb {} ?gs" unfolding g(2) graph_components_def by (rule components_groups [OF closed])
  have part: "distinct (concat ?gs) \<and> set (concat ?gs) = {0..<?n} \<and> [] \<notin> set ?gs"
    unfolding g(2) graph_components_def by (rule components_partition [OF closed])
  have ac: "acyclic (rule_on {0..<length ?gs} (linked ?gs (set \<circ> ?nb)))" using linked_acyclic [OF ok] part by blast
  show "\<forall>g'. orderSiblingsFirst siblingLocations g = Inr g' \<longrightarrow> GraphRoots g' = GraphRoots g \<and> ByPath g' = ByPath g \<and>
      components_of ?n ?nb (GraphGroups g') \<and> follows_groups ?nb (GraphGroups g')"
  proof (intro allI impI)
    fix g' assume "orderSiblingsFirst siblingLocations g = Inr g'"
    then obtain imported where "(case orderAfter (length ?gs) (linked ?gs (set \<circ> ?nb)) (linked ?gs ((!) imported)) of
         Inl e \<Rightarrow> Inl (OrderPanic e) | Inr order \<Rightarrow> Inr (g\<lparr> GraphGroups := map ((!) ?gs) order \<rparr>)) = Inr g'"
      unfolding orderSiblingsFirst_def by (meson and_then_Inr)
    then obtain order where order: "orderAfter (length ?gs) (linked ?gs (set \<circ> ?nb)) (linked ?gs ((!) imported)) = Inr order"
      "g' = g\<lparr> GraphGroups := map ((!) ?gs) order \<rparr>"
      by (cases "orderAfter (length ?gs) (linked ?gs (set \<circ> ?nb)) (linked ?gs ((!) imported))") auto
    have o: "distinct order" "set order = {0..<length ?gs}" "ordered_by (linked ?gs (set \<circ> ?nb)) order"
      using order_result [OF order(1)] by simp_all
    have perm: "distinct (concat (map ((!) ?gs) order))" "set (map ((!) ?gs) order) = set ?gs"
      using permuted_groups [OF _ _ o(1,2)] part by blast+
    have "set (concat (map ((!) ?gs) order)) = set (concat ?gs)" using perm(2) by (metis set_concat)
    then have "components_of ?n ?nb (map ((!) ?gs) order)"
      unfolding components_of_def together_set [OF perm(2)]
      using part perm together_exact [OF ok] by (metis atLeastLessThan_iff le0)
    then show "GraphRoots g' = GraphRoots g \<and> ByPath g' = ByPath g \<and>
      components_of ?n ?nb (GraphGroups g') \<and> follows_groups ?nb (GraphGroups g')"
      using order(2) ordered_follow [OF _ o] part by simp
  qed
  show "\<forall>e. orderSiblingsFirst siblingLocations g = Inl (OrderPanic e) \<longrightarrow> (\<exists>r. siblingLocations r = Inl (OrderPanic e))"
  proof (intro allI impI)
    fix e assume e: "orderSiblingsFirst siblingLocations g = Inl (OrderPanic e)"
    have "sibling_edges siblingLocations m k rs = Inl (OrderPanic e) \<Longrightarrow> \<exists>r. siblingLocations r = Inl (OrderPanic e)" for m k rs
      by (induction rs arbitrary: k) (auto simp: outcome_simps)
    moreover have "\<exists>order. orderAfter (length ?gs) (linked ?gs (set \<circ> ?nb)) should = Inr order" for should
      by (rule order_succeeds [OF ac])
    ultimately show "\<exists>r. siblingLocations r = Inl (OrderPanic e)"
      using e by (fastforce simp: orderSiblingsFirst_def outcome_simps siblingEdges_def split: sum.splits)
  qed
qed


lemma dependency_panic:
  "resolve_dependencies evalSymlinks localRoot ds g = Inl (OrderPanic e) \<Longrightarrow> \<exists>p. localRoot p = Inl (OrderPanic e)"
  by (induction ds arbitrary: g)
    (auto simp: resolve_dependency_def outcome_simps Let_def split: if_splits sum.split_asm prod.split_asm)

lemma discover_panic:
  "discover_from evalSymlinks localRoot fuel i g = Some (Inl (OrderPanic e)) \<Longrightarrow> \<exists>p. localRoot p = Inl (OrderPanic e)"
proof (induction fuel arbitrary: i g)
  case 0
  then show ?case by (subst (asm) discover_from.simps) (auto split: if_splits)
next
  case (Suc n)
  then show ?case
    by (subst (asm) discover_from.simps) (auto split: if_splits sum.split_asm prod.split_asm dest: dependency_panic)
qed

text \<open>C39: the groups of a discovered graph are its strongly connected components, each after the groups its members
  depend on, also once sibling imports have reordered them, which never panics.\<close>

theorem local_graph_ordered:
  assumes "discoverLocalDependencyGraph evalSymlinks localRoot siblingLocations fuel roots = Some result"
    and "\<And>p e. localRoot p \<noteq> Inl (OrderPanic e)" "\<And>r e. siblingLocations r \<noteq> Inl (OrderPanic e)"
  shows "(\<forall>e. result \<noteq> Inl (OrderPanic e)) \<and>
    (\<forall>g. result = Inr g \<longrightarrow> components_of (length (GraphRoots g)) (dependencyTargets g) (GraphGroups g) \<and>
       follows_groups (dependencyTargets g) (GraphGroups g))"
proof -
  obtain found where found: "discover_from evalSymlinks localRoot fuel 0 \<lparr> GraphRoots = roots, ByPath = index_paths roots, GraphGroups = [] \<rparr> = Some found"
    and result: "result = and_then found (\<lambda>g. let g = g\<lparr> GraphGroups := graph_components g \<rparr> in
         if \<not> cyclic_graph g then Inr g else orderSiblingsFirst siblingLocations g)"
    using assms(1) by (auto simp: discoverLocalDependencyGraph_def)
  show ?thesis
  proof (cases found)
    case (Inl e)
    then show ?thesis using result found discover_panic assms(2) by fastforce
  next
    case (Inr h)
    define g where "g = h\<lparr> GraphGroups := graph_components h \<rparr>"
    have h: "paths_ok h" using discovered_paths found Inr by blast
    have g: "paths_ok g" "GraphGroups g = graph_components g"
      using h by (simp_all add: g_def paths_ok_def graph_components_def)
    have closed: "closed_neighbors (length (GraphRoots g)) (dependencyTargets g)" by (rule targets_closed [OF g(1)])
    note part = components_partition [OF closed] and ok = components_groups [OF closed]
    have exact: "\<forall>a < length (GraphRoots g). \<forall>b < length (GraphRoots g). together (graph_components g) a b \<longleftrightarrow>
        (a, b) \<in> (edges (dependencyTargets g))\<^sup>* \<and> (b, a) \<in> (edges (dependencyTargets g))\<^sup>*"
      using dependencyComponents_spec [OF closed] by (simp add: graph_components_def)
    have plain: "components_of (length (GraphRoots g)) (dependencyTargets g) (GraphGroups g)" "follows_groups (dependencyTargets g) (GraphGroups g)"
      unfolding g(2) components_of_def using part exact groups_follow [OF ok] by (simp_all add: graph_components_def)
    have r: "result = (if \<not> cyclic_graph g then Inr g else orderSiblingsFirst siblingLocations g)"
      using result Inr by (simp add: g_def Let_def)
    show ?thesis
    proof (cases "cyclic_graph g")
      case True
      have same: "dependencyTargets g' = dependencyTargets g" if "GraphRoots g' = GraphRoots g" "ByPath g' = ByPath g" for g'
        using that by (simp add: dependencyTargets_def fun_eq_iff)
      note o = order_siblings [OF g, of siblingLocations]
      have res: "result = orderSiblingsFirst siblingLocations g" using r True by simp
      show ?thesis
      proof (intro conjI allI impI)
        show "result \<noteq> Inl (OrderPanic e)" for e using res o(2) assms(3) by auto
        fix g' assume "result = Inr g'"
        then have g': "GraphRoots g' = GraphRoots g" "ByPath g' = ByPath g"
          "components_of (length (GraphRoots g)) (dependencyTargets g) (GraphGroups g')" "follows_groups (dependencyTargets g) (GraphGroups g')"
          using res o(1) by auto
        show "components_of (length (GraphRoots g')) (dependencyTargets g') (GraphGroups g')" "follows_groups (dependencyTargets g') (GraphGroups g')"
          unfolding same [OF g'(1,2)] g'(1) by (rule g'(3), rule g'(4))
      qed
    qed (use r plain in simp)
  qed
qed

text \<open>Two modules that depend on each other, and a third one found through a dependency.\<close>

definition sample_root :: "gostring \<Rightarrow> gostring list \<Rightarrow> graph_root" where
  "sample_root path deps = \<lparr> RootPath = path, RootDependencies = map (\<lambda>d. \<lparr> DepLocalDir = d, DepUnresolved = Recorded [] \<rparr>) deps \<rparr>"

definition sample_discovery :: "(graph_error, local_graph) outcome option" where
  "sample_discovery = discoverLocalDependencyGraph (\<lambda>p. if p \<in> {''/a'', ''/b'', ''/c''} then Inr p else Inl ''missing'')
     (\<lambda>p. Inr (sample_root p [])) (\<lambda>_. Inr []) 5
     [sample_root ''/a'' [''/b'', ''/c''], sample_root ''/b'' [''/a'']]"

lemma sample_groups: "map_option (map_sum (\<lambda>_. ()) GraphGroups) sample_discovery = Some (Inr [[2], [1, 0]])"
  by code_simp

theorem local_graph_ordered_witness: "\<exists>g. sample_discovery = Some (Inr g) \<and> follows_groups (dependencyTargets g) [[2], [1, 0]]"
proof -
  obtain r where r: "sample_discovery = Some r" "map_sum (\<lambda>_. ()) GraphGroups r = Inr [[2], [1, 0]]" using sample_groups by auto
  obtain g where g: "sample_discovery = Some (Inr g)" "GraphGroups g = [[2], [1, 0]]" using r by (cases r) auto
  show ?thesis using local_graph_ordered [OF g(1) [unfolded sample_discovery_def]] g by auto
qed

theorem discover_terminates_witness: "\<exists>result. sample_discovery = Some result"
  unfolding sample_discovery_def
  by (rule discover_terminates [of "{''/a'', ''/b'', ''/c''}"]) (simp_all add: card_insert_if split: if_splits)

text \<open>Ordering siblings alone has no dependency to respect: it never panics.\<close>

lemma never_acyclic: "acyclic (rule_on A (\<lambda>_ _. False))"
  by (simp add: rule_on_def acyclic_def)

end
