(* ===== verification/Spec2Isabelle.thy ===== *)
theory Spec2Isabelle
  imports Identifier Symbol_Handle Kind_Registry Build_Constraint Graph_Build Graph_Paths Graph_Source Graph_Fold Relationship_Collect Fingerprint Node_Walk Diff_Tree Index_Cache Selector_Facts Dependency_Graph
begin

text \<open>
  The universal intermediate representation (UIR) describes programs of several languages as a tree of nodes
  (packages, types, methods, fields, tables, endpoints) whose methods have bodies of statements. The Go code under
  \<open>src/\<close> builds such trees, names, hashes, walks and compares them, draws call graphs of them, numbers their symbols in a
  database, and answers selector queries over it. This library translates that code and proves what makes it correct.

  \<^bold>\<open>Conventions.\<close> A Go string is a HOL string of bytes. A struct is a record, an enumeration or an interface with known
  implementations a datatype, a machine integer whose width matters a word. A function that returns a value and an error
  gives a sum (\<open>outcome\<close> of \<open>Go_Prelude\<close>), and a panic is an error value too. State that a function changes is passed
  and returned. A loop that ends for a reason the text does not show has fuel, and a theorem gives the fuel that is
  enough. What is not Go code of the repository is an argument: SHA-256 and UUIDs, the Unicode tables, the Myers script
  of a third-party package, the order a map is ranged over, the file system and the database.

  \<^bold>\<open>The language.\<close> \<open>Go_Prelude\<close>, \<open>Go_Strings\<close>, \<open>Go_Quote\<close>, \<open>Go_Utf8\<close>, \<open>Go_Numbers\<close> and \<open>Go_JSON\<close> hold the pieces of Go's
  library that the code uses: \<open>strings\<close>, \<open>slices\<close>, \<open>strconv.Quote\<close> and \<open>Itoa\<close>, UTF-8 decoding, and the JSON text of
  strings, numbers, lists and maps. Their lemmas are round trips and injectivity, on which the later theories rest.

  \<^bold>\<open>Nodes and names.\<close> \<open>Identifier\<close> is \<open>identifier.go\<close>: an identifier has a language and the parts of a name; its
  identity key loses nothing, and its printed form parses back. \<open>Statement\<close> is \<open>statement.go\<close>, \<open>statement_control.go\<close>,
  \<open>statement_decl_call.go\<close> and \<open>statement_expr.go\<close>, with the signatures and direct relationships of statements.
  \<open>Node_Model\<close> is \<open>node_types.go\<close>, \<open>table.go\<close>, \<open>record.go\<close> and \<open>noderef.go\<close>: what every node answers. \<open>Uir\<close> is the
  root of a tree (\<open>uir.go\<close>): adding, merging, coalescing and grouping. \<open>Node_Walk\<close> is \<open>walk.go\<close>: the walk visits every
  node within its depth once, parents first, unless the visitor stops.

  \<^bold>\<open>Bodies.\<close> \<open>Statement_Walk\<close> is \<open>walk_stmt.go\<close>: the order in which statements are visited, and the guards each is
  reached under, which decide exactly whether an execution of the conditions reaches it. \<open>Relationship_Collect\<close> is
  \<open>relationship_collect.go\<close>, a fold over that walk.

  \<^bold>\<open>Hashes.\<close> \<open>Hasher\<close> and \<open>Hash_Statement\<close> are \<open>hash.go\<close> and \<open>hash_stmt.go\<close>: what is fed to the hash determines the
  statement, so two statements of one hash differ only where SHA-256 collides. \<open>Fingerprint_Text\<close> and \<open>Fingerprint\<close> are
  \<open>fingerprint_layers.go\<close>, \<open>fingerprint.go\<close> and \<open>fingerprint_table.go\<close>: the public, private and content layer of every
  node and how a container composes those of its members.

  \<^bold>\<open>Call graphs.\<close> \<open>Graph_Model\<close> and \<open>Graph_Build\<close> are \<open>graph/model.go\<close> and \<open>graph/build.go\<close>: a breadth-first walk
  bounded by depth and by a number of nodes, which ends with a graph that can be drawn. \<open>Graph_Source\<close> holds the
  sources it draws from (\<open>graph/relationships.go\<close>, \<open>graph/resolver.go\<close>, \<open>graph/absorb.go\<close>, \<open>graph/guards.go\<close>,
  \<open>graph/filter.go\<close>) and \<open>Graph_Source_Facts\<close> that the two directions of a source mirror each other and that absorbing
  nodes refines a quotient of the edges. \<open>Graph_Fold\<close> is \<open>graph/fold.go\<close> and \<open>Graph_Paths\<close> is \<open>graph/paths.go\<close>: shortest walks.

  \<^bold>\<open>Comparison.\<close> \<open>Diff_Model\<close>, \<open>Diff_Statement\<close>, \<open>Diff_Sequence\<close>, \<open>Diff_Node\<close>, \<open>Diff_Facts\<close> and \<open>Diff_Tree\<close> are
  \<open>diff/diff.go\<close> and \<open>diff/members.go\<close>: the edit script of two bodies, the pairing of members, the columns that moved,
  the changes of two nodes and of two documents. The theorems say that a diff never panics on a well-formed tree,
  accounts for every statement and node of both sides, reports least moves, and does not depend on the order of maps.

  \<^bold>\<open>Storage.\<close> \<open>Symbol_Handle\<close> is \<open>storage/symbolhandle/handle.go\<close>, at machine width: packing, unpacking and the ranges
  of handles. \<open>Kind_Registry\<close> is \<open>storage/symbolhandle/kind.go\<close>. \<open>Search_Name\<close> is \<open>storage/search_name.go\<close>: the
  search spelling of a name, and the upper bound of a prefix scan.

  \<^bold>\<open>Queries.\<close> \<open>LRU_Cache\<close> (\<open>query/lru.go\<close>), \<open>Symbol_Facts\<close> and \<open>Index_Cache\<close> (\<open>query/index_cache.go\<close>) are what a
  pipeline keeps between queries; a cached query gives what an uncached one would. \<open>Selector_Glob\<close>
  (\<open>query/selector_glob.go\<close>, \<open>query/query.go\<close>), \<open>Selector_Ranges\<close> (\<open>query/selector_ranges.go\<close>) and
  \<open>Selector_Candidates\<close> (\<open>query/compact_selector.go\<close>, \<open>query/scope_predicate.go\<close>) parse a selector, compile its globs
  and find the rows it selects through ranges of handles; \<open>Selector_Facts\<close> proves that these are the rows it denotes.

  \<^bold>\<open>Indexing order.\<close> \<open>Component_Search\<close> (\<open>indexer/graph_components.go\<close>), \<open>Order_After\<close> (\<open>indexer/sibling_order.go\<close>) and
  \<open>Dependency_Graph\<close> (\<open>indexer/dependency_graph.go\<close>): strongly connected components, an order under two relations of
  which the second gives way, and the discovery of the modules a run indexes.

  \<^bold>\<open>Interfaces.\<close> The contracts that a client relies on are locales: \<open>growing_store\<close> (\<open>Build_Constraint\<close>), a store
  whose operations only add to it, under which every value read earlier keeps its meaning; \<open>mirrored\<close> (\<open>Graph_Source\<close>),
  a source whose callers are the converse of its callees; \<open>bounded_map\<close> (\<open>LRU_Cache\<close>), a map that may forget but never
  answers wrongly. Each is interpreted on the model's own operations.

  \<^bold>\<open>Bounds and fuel.\<close> The walk of \<open>Build\<close> has twice the node limit as fuel, since a node is walked at most once in each
  direction (\<open>Build_terminates\<close>). The loops of \<open>Graph_Paths\<close> have the number of roots and edges. The operations of
  \<open>Build_Constraint\<close> have a fuel above the level of their operands, and never run out of it. Absorbing nodes
  (\<open>Graph_Source\<close>) has one unit for each node absorbed. The search of \<open>dependencyComponents\<close> has the number of nodes, since
  each call enters a new one, and \<open>discoverLocalDependencyGraph\<close> a bound on the roots it visits: \<open>discover_terminates\<close> shows
  that the roots given and the directories dependencies may name suffice. An owner chain is followed for 32 owners, as in
  the source.

  \<^bold>\<open>Not modelled.\<close> Text for people and terminals (\<open>pretty.go\<close>, \<open>themes.go\<close>, \<open>render\<close>), the JSON codec
  (\<open>codec_stream.go\<close>, \<open>marshal.go\<close>, \<open>node_codec.go\<close>), builders that only fill a record, generated parsers
  (\<open>query/grammar.peg.go\<close>) and front ends over third-party parsers (\<open>sql\<close>, \<open>lint\<close>, \<open>indexer/syntax\<close>), the extraction of
  Go programs over \<open>go/types\<close>, the publication and migration of database rows over GORM, and the commands. They are glue
  over libraries whose behaviour would have to be invented, or mere output.
\<close>

end
